(* ===== verification/Go_Prelude.thy ===== *)
theory Go_Prelude
  imports Main "HOL-Library.List_Lexorder" "HOL-Library.Char_ord" "HOL-Library.Sublist"
    "HOL-Library.Multiset"
begin

text \<open>
  The Go values the whole development shares: errors, outcomes of fallible code (a value, an
  error, a panic), indexing and slicing with Go's bounds checks, the functions of packages
  strings, strconv and slices that the program calls on byte strings, and the contract of
  sort.Slice. Strings are byte lists ordered bytewise, as Go compares them. The collections
  \<open>go_out\<close> and \<open>go_str\<close> gather the facts the component proofs use.
\<close>

named_theorems go_out \<open>inversion and evaluation of outcomes\<close>
named_theorems go_str \<open>facts about byte strings\<close>

section \<open>Errors and outcomes\<close>

text \<open>
  An error of fmt.Errorf or errors.New keeps its format and its operands; the errors of the
  operating system and of libraries keep the one thing the program asks of them, whether they
  are \<open>fs.ErrNotExist\<close> or \<open>exec.ErrNotFound\<close>, and their text.
\<close>

datatype fmt_arg = FStr string | FInt int | FErr err
  and err = Errorf string "fmt_arg list" | ErrNotExist string | ErrNotFound string
    | ErrOther string | ErrCheckFailed | Failure string | EvalError string

abbreviation New :: "string \<Rightarrow> err" where
  "New msg \<equiv> Errorf msg []"

text \<open>errors.Is(err, fs.ErrNotExist) looks through the errors wrapped with a %w operand.\<close>

fun isNotExist :: "err \<Rightarrow> bool" and isNotExist_arg :: "fmt_arg \<Rightarrow> bool" where
  "isNotExist (ErrNotExist p) = True"
| "isNotExist (Errorf f args) = list_ex isNotExist_arg args"
| "isNotExist (ErrNotFound p) = False"
| "isNotExist (ErrOther p) = False"
| "isNotExist ErrCheckFailed = False"
| "isNotExist (Failure p) = False"
| "isNotExist (EvalError p) = False"
| "isNotExist_arg (FErr e) = isNotExist e"
| "isNotExist_arg (FStr s) = False"
| "isNotExist_arg (FInt n) = False"

datatype 'a outcome = Ok 'a | Err err | Panic string

fun bindO :: "'a outcome \<Rightarrow> ('a \<Rightarrow> 'b outcome) \<Rightarrow> 'b outcome" where
  "bindO (Ok x) f = f x"
| "bindO (Err e) f = Err e"
| "bindO (Panic m) f = Panic m"

fun isOk :: "'a outcome \<Rightarrow> bool" where
  "isOk (Ok x) = True"
| "isOk (Err e) = False"
| "isOk (Panic m) = False"

lemma bindO_eq_Ok [go_out]: "bindO m f = Ok y \<longleftrightarrow> (\<exists>x. m = Ok x \<and> f x = Ok y)"
  by (cases m) auto

lemma bindO_eq_Err [go_out]:
  "bindO m f = Err e \<longleftrightarrow> m = Err e \<or> (\<exists>x. m = Ok x \<and> f x = Err e)"
  by (cases m) auto

lemma isOk_iff [go_out]: "isOk m \<longleftrightarrow> (\<exists>x. m = Ok x)"
  by (cases m) auto

lemma bindO_split:
  "P (bindO m f) \<longleftrightarrow>
     (\<forall>x. m = Ok x \<longrightarrow> P (f x)) \<and> (\<forall>e. m = Err e \<longrightarrow> P (Err e)) \<and> (\<forall>p. m = Panic p \<longrightarrow> P (Panic p))"
  by (cases m) auto

lemma bindO_assoc: "bindO (bindO m f) g = bindO m (\<lambda>x. bindO (f x) g)"
  by (cases m) auto

section \<open>Indexing and slicing\<close>

definition goIndex :: "'a list \<Rightarrow> int \<Rightarrow> 'a outcome" where
  "goIndex xs i =
     (if 0 \<le> i \<and> i < int (length xs) then Ok (xs ! nat i) else Panic ''index out of range'')"

definition goSlice :: "'a list \<Rightarrow> int \<Rightarrow> int \<Rightarrow> 'a list outcome" where
  "goSlice xs lo hi =
     (if 0 \<le> lo \<and> lo \<le> hi \<and> hi \<le> int (length xs)
      then Ok (take (nat (hi - lo)) (drop (nat lo) xs)) else Panic ''slice bounds out of range'')"

abbreviation goTo :: "'a list \<Rightarrow> int \<Rightarrow> 'a list outcome" where
  "goTo xs hi \<equiv> goSlice xs 0 hi"

abbreviation goFrom :: "'a list \<Rightarrow> int \<Rightarrow> 'a list outcome" where
  "goFrom xs lo \<equiv> goSlice xs lo (int (length xs))"

text \<open>slices.Replace(s, i, j, v...) panics when s[i:j] is not a slice of s.\<close>

definition slicesReplace :: "'a list \<Rightarrow> int \<Rightarrow> int \<Rightarrow> 'a list \<Rightarrow> 'a list outcome" where
  "slicesReplace xs i j vs =
     (if 0 \<le> i \<and> i \<le> j \<and> j \<le> int (length xs)
      then Ok (take (nat i) xs @ vs @ drop (nat j) xs) else Panic ''slice bounds out of range'')"

lemma goIndex_Ok [go_out]:
  "goIndex xs i = Ok x \<longleftrightarrow> 0 \<le> i \<and> i < int (length xs) \<and> x = xs ! nat i"
  by (auto simp: goIndex_def)

lemma goTo_Ok [go_out]: "goTo xs h = Ok y \<longleftrightarrow> 0 \<le> h \<and> h \<le> int (length xs) \<and> y = take (nat h) xs"
  by (auto simp: goSlice_def)

lemma goFrom_Ok [go_out]:
  "goFrom xs l = Ok y \<longleftrightarrow> 0 \<le> l \<and> l \<le> int (length xs) \<and> y = drop (nat l) xs"
  by (auto simp: goSlice_def intro!: take_all)

lemma slicesReplace_Ok [go_out]:
  "slicesReplace xs i j vs = Ok ys \<longleftrightarrow>
     0 \<le> i \<and> i \<le> j \<and> j \<le> int (length xs) \<and> ys = take (nat i) xs @ vs @ drop (nat j) xs"
  by (auto simp: slicesReplace_def)

section \<open>Package strings\<close>

definition HasPrefix :: "string \<Rightarrow> string \<Rightarrow> bool" where
  "HasPrefix s p \<longleftrightarrow> length p \<le> length s \<and> take (length p) s = p"

definition HasSuffix :: "string \<Rightarrow> string \<Rightarrow> bool" where
  "HasSuffix s p \<longleftrightarrow> length p \<le> length s \<and> drop (length s - length p) s = p"

fun Contains :: "string \<Rightarrow> string \<Rightarrow> bool" where
  "Contains [] p = (p = [])"
| "Contains (c # s) p = (HasPrefix (c # s) p \<or> Contains s p)"

definition ContainsAny :: "string \<Rightarrow> string \<Rightarrow> bool" where
  "ContainsAny s chars \<longleftrightarrow> list_ex (\<lambda>c. List.member chars c) s"

definition TrimPrefix :: "string \<Rightarrow> string \<Rightarrow> string" where
  "TrimPrefix s p = (if HasPrefix s p then drop (length p) s else s)"

definition TrimSuffix :: "string \<Rightarrow> string \<Rightarrow> string" where
  "TrimSuffix s p = (if HasSuffix s p then take (length s - length p) s else s)"

text \<open>strings.Cut at the first occurrence of a byte, and of a string.\<close>

fun CutByte :: "char \<Rightarrow> string \<Rightarrow> (string \<times> string) option" where
  "CutByte c [] = None"
| "CutByte c (x # xs) =
     (if x = c then Some ([], xs) else map_option (\<lambda>(a, b). (x # a, b)) (CutByte c xs))"

fun CutStr :: "string \<Rightarrow> string \<Rightarrow> (string \<times> string) option" where
  "CutStr sep [] = (if sep = [] then Some ([], []) else None)"
| "CutStr sep (x # xs) =
     (if HasPrefix (x # xs) sep then Some ([], drop (length sep) (x # xs))
      else map_option (\<lambda>(a, b). (x # a, b)) (CutStr sep xs))"

text \<open>strings.Split and strings.SplitAfter with a one-byte separator.\<close>

fun consHead :: "'a \<Rightarrow> 'a list list \<Rightarrow> 'a list list" where
  "consHead x [] = [[x]]"
| "consHead x (y # ys) = (x # y) # ys"

fun Split :: "string \<Rightarrow> char \<Rightarrow> string list" where
  "Split [] c = [[]]"
| "Split (x # xs) c = (if x = c then [] # Split xs c else consHead x (Split xs c))"

fun SplitAfter :: "string \<Rightarrow> char \<Rightarrow> string list" where
  "SplitAfter [] c = [[]]"
| "SplitAfter (x # xs) c = (if x = c then [x] # SplitAfter xs c else consHead x (SplitAfter xs c))"

fun Join :: "string list \<Rightarrow> string \<Rightarrow> string" where
  "Join [] sep = []"
| "Join [x] sep = x"
| "Join (x # y # ys) sep = x @ sep @ Join (y # ys) sep"

lemma HasPrefix_iff [go_str]: "HasPrefix s p \<longleftrightarrow> prefix p s"
  unfolding HasPrefix_def prefix_def
  by (metis append_eq_conv_conj append_take_drop_id le_iff_add length_append)

lemma HasPrefix_append [simp]: "HasPrefix (p @ s) p"
  by (simp add: HasPrefix_def)

lemma HasPrefixE: "HasPrefix s p \<Longrightarrow> (\<And>t. s = p @ t \<Longrightarrow> thesis) \<Longrightarrow> thesis"
  by (auto simp: go_str prefix_def)

lemma ContainsAny_iff [go_str]: "ContainsAny s cs \<longleftrightarrow> set s \<inter> set cs \<noteq> {}"
  by (auto simp: ContainsAny_def list_ex_iff)

lemma CutByte_Some: "CutByte c s = Some (a, b) \<longleftrightarrow> s = a @ c # b \<and> c \<notin> set a"
proof (induction s arbitrary: a)
  case Nil
  then show ?case by simp
next
  case (Cons x s)
  show ?case
  proof (cases "x = c")
    case True
    then show ?thesis by (cases a) auto
  next
    case False
    then have "CutByte c (x # s) = Some (a, b) \<longleftrightarrow> (\<exists>a'. a = x # a' \<and> CutByte c s = Some (a', b))"
      by auto
    then show ?thesis using Cons.IH False by (cases a) auto
  qed
qed

lemma CutByte_None: "CutByte c s = None \<longleftrightarrow> c \<notin> set s"
  by (induction s) auto

lemma CutByte_append [simp]: "c \<notin> set a \<Longrightarrow> CutByte c (a @ c # b) = Some (a, b)"
  by (simp add: CutByte_Some)

lemma CutByte_length: "CutByte c s = Some (a, b) \<Longrightarrow> length b < length s"
  by (auto simp: CutByte_Some)

lemma consHead_ne [simp]: "consHead x xs \<noteq> []"
  by (cases xs) auto

lemma Split_ne [simp]: "Split s c \<noteq> []"
  by (cases s) auto

lemma SplitAfter_ne [simp]: "SplitAfter s c \<noteq> []"
  by (cases s) auto

lemma concat_consHead [simp]: "concat (consHead x xs) = x # concat xs"
  by (cases xs) auto

lemma concat_SplitAfter [simp]: "concat (SplitAfter s c) = s"
  by (induction s) auto

lemma length_consHead: "xs \<noteq> [] \<Longrightarrow> length (consHead x xs) = length xs"
  by (cases xs) auto

lemma length_SplitAfter: "length (SplitAfter s c) = Suc (count_list s c)"
  by (induction s) (auto simp: length_consHead)

lemma length_Split: "length (Split s c) = Suc (count_list s c)"
  by (induction s) (auto simp: length_consHead)

lemma Join_Cons: "xs \<noteq> [] \<Longrightarrow> Join (x # xs) sep = x @ sep @ Join xs sep"
  by (cases xs) auto

lemma Join_snoc: "xs \<noteq> [] \<Longrightarrow> Join (xs @ [x]) sep = Join xs sep @ sep @ x"
proof (induction xs)
  case Nil
  then show ?case by simp
next
  case (Cons a xs)
  then show ?case by (cases xs) (auto simp: Join_Cons)
qed

lemma Join_append:
  "xs \<noteq> [] \<Longrightarrow> ys \<noteq> [] \<Longrightarrow> Join (xs @ ys) sep = Join xs sep @ sep @ Join ys sep"
proof (induction xs)
  case Nil
  then show ?case by simp
next
  case (Cons a xs)
  then show ?case by (cases xs) (auto simp: Join_Cons)
qed

lemma Join_consHead: "xs \<noteq> [] \<Longrightarrow> Join (consHead x xs) sep = x # Join xs sep"
proof (induction xs)
  case Nil
  then show ?case by simp
next
  case (Cons a xs)
  then show ?case by (cases xs) auto
qed

lemma Join_Split [simp]: "Join (Split s c) [c] = s"
  by (induction s) (auto simp: Join_Cons Join_consHead)

lemma consHead_set: "y \<in> set (consHead x xs) \<Longrightarrow> xs \<noteq> [] \<Longrightarrow> y = x # hd xs \<or> y \<in> set (tl xs)"
  by (cases xs) auto

lemma Split_free: "y \<in> set (Split s c) \<Longrightarrow> c \<notin> set y"
proof (induction s arbitrary: y)
  case Nil
  then show ?case by simp
next
  case (Cons x s)
  show ?case
  proof (cases "x = c")
    case True
    then show ?thesis using Cons by auto
  next
    case False
    then have "y = x # hd (Split s c) \<or> y \<in> set (tl (Split s c))"
      using Cons.prems consHead_set by fastforce
    then show ?thesis
      using Cons.IH False by (metis Split_ne hd_in_set list.set_sel(2) set_ConsD)
  qed
qed

lemma Split_append: "c \<notin> set a \<Longrightarrow> Split (a @ c # b) c = a # Split b c"
  by (induction a) auto

lemma Split_id: "c \<notin> set a \<Longrightarrow> Split a c = [a]"
  by (induction a) auto

lemma Split_Join:
  assumes "xs \<noteq> []" and "\<And>x. x \<in> set xs \<Longrightarrow> c \<notin> set x"
  shows "Split (Join xs [c]) c = xs"
  using assms
proof (induction xs)
  case Nil
  then show ?case by simp
next
  case (Cons x xs)
  then show ?case by (cases xs) (auto simp: Split_id Split_append)
qed

section \<open>Package strconv\<close>

definition digit :: "nat \<Rightarrow> char" where
  "digit d = char_of (48 + d)"

fun natDigits :: "nat \<Rightarrow> string" where
  "natDigits n = (if n < 10 then [digit n] else natDigits (n div 10) @ [digit (n mod 10)])"

declare natDigits.simps [simp del]

definition Itoa :: "int \<Rightarrow> string" where
  "Itoa n = (if n < 0 then CHR ''-'' # natDigits (nat (- n)) else natDigits (nat n))"

definition isDigit :: "char \<Rightarrow> bool" where
  "isDigit c \<longleftrightarrow> 48 \<le> (of_char c :: nat) \<and> (of_char c :: nat) \<le> 57"

definition digitVal :: "char \<Rightarrow> nat" where
  "digitVal c = of_char c - 48"

definition digitsVal :: "string \<Rightarrow> nat" where
  "digitsVal s = foldl (\<lambda>n c. 10 * n + digitVal c) 0 s"

abbreviation maxInt :: int where "maxInt \<equiv> 9223372036854775807"

text \<open>strconv.Atoi on a 64-bit machine: an optional sign, decimal digits, within int.\<close>

definition Atoi :: "string \<Rightarrow> int option" where
  "Atoi s =
     (let neg = (s \<noteq> [] \<and> hd s = CHR ''-'');
          body = (if s \<noteq> [] \<and> (hd s = CHR ''-'' \<or> hd s = CHR ''+'') then tl s else s);
          v = (if neg then - int (digitsVal body) else int (digitsVal body))
      in if body = [] \<or> \<not> list_all isDigit body \<or> v < - maxInt - 1 \<or> maxInt < v then None else Some v)"

lemma of_char_digit: "d < 10 \<Longrightarrow> (of_char (digit d) :: nat) = 48 + d"
  by (simp add: digit_def of_char_of)

lemma isDigit_digit [simp]: "d < 10 \<Longrightarrow> isDigit (digit d)"
  by (simp add: isDigit_def of_char_digit)

lemma digitVal_digit [simp]: "d < 10 \<Longrightarrow> digitVal (digit d) = d"
  by (simp add: digitVal_def of_char_digit)

lemma natDigits_ne [simp]: "natDigits n \<noteq> []"
  by (subst natDigits.simps) simp

lemma list_all_natDigits [simp]: "list_all isDigit (natDigits n)"
proof (induction n rule: natDigits.induct)
  case (1 n)
  then show ?case by (subst natDigits.simps) auto
qed

lemma digitsVal_natDigits [simp]: "digitsVal (natDigits n) = n"
proof (induction n rule: natDigits.induct)
  case (1 n)
  then show ?case by (subst natDigits.simps) (auto simp: digitsVal_def)
qed

lemma hd_natDigits_sign: "hd (natDigits n) \<noteq> CHR ''-'' \<and> hd (natDigits n) \<noteq> CHR ''+''"
proof -
  have "isDigit (hd (natDigits n))"
    using list_all_natDigits[of n] natDigits_ne[of n] by (cases "natDigits n") auto
  then show ?thesis by (auto simp: isDigit_def)
qed

lemma Atoi_Itoa: "- maxInt - 1 \<le> n \<Longrightarrow> n \<le> maxInt \<Longrightarrow> Atoi (Itoa n) = Some n"
  using hd_natDigits_sign[of "nat n"] by (auto simp: Atoi_def Itoa_def Let_def)

lemma natDigits_isDigit: "c \<in> set (natDigits n) \<Longrightarrow> isDigit c"
  using list_all_natDigits[of n] by (auto simp: list_all_iff)

section \<open>White space\<close>

text \<open>
  The UTF-8 encodings of the characters unicode.IsSpace accepts. Scanning a byte string for them
  is what strings.TrimSpace and strings.Fields do after decoding, since no valid encoding starts
  inside another.
\<close>

definition spaceSeqs :: "string list" where
  "spaceSeqs =
     [[CHR 0x20], [CHR 0x09], [CHR 0x0A], [CHR 0x0B], [CHR 0x0C], [CHR 0x0D],
      [CHR 0xC2, CHR 0x85], [CHR 0xC2, CHR 0xA0], [CHR 0xE1, CHR 0x9A, CHR 0x80],
      [CHR 0xE2, CHR 0x80, CHR 0x80], [CHR 0xE2, CHR 0x80, CHR 0x81], [CHR 0xE2, CHR 0x80, CHR 0x82],
      [CHR 0xE2, CHR 0x80, CHR 0x83], [CHR 0xE2, CHR 0x80, CHR 0x84], [CHR 0xE2, CHR 0x80, CHR 0x85],
      [CHR 0xE2, CHR 0x80, CHR 0x86], [CHR 0xE2, CHR 0x80, CHR 0x87], [CHR 0xE2, CHR 0x80, CHR 0x88],
      [CHR 0xE2, CHR 0x80, CHR 0x89], [CHR 0xE2, CHR 0x80, CHR 0x8A], [CHR 0xE2, CHR 0x80, CHR 0xA8],
      [CHR 0xE2, CHR 0x80, CHR 0xA9], [CHR 0xE2, CHR 0x80, CHR 0xAF], [CHR 0xE2, CHR 0x81, CHR 0x9F],
      [CHR 0xE3, CHR 0x80, CHR 0x80]]"

text \<open>The length of the first of the given sequences that the string starts with, 0 if none.\<close>

definition spaceAt :: "string list \<Rightarrow> string \<Rightarrow> nat" where
  "spaceAt seqs s = (case find (HasPrefix s) seqs of None \<Rightarrow> 0 | Some q \<Rightarrow> length q)"

lemma spaceAt_le: "spaceAt seqs s \<le> length s"
  by (auto simp: spaceAt_def find_Some_iff HasPrefix_def split: option.splits)

function trimLeft :: "string list \<Rightarrow> string \<Rightarrow> string" where
  "trimLeft seqs s = (if spaceAt seqs s = 0 then s else trimLeft seqs (drop (spaceAt seqs s) s))"
  by pat_completeness auto
termination
proof (relation "measure (\<lambda>(seqs, s). length s)")
  fix seqs s assume "spaceAt seqs s \<noteq> 0"
  then show "((seqs, drop (spaceAt seqs s) s), seqs, s) \<in> measure (\<lambda>(seqs, s). length s)"
    using spaceAt_le[of seqs s] by simp
qed simp

declare trimLeft.simps [simp del]

definition TrimSpace :: "string \<Rightarrow> string" where
  "TrimSpace s = rev (trimLeft (map rev spaceSeqs) (rev (trimLeft spaceSeqs s)))"

function fieldsFrom :: "string \<Rightarrow> string \<Rightarrow> string list" where
  "fieldsFrom cur s =
     (if s = [] then (if cur = [] then [] else [rev cur])
      else if spaceAt spaceSeqs s = 0 then fieldsFrom (hd s # cur) (tl s)
      else (if cur = [] then [] else [rev cur]) @ fieldsFrom [] (drop (spaceAt spaceSeqs s) s))"
  by pat_completeness auto
termination
proof (relation "measure (\<lambda>(cur, s). length s)")
  fix cur s :: string assume "s \<noteq> []" and "spaceAt spaceSeqs s \<noteq> 0"
  then show "(([], drop (spaceAt spaceSeqs s) s), cur, s) \<in> measure (\<lambda>(cur, s). length s)"
    using spaceAt_le[of spaceSeqs s] by simp
qed auto

declare fieldsFrom.simps [simp del]

definition Fields :: "string \<Rightarrow> string list" where
  "Fields s = fieldsFrom [] s"

text \<open>ASCII characters that are not white space start no space sequence.\<close>

definition solid :: "char \<Rightarrow> bool" where
  "solid c \<longleftrightarrow> 32 < (of_char c :: nat) \<and> (of_char c :: nat) < 128"

lemma spaceSeqs_not_solid:
  "list_all (\<lambda>q. q \<noteq> [] \<and> \<not> solid (hd q) \<and> \<not> solid (last q)) spaceSeqs"
  by (simp add: spaceSeqs_def solid_def)

lemma spaceAt_no_prefix:
  assumes "\<And>q. q \<in> set seqs \<Longrightarrow> q \<noteq> [] \<and> hd q \<noteq> c"
  shows "spaceAt seqs (c # s) = 0"
proof -
  have "\<not> HasPrefix (c # s) q" if "q \<in> set seqs" for q
    using assms[OF that] by (cases q) (auto simp: HasPrefix_def)
  then have "find (HasPrefix (c # s)) seqs = None" by (simp add: find_None_iff)
  then show ?thesis by (simp add: spaceAt_def)
qed

lemma spaceAt_solid: "solid c \<Longrightarrow> spaceAt spaceSeqs (c # s) = 0"
  using spaceSeqs_not_solid by (intro spaceAt_no_prefix) (auto simp: list_all_iff)

lemma spaceAt_rev_solid: "solid c \<Longrightarrow> spaceAt (map rev spaceSeqs) (c # s) = 0"
  using spaceSeqs_not_solid by (intro spaceAt_no_prefix) (auto simp: list_all_iff hd_rev)

lemma trimLeft_solid [simp]: "solid c \<Longrightarrow> trimLeft spaceSeqs (c # s) = c # s"
  by (subst trimLeft.simps) (simp add: spaceAt_solid)

lemma trimLeft_rev_solid [simp]:
  "solid c \<Longrightarrow> trimLeft (map rev spaceSeqs) (c # s) = c # s"
  by (subst trimLeft.simps) (simp add: spaceAt_rev_solid)

lemma trimLeft_Nil [simp]: "trimLeft seqs [] = []"
  by (subst trimLeft.simps) (use spaceAt_le[of seqs "[]"] in simp)

lemma TrimSpace_solid:
  "s \<noteq> [] \<Longrightarrow> solid (hd s) \<Longrightarrow> solid (last s) \<Longrightarrow> TrimSpace s = s"
proof -
  assume ne: "s \<noteq> []" and h: "solid (hd s)" and l: "solid (last s)"
  have "trimLeft spaceSeqs s = s" using ne h by (cases s) auto
  moreover have "trimLeft (map rev spaceSeqs) (rev s) = rev s"
    using ne l by (cases s rule: rev_cases) auto
  ultimately show ?thesis by (simp add: TrimSpace_def)
qed

text \<open>Output that ends with a NUL byte is not trimmed at its end.\<close>

lemma spaceSeqs_last_not_NUL: "list_all (\<lambda>q. last q \<noteq> CHR 0x00) spaceSeqs"
  by (simp add: spaceSeqs_def)

lemma trimLeft_rev_NUL [simp]: "trimLeft (map rev spaceSeqs) (CHR 0x00 # s) = CHR 0x00 # s"
proof -
  have "spaceAt (map rev spaceSeqs) (CHR 0x00 # s) = 0"
    using spaceSeqs_last_not_NUL spaceSeqs_not_solid
    by (intro spaceAt_no_prefix) (auto simp: list_all_iff hd_rev)
  then show ?thesis by (subst trimLeft.simps) simp
qed

lemma TrimSpace_NUL:
  "s \<noteq> [] \<Longrightarrow> solid (hd s) \<Longrightarrow> last s = CHR 0x00 \<Longrightarrow> TrimSpace s = s"
proof -
  assume ne: "s \<noteq> []" and h: "solid (hd s)" and l: "last s = CHR 0x00"
  have "trimLeft spaceSeqs s = s" using ne h by (cases s) auto
  moreover have "trimLeft (map rev spaceSeqs) (rev s) = rev s"
    using ne l by (cases s rule: rev_cases) auto
  ultimately show ?thesis by (simp add: TrimSpace_def)
qed

lemma TrimSpace_Nil [simp]: "TrimSpace [] = []"
  by (simp add: TrimSpace_def)

lemma fieldsFrom_solid:
  "list_all solid tok \<Longrightarrow> fieldsFrom cur (tok @ s) = fieldsFrom (rev tok @ cur) s"
proof (induction tok arbitrary: cur)
  case Nil
  then show ?case by simp
next
  case (Cons c tok)
  have "fieldsFrom cur ((c # tok) @ s) = fieldsFrom (c # cur) (tok @ s)"
    using Cons.prems by (subst fieldsFrom.simps) (simp add: spaceAt_solid)
  then show ?case using Cons by simp
qed

lemma spaceAt_blank: "spaceAt spaceSeqs (CHR '' '' # s) = 1"
proof -
  obtain rest where r: "spaceSeqs = '' '' # rest" by (simp add: spaceSeqs_def)
  show ?thesis unfolding spaceAt_def r by (simp add: HasPrefix_def)
qed

lemma Fields_Join:
  assumes "\<And>t. t \<in> set toks \<Longrightarrow> t \<noteq> [] \<and> list_all solid t"
  shows "Fields (Join toks '' '') = toks"
  using assms
proof (induction toks)
  case Nil
  then show ?case by (simp add: Fields_def fieldsFrom.simps)
next
  case (Cons t ts)
  have t: "t \<noteq> []" "list_all solid t" using Cons.prems by auto
  show ?case
  proof (cases ts)
    case Nil
    then show ?thesis using t fieldsFrom_solid[OF t(2), of "[]" "[]"]
      by (simp add: Fields_def fieldsFrom.simps)
  next
    case (Cons u us)
    have "Fields (Join (t # ts) '' '') = fieldsFrom (rev t) (CHR '' '' # Join ts '' '')"
      using Cons fieldsFrom_solid[OF t(2), of "[]" "CHR '' '' # Join ts '' ''"]
      by (simp add: Fields_def)
    also have "\<dots> = t # Fields (Join ts '' '')"
      using t(1) by (subst fieldsFrom.simps) (simp add: spaceAt_blank Fields_def)
    finally show ?thesis using Cons.IH Cons.prems by simp
  qed
qed

section \<open>The text of an error\<close>

text \<open>
  The texts of errors are only looked into where they hold the verbs %s, %w and %d; other verbs
  are filled the same way.
\<close>

fun fillFmt :: "string \<Rightarrow> string list \<Rightarrow> string" where
  "fillFmt [] as = []"
| "fillFmt (c # f) [] = c # fillFmt f []"
| "fillFmt [c] (a # as) = [c]"
| "fillFmt (c # v # f) (a # as) = (if c = CHR ''%'' then a @ fillFmt f as else c # fillFmt (v # f) (a # as))"

fun errText :: "err \<Rightarrow> string" and argText :: "fmt_arg \<Rightarrow> string" where
  "errText (Errorf f args) = fillFmt f (map argText args)"
| "errText (ErrNotExist p) = p"
| "errText (ErrNotFound p) = p"
| "errText (ErrOther p) = p"
| "errText ErrCheckFailed = ''a check failed''"
| "errText (Failure p) = ''fail: '' @ p"
| "errText (EvalError p) = p"
| "argText (FStr s) = s"
| "argText (FInt n) = Itoa n"
| "argText (FErr e) = errText e"

section \<open>The contract of sort.Slice\<close>

lemma filter_eq_replicate: "filter (\<lambda>x. x = k) xs = replicate (count (mset xs) k) k"
  by (induction xs) auto

text \<open>
  sort.Slice is not stable: where two elements have equal keys their order is whatever the
  library's quicksort leaves. What the program relies on is the contract: the result is a
  permutation of the input that is sorted by the key. Code that sorts takes the sorting
  function as an argument; the theorems hold for every function that keeps the contract.
\<close>

locale sort_slice =
  fixes key :: "'a \<Rightarrow> 'k::linorder" and sortF :: "'a list \<Rightarrow> 'a list"
  assumes perm: "mset (sortF xs) = mset xs"
    and ordered: "sorted (map key (sortF xs))"
begin

lemma set_sort: "set (sortF xs) = set xs"
  by (metis perm set_mset_mset)

lemma length_sort: "length (sortF xs) = length xs"
  by (metis perm size_mset)

lemma distinct_sort: "distinct (sortF xs) \<longleftrightarrow> distinct xs"
  by (metis perm mset_eq_imp_distinct_iff)

lemma sort_nil [simp]: "sortF [] = []"
  using length_sort[of "[]"] by simp

lemma sort_eq_sort_key:
  assumes "inj_on key (set xs)"
  shows "sortF xs = sort_key key xs"
proof (rule properties_for_sort_key[symmetric])
  show "mset (sortF xs) = mset xs" by (rule perm)
  show "\<And>k. k \<in> set (sortF xs) \<Longrightarrow> filter (\<lambda>x. key k = key x) (sortF xs) = filter (\<lambda>x. key k = key x) xs"
  proof -
    fix k assume k: "k \<in> set (sortF xs)"
    have eq: "\<And>x. x \<in> set xs \<Longrightarrow> (key k = key x) = (x = k)"
      using assms k set_sort by (metis inj_on_eq_iff)
    then have "filter (\<lambda>x. key k = key x) xs = filter (\<lambda>x. x = k) xs"
      by (auto intro: filter_cong)
    moreover have "filter (\<lambda>x. key k = key x) (sortF xs) = filter (\<lambda>x. x = k) (sortF xs)"
      using eq set_sort by (auto intro: filter_cong)
    ultimately show "filter (\<lambda>x. key k = key x) (sortF xs) = filter (\<lambda>x. key k = key x) xs"
      using perm by (simp add: filter_eq_replicate)
  qed
  show "sorted (map key (sortF xs))" by (rule ordered)
qed

end

text \<open>The stable insertion sort the library runs on short slices keeps the contract.\<close>

interpretation stable_sort: sort_slice key "sort_key key" for key :: "'a \<Rightarrow> 'k::linorder"
  by unfold_locales auto

section \<open>sort.Find\<close>

text \<open>
  The binary search of sort.Find(n, cmp): the smallest index whose comparison is not positive, and
  whether it is zero there. strings.Compare gives the sign.
\<close>

function findLoop :: "(nat \<Rightarrow> int) \<Rightarrow> nat \<Rightarrow> nat \<Rightarrow> nat" where
  "findLoop cmp i j =
     (if i < j then
        let h = (i + j) div 2
        in if cmp h > 0 then findLoop cmp (h + 1) j else findLoop cmp i h
      else i)"
  by pat_completeness auto
termination by (relation "measure (\<lambda>(cmp, i, j). j - i)") auto

declare findLoop.simps [simp del]

definition sortFind :: "nat \<Rightarrow> (nat \<Rightarrow> int) \<Rightarrow> nat \<times> bool" where
  "sortFind n cmp = (let i = findLoop cmp 0 n in (i, i < n \<and> cmp i = 0))"

definition stringsCompare :: "string \<Rightarrow> string \<Rightarrow> int" where
  "stringsCompare a b = (if a = b then 0 else if a < b then -1 else 1)"

lemma findLoop_spec:
  assumes "i \<le> j" and "\<And>a b. a \<le> b \<Longrightarrow> b < j \<Longrightarrow> cmp a \<le> 0 \<Longrightarrow> cmp b \<le> 0"
    and "\<forall>k < i. cmp k > 0"
  shows "i \<le> findLoop cmp i j \<and> findLoop cmp i j \<le> j \<and> (\<forall>k < findLoop cmp i j. cmp k > 0) \<and>
    (findLoop cmp i j < j \<longrightarrow> cmp (findLoop cmp i j) \<le> 0)"
  using assms
proof (induction cmp i j rule: findLoop.induct)
  case (1 cmp i j)
  show ?case
  proof (cases "i < j")
    case False
    then show ?thesis using "1.prems" by (subst (1 2 3 4 5) findLoop.simps) simp
  next
    case True
    define h where "h = (i + j) div 2"
    have h: "i \<le> h" "h < j" using True by (auto simp: h_def)
    show ?thesis
    proof (cases "cmp h > 0")
      case up: True
      have eq: "findLoop cmp i j = findLoop cmp (h + 1) j"
        using True up by (subst findLoop.simps) (simp add: h_def)
      have "\<forall>k < h + 1. cmp k > 0"
      proof (intro allI impI)
        fix k assume k: "k < h + 1"
        show "cmp k > 0"
        proof (rule ccontr)
          assume "\<not> cmp k > 0"
          then have "cmp h \<le> 0" using "1.prems"(2)[of k h] k h by simp
          then show False using up by simp
        qed
      qed
      then show ?thesis
        unfolding eq using "1.IH"(1)[OF True h_def up] "1.prems"(2) h by fastforce
    next
      case dn: False
      have eq: "findLoop cmp i j = findLoop cmp i h"
        using True dn by (subst findLoop.simps) (simp add: h_def)
      have "findLoop cmp i h = h \<or> findLoop cmp i h < h \<or> h < findLoop cmp i h" by arith
      then show ?thesis
        unfolding eq using "1.IH"(2)[OF True h_def dn] "1.prems"(2,3) h dn by fastforce
    qed
  qed
qed

lemma sortFind_sorted:
  assumes "sorted xs"
  shows "snd (sortFind (length xs) (\<lambda>i. stringsCompare t (xs ! i))) \<longleftrightarrow> t \<in> set xs"
proof -
  let ?cmp = "\<lambda>i. stringsCompare t (xs ! i)"
  let ?r = "findLoop ?cmp 0 (length xs)"
  have pos: "?cmp k > 0 \<longleftrightarrow> xs ! k < t" for k by (auto simp: stringsCompare_def)
  have nonpos: "?cmp k \<le> 0 \<longleftrightarrow> t \<le> xs ! k" for k by (auto simp: stringsCompare_def)
  have spec: "?r \<le> length xs \<and> (\<forall>k < ?r. xs ! k < t) \<and> (?r < length xs \<longrightarrow> t \<le> xs ! ?r)"
  proof -
    have mono: "?cmp b \<le> 0" if "a \<le> b" "b < length xs" "?cmp a \<le> 0" for a b
      using that sorted_nth_mono[OF assms, of a b] unfolding nonpos by (meson order_trans)
    have "0 \<le> ?r \<and> ?r \<le> length xs \<and> (\<forall>k < ?r. ?cmp k > 0) \<and> (?r < length xs \<longrightarrow> ?cmp ?r \<le> 0)"
      by (rule findLoop_spec) (use mono in auto)
    then show ?thesis unfolding pos nonpos by blast
  qed
  have zero: "?cmp k = 0 \<longleftrightarrow> t = xs ! k" for k by (auto simp: stringsCompare_def)
  have "t \<in> set xs \<Longrightarrow> ?r < length xs \<and> t = xs ! ?r"
  proof -
    assume "t \<in> set xs"
    then obtain k where k: "k < length xs" "xs ! k = t" by (auto simp: in_set_conv_nth)
    then have "?r \<le> k" using spec by (meson less_irrefl not_le)
    then have "?r < length xs" "xs ! ?r \<le> t" using k assms by (auto simp: sorted_nth_mono)
    then show ?thesis using spec by auto
  qed
  moreover have "?r < length xs \<Longrightarrow> xs ! ?r \<in> set xs" by simp
  ultimately show ?thesis unfolding sortFind_def Let_def snd_conv zero by metis
qed

end
