(* ===== verification/Go_Path.thy ===== *)
theory Go_Path
  imports Go_Prelude
begin

text \<open>
  Package path, which package path/filepath coincides with on POSIX systems: Clean, Join, Dir,
  Base and IsAbs. Clean keeps a stack of the path's elements: an empty element and "." are
  dropped, ".." removes the element before it, and at the start of a relative path ".." stays.
  The lemmas say what a cleaned path looks like: its elements are never empty or ".", and ".."
  only occurs as a leading run in a relative path.
\<close>

definition IsAbs :: "string \<Rightarrow> bool" where
  "IsAbs p \<longleftrightarrow> p \<noteq> [] \<and> hd p = CHR ''/''"

definition cleanStep :: "bool \<Rightarrow> string list \<Rightarrow> string \<Rightarrow> string list" where
  "cleanStep rooted st e =
     (if e = [] \<or> e = ''.'' then st
      else if e = ''..'' then
        (case st of [] \<Rightarrow> (if rooted then [] else [''..''])
         | t # ts \<Rightarrow> (if t = ''..'' then ''..'' # st else ts))
      else e # st)"

definition cleanElems :: "bool \<Rightarrow> string list \<Rightarrow> string list" where
  "cleanElems rooted es = rev (foldl (cleanStep rooted) [] es)"

definition Clean :: "string \<Rightarrow> string" where
  "Clean p =
     (if p = [] then ''.''
      else let rooted = IsAbs p; out = Join (cleanElems rooted (Split p CHR ''/'')) ''/''
           in if rooted then ''/'' @ out else if out = [] then ''.'' else out)"

text \<open>path.Join ignores leading empty elements and is empty when all are.\<close>

definition PathJoin :: "string list \<Rightarrow> string" where
  "PathJoin es =
     (let rest = dropWhile (\<lambda>e. e = []) es in if rest = [] then [] else Clean (Join rest ''/''))"

definition dirPart :: "string \<Rightarrow> string" where
  "dirPart p = rev (dropWhile (\<lambda>c. c \<noteq> CHR ''/'') (rev p))"

definition Dir :: "string \<Rightarrow> string" where
  "Dir p = Clean (dirPart p)"

definition Base :: "string \<Rightarrow> string" where
  "Base p =
     (if p = [] then ''.''
      else let q = rev (dropWhile (\<lambda>c. c = CHR ''/'') (rev p));
               b = rev (takeWhile (\<lambda>c. c \<noteq> CHR ''/'') (rev q))
           in if b = [] then ''/'' else b)"

section \<open>The elements of a cleaned path\<close>

definition plainElem :: "string \<Rightarrow> bool" where
  "plainElem e \<longleftrightarrow> e \<noteq> [] \<and> e \<noteq> ''.'' \<and> e \<noteq> ''..'' \<and> CHR ''/'' \<notin> set e"

text \<open>A cleaned element list: a run of ".." (none when rooted), then plain elements.\<close>

definition cleanForm :: "bool \<Rightarrow> string list \<Rightarrow> bool" where
  "cleanForm rooted es \<longleftrightarrow>
     (\<exists>n ps. es = replicate n ''..'' @ ps \<and> list_all plainElem ps \<and> (rooted \<longrightarrow> n = 0))"

lemma cleanForm_snoc_plain:
  assumes "cleanForm r es" and "plainElem e"
  shows "cleanForm r (es @ [e])"
proof -
  from assms(1) obtain n ps where "es = replicate n ''..'' @ ps" "list_all plainElem ps" "r \<longrightarrow> n = 0"
    by (auto simp: cleanForm_def)
  with assms(2) have "es @ [e] = replicate n ''..'' @ (ps @ [e])" "list_all plainElem (ps @ [e])"
    by simp_all
  with \<open>r \<longrightarrow> n = 0\<close> show ?thesis unfolding cleanForm_def by blast
qed

lemma cleanForm_dots: "cleanForm False (replicate n ''..'')"
  unfolding cleanForm_def by (rule exI[of _ n], rule exI[of _ "[]"]) simp

lemma cleanForm_butlast:
  assumes "cleanForm r (es @ [e])" and "e \<noteq> ''..''"
  shows "cleanForm r es"
proof -
  from assms(1) obtain n ps where ps: "es @ [e] = replicate n ''..'' @ ps"
    "list_all plainElem ps" "r \<longrightarrow> n = 0"
    by (auto simp: cleanForm_def)
  show ?thesis
  proof (cases ps rule: rev_cases)
    case Nil
    then have "e \<in> set (replicate n ''..'')" using ps(1) by (metis append_Nil2 in_set_conv_decomp)
    then show ?thesis using assms(2) by simp
  next
    case (snoc qs q)
    then have "es = replicate n ''..'' @ qs" using ps(1) by simp
    then show ?thesis using ps snoc by (auto simp: cleanForm_def)
  qed
qed

lemma cleanForm_last_dots:
  assumes "cleanForm r (es @ [''..''])"
  shows "\<not> r \<and> (\<exists>n. es = replicate n ''..'')"
proof -
  from assms obtain n ps where ps: "es @ [''..''] = replicate n ''..'' @ ps"
    "list_all plainElem ps" "r \<longrightarrow> n = 0"
    by (auto simp: cleanForm_def)
  show ?thesis
  proof (cases ps rule: rev_cases)
    case Nil
    then have e: "es @ [''..''] = replicate n ''..''" using ps(1) by simp
    then obtain m where n: "n = Suc m" by (cases n) auto
    then have "replicate n ''..'' = replicate m ''..'' @ [''..'']"
      by (simp add: replicate_append_same)
    then show ?thesis using e n ps(3) by auto
  next
    case (snoc qs q)
    then have "q = ''..''" using ps(1) by simp
    then show ?thesis using ps(2) snoc by (simp add: plainElem_def)
  qed
qed

lemma cleanStep_form:
  assumes "cleanForm r (rev st)" and "CHR ''/'' \<notin> set e"
  shows "cleanForm r (rev (cleanStep r st e))"
proof (cases "e = [] \<or> e = ''.''")
  case True
  then show ?thesis using assms by (auto simp: cleanStep_def)
next
  case ne: False
  show ?thesis
  proof (cases "e = ''..''")
    case False
    then have "plainElem e" using ne assms(2) by (simp add: plainElem_def)
    then show ?thesis using ne False cleanForm_snoc_plain[OF assms(1)] by (auto simp: cleanStep_def)
  next
    case dots: True
    show ?thesis
    proof (cases st)
      case Nil
      then show ?thesis using dots cleanForm_dots[of 1] by (auto simp: cleanForm_def cleanStep_def)
    next
      case (Cons t ts)
      show ?thesis
      proof (cases "t = ''..''")
        case True
        then have "\<not> r \<and> (\<exists>n. rev ts = replicate n ''..'')"
          using cleanForm_last_dots[of r "rev ts"] assms(1) Cons by simp
        then obtain n where r: "\<not> r" and n: "rev ts = replicate n ''..''" by blast
        then have "rev (cleanStep r st e) = replicate (Suc (Suc n)) ''..''"
          using dots Cons True by (simp add: cleanStep_def replicate_append_same)
        then show ?thesis using r cleanForm_dots[of "Suc (Suc n)"] by metis
      next
        case False
        then show ?thesis using dots Cons assms(1) cleanForm_butlast[of r "rev ts" t] by (simp add: cleanStep_def)
      qed
    qed
  qed
qed

lemma cleanElems_form: "(\<And>e. e \<in> set es \<Longrightarrow> CHR ''/'' \<notin> set e) \<Longrightarrow> cleanForm r (cleanElems r es)"
  unfolding cleanElems_def
proof (induction es rule: rev_induct)
  case Nil
  then show ?case by (simp add: cleanForm_def)
next
  case (snoc e es)
  then show ?case using cleanStep_form[of r "foldl (cleanStep r) [] es" e] by simp
qed

text \<open>Cleaning the elements of a clean list changes nothing.\<close>

lemma foldl_cleanStep_plain:
  "list_all plainElem ps \<Longrightarrow> foldl (cleanStep r) st ps = rev ps @ st"
  by (induction ps arbitrary: st) (auto simp: plainElem_def cleanStep_def)

lemma foldl_cleanStep_dots:
  "foldl (cleanStep False) (replicate m ''..'') (replicate n ''..'') = replicate (m + n) ''..''"
proof (induction n arbitrary: m)
  case 0
  then show ?case by simp
next
  case (Suc n)
  have "cleanStep False (replicate m ''..'') ''..'' = replicate (Suc m) ''..''"
    by (cases m) (auto simp: cleanStep_def)
  then show ?case using Suc[of "Suc m"] by simp
qed

lemma cleanElems_id: "cleanForm r es \<Longrightarrow> cleanElems r es = es"
proof -
  assume "cleanForm r es"
  then obtain n ps where ps: "es = replicate n ''..'' @ ps" "list_all plainElem ps" "r \<longrightarrow> n = 0"
    by (auto simp: cleanForm_def)
  have "foldl (cleanStep r) [] (replicate n ''..'') = replicate n ''..''"
    using ps(3) foldl_cleanStep_dots[of 0 n] by (cases r) auto
  then show ?thesis using ps by (simp add: cleanElems_def foldl_cleanStep_plain)
qed

lemma cleanForm_elem:
  assumes "cleanForm r es" and "e \<in> set es"
  shows "e \<noteq> [] \<and> e \<noteq> ''.'' \<and> CHR ''/'' \<notin> set e"
proof -
  from assms(1) obtain n ps where ps: "es = replicate n ''..'' @ ps" "list_all plainElem ps"
    by (auto simp: cleanForm_def)
  show ?thesis
  proof (cases "e \<in> set ps")
    case True
    then show ?thesis using ps(2) by (auto simp: list_all_iff plainElem_def)
  next
    case False
    then have "e = ''..''" using assms(2) ps(1) by (auto split: if_splits)
    then show ?thesis by simp
  qed
qed

lemma Split_slash_free: "e \<in> set (Split p CHR ''/'') \<Longrightarrow> CHR ''/'' \<notin> set e"
  by (rule Split_free)

lemma clean_form_Split: "cleanForm r (cleanElems r (Split p CHR ''/''))"
  by (rule cleanElems_form) (rule Split_slash_free)

section \<open>Joining and climbing plain paths\<close>

lemma plainElem_hd: "plainElem e \<Longrightarrow> e \<noteq> [] \<and> hd e \<noteq> CHR ''/''"
  by (cases e) (auto simp: plainElem_def)

lemma plain_slash_free: "list_all plainElem es \<Longrightarrow> x \<in> set es \<Longrightarrow> CHR ''/'' \<notin> set x"
  by (simp add: list_all_iff plainElem_def)

lemma Join_plain:
  assumes "list_all plainElem es" and "es \<noteq> []"
  shows "Join es ''/'' \<noteq> []" and "\<not> IsAbs (Join es ''/'')"
    and "Split (Join es ''/'') CHR ''/'' = es"
proof -
  obtain e es' where es: "es = e # es'" using assms(2) by (cases es) auto
  then have "e \<noteq> []" "hd e \<noteq> CHR ''/''" using assms(1) plainElem_hd by auto
  then show "Join es ''/'' \<noteq> []" "\<not> IsAbs (Join es ''/'')"
    using es by (cases es'; simp add: IsAbs_def)+
  show "Split (Join es ''/'') CHR ''/'' = es"
    by (rule Split_Join[OF assms(2)]) (rule plain_slash_free[OF assms(1)])
qed

lemma cleanForm_plain: "list_all plainElem es \<Longrightarrow> cleanForm r es"
  unfolding cleanForm_def by (rule exI[of _ 0], rule exI[of _ es]) simp

lemma cleanElems_plain: "list_all plainElem es \<Longrightarrow> cleanElems r es = es"
  by (rule cleanElems_id) (rule cleanForm_plain)

lemma cleanElems_plain_empty: "list_all plainElem es \<Longrightarrow> cleanElems r (es @ [[]]) = es"
  by (simp add: cleanElems_def foldl_cleanStep_plain cleanStep_def)

lemma cleanElems_empty_plain: "list_all plainElem es \<Longrightarrow> cleanElems r ([] # es) = es"
  using cleanElems_plain[of es r] by (simp add: cleanElems_def cleanStep_def)

lemma Clean_Join:
  "list_all plainElem es \<Longrightarrow> es \<noteq> [] \<Longrightarrow> Clean (Join es ''/'') = Join es ''/''"
  using Join_plain[of es] by (simp add: Clean_def cleanElems_plain Let_def)

lemma Clean_Join_slash:
  assumes "list_all plainElem es" and "es \<noteq> []"
  shows "Clean (Join es ''/'' @ ''/'') = Join es ''/''"
proof -
  have sp: "Split (Join es ''/'' @ ''/'') CHR ''/'' = es @ [[]]"
  proof -
    have "Join es ''/'' @ ''/'' = Join (es @ [[]]) ''/''" using assms(2) by (simp add: Join_snoc)
    moreover have ne: "es @ [[]] \<noteq> []" using assms(2) by blast
    have "CHR ''/'' \<notin> set x" if "x \<in> set (es @ [[]])" for x
      using that plain_slash_free[OF assms(1), of x] by (cases "x = []") simp_all
    then have "Split (Join (es @ [[]]) ''/'') CHR ''/'' = es @ [[]]"
      by (rule Split_Join[OF ne])
    ultimately show ?thesis by (metis)
  qed
  have "\<not> IsAbs (Join es ''/'' @ ''/'')"
    using Join_plain(1,2)[OF assms] by (simp add: IsAbs_def)
  then show ?thesis
    using sp Join_plain(1)[OF assms] assms(1) by (simp add: Clean_def cleanElems_plain_empty Let_def)
qed

lemma dirPart_append: "CHR ''/'' \<notin> set e \<Longrightarrow> dirPart (p @ CHR ''/'' # e) = p @ ''/''"
proof -
  assume e: "CHR ''/'' \<notin> set e"
  have "dropWhile (\<lambda>c. c \<noteq> CHR ''/'') (rev e @ CHR ''/'' # rev p) = CHR ''/'' # rev p"
    by (subst dropWhile_append2) (use e in auto)
  then show ?thesis by (simp add: dirPart_def)
qed

lemma dirPart_none: "CHR ''/'' \<notin> set e \<Longrightarrow> dirPart e = []"
proof -
  assume "CHR ''/'' \<notin> set e"
  then have "\<forall>x \<in> set (rev e). x \<noteq> CHR ''/''" by auto
  then show ?thesis by (simp add: dirPart_def dropWhile_eq_Nil_conv)
qed

lemma Dir_Join:
  assumes "list_all plainElem (es @ [e])"
  shows "Dir (Join (es @ [e]) ''/'') = (if es = [] then ''.'' else Join es ''/'')"
proof (cases "es = []")
  case True
  then have "CHR ''/'' \<notin> set e" using assms by (simp add: plainElem_def)
  then show ?thesis using True by (simp add: Dir_def dirPart_none Clean_def)
next
  case False
  then have "dirPart (Join (es @ [e]) ''/'') = Join es ''/'' @ ''/''"
    using assms by (simp add: Join_snoc dirPart_append plainElem_def)
  then show ?thesis using False assms Clean_Join_slash by (simp add: Dir_def)
qed

text \<open>A clean absolute path: a slash and plain elements.\<close>

definition absForm :: "string list \<Rightarrow> string" where
  "absForm es = ''/'' @ Join es ''/''"

lemma Split_absForm:
  assumes "list_all plainElem es" and "es \<noteq> []"
  shows "Split (absForm es) CHR ''/'' = [] # es"
  using Join_plain(3)[OF assms] by (simp add: absForm_def)

lemma Clean_absForm: "list_all plainElem es \<Longrightarrow> Clean (absForm es) = absForm es"
proof (cases "es = []")
  case True
  then show ?thesis by (simp add: absForm_def Clean_def IsAbs_def cleanElems_def cleanStep_def)
next
  case False
  assume "list_all plainElem es"
  then show ?thesis using False Split_absForm[of es] cleanElems_empty_plain[of es True]
    by (simp add: Clean_def Let_def) (simp add: absForm_def IsAbs_def)
qed

end
