(* ===== verification/Checks.thy ===== *)
theory Checks
  imports Go_Prelude
begin

text \<open>
  The data of a check and the operations on it: finding levels and spans and the check filter
  (internal/engine/run.go), shac.check() objects with their with_name() and with_args()
  (runtime_shac_check.go) and shac.register_check() (runtime_shac.go). The lemmas say what the
  filter keeps and when it is accepted, how the highest level of a check evolves, and that
  registration keeps the names of the checks distinct.
\<close>

section \<open>Levels\<close>

text \<open>A level is a string; three values are valid and the empty one means nothing was emitted.\<close>

type_synonym Level = string

definition Notice :: Level where "Notice = ''notice''"
definition Warning :: Level where "Warning = ''warning''"
definition Error :: Level where "Error = ''error''"
definition Nothing :: Level where "Nothing = ''''"

lemmas level_defs = Notice_def Warning_def Error_def Nothing_def

definition isValid :: "Level \<Rightarrow> bool" where
  "isValid l \<longleftrightarrow> l = Notice \<or> l = Warning \<or> l = Error"

definition Level_Set :: "string \<Rightarrow> Level outcome" where
  "Level_Set value = (if isValid value then Ok value else Err (Errorf ''invalid level value %q'' [FStr value]))"

text \<open>The update of a check's highest level that both emit functions make.\<close>

definition raiseLevel :: "Level \<Rightarrow> Level \<Rightarrow> Level" where
  "raiseLevel highest level =
     (if highest = '''' \<or> level = Error \<or> (level = Warning \<and> highest \<noteq> Error) then level else highest)"

text \<open>The abstract severities, in a linear order, that the levels stand for.\<close>

datatype severity = SevNothing | SevNotice | SevWarning | SevError

fun sevRank :: "severity \<Rightarrow> nat" where
  "sevRank SevNothing = 0"
| "sevRank SevNotice = 1"
| "sevRank SevWarning = 2"
| "sevRank SevError = 3"

lemma sevRank_inj: "sevRank a = sevRank b \<longleftrightarrow> a = b"
  by (cases a; cases b) auto

instantiation severity :: linorder
begin
definition less_eq_severity :: "severity \<Rightarrow> severity \<Rightarrow> bool" where
  "less_eq_severity a b = (sevRank a \<le> sevRank b)"
definition less_severity :: "severity \<Rightarrow> severity \<Rightarrow> bool" where
  "less_severity a b = (sevRank a < sevRank b)"
instance
  by standard (auto simp: less_eq_severity_def less_severity_def sevRank_inj)
end

definition severityOf :: "Level \<Rightarrow> severity" where
  "severityOf l =
     (if l = Error then SevError else if l = Warning then SevWarning
      else if l = Notice then SevNotice else SevNothing)"

lemma raiseLevel_valid: "isValid l \<Longrightarrow> isValid (raiseLevel h l) \<or> \<not> isValid h \<and> h \<noteq> Nothing"
  by (auto simp: raiseLevel_def isValid_def Nothing_def)

lemma severityOf_raiseLevel:
  "isValid l \<Longrightarrow> isValid h \<or> h = Nothing \<Longrightarrow>
   severityOf (raiseLevel h l) = max (severityOf h) (severityOf l)"
  by (auto simp: isValid_def raiseLevel_def severityOf_def level_defs max_def
      less_eq_severity_def)

lemma raiseLevel_fold:
  "list_all isValid ls \<Longrightarrow> isValid h \<or> h = Nothing \<Longrightarrow>
   (isValid (foldl raiseLevel h ls) \<or> foldl raiseLevel h ls = Nothing) \<and>
   severityOf (foldl raiseLevel h ls) = foldl max (severityOf h) (map severityOf ls)"
proof (induction ls arbitrary: h)
  case Nil
  then show ?case by simp
next
  case (Cons l ls)
  have "isValid (raiseLevel h l)"
    using Cons.prems by (auto simp: raiseLevel_def Nothing_def)
  then show ?case using Cons severityOf_raiseLevel by simp
qed

lemma severityOf_Error: "isValid h \<or> h = Nothing \<Longrightarrow> severityOf h = SevError \<longleftrightarrow> h = Error"
  by (auto simp: severityOf_def isValid_def level_defs)

lemma foldl_max_SevError:
  "foldl max (a :: severity) ss = SevError \<longleftrightarrow> a = SevError \<or> SevError \<in> set ss"
proof (induction ss arbitrary: a)
  case Nil
  then show ?case by simp
next
  case (Cons s ss)
  have "max a s = SevError \<longleftrightarrow> a = SevError \<or> s = SevError"
    by (cases a; cases s) (auto simp: max_def less_eq_severity_def)
  then show ?case using Cons by auto
qed

section \<open>Spans\<close>

record Cursor =
  Line :: int
  Col :: int

record Span =
  Start :: Cursor
  End :: Cursor

section \<open>Starlark callables and checks\<close>

text \<open>
  The values of the Starlark interpreter, as far as the program looks at them. The type name
  of a value it only rejects is kept in \<open>VOther\<close>.
\<close>

datatype starValue = VNone | VStr string | VBytes string | VInt int | VBool bool
  | VList "starValue list" | VTuple "starValue list" | VDict "(starValue \<times> starValue) list"
  | VStruct string "(string \<times> starValue) list" | VOther string

fun Type :: "starValue \<Rightarrow> string" where
  "Type VNone = ''NoneType''"
| "Type (VStr s) = ''string''"
| "Type (VBytes b) = ''bytes''"
| "Type (VInt n) = ''int''"
| "Type (VBool b) = ''bool''"
| "Type (VList vs) = ''list''"
| "Type (VTuple vs) = ''tuple''"
| "Type (VDict items) = ''dict''"
| "Type (VStruct ctor flds) = ''struct''"
| "Type (VOther t) = t"

text \<open>
  A Starlark function: its name and, for every parameter, its name and default; the keyword-only
  parameters come after the others, then *args and **kwargs.
\<close>

record starFunction =
  fnName :: string
  params :: "(string \<times> starValue option) list"
  NumKwonly :: nat
  HasVarargs :: bool
  HasKwargs :: bool

datatype callable = Builtin | Function starFunction | OtherCallable

record check =
  impl :: starFunction
  cname :: string
  formatter :: bool
  kwargs :: "(string \<times> starValue) list"

definition newCheck :: "callable \<Rightarrow> string \<Rightarrow> bool \<Rightarrow> check outcome" where
  "newCheck imp name fmt =
     (case imp of
        Builtin \<Rightarrow> Err (New ''\"impl\" must not be a built-in function'')
      | OtherCallable \<Rightarrow> Err (New ''\"impl\" must be a function accepting one \"ctx\" argument'')
      | Function f \<Rightarrow>
          if params f = [] then Err (New ''\"impl\" must be a function accepting one \"ctx\" argument'')
          else if fst (params f ! 0) \<noteq> ''ctx''
          then Err (New ''\"impl\"'s first parameter must be named \"ctx\"'')
          else if snd (params f ! 0) \<noteq> None
          then Err (New ''\"impl\" must not have a default value for the \"ctx\" parameter'')
          else if HasVarargs f then Err (New ''\"impl\" must not accept *args'')
          else if HasKwargs f then Err (New ''\"impl\" must not accept **kwargs'')
          else if length (params f) > 1 \<and> snd (params f ! 1) = None
          then Err (New ''\"impl\" cannot have required arguments besides \"ctx\"'')
          else if name = [] \<and> fnName f = ''lambda''
          then Err (New ''\"name\" must be set when \"impl\" is a lambda'')
          else Ok \<lparr>impl = f, cname = (if name = [] then TrimPrefix (fnName f) ''_'' else name),
                   formatter = fmt, kwargs = []\<rparr>)"

definition withName :: "check \<Rightarrow> string \<Rightarrow> check" where
  "withName c name = c\<lparr>cname := name\<rparr>"

text \<open>
  kwargsMap turns a keyword list into a map in which a later entry replaces an earlier one;
  the association list below is that map. The order in which Go lists the map again is not
  specified, and no result depends on it.
\<close>

fun putKwarg :: "string \<Rightarrow> starValue \<Rightarrow> (string \<times> starValue) list \<Rightarrow> (string \<times> starValue) list" where
  "putKwarg k v [] = [(k, v)]"
| "putKwarg k v ((k', v') # xs) = (if k = k' then (k, v) # xs else (k', v') # putKwarg k v xs)"

definition kwargsMap :: "(string \<times> starValue) list \<Rightarrow> (string \<times> starValue) list" where
  "kwargsMap kws = foldl (\<lambda>m (k, v). putKwarg k v m) [] kws"

fun mergeKwargs :: "string list \<Rightarrow> (string \<times> starValue) list \<Rightarrow> (string \<times> starValue) list \<Rightarrow>
    (string \<times> starValue) list outcome" where
  "mergeKwargs valid [] m = Ok m"
| "mergeKwargs valid ((k, v) # kws) m =
     (if k = ''ctx'' then Err (New ''\"ctx\" argument cannot be overridden'')
      else if k \<notin> set valid
      then Err (Errorf ''invalid argument %q, must be one of: (%s)'' [FStr k, FStr (Join valid '', '')])
      else mergeKwargs valid kws (putKwarg k v m))"

definition validParams :: "check \<Rightarrow> string list" where
  "validParams c = map fst (tl (params (impl c)))"

definition withArgs :: "check \<Rightarrow> (string \<times> starValue) list \<Rightarrow> check outcome" where
  "withArgs c kws =
     bindO (mergeKwargs (validParams c) (kwargsMap kws) (kwargsMap (kwargs c)))
       (\<lambda>m. Ok (c\<lparr>kwargs := m\<rparr>))"

lemma map_of_putKwarg: "map_of (putKwarg k v m) = (map_of m)(k \<mapsto> v)"
  by (induction m) (auto simp: fun_eq_iff)

lemma keys_putKwarg: "fst ` set (putKwarg k v m) = insert k (fst ` set m)"
  by (induction k v m rule: putKwarg.induct) (simp_all add: insert_commute)

lemma distinct_putKwarg: "distinct (map fst m) \<Longrightarrow> distinct (map fst (putKwarg k v m))"
proof (induction m)
  case Nil
  then show ?case by simp
next
  case (Cons a m)
  have "fst ` set (putKwarg k v m) = insert k (fst ` set m)" by (rule keys_putKwarg)
  then show ?case using Cons by (cases a) auto
qed

lemma kwargsMap_append: "kwargsMap (kws @ [(k, v)]) = putKwarg k v (kwargsMap kws)"
  by (simp add: kwargsMap_def)

lemma kwargsMap_spec:
  "distinct (map fst (kwargsMap kws)) \<and> map_of (kwargsMap kws) = map_of (rev kws) \<and>
   fst ` set (kwargsMap kws) = fst ` set kws"
proof (induction kws rule: rev_induct)
  case Nil
  then show ?case by (simp add: kwargsMap_def)
next
  case (snoc a kws)
  then show ?case
    by (cases a) (auto simp: kwargsMap_append map_of_putKwarg keys_putKwarg distinct_putKwarg)
qed

lemma mergeKwargs_Ok:
  "mergeKwargs valid kws m = Ok r \<Longrightarrow>
   (\<forall>k \<in> fst ` set kws. k \<in> set valid \<and> k \<noteq> ''ctx'') \<and>
   map_of r = map_of m ++ map_of (rev kws) \<and>
   (distinct (map fst m) \<longrightarrow> distinct (map fst r)) \<and> fst ` set r = fst ` set m \<union> fst ` set kws"
proof (induction kws arbitrary: m)
  case Nil
  then show ?case by simp
next
  case (Cons a kws)
  obtain k v where a: "a = (k, v)" by (cases a)
  with Cons.prems have k: "k \<noteq> ''ctx''" "k \<in> set valid"
    and r: "mergeKwargs valid kws (putKwarg k v m) = Ok r"
    by (auto split: if_splits)
  show ?case using Cons.IH[OF r] a k
    by (auto simp: map_of_putKwarg keys_putKwarg distinct_putKwarg map_add_def fun_eq_iff
        split: option.splits)
qed

lemma mergeKwargs_isOk:
  "isOk (mergeKwargs valid kws m) \<longleftrightarrow> (\<forall>k \<in> fst ` set kws. k \<in> set valid \<and> k \<noteq> ''ctx'')"
  by (induction valid kws m rule: mergeKwargs.induct) auto

section \<open>Registration\<close>

text \<open>
  A registered check is a check with the outcome of running it: the error of fail(), the
  highest level emitted and the subprocesses started, by their numbers.
\<close>

record registeredCheck =
  checkOf :: check
  failErr :: "err option"
  highestLevel :: Level
  subprocesses :: "nat list"

definition newRegistered :: "check \<Rightarrow> registeredCheck" where
  "newRegistered c = \<lparr>checkOf = c, failErr = None, highestLevel = Nothing, subprocesses = []\<rparr>"

abbreviation rname :: "registeredCheck \<Rightarrow> string" where
  "rname r \<equiv> cname (checkOf r)"

datatype registerArg = ArgCallable callable | ArgCheck check | ArgOther string

definition registerArgCheck :: "registerArg \<Rightarrow> check outcome" where
  "registerArgCheck a =
     (case a of
        ArgCallable f \<Rightarrow> newCheck f [] False
      | ArgCheck c \<Rightarrow> Ok c
      | ArgOther t \<Rightarrow> Err (Errorf ''\"check\" must be a function or shac.check object, got %s'' [FStr t]))"

definition shacRegisterCheck ::
    "bool \<Rightarrow> registeredCheck list \<Rightarrow> registerArg \<Rightarrow> registeredCheck list outcome" where
  "shacRegisterCheck doneLoading checks a =
     bindO (registerArgCheck a) (\<lambda>c.
       if list_ex (\<lambda>r. rname r = cname c) checks
       then Err (Errorf ''can't register two checks with the same name %q'' [FStr (cname c)])
       else if doneLoading then Err (New ''can't register checks after done loading'')
       else Ok (checks @ [newRegistered c]))"

lemma shacRegisterCheck_Ok:
  "shacRegisterCheck d checks a = Ok checks' \<longleftrightarrow>
   (\<exists>c. registerArgCheck a = Ok c \<and> \<not> d \<and> cname c \<notin> rname ` set checks \<and>
        checks' = checks @ [newRegistered c])"
  by (cases "registerArgCheck a") (auto simp: shacRegisterCheck_def list_ex_iff image_iff eq_commute)

lemma rname_newRegistered [simp]: "rname (newRegistered c) = cname c"
  by (simp add: newRegistered_def)

text \<open>A run of registrations, as a loading script makes them; it stops at the first error.\<close>

fun registerAll :: "registeredCheck list \<Rightarrow> registerArg list \<Rightarrow> registeredCheck list outcome" where
  "registerAll checks [] = Ok checks"
| "registerAll checks (a # as) =
     bindO (shacRegisterCheck False checks a) (\<lambda>checks'. registerAll checks' as)"

section \<open>The check filter\<close>

datatype FormatterFiltering = AllChecks | OnlyFormatters | OnlyNonFormatters | OtherFiltering int

record CheckFilter =
  formatterFiltering :: FormatterFiltering
  AllowList :: "string list"
  DenyList :: "string list"

fun filterLoop :: "CheckFilter \<Rightarrow> registeredCheck list \<Rightarrow> registeredCheck list outcome" where
  "filterLoop f [] = Ok []"
| "filterLoop f (r # rs) =
     (if AllowList f \<noteq> [] \<and> rname r \<notin> set (AllowList f) then filterLoop f rs
      else if rname r \<in> set (DenyList f) then filterLoop f rs
      else case formatterFiltering f of
          AllChecks \<Rightarrow> bindO (filterLoop f rs) (\<lambda>out. Ok (r # out))
        | OnlyFormatters \<Rightarrow>
            if \<not> formatter (checkOf r) then filterLoop f rs
            else bindO (filterLoop f rs) (\<lambda>out. Ok (r # out))
        | OnlyNonFormatters \<Rightarrow>
            if formatter (checkOf r) then filterLoop f rs
            else bindO (filterLoop f rs) (\<lambda>out. Ok (r # out))
        | OtherFiltering n \<Rightarrow> Err (Errorf ''invalid FormatterFiltering value: %d'' [FInt n]))"

definition CheckFilter_filter :: "CheckFilter \<Rightarrow> registeredCheck list \<Rightarrow> registeredCheck list outcome" where
  "CheckFilter_filter f checks = (if checks = [] then Ok checks else filterLoop f checks)"

definition CheckFilter_validate :: "CheckFilter \<Rightarrow> registeredCheck list list \<Rightarrow> unit outcome" where
  "CheckFilter_validate f states =
     (let both = filter (\<lambda>n. n \<in> set (AllowList f)) (DenyList f);
          known = concat (map (map rname) states);
          unknown = (\<lambda>ns. remdups (filter (\<lambda>n. n \<notin> set known) ns));
          invalid = unknown (AllowList f) @ unknown (DenyList f)
      in if both \<noteq> []
         then Err (Errorf ''checks cannot be both allowed and denied: %s'' [FStr (Join both '', '')])
         else if invalid \<noteq> []
         then Err (Errorf ''%s: %s''
                [FStr (if length invalid = 1 then ''check does not exist'' else ''checks do not exist''),
                 FStr (Join (sort invalid) '', '')])
         else Ok ())"

definition selects :: "CheckFilter \<Rightarrow> registeredCheck \<Rightarrow> bool" where
  "selects f r \<longleftrightarrow>
     (AllowList f = [] \<or> rname r \<in> set (AllowList f)) \<and> rname r \<notin> set (DenyList f) \<and>
     (formatterFiltering f = OnlyFormatters \<longrightarrow> formatter (checkOf r)) \<and>
     (formatterFiltering f = OnlyNonFormatters \<longrightarrow> \<not> formatter (checkOf r))"

lemma filterLoop_spec:
  "\<forall>n. formatterFiltering f \<noteq> OtherFiltering n \<Longrightarrow> filterLoop f rs = Ok (filter (selects f) rs)"
  by (induction rs) (auto simp: selects_def split: FormatterFiltering.splits)

lemma CheckFilter_filter_spec:
  "\<forall>n. formatterFiltering f \<noteq> OtherFiltering n \<Longrightarrow>
   CheckFilter_filter f rs = Ok (filter (selects f) rs)"
  by (simp add: CheckFilter_filter_def filterLoop_spec)

lemma CheckFilter_validate_Ok:
  "CheckFilter_validate f states = Ok () \<longleftrightarrow>
   set (AllowList f) \<inter> set (DenyList f) = {} \<and>
   set (AllowList f) \<union> set (DenyList f) \<subseteq> (\<Union>rs \<in> set states. rname ` set rs)"
proof -
  have "filter (\<lambda>n. n \<in> set (AllowList f)) (DenyList f) = [] \<longleftrightarrow>
      set (AllowList f) \<inter> set (DenyList f) = {}"
    by (auto simp: filter_empty_conv)
  moreover have "remdups (filter (\<lambda>n. n \<notin> set (concat (map (map rname) states))) ns) = [] \<longleftrightarrow>
      set ns \<subseteq> (\<Union>rs \<in> set states. rname ` set rs)" for ns
    by (simp add: filter_empty_conv) blast
  ultimately show ?thesis
    by (simp add: CheckFilter_validate_def Let_def)
qed

end
