(* ===== verification/Scm_Files.thy ===== *)
theory Scm_Files
  imports Go_Path Checks
begin

text \<open>
  The files a source control checkout reports and the functions on lists of them
  (internal/engine/runtime_ctx_scm.go): file, fileSubdirImpl and fileFilter, the in-place loop of
  filteredSCM.filter, subdirSCM.filterFiles, specifiedFilesOnly.shacFileDirs, the glob filter of
  ctx.scm, the dictionary ctx.scm returns, and the numbered lines of a whole file. The matching of
  one gitignore pattern is a library's and stays a parameter.
\<close>

section \<open>Files\<close>

datatype scmFile = FileImpl string string | FileSubdir scmFile string

fun rootedpath :: "scmFile \<Rightarrow> string" where
  "rootedpath (FileImpl p a) = p"
| "rootedpath (FileSubdir f rel) = rootedpath f"

fun relpath :: "scmFile \<Rightarrow> string" where
  "relpath (FileImpl p a) = p"
| "relpath (FileSubdir f rel) = rel"

fun action :: "scmFile \<Rightarrow> string" where
  "action (FileImpl p a) = a"
| "action (FileSubdir f rel) = action f"

record fileFilter =
  includeDeleted :: bool
  includeSymlinks :: bool

section \<open>filteredSCM.filter\<close>

text \<open>
  The loop overwrites the array it reads: \<open>i\<close> counts the files kept, \<open>off\<close> those dropped, and
  after each round the next file is moved to position \<open>i\<close>.
\<close>

function ignoreLoop :: "(scmFile \<Rightarrow> bool) \<Rightarrow> scmFile list \<Rightarrow> nat \<Rightarrow> nat \<Rightarrow> scmFile list" where
  "ignoreLoop m fs i off =
     (if i + off < length fs then
        let fi = fs ! (i + off);
            off' = (if m fi then Suc off else off);
            i' = (if m fi then i else Suc i);
            fs' = (if i' + off' < length fs then fs[i' := fs ! (i' + off')] else fs)
        in ignoreLoop m fs' i' off'
      else take (length fs - off) fs)"
  by pat_completeness auto
termination
  by (relation "measure (\<lambda>(m, fs, i, off). length fs - (i + off))") (auto simp: Let_def)

declare ignoreLoop.simps [simp del]

definition filteredSCM_filter :: "(string list \<Rightarrow> bool \<Rightarrow> bool) \<Rightarrow> scmFile list \<Rightarrow> scmFile list" where
  "filteredSCM_filter matches fs =
     ignoreLoop (\<lambda>fi. matches (Split (rootedpath fi) CHR ''/'') False) fs 0 0"

text \<open>
  The loop's invariant: the first \<open>i\<close> places hold the kept files of the first \<open>i + off\<close>,
  everything from \<open>i + off\<close> on is still the original, and the next file is already in place.
\<close>

definition ignoreInv :: "(scmFile \<Rightarrow> bool) \<Rightarrow> scmFile list \<Rightarrow> scmFile list \<Rightarrow> nat \<Rightarrow> nat \<Rightarrow> bool" where
  "ignoreInv m orig fs i off \<longleftrightarrow>
     take i fs = filter (\<lambda>f. \<not> m f) (take (i + off) orig) \<and>
     drop (i + off) fs = drop (i + off) orig \<and> length fs = length orig \<and> i + off \<le> length orig \<and>
     (i + off < length orig \<longrightarrow> fs ! i = orig ! (i + off))"

lemma ignoreInv_step:
  assumes inv: "ignoreInv m orig fs i off" and True: "i + off < length fs"
    and fi_def: "fi = fs ! (i + off)"
    and off'_def: "off' = (if m fi then Suc off else off)" and i'_def: "i' = (if m fi then i else Suc i)"
    and fs'_def: "fs' = (if i' + off' < length fs then fs[i' := fs ! (i' + off')] else fs)"
  shows "ignoreInv m orig fs' i' off'"
proof -
  note defs = fi_def off'_def i'_def fs'_def
  have prems: "take i fs = filter (\<lambda>f. \<not> m f) (take (i + off) orig)" "drop (i + off) fs = drop (i + off) orig"
    "length fs = length orig" "i + off < length orig \<longrightarrow> fs ! i = orig ! (i + off)"
    using inv by (simp_all add: ignoreInv_def)
  have sum: "i' + off' = Suc (i + off)" by (simp add: i'_def off'_def)
  have fi: "fi = orig ! (i + off)" using True prems(2,3) by (metis fi_def hd_drop_conv_nth)
  have dr: "drop (Suc (i + off)) fs = drop (Suc (i + off)) orig" using prems(2) by (metis drop_Suc tl_drop)
  have dr': "drop (i' + off') fs' = drop (i' + off') fs" by (cases "off' = 0") (simp_all add: fs'_def)
  have tk: "take (Suc (i + off)) orig = take (i + off) orig @ [fi]"
    using True prems(3) fi by (simp add: take_Suc_conv_app_nth)
  have keep: "take i' fs' = filter (\<lambda>f. \<not> m f) (take (i' + off') orig)"
  proof (cases "m fi")
    case True
    then show ?thesis using prems(1) tk by (simp add: defs)
  next
    case False
    have "take (Suc i) fs = filter (\<lambda>f. \<not> m f) (take (i + off) orig) @ [fi]"
      using prems(1,3,4) True fi by (simp add: take_Suc_conv_app_nth)
    moreover have "take (Suc i) fs' = take (Suc i) fs" using False by (simp add: i'_def fs'_def)
    ultimately show ?thesis using False tk by (simp add: i'_def off'_def)
  qed
  have "fs' ! i' = orig ! (i' + off')" if a: "i' + off' < length orig"
  proof -
    have "fs ! (i' + off') = orig ! (i' + off')" using a dr sum prems(3) by (metis hd_drop_conv_nth)
    then show ?thesis using a prems(3) by (simp add: fs'_def)
  qed
  moreover have "length fs' = length orig" "i' + off' \<le> length orig" using True prems(3) sum by (simp_all add: fs'_def)
  ultimately show ?thesis using keep dr dr' sum by (simp add: ignoreInv_def)
qed

lemma ignoreLoop_inv: "ignoreInv m orig fs i off \<Longrightarrow> ignoreLoop m fs i off = filter (\<lambda>f. \<not> m f) orig"
proof (induction m fs i off rule: ignoreLoop.induct)
  case (1 m fs i off)
  show ?case
  proof (cases "i + off < length fs")
    case False
    then have "i + off = length orig" "length fs = length orig" using "1.prems" by (simp_all add: ignoreInv_def)
    then have "i + off = length orig" and "length fs - off = i" by simp_all
    then show ?thesis using False "1.prems" by (subst ignoreLoop.simps) (auto simp: ignoreInv_def)
  next
    case True
    from "1.IH"[OF this refl refl refl refl ignoreInv_step[OF "1.prems" this refl refl refl refl]] show ?thesis
      using True by (subst ignoreLoop.simps) (simp add: Let_def)
  qed
qed

lemma filteredSCM_filter_eq:
  "filteredSCM_filter matches fs =
     filter (\<lambda>f. \<not> matches (Split (rootedpath f) CHR ''/'') False) fs"
  unfolding filteredSCM_filter_def by (rule ignoreLoop_inv) (auto simp: ignoreInv_def nth_Cons split: nat.splits)

section \<open>subdirSCM.filterFiles\<close>

text \<open>The first loop only counts, for the capacity of the slice the second one appends to.\<close>

fun filterFilesLoop :: "string \<Rightarrow> scmFile list \<Rightarrow> scmFile list" where
  "filterFilesLoop subdir [] = []"
| "filterFilesLoop subdir (f # fs) =
     (if HasPrefix (rootedpath f) subdir
      then FileSubdir f (drop (length subdir) (rootedpath f)) # filterFilesLoop subdir fs
      else filterFilesLoop subdir fs)"

lemma filterFilesLoop_rooted:
  "map rootedpath (filterFilesLoop subdir fs) = filter (\<lambda>p. HasPrefix p subdir) (map rootedpath fs)"
  by (induction fs) auto

lemma filterFilesLoop_relpath:
  "f \<in> set (filterFilesLoop subdir fs) \<Longrightarrow> rootedpath f = subdir @ relpath f"
  by (induction fs) (auto simp: HasPrefix_iff prefix_def split: if_splits)

lemma lexorder_prefix: "subdir @ a \<le> subdir @ b \<longleftrightarrow> a \<le> (b :: string)"
  by (induction subdir) auto

text \<open>
  Cutting the common prefix off keeps the order, so a sorted checkout stays sorted by the path
  the check sees.
\<close>

lemma filterFilesLoop_sorted:
  assumes "sorted (map rootedpath fs)"
  shows "sorted (map relpath (filterFilesLoop subdir fs))"
proof -
  let ?out = "filterFilesLoop subdir fs"
  have "sorted (map rootedpath ?out)"
    using assms by (simp add: filterFilesLoop_rooted sorted_wrt_filter)
  moreover have "map rootedpath ?out = map (\<lambda>r. subdir @ r) (map relpath ?out)"
    using filterFilesLoop_relpath by (auto simp: comp_def)
  ultimately have "sorted_wrt (\<lambda>a b. subdir @ a \<le> subdir @ b) (map relpath ?out)"
    by (metis sorted_wrt_map)
  then show ?thesis by (simp add: lexorder_prefix)
qed

section \<open>specifiedFilesOnly.shacFileDirs\<close>

datatype statRes = StatErr err | StatFile | StatDir

text \<open>
  The inner loop climbs from path.Dir(file) to "."; the fuel is the number of rounds it may take,
  and \<open>None\<close> says that it has not come to "." by then.
\<close>

fun ancestorDirs :: "nat \<Rightarrow> string \<Rightarrow> string list option" where
  "ancestorDirs 0 cur = None"
| "ancestorDirs (Suc n) cur =
     (if cur = ''.'' then Some [cur] else map_option (Cons cur) (ancestorDirs n (Dir cur)))"

fun allAncestors :: "nat \<Rightarrow> scmFile list \<Rightarrow> string list option" where
  "allAncestors n [] = Some []"
| "allAncestors n (f # fs) =
     (case ancestorDirs n (Dir (rootedpath f)) of
        None \<Rightarrow> None
      | Some ds \<Rightarrow> map_option ((@) ds) (allAncestors n fs))"

fun statDirs :: "(string \<Rightarrow> statRes) \<Rightarrow> string \<Rightarrow> string \<Rightarrow> string list \<Rightarrow> string list outcome" where
  "statDirs stat root basename [] = Ok []"
| "statDirs stat root basename (d # ds) =
     (case stat (PathJoin [root, d, basename]) of
        StatErr e \<Rightarrow> if isNotExist e then statDirs stat root basename ds else Err e
      | _ \<Rightarrow> bindO (statDirs stat root basename ds) (\<lambda>res. Ok (d # res)))"

text \<open>The directories are the keys of a map, whose order Go leaves open.\<close>

definition shacFileDirs ::
    "(string \<Rightarrow> statRes) \<Rightarrow> nat \<Rightarrow> string \<Rightarrow> scmFile list \<Rightarrow> string \<Rightarrow> string list outcome option" where
  "shacFileDirs stat fuel root fs basename =
     map_option (\<lambda>ds. statDirs stat root basename (remdups ds)) (allAncestors fuel fs)"

section \<open>The glob filter of ctx.scm\<close>

fun sequenceToStrings :: "starValue list \<Rightarrow> string list option" where
  "sequenceToStrings [] = Some []"
| "sequenceToStrings (VStr s # xs) = map_option (Cons s) (sequenceToStrings xs)"
| "sequenceToStrings (_ # xs) = None"

datatype matchResult = NoMatch | Exclude | Include

text \<open>
  The matcher of the gitignore library asks the patterns from the last to the first; the first
  that matches decides. How one pattern matches a path is the parameter \<open>pat\<close>.
\<close>

fun matcherMatch ::
    "(string \<Rightarrow> string list \<Rightarrow> bool \<Rightarrow> matchResult) \<Rightarrow> string list \<Rightarrow> string list \<Rightarrow> bool \<Rightarrow> bool" where
  "matcherMatch pat [] path isDir = False"
| "matcherMatch pat (p # ps) path isDir =
     (if \<exists>q \<in> set ps. pat q path isDir \<noteq> NoMatch then matcherMatch pat ps path isDir
      else pat p path isDir = Exclude)"

datatype globArg = GlobNone | GlobStr string | GlobSeq "starValue list" | GlobOther

definition globErr :: err where
  "globErr = New ''\"glob\" must be string or sequence of strings''"

definition globPatterns :: "globArg \<Rightarrow> string list outcome" where
  "globPatterns g =
     (case g of
        GlobStr s \<Rightarrow> Ok [s]
      | GlobSeq vs \<Rightarrow> (case sequenceToStrings vs of None \<Rightarrow> Err globErr | Some ps \<Rightarrow> Ok ps)
      | _ \<Rightarrow> Err globErr)"

definition filterFilesByGlob ::
    "(string \<Rightarrow> string list \<Rightarrow> bool \<Rightarrow> matchResult) \<Rightarrow> scmFile list \<Rightarrow> globArg \<Rightarrow> scmFile list outcome" where
  "filterFilesByGlob pat fs g =
     (if g = GlobNone then Ok fs
      else bindO (globPatterns g) (\<lambda>patterns.
        let allNegative = list_all (\<lambda>p. HasPrefix p ''!'') patterns;
            pre = (if allNegative \<and> patterns \<noteq> [] then [''**''] else [])
        in if list_ex (\<lambda>p. p = []) patterns
           then Err (New ''\"glob\" pattern cannot be empty'')
           else Ok (filter (\<lambda>f. matcherMatch pat (pre @ patterns) (Split (rootedpath f) CHR ''/'') False) fs)))"

section \<open>The dictionary ctx.scm returns\<close>

text \<open>A Starlark dict keeps the position of a key that is set again.\<close>

fun setKey :: "string \<Rightarrow> 'v \<Rightarrow> (string \<times> 'v) list \<Rightarrow> (string \<times> 'v) list" where
  "setKey k v [] = [(k, v)]"
| "setKey k v ((k', v') # xs) = (if k = k' then (k', v) # xs else (k', v') # setKey k v xs)"

definition ctxScmFilesReturnValue :: "scmFile list \<Rightarrow> (string \<times> scmFile) list" where
  "ctxScmFilesReturnValue fs = foldl (\<lambda>d f. setKey (relpath f) f d) [] fs"

section \<open>The lines of a whole file\<close>

abbreviation NL :: char where "NL \<equiv> CHR 0x0A"
abbreviation NUL :: char where "NUL \<equiv> CHR 0x00"

fun newLinesLoop :: "nat \<Rightarrow> int \<Rightarrow> string \<Rightarrow> (int \<times> string) list" where
  "newLinesLoop 0 i b = []"
| "newLinesLoop (Suc k) i b =
     (case CutByte NL b of
        Some (l, rest) \<Rightarrow> (i + 1, l) # newLinesLoop k (i + 1) rest
      | None \<Rightarrow> (i + 1, b) # newLinesLoop k (i + 1) b)"

definition newLinesWholeBytes :: "string \<Rightarrow> (int \<times> string) list" where
  "newLinesWholeBytes b =
     (if NUL \<in> set b then [] else newLinesLoop (count_list b NL + 1) 0 b)"

definition newLinesWhole ::
    "(string \<Rightarrow> string outcome) \<Rightarrow> string \<Rightarrow> string \<Rightarrow> (int \<times> string) list outcome" where
  "newLinesWhole readFile root path =
     bindO (readFile (PathJoin [root, path])) (\<lambda>b. Ok (newLinesWholeBytes b))"

section \<open>Properties\<close>

lemma newLinesLoop_spec:
  "newLinesLoop (Suc (count_list b NL)) i b =
     zip (map (\<lambda>k. i + 1 + int k) [0..<Suc (count_list b NL)]) (Split b NL)"
proof (induction "count_list b NL" arbitrary: b i)
  case 0
  then have "NL \<notin> set b" by (simp add: count_list_0_iff)
  then show ?case using 0 by (simp add: Split_id CutByte_None[THEN iffD2])
next
  case (Suc n)
  then have "NL \<in> set b" by (metis count_list_0_iff nat.distinct(1))
  then obtain l rest where cut: "CutByte NL b = Some (l, rest)"
    using CutByte_None[of NL b] by (cases "CutByte NL b") auto
  then have b: "b = l @ NL # rest" and l: "NL \<notin> set l" by (auto simp: CutByte_Some)
  then have n: "n = count_list rest NL" using Suc.hyps(2) by (simp add: count_list_append count_list_0_iff)
  have upt: "[0..<Suc (Suc n)] = 0 # map Suc [0..<Suc n]"
    by (simp add: map_Suc_upt upt_conv_Cons del: upt_Suc)
  have shift: "map (\<lambda>k. i + 1 + int k) [0..<Suc (Suc n)] =
      (i + 1) # map (\<lambda>k. (i + 1) + 1 + int k) [0..<Suc n]"
    by (subst upt) (simp add: comp_def add_ac del: upt_Suc)
  have "newLinesLoop (Suc (count_list b NL)) i b =
      (i + 1, l) # newLinesLoop (Suc (count_list rest NL)) (i + 1) rest"
    using cut Suc.hyps(2) n by simp
  also have "\<dots> = (i + 1, l) # zip (map (\<lambda>k. (i + 1) + 1 + int k) [0..<Suc n]) (Split rest NL)"
    using Suc.hyps(1)[OF n, of "i + 1"] n by simp
  also have "\<dots> = zip (map (\<lambda>k. i + 1 + int k) [0..<Suc (Suc n)]) (Split b NL)"
    by (subst shift) (simp add: b Split_append[OF l] del: upt_Suc)
  finally show ?case using Suc.hyps(2) by simp
qed

text \<open>For text without a NUL byte the new lines of a whole file are its lines, numbered from 1:
  joined with newlines they give the file back, so no byte is lost and none is added.\<close>

theorem newLinesWholeBytes_roundtrip:
  assumes "NUL \<notin> set b"
  shows "Join (map snd (newLinesWholeBytes b)) [NL] = b \<and>
    map fst (newLinesWholeBytes b) = map (\<lambda>k. int k + 1) [0..<Suc (count_list b NL)]"
  using assms newLinesLoop_spec[of b 0] length_Split[of b NL]
  by (simp add: newLinesWholeBytes_def add.commute del: upt_Suc newLinesLoop.simps)

theorem newLinesWholeBytes_roundtrip_witness:
  "Join (map snd (newLinesWholeBytes ''ab'')) [NL] = ''ab''"
  using newLinesWholeBytes_roundtrip[of "''ab''"] by simp

lemma ancestorDirs_plain:
  "list_all plainElem es \<Longrightarrow> es \<noteq> [] \<Longrightarrow> length es \<le> n \<Longrightarrow>
   ancestorDirs n (Dir (Join es ''/'')) =
     Some (map (\<lambda>k. if k = 0 then ''.'' else Join (take k es) ''/'') (rev [0..<length es]))"
proof (induction es arbitrary: n rule: rev_induct)
  case Nil
  then show ?case by simp
next
  case (snoc e es)
  obtain n' where n: "n = Suc n'" using snoc.prems(3) by (cases n) auto
  show ?case
  proof (cases "es = []")
    case True
    then show ?thesis using snoc.prems n Dir_Join[of "[]" e] by simp
  next
    case False
    have d: "Dir (Join (es @ [e]) ''/'') = Join es ''/''"
      using Dir_Join[OF snoc.prems(1)] False by simp
    have "Join es ''/'' \<noteq> ''.''"
    proof
      assume "Join es ''/'' = ''.''"
      then have "es = [''.'']" using Join_plain(3)[of es] False snoc.prems(1) by simp
      then show False using snoc.prems(1) by (simp add: plainElem_def)
    qed
    moreover have "ancestorDirs n' (Dir (Join es ''/'')) =
        Some (map (\<lambda>k. if k = 0 then ''.'' else Join (take k es) ''/'') (rev [0..<length es]))"
      using snoc.IH[of n'] snoc.prems n False by simp
    ultimately show ?thesis using d n False by simp
  qed
qed

end
