(* ===== verification/Git_Scm.thy ===== *)
theory Git_Scm
  imports Scm_Files
begin

text \<open>
  The git checkout (gitCheckout in internal/engine/runtime_ctx_scm.go and runGitCmd and
  gitConfigEnv in git.go). git itself, os.Lstat and os.Stat are the environment, parameters of
  the operations; what git prints is parsed here byte by byte as the code does. The state of a
  checkout is threaded through every git command, because the first error sticks: after it no
  command runs any more.
\<close>

section \<open>Running git\<close>

text \<open>What running a process gives: its output, an exit status with its output, another error.\<close>

datatype execRes = ExecOk string | ExecExit string string | ExecErr err

type_synonym gitExec = "string \<Rightarrow> string list \<Rightarrow> execRes"

definition runGitCmd :: "gitExec \<Rightarrow> string \<Rightarrow> string list \<Rightarrow> string outcome" where
  "runGitCmd exec dir args0 =
     (let args = ''--no-optional-locks'' # args0
      in case exec dir args of
           ExecOk out \<Rightarrow> Ok (TrimSpace out)
         | ExecExit msg out \<Rightarrow>
             Err (Errorf (''error running git %s: %w'' @ [NL] @ ''%s'')
               [FStr (Join args '' ''), FErr (ErrOther msg), FStr out])
         | ExecErr e \<Rightarrow> Err e)"

fun configPairs :: "nat \<Rightarrow> (string \<Rightarrow> string) \<Rightarrow> string list \<Rightarrow> string list" where
  "configPairs i cfg [] = []"
| "configPairs i cfg (k # ks) =
     (''GIT_CONFIG_KEY_'' @ Itoa (int i) @ ''='' @ k) #
     (''GIT_CONFIG_VALUE_'' @ Itoa (int i) @ ''='' @ cfg k) # configPairs (Suc i) cfg ks"

text \<open>The map of git settings is given by its keys, each once, and its lookup.\<close>

definition gitConfigEnv :: "string list \<Rightarrow> (string \<Rightarrow> string) \<Rightarrow> string list" where
  "gitConfigEnv keys cfg =
     (''GIT_CONFIG_COUNT='' @ Itoa (int (length keys))) # configPairs 0 cfg (sort keys)"

definition gitEnv :: "string list \<Rightarrow> string list" where
  "gitEnv environ =
     environ @ [''GIT_CONFIG_NOGLOBAL=true'', ''GIT_CONFIG_GLOBAL='', ''GIT_CONFIG_SYSTEM='', ''LANG=C'',
       ''GIT_EXTERNAL_DIFF='', ''GIT_DIFF_OPTS=''] @
     gitConfigEnv [''core.precomposeUnicode''] (\<lambda>_. ''true'')"

section \<open>The state of a checkout\<close>

record commitRef =
  hash :: string
  ref :: string

record gitCheckout =
  returnAll :: bool
  checkoutRoot :: string
  head :: commitRef
  upstream :: commitRef
  gerr :: "err option"

definition g_run :: "gitExec \<Rightarrow> string list \<Rightarrow> gitCheckout \<Rightarrow> string \<times> gitCheckout" where
  "g_run exec args g =
     (if gerr g \<noteq> None then ([], g)
      else case runGitCmd exec (checkoutRoot g) args of
          Ok res \<Rightarrow> (res, g)
        | Err e \<Rightarrow> ([], g\<lparr>gerr := Some e\<rparr>)
        | Panic m \<Rightarrow> ([], g))"

text \<open>The error texts of a branch without an upstream, and the fallback for them.\<close>

definition noUpstreamErr :: "err \<Rightarrow> bool" where
  "noUpstreamErr e \<longleftrightarrow>
     Contains (errText e) ''no upstream configured for branch'' \<or>
     Contains (errText e) ''HEAD does not point to a branch''"

definition initUpstream :: "gitExec \<Rightarrow> gitCheckout \<Rightarrow> gitCheckout" where
  "initUpstream exec g =
     (let (st, g1) = g_run exec [''status'', ''--porcelain'', ''--untracked-files=no''] g;
          isPristine = (st = []);
          (h, g2) = g_run exec [''rev-parse'', ''@'' @ ''{u}''] g1;
          g3 = g2\<lparr>upstream := (upstream g2)\<lparr>hash := h\<rparr>\<rparr>
      in case gerr g3 of
           Some e \<Rightarrow>
             if noUpstreamErr e then
               (let r = (if isPristine then ''HEAD~1'' else ''HEAD'');
                    g4 = g3\<lparr>gerr := None, upstream := (upstream g3)\<lparr>ref := r\<rparr>\<rparr>;
                    (h', g5) = g_run exec [''rev-parse'', r] g4
                in g5\<lparr>upstream := (upstream g5)\<lparr>hash := h'\<rparr>\<rparr>)
             else g3
         | None \<Rightarrow>
             (let (r, g4) = g_run exec [''rev-parse'', ''--abbrev-ref=strict'', ''--symbolic-full-name'', ''@'' @ ''{u}''] g3
              in g4\<lparr>upstream := (upstream g4)\<lparr>ref := r\<rparr>\<rparr>))"

definition g_init :: "gitExec \<Rightarrow> gitCheckout \<Rightarrow> gitCheckout" where
  "g_init exec g =
     (let (h, g1) = g_run exec [''rev-parse'', ''HEAD''] g;
          g2 = g1\<lparr>head := (head g1)\<lparr>hash := h\<rparr>\<rparr>;
          (r, g3) = g_run exec [''rev-parse'', ''--abbrev-ref=strict'', ''--symbolic-full-name'', ''HEAD''] g2;
          g4 = g3\<lparr>head := (head g3)\<lparr>ref := r\<rparr>\<rparr>
      in if gerr g4 \<noteq> None then g4 else initUpstream exec g4)"

section \<open>Which files count\<close>

definition gitModeSymlink :: string where "gitModeSymlink = ''120000''"
definition gitModeSubmodule :: string where "gitModeSubmodule = ''160000''"

datatype lstatRes = LstatErr err | LstatSymlink | LstatOther

text \<open>
  What filepath.WalkDir shows its callback, in order: the path, whether reading it failed, whether
  it is a directory and whether it is a symbolic link.
\<close>

record walkEntry =
  walkPath :: string
  walkErr :: bool
  walkIsDir :: bool
  walkIsSymlink :: bool

record rawTreeFile =
  rawPath :: string
  isSymlink :: bool

record osView =
  osStat :: "string \<Rightarrow> statRes"
  osLstat :: "string \<Rightarrow> lstatRes"
  osReadFile :: "string \<Rightarrow> string outcome"
  osGit :: gitExec
  osWalk :: "string \<Rightarrow> walkEntry list"
  sortFiles :: "scmFile list \<Rightarrow> scmFile list"
  sortRaw :: "rawTreeFile list \<Rightarrow> rawTreeFile list"

definition shouldIncludeFile ::
    "osView \<Rightarrow> string \<Rightarrow> fileFilter \<Rightarrow> string \<Rightarrow> string \<Rightarrow> string \<Rightarrow> bool outcome" where
  "shouldIncludeFile os root flt path act gitMode =
     (if gitMode = gitModeSubmodule then Ok False
      else if act = ''D'' \<and> \<not> includeDeleted flt then Ok False
      else if gitMode = gitModeSymlink then
        (if \<not> includeSymlinks flt then Ok False
         else if act \<noteq> ''D'' then
           (case osStat os (PathJoin [root, path]) of
              StatErr e \<Rightarrow> if isNotExist e then Ok False else Err e
            | StatDir \<Rightarrow> Ok False
            | StatFile \<Rightarrow> Ok True)
         else Ok True)
      else Ok True)"

section \<open>Parsing git diff --raw -z\<close>

text \<open>
  One record is a metadata field and a path, each ended by a NUL byte; a copy or a rename has a
  second path, the new one. Without a path the parse ends, well if what is left is a warning.
\<close>

datatype rawRecord =
  RawDone | RawBad err
  | RawEntry string string string string string \<comment> \<open>srcMode dstMode action path rest\<close>

definition rawFinish :: "string \<Rightarrow> string \<Rightarrow> rawRecord" where
  "rawFinish up o' =
     (if HasPrefix o' ''warning:'' then RawDone
      else RawBad (Errorf ''missing trailing NUL character from git diff --raw -z -C %s'' [FStr up]))"

definition rawNext :: "string \<Rightarrow> string \<Rightarrow> rawRecord" where
  "rawNext up o0 =
     (case CutByte NUL o0 of
        None \<Rightarrow> rawFinish up o0
      | Some (meta, o1) \<Rightarrow>
          (let parts = Fields meta
           in if length parts < 5
              then RawBad (Errorf ''invalid git diff --raw output: %q'' [FStr meta])
              else
                let srcMode = drop 1 (parts ! 0); dstMode = parts ! 1; act = take 1 (parts ! 4)
                in case CutByte NUL o1 of
                     None \<Rightarrow> rawFinish up o1
                   | Some (path1, o2) \<Rightarrow>
                       (let (path, o3) =
                          (if act = ''C'' \<or> act = ''R''
                           then (case CutByte NUL o2 of Some (p, r) \<Rightarrow> (p, r) | None \<Rightarrow> ([], o2))
                           else (path1, o2))
                        in if path = [] then rawFinish up o3
                           else RawEntry srcMode dstMode act path o3)))"

lemma rawNext_shorter: "rawNext up o0 = RawEntry a b c d rest \<Longrightarrow> length rest < length o0"
  by (auto simp: rawNext_def rawFinish_def Let_def split: option.splits if_splits prod.splits
      dest!: CutByte_length)

text \<open>The files found so far are returned with the error that stopped the loop, if any.\<close>

function trackedLoop ::
    "osView \<Rightarrow> string \<Rightarrow> string \<Rightarrow> fileFilter \<Rightarrow> string \<Rightarrow> scmFile list \<times> err option" where
  "trackedLoop os root up flt o0 =
     (if o0 = [] then ([], None)
      else case rawNext up o0 of
          RawDone \<Rightarrow> ([], None)
        | RawBad e \<Rightarrow> ([], Some e)
        | RawEntry srcMode dstMode act path rest \<Rightarrow>
            (case shouldIncludeFile os root flt path act (if act = ''D'' then srcMode else dstMode) of
               Err e \<Rightarrow> ([], Some e)
             | Panic m \<Rightarrow> ([], Some (ErrOther m))
             | Ok inc \<Rightarrow>
                 (let (fs, e) = trackedLoop os root up flt rest
                  in (if inc then FileImpl path act # fs else fs, e))))"
  by pat_completeness auto
termination
  by (relation "measure (\<lambda>(os, root, up, flt, o0). length o0)") (auto dest: rawNext_shorter)

declare trackedLoop.simps [simp del]

definition affectedTrackedFiles ::
    "osView \<Rightarrow> fileFilter \<Rightarrow> gitCheckout \<Rightarrow> scmFile list \<times> gitCheckout" where
  "affectedTrackedFiles os flt g =
     (let (o0, g1) = g_run (osGit os) [''diff'', ''--raw'', ''-z'', ''-C'', hash (upstream g)] g;
          (fs, e) = trackedLoop os (checkoutRoot g1) (hash (upstream g1)) flt o0
      in (fs, if e = None then g1 else g1\<lparr>gerr := e\<rparr>))"

section \<open>The listings\<close>

text \<open>
  A listing is what a Go function returns as its files and its error: both, because the callers
  see both. The output of a -z listing ends with a NUL byte, which the code cuts off before it
  splits.
\<close>

datatype listing = Files "scmFile list" "err option" | FilesPanic string

definition toListing :: "scmFile list outcome \<Rightarrow> listing" where
  "toListing r = (case r of Ok fs \<Rightarrow> Files fs None | Err e \<Rightarrow> Files [] (Some e) | Panic m \<Rightarrow> FilesPanic m)"

definition zItems :: "string \<Rightarrow> string list outcome" where
  "zItems o0 = bindO (goTo o0 (int (length o0) - 1)) (\<lambda>t. Ok (Split t NUL))"

definition lstatMode :: "lstatRes \<Rightarrow> string" where
  "lstatMode r = (if r = LstatSymlink then gitModeSymlink else [])"

fun untrackedLoop :: "osView \<Rightarrow> string \<Rightarrow> fileFilter \<Rightarrow> string list \<Rightarrow> scmFile list outcome" where
  "untrackedLoop os root flt [] = Ok []"
| "untrackedLoop os root flt (path # items) =
     (case osLstat os (PathJoin [root, path]) of
        LstatErr e \<Rightarrow> if isNotExist e then untrackedLoop os root flt items else Err e
      | r \<Rightarrow>
          bindO (shouldIncludeFile os root flt path ''A'' (lstatMode r)) (\<lambda>inc.
          bindO (untrackedLoop os root flt items) (\<lambda>fs.
            Ok (if inc then FileImpl path ''A'' # fs else fs))))"

definition untrackedFiles ::
    "osView \<Rightarrow> fileFilter \<Rightarrow> gitCheckout \<Rightarrow> scmFile list outcome \<times> gitCheckout" where
  "untrackedFiles os flt g =
     (let (o0, g1) = g_run (osGit os) [''ls-files'', ''-z'', ''--others'', ''--exclude-standard''] g
      in (bindO (if o0 = [] then Ok [] else zItems o0) (untrackedLoop os (checkoutRoot g1) flt), g1))"

text \<open>The actions of the affected files, keyed by path; a path listed twice keeps its last action.\<close>

definition affectedActions :: "scmFile list \<Rightarrow> string \<Rightarrow> string" where
  "affectedActions fs p =
     (case map_of (rev (map (\<lambda>f. (rootedpath f, action f)) fs)) p of None \<Rightarrow> [] | Some a \<Rightarrow> a)"

abbreviation TAB :: char where "TAB \<equiv> CHR 0x09"

fun allLoop ::
    "osView \<Rightarrow> string \<Rightarrow> fileFilter \<Rightarrow> (string \<Rightarrow> string) \<Rightarrow> string list \<Rightarrow> scmFile list outcome" where
  "allLoop os root flt acts [] = Ok []"
| "allLoop os root flt acts (item # items) =
     (case CutByte TAB item of
        Some (meta, path) \<Rightarrow>
          bindO (goIndex (Fields meta) 0) (\<lambda>gitMode.
          bindO (shouldIncludeFile os root flt path (acts path) gitMode) (\<lambda>inc.
          bindO (allLoop os root flt acts items) (\<lambda>fs.
            Ok (if inc then FileImpl path (acts path) # fs else fs))))
      | None \<Rightarrow>
          (case osLstat os (PathJoin [root, item]) of
             LstatErr e \<Rightarrow> if isNotExist e then allLoop os root flt acts items else Err e
           | r \<Rightarrow>
               bindO (shouldIncludeFile os root flt item (acts item) (lstatMode r)) (\<lambda>inc.
               bindO (allLoop os root flt acts items) (\<lambda>fs.
                 Ok (if inc then FileImpl item (acts item) # fs else fs)))))"

definition git_allFiles :: "osView \<Rightarrow> fileFilter \<Rightarrow> gitCheckout \<Rightarrow> listing \<times> gitCheckout" where
  "git_allFiles os flt g =
     (let (o0, g1) = g_run (osGit os)
            [''ls-files'', ''-z'', ''--stage'', ''--cached'', ''--others'', ''--exclude-standard''] g
      in if gerr g1 \<noteq> None then (Files [] (gerr g1), g1)
         else
           let (affected, g2) = affectedTrackedFiles os
                 \<lparr>includeDeleted = True, includeSymlinks = includeSymlinks flt\<rparr> g1
           in if gerr g2 \<noteq> None then (Files [] (gerr g2), g2)
              else (toListing (bindO (zItems o0) (\<lambda>items.
                      bindO (allLoop os (checkoutRoot g2) flt (affectedActions affected) items)
                        (\<lambda>all. Ok (sortFiles os all)))), g2))"

definition git_affectedFiles :: "osView \<Rightarrow> fileFilter \<Rightarrow> gitCheckout \<Rightarrow> listing \<times> gitCheckout" where
  "git_affectedFiles os flt g =
     (if returnAll g then git_allFiles os flt g
      else
        let (modified, g1) = affectedTrackedFiles os flt g
        in if gerr g1 \<noteq> None then (Files [] (gerr g1), g1)
           else
             let (r, g2) = untrackedFiles os flt g1
             in case r of
                  Ok untracked \<Rightarrow> (Files (sortFiles os (modified @ untracked)) (gerr g2), g2)
                | Err e \<Rightarrow> (Files [] (Some e), g2)
                | Panic m \<Rightarrow> (FilesPanic m, g2))"

section \<open>New lines of a file\<close>

text \<open>The header of a diff ends with the line that starts with "+++ "; a diff without one has no new lines.\<close>

function skipHeader :: "string \<Rightarrow> string option" where
  "skipHeader o0 =
     (if o0 = [] then Some []
      else case CutByte NL o0 of
          None \<Rightarrow> None
        | Some (l, rest) \<Rightarrow> if HasPrefix o0 ''+++ '' then Some rest else skipHeader rest)"
  by pat_completeness auto
termination
  by (relation "measure length") (auto dest: CutByte_length)

declare skipHeader.simps [simp del]

text \<open>The first new line of a hunk: the number after "+" in "@@ -a,b +c,d @@".\<close>

definition hunkStart :: "string \<Rightarrow> int outcome" where
  "hunkStart l =
     (let r = drop 3 l;
          l1 = (case CutByte CHR '' '' r of Some (a, b) \<Rightarrow> b | None \<Rightarrow> r)
      in case CutByte CHR '' '' l1 of
           None \<Rightarrow> Panic ''slice bounds out of range''
         | Some (a, _) \<Rightarrow>
             if a = [] then Panic ''slice bounds out of range''
             else
               let n = tl a;
                   n' = (case CutByte CHR '','' n of Some (x, _) \<Rightarrow> if x = [] then n else x | None \<Rightarrow> n)
               in case Atoi n' of None \<Rightarrow> Panic ''invalid hunk'' | Some k \<Rightarrow> Ok k)"

definition noNewlineMark :: string where
  "noNewlineMark = CHR 0x5C # '' No newline at end of file''"

fun diffLines :: "int \<Rightarrow> string list \<Rightarrow> (int \<times> string) list outcome" where
  "diffLines cur [] = Ok []"
| "diffLines cur (l # ls) =
     (if HasPrefix l ''@@ '' then bindO (hunkStart l) (\<lambda>k. diffLines k ls)
      else if HasPrefix l ''+'' then bindO (diffLines (cur + 1) ls) (\<lambda>res. Ok ((cur, tl l) # res))
      else if \<not> HasPrefix l ''-'' \<and> l \<noteq> noNewlineMark \<and> l \<noteq> [] then Panic ''unexpected line''
      else diffLines cur ls)"

definition diffNewLines :: "string \<Rightarrow> (int \<times> string) list outcome" where
  "diffNewLines o0 =
     (case skipHeader o0 of None \<Rightarrow> Ok [] | Some body \<Rightarrow> diffLines 0 (Split body NL))"

definition git_newLines ::
    "osView \<Rightarrow> scmFile \<Rightarrow> gitCheckout \<Rightarrow> (int \<times> string) list outcome \<times> gitCheckout" where
  "git_newLines os f g =
     (if returnAll g then (newLinesWhole (osReadFile os) (checkoutRoot g) (rootedpath f), g)
      else if action f = ''D'' then (Ok [], g)
      else
        let (o0, g1) = g_run (osGit os) [''diff'', ''--no-prefix'', ''-C'', ''-U0'', ''--no-ext-diff'',
               ''--irreversible-delete'', hash (upstream g), ''--'', rootedpath f] g
        in if o0 = [] then
             (case gerr g1 of
                Some e \<Rightarrow> (Err e, g1)
              | None \<Rightarrow> (newLinesWhole (osReadFile os) (checkoutRoot g1) (rootedpath f), g1))
           else (diffNewLines o0, g1))"

section \<open>Commits\<close>

record scmCommit =
  commitHash :: string
  commitMessage :: string

fun commitLoop :: "string list \<Rightarrow> scmCommit list" where
  "commitLoop [] = []"
| "commitLoop (p # ps) =
     (if p = [] then commitLoop ps
      else case CutByte NL p of
          None \<Rightarrow> commitLoop ps
        | Some (h, m) \<Rightarrow> \<lparr>commitHash = h, commitMessage = m\<rparr> # commitLoop ps)"

definition git_commits :: "osView \<Rightarrow> gitCheckout \<Rightarrow> scmCommit list outcome \<times> gitCheckout" where
  "git_commits os g =
     (case gerr g of
        Some e \<Rightarrow> (Err e, g)
      | None \<Rightarrow>
          (let (o0, g1) = g_run (osGit os)
                 [''log'', ''--format=%H%n%B'', ''-z'', hash (upstream g) @ ''..'' @ hash (head g)] g
           in case gerr g1 of
                Some e \<Rightarrow> (Err e, g1)
              | None \<Rightarrow> (Ok (if o0 = [] then [] else commitLoop (Split o0 NUL)), g1)))"

section \<open>What git prints, parsed back\<close>

text \<open>
  A record of "git diff --raw -z" as git documents it: ":", the modes and the object names, the
  status, the path, and for a copy or a rename the new path.
\<close>

record rawItem =
  riSrcMode :: string
  riDstMode :: string
  riSrcSha :: string
  riDstSha :: string
  riStatus :: string
  riPath :: string
  riNewPath :: string

definition riAction :: "rawItem \<Rightarrow> string" where
  "riAction r = take 1 (riStatus r)"

definition riMoved :: "rawItem \<Rightarrow> bool" where
  "riMoved r \<longleftrightarrow> riAction r = ''C'' \<or> riAction r = ''R''"

definition riMeta :: "rawItem \<Rightarrow> string list" where
  "riMeta r = [CHR '':'' # riSrcMode r, riDstMode r, riSrcSha r, riDstSha r, riStatus r]"

definition renderRaw :: "rawItem \<Rightarrow> string" where
  "renderRaw r = Join (riMeta r) '' '' @ [NUL] @ riPath r @ [NUL] @
     (if riMoved r then riNewPath r @ [NUL] else [])"

definition riTarget :: "rawItem \<Rightarrow> string" where
  "riTarget r = (if riMoved r then riNewPath r else riPath r)"

definition riMode :: "rawItem \<Rightarrow> string" where
  "riMode r = (if riAction r = ''D'' then riSrcMode r else riDstMode r)"

definition wfRaw :: "rawItem \<Rightarrow> bool" where
  "wfRaw r \<longleftrightarrow> list_all (\<lambda>t. t \<noteq> [] \<and> list_all solid t) (riMeta r) \<and>
     riTarget r \<noteq> [] \<and> NUL \<notin> set (riPath r) \<and> NUL \<notin> set (riNewPath r)"

lemma solid_not_NUL: "list_all solid t \<Longrightarrow> NUL \<notin> set t"
  by (auto simp: list_all_iff solid_def)

lemma riMeta_no_NUL: "wfRaw r \<Longrightarrow> NUL \<notin> set (Join (riMeta r) '' '')"
  using solid_not_NUL by (auto simp: wfRaw_def riMeta_def)

lemma renderRaw_ends [simp]:
  "renderRaw r \<noteq> []" "last (renderRaw r) = NUL" "solid (hd (renderRaw r))"
  by (simp_all add: renderRaw_def riMeta_def solid_def)

lemma rawNext_render:
  assumes "wfRaw r"
  shows "rawNext up (renderRaw r @ rest) =
    RawEntry (riSrcMode r) (riDstMode r) (riAction r) (riTarget r) rest"
proof -
  have flds: "Fields (Join (riMeta r) '' '') = riMeta r"
    using assms by (intro Fields_Join) (auto simp: wfRaw_def list_all_iff)
  have cut: "CutByte NUL (renderRaw r @ rest) = Some (Join (riMeta r) '' '',
      riPath r @ NUL # (if riMoved r then riNewPath r @ NUL # rest else rest))"
    using riMeta_no_NUL[OF assms] by (auto simp: renderRaw_def)
  have paths: "NUL \<notin> set (riPath r)" "NUL \<notin> set (riNewPath r)" "riTarget r \<noteq> []"
    using assms by (auto simp: wfRaw_def)
  have meta: "length (riMeta r) = 5" "drop (Suc 0) (riMeta r ! 0) = riSrcMode r"
    "riMeta r ! Suc 0 = riDstMode r" "take (Suc 0) (riMeta r ! 4) = riAction r"
    by (simp_all add: riMeta_def riAction_def)
  show ?thesis
    using paths by (auto simp: rawNext_def cut flds meta riMoved_def riTarget_def Let_def)
qed

definition rawIncluded :: "osView \<Rightarrow> string \<Rightarrow> fileFilter \<Rightarrow> rawItem \<Rightarrow> bool outcome" where
  "rawIncluded os root flt r = shouldIncludeFile os root flt (riTarget r) (riAction r) (riMode r)"

lemma trackedLoop_render:
  assumes "list_all wfRaw rs" and "\<forall>r \<in> set rs. isOk (rawIncluded os root flt r)"
  shows "trackedLoop os root up flt (concat (map renderRaw rs)) =
    (map (\<lambda>r. FileImpl (riTarget r) (riAction r)) (filter (\<lambda>r. rawIncluded os root flt r = Ok True) rs), None)"
  using assms
proof (induction rs)
  case Nil
  then show ?case by (simp add: trackedLoop.simps)
next
  case (Cons r rs)
  have wf: "wfRaw r" using Cons.prems by simp
  obtain inc where inc: "rawIncluded os root flt r = Ok inc"
    using Cons.prems(2) by (auto simp: isOk_iff)
  have "trackedLoop os root up flt (renderRaw r @ concat (map renderRaw rs)) =
      (let (fs, e) = trackedLoop os root up flt (concat (map renderRaw rs))
       in (if inc then FileImpl (riTarget r) (riAction r) # fs else fs, e))"
    using inc
    by (subst trackedLoop.simps) (simp add: rawNext_render[OF wf] rawIncluded_def riMode_def)
  then show ?case using Cons inc by simp
qed

lemma renderRaw_trim: "list_all wfRaw rs \<Longrightarrow>
  TrimSpace (concat (map renderRaw rs)) = concat (map renderRaw rs)"
proof (cases rs)
  case (Cons r rs')
  have "concat (map renderRaw xs) \<noteq> [] \<longrightarrow> last (concat (map renderRaw xs)) = NUL" for xs
    by (induction xs) (auto simp: last_append)
  then show ?thesis using Cons by (intro TrimSpace_NUL) (auto simp: last_append simp del: concat_eq_Nil_conv)
qed simp

text \<open>The newline that git ends its output with is trimmed, and nothing else where the rest ends solid.\<close>

lemma TrimSpace_NL:
  assumes "s \<noteq> []" and "solid (hd s)" and "solid (last s)"
  shows "TrimSpace (s @ [NL]) = s"
proof -
  have "trimLeft spaceSeqs (s @ [NL]) = s @ [NL]" using assms(1,2) by (cases s) auto
  moreover have "spaceAt (map rev spaceSeqs) (NL # rev s) = 1" by (simp add: spaceAt_def spaceSeqs_def HasPrefix_def)
  then have "trimLeft (map rev spaceSeqs) (NL # rev s) = trimLeft (map rev spaceSeqs) (rev s)"
    by (subst trimLeft.simps) simp
  moreover have "trimLeft (map rev spaceSeqs) (rev s) = rev s" using assms(1,3) by (cases s rule: rev_cases) auto
  ultimately show ?thesis by (simp add: TrimSpace_def)
qed

section \<open>New lines read off a diff\<close>

text \<open>
  A hunk of "git diff -U0" as git prints it: where it starts on both sides, the removed and the added
  lines, whether each side ends the file without a newline, and the section heading behind the second
  "@@". The count of a range is left out where it is 1.
\<close>

record hunk =
  hOldStart :: int
  hNewStart :: int
  hHeading :: string
  hRemoved :: "string list"
  hAdded :: "string list"
  hOldOpen :: bool
  hNewOpen :: bool

definition rangeText :: "int \<Rightarrow> nat \<Rightarrow> string" where
  "rangeText start n = Itoa start @ (if n = 1 then [] else CHR '','' # Itoa (int n))"

definition hunkLines :: "hunk \<Rightarrow> string list" where
  "hunkLines h =
     (''@@ -'' @ rangeText (hOldStart h) (length (hRemoved h)) @
      '' +'' @ rangeText (hNewStart h) (length (hAdded h)) @ '' @@'' @ hHeading h) #
     map (Cons CHR ''-'') (hRemoved h) @ (if hOldOpen h then [noNewlineMark] else []) @
     map (Cons CHR ''+'') (hAdded h) @ (if hNewOpen h then [noNewlineMark] else [])"

definition hunkNew :: "hunk \<Rightarrow> (int \<times> string) list" where
  "hunkNew h = zip (map (\<lambda>k. hNewStart h + int k) [0..<length (hAdded h)]) (hAdded h)"

definition wfHunk :: "hunk \<Rightarrow> bool" where
  "wfHunk h \<longleftrightarrow> 0 \<le> hOldStart h \<and> 0 \<le> hNewStart h \<and> hNewStart h \<le> maxInt"

lemma Itoa_chars: "c \<in> set (Itoa n) \<Longrightarrow> isDigit c \<or> c = CHR ''-''"
  by (auto simp: Itoa_def dest: natDigits_isDigit split: if_splits)

lemma Itoa_free [simp]: "CHR '' '' \<notin> set (Itoa n)" "CHR '','' \<notin> set (Itoa n)" "NL \<notin> set (Itoa n)"
  using Itoa_chars by (fastforce simp: isDigit_def)+

lemma Itoa_ne [simp]: "Itoa n \<noteq> []"
  by (simp add: Itoa_def)

lemma rangeText_free [simp]: "CHR '' '' \<notin> set (rangeText start n)" "NL \<notin> set (rangeText start n)"
  by (simp_all add: rangeText_def)

lemma rangeText_start:
  "(case CutByte CHR '','' (rangeText start n) of Some (x, y) \<Rightarrow> if x = [] then rangeText start n else x
    | None \<Rightarrow> rangeText start n) = Itoa start"
  using CutByte_append[of "CHR '',''" "Itoa start" "Itoa (int n)"] CutByte_None[of "CHR '',''" "Itoa start"]
  by (auto simp: rangeText_def split: option.splits)

lemma hunkStart_render: "wfHunk h \<Longrightarrow> hunkStart (hd (hunkLines h)) = Ok (hNewStart h)"
proof -
  assume wf: "wfHunk h"
  let ?old = "CHR ''-'' # rangeText (hOldStart h) (length (hRemoved h))"
  let ?new = "rangeText (hNewStart h) (length (hAdded h))"
  have l: "drop 3 (hd (hunkLines h)) = ?old @ CHR '' '' # (CHR ''+'' # ?new) @ CHR '' '' # ''@@'' @ hHeading h"
    by (simp add: hunkLines_def)
  have "CutByte CHR '' '' (?old @ CHR '' '' # (CHR ''+'' # ?new) @ CHR '' '' # ''@@'' @ hHeading h) =
      Some (?old, (CHR ''+'' # ?new) @ CHR '' '' # ''@@'' @ hHeading h)"
    by (rule CutByte_append) simp
  moreover have "CutByte CHR '' '' ((CHR ''+'' # ?new) @ CHR '' '' # ''@@'' @ hHeading h) =
      Some (CHR ''+'' # ?new, ''@@'' @ hHeading h)"
    by (rule CutByte_append) simp
  moreover note rangeText_start[of "hNewStart h" "length (hAdded h)"]
  moreover have "Atoi (Itoa (hNewStart h)) = Some (hNewStart h)"
    using wf by (intro Atoi_Itoa) (auto simp: wfHunk_def)
  ultimately show ?thesis unfolding hunkStart_def l by (simp del: append_Cons)
qed

lemma diffLines_mark: "diffLines k ((if b then [noNewlineMark] else []) @ rest) = diffLines k rest"
  by (simp add: noNewlineMark_def HasPrefix_def)

lemma diffLines_removed: "diffLines k (map (Cons CHR ''-'') ls @ rest) = diffLines k rest"
  by (induction ls) (auto simp: HasPrefix_def)

lemma diffLines_added:
  "diffLines k (map (Cons CHR ''+'') ls @ rest) =
     bindO (diffLines (k + int (length ls)) rest)
       (\<lambda>res. Ok (zip (map (\<lambda>i. k + int i) [0..<length ls]) ls @ res))"
proof (induction ls arbitrary: k)
  case Nil
  show ?case by (cases "diffLines k rest") auto
next
  case (Cons l ls)
  have upt: "[0..<length (l # ls)] = 0 # map Suc [0..<length ls]"
    by (simp add: map_Suc_upt upt_conv_Cons del: upt_Suc)
  show ?case
    unfolding upt using Cons
    by (simp add: HasPrefix_def bindO_assoc comp_def add.assoc del: upt_Suc)
qed

lemma diffLines_hunks:
  assumes "list_all wfHunk hs"
  shows "diffLines k (concat (map hunkLines hs)) = Ok (concat (map hunkNew hs))"
  using assms
proof (induction hs arbitrary: k)
  case Nil
  then show ?case by simp
next
  case (Cons h hs)
  let ?rest = "map (Cons CHR ''-'') (hRemoved h) @ (if hOldOpen h then [noNewlineMark] else []) @
    map (Cons CHR ''+'') (hAdded h) @ (if hNewOpen h then [noNewlineMark] else [])"
  have tl: "hunkLines h = hd (hunkLines h) # ?rest" by (simp add: hunkLines_def)
  have pre: "HasPrefix (hd (hunkLines h)) ''@@ ''" by (simp add: hunkLines_def HasPrefix_def)
  have "diffLines k (hunkLines h @ rest) =
      bindO (hunkStart (hd (hunkLines h))) (\<lambda>k. diffLines k (?rest @ rest))" for rest
    by (subst tl) (simp only: append_Cons diffLines.simps pre if_True)
  then show ?case
    using Cons hunkStart_render[of h] by (simp only: append_assoc diffLines_removed diffLines_added diffLines_mark
        hunkNew_def concat.simps list.map bindO.simps list.pred_inject simp_thms)
qed

lemma skipHeader_lines:
  assumes "\<And>l. l \<in> set hdr \<Longrightarrow> NL \<notin> set l \<and> \<not> HasPrefix (l @ [NL]) ''+++ ''" and "NL \<notin> set p"
  shows "skipHeader (concat (map (\<lambda>l. l @ [NL]) hdr) @ ''+++ '' @ p @ NL # body) = Some body"
  using assms
proof (induction hdr)
  case Nil
  have "CutByte NL ((''+++ '' @ p) @ NL # body) = Some (''+++ '' @ p, body)"
    using Nil by (intro CutByte_append) auto
  then show ?case by (subst skipHeader.simps) (simp add: HasPrefix_def)
next
  case (Cons l hdr)
  let ?rest = "concat (map (\<lambda>l. l @ [NL]) hdr) @ ''+++ '' @ p @ NL # body"
  have l: "NL \<notin> set l" "\<not> HasPrefix (l @ [NL]) ''+++ ''" using Cons.prems(1) by auto
  have cut: "CutByte NL (l @ NL # ?rest) = Some (l, ?rest)" using l(1) by (intro CutByte_append)
  have "\<not> HasPrefix (l @ NL # ?rest) ''+++ ''"
  proof
    assume "HasPrefix (l @ NL # ?rest) ''+++ ''"
    then obtain t where t: "l @ NL # ?rest = ''+++ '' @ t" by (rule HasPrefixE)
    then have "4 \<le> length l"
      using l(1) by (cases l; cases "tl l"; cases "tl (tl l)"; cases "tl (tl (tl l))") auto
    then have "take 4 (l @ [NL]) = take 4 (l @ NL # ?rest)" by simp
    moreover have "take 4 (l @ NL # ?rest) = ''+++ ''" unfolding t by simp
    ultimately have "take 4 (l @ [NL]) = ''+++ ''" by simp
    then show False using l(2) \<open>4 \<le> length l\<close> by (simp add: HasPrefix_def eval_nat_numeral)
  qed
  then have "skipHeader (l @ NL # ?rest) = skipHeader ?rest"
    using cut by (subst skipHeader.simps) simp
  then show ?case using Cons.IH Cons.prems by simp
qed

section \<open>Properties\<close>

definition rawDiffArgs :: "gitCheckout \<Rightarrow> string list" where
  "rawDiffArgs g = [''--no-optional-locks'', ''diff'', ''--raw'', ''-z'', ''-C'', hash (upstream g)]"

text \<open>C17. Whatever list of records git prints for "git diff --raw -z -C", the parser reads back
  exactly these: every record that the filter includes gives one file with its target path (the
  new path of a copy or a rename) and its action, in the order printed, and no error is recorded.\<close>

theorem git_tracked_roundtrip:
  assumes "list_all wfRaw rs" and "\<forall>r \<in> set rs. isOk (rawIncluded os (checkoutRoot g) flt r)"
    and "gerr g = None"
    and "osGit os (checkoutRoot g) (rawDiffArgs g) = ExecOk (concat (map renderRaw rs))"
  shows "affectedTrackedFiles os flt g =
    (map (\<lambda>r. FileImpl (riTarget r) (riAction r))
       (filter (\<lambda>r. rawIncluded os (checkoutRoot g) flt r = Ok True) rs), g)"
proof -
  have "g_run (osGit os) [''diff'', ''--raw'', ''-z'', ''-C'', hash (upstream g)] g =
      (concat (map renderRaw rs), g)"
    using assms(1,3,4) renderRaw_trim by (simp add: g_run_def runGitCmd_def rawDiffArgs_def)
  then show ?thesis
    using assms(1,2) by (simp add: affectedTrackedFiles_def trackedLoop_render)
qed

text \<open>Errors of git stick: once one is recorded, no operation runs git any more, and the
  listings and the commits return that same error and leave the checkout as it was.\<close>

theorem git_error_sticky:
  assumes "gerr g = Some e"
  shows "g_run exec args g = ([], g) \<and> git_allFiles os flt g = (Files [] (Some e), g) \<and>
    git_affectedFiles os flt g = (Files [] (Some e), g) \<and> git_commits os g = (Err e, g)"
proof -
  have run: "g_run exec args g = ([], g)" for exec args using assms by (simp add: g_run_def)
  moreover have all: "git_allFiles os flt g = (Files [] (Some e), g)" for flt
    using assms run by (simp add: git_allFiles_def)
  moreover have "git_affectedFiles os flt g = (Files [] (Some e), g)"
    using assms run all by (simp add: git_affectedFiles_def affectedTrackedFiles_def trackedLoop.simps)
  moreover have "git_commits os g = (Err e, g)" using assms by (simp add: git_commits_def)
  ultimately show ?thesis by blast
qed

text \<open>A diff as git prints it: the lines of the header, the path of the new file, the hunks.\<close>

definition diffText :: "string list \<Rightarrow> string \<Rightarrow> hunk list \<Rightarrow> string" where
  "diffText hdr p hs =
     concat (map (\<lambda>l. l @ [NL]) hdr) @ ''+++ '' @ p @ NL # Join (concat (map hunkLines hs)) [NL]"

lemma git_newLines_diff:
  assumes "\<not> returnAll g" and "action f \<noteq> ''D''" and "gerr g = None" and "d \<noteq> []" and "solid (hd d)" and "solid (last d)"
    and "osGit os (checkoutRoot g) [''--no-optional-locks'', ''diff'', ''--no-prefix'', ''-C'', ''-U0'', ''--no-ext-diff'',
      ''--irreversible-delete'', hash (upstream g), ''--'', rootedpath f] = ExecOk (d @ [NL])"
  shows "git_newLines os f g = (diffNewLines d, g)"
  using assms by (simp add: git_newLines_def g_run_def runGitCmd_def TrimSpace_NL)

text \<open>C19. The lines new_lines() reads off a diff are the added lines of its hunks, each with its
  number in the new file: the header is skipped whatever it holds, removed lines and the marks of a
  missing newline are not counted, a range is read with and without its count, and no added line can
  be taken for a hunk header. For a file that git diff prints such a diff of, new_lines() answers
  these lines, if the diff does not end in white space (the output of git is trimmed).\<close>

theorem diffNewLines_hunks:
  assumes "\<And>l. l \<in> set hdr \<Longrightarrow> NL \<notin> set l \<and> \<not> HasPrefix (l @ [NL]) ''+++ ''" and "NL \<notin> set p"
    and "list_all wfHunk hs" and "hs \<noteq> []"
    and "\<And>h l. h \<in> set hs \<Longrightarrow> l \<in> insert (hHeading h) (set (hRemoved h) \<union> set (hAdded h)) \<Longrightarrow> NL \<notin> set l"
  shows "diffNewLines (diffText hdr p hs) = Ok (concat (map hunkNew hs)) \<and>
    (\<not> returnAll g \<and> action f \<noteq> ''D'' \<and> gerr g = None \<and>
     solid (hd (diffText hdr p hs)) \<and> solid (last (diffText hdr p hs)) \<and>
     osGit os (checkoutRoot g) [''--no-optional-locks'', ''diff'', ''--no-prefix'', ''-C'', ''-U0'', ''--no-ext-diff'',
       ''--irreversible-delete'', hash (upstream g), ''--'', rootedpath f] = ExecOk (diffText hdr p hs @ [NL]) \<longrightarrow>
     git_newLines os f g = (Ok (concat (map hunkNew hs)), g))"
proof -
  have "concat (map hunkLines hs) \<noteq> []" using assms(4) by (cases hs) (auto simp: hunkLines_def)
  moreover have "NL \<notin> set l" if l: "l \<in> set (concat (map hunkLines hs))" for l
    using l assms(5) by (auto simp: hunkLines_def noNewlineMark_def split: if_splits)
  ultimately have "Split (Join (concat (map hunkLines hs)) [NL]) NL = concat (map hunkLines hs)"
    by (rule Split_Join)
  moreover have "skipHeader (concat (map (\<lambda>l. l @ [NL]) hdr) @ ''+++ '' @ p @ NL # body) = Some body" for body
    using assms(1,2) by (intro skipHeader_lines) auto
  ultimately have d: "diffNewLines (diffText hdr p hs) = Ok (concat (map hunkNew hs))"
    using assms(3) by (simp only: diffText_def diffNewLines_def option.case diffLines_hunks)
  have "diffText hdr p hs \<noteq> []" by (simp add: diffText_def)
  then show ?thesis using d git_newLines_diff[of g f "diffText hdr p hs" os] by simp
qed

text \<open>What "git log -z --format=%H%n%B" prints for a list of commits.\<close>

definition renderCommits :: "scmCommit list \<Rightarrow> string" where
  "renderCommits cs = concat (map (\<lambda>c. commitHash c @ [NL] @ commitMessage c @ [NUL]) cs)"

definition wfCommit :: "scmCommit \<Rightarrow> bool" where
  "wfCommit c \<longleftrightarrow> list_all solid (commitHash c) \<and> commitHash c \<noteq> [] \<and> NUL \<notin> set (commitMessage c)"

lemma commitLoop_render: "list_all wfCommit cs \<Longrightarrow> commitLoop (Split (renderCommits cs) NUL) = cs"
proof (induction cs)
  case Nil
  then show ?case by (simp add: renderCommits_def)
next
  case (Cons c cs)
  then have wf: "wfCommit c" by simp
  have free: "NUL \<notin> set (commitHash c @ [NL] @ commitMessage c)" "NL \<notin> set (commitHash c)"
    using wf solid_not_NUL by (auto simp: wfCommit_def list_all_iff solid_def)
  have "renderCommits (c # cs) = (commitHash c @ [NL] @ commitMessage c) @ NUL # renderCommits cs"
    by (simp add: renderCommits_def)
  then have "Split (renderCommits (c # cs)) NUL =
      (commitHash c @ [NL] @ commitMessage c) # Split (renderCommits cs) NUL"
    using Split_append[OF free(1)] by simp
  then show ?case using Cons free(2) by simp
qed

text \<open>ctx.scm.commits() gets every commit between the upstream and the head, in git's order,
  with its hash and its whole message, newlines and blank lines included.\<close>

theorem git_commits_roundtrip:
  assumes "list_all wfCommit cs" and "gerr g = None"
    and "osGit os (checkoutRoot g) [''--no-optional-locks'', ''log'', ''--format=%H%n%B'', ''-z'',
      hash (upstream g) @ ''..'' @ hash (head g)] = ExecOk (renderCommits cs)"
  shows "git_commits os g = (Ok cs, g)"
proof -
  have last: "cs \<noteq> [] \<longrightarrow> renderCommits cs \<noteq> [] \<and> last (renderCommits cs) = NUL" for cs
    by (induction cs) (auto simp: renderCommits_def last_append simp del: concat_eq_Nil_conv)
  have "cs \<noteq> [] \<Longrightarrow> solid (hd (renderCommits cs))"
    using assms(1) by (cases cs; cases "commitHash (hd cs)") (auto simp: renderCommits_def wfCommit_def)
  then have "TrimSpace (renderCommits cs) = renderCommits cs"
    using last by (cases "cs = []") (auto simp: renderCommits_def[of "[]"] intro: TrimSpace_NUL)
  then have "g_run (osGit os) [''log'', ''--format=%H%n%B'', ''-z'', hash (upstream g) @ ''..'' @ hash (head g)] g =
      (renderCommits cs, g)"
    using assms(2,3) by (simp add: g_run_def runGitCmd_def)
  moreover have "renderCommits cs = [] \<longrightarrow> cs = []" using last by blast
  ultimately show ?thesis
    using assms(1,2) commitLoop_render by (auto simp: git_commits_def)
qed

text \<open>A checkout where "git ls-files" prints nothing makes all_files() panic: the code cuts the
  last byte off the listing without asking whether it has one.\<close>

theorem git_allFiles_empty_panics:
  assumes "gerr g = None" and "osGit os (checkoutRoot g) (rawDiffArgs g) = ExecOk []"
    and "osGit os (checkoutRoot g) [''--no-optional-locks'', ''ls-files'', ''-z'', ''--stage'', ''--cached'',
      ''--others'', ''--exclude-standard''] = ExecOk []"
  shows "git_allFiles os flt g = (FilesPanic ''slice bounds out of range'', g)"
  using assms by (simp add: git_allFiles_def affectedTrackedFiles_def g_run_def runGitCmd_def
      rawDiffArgs_def trackedLoop.simps zItems_def goSlice_def toListing_def)

section \<open>The properties on concrete checkouts\<close>

definition demoOs :: "gitExec \<Rightarrow> osView" where
  "demoOs git = \<lparr>osStat = (\<lambda>_. StatFile), osLstat = (\<lambda>_. LstatOther), osReadFile = (\<lambda>_. Ok []),
     osGit = git, osWalk = (\<lambda>_. []), sortFiles = sort_key rootedpath, sortRaw = sort_key rawPath\<rparr>"

definition demoGit :: gitCheckout where
  "demoGit = \<lparr>returnAll = False, checkoutRoot = ''/r'', head = \<lparr>hash = ''bb'', ref = ''main''\<rparr>,
     upstream = \<lparr>hash = ''aa'', ref = ''origin/main''\<rparr>, gerr = None\<rparr>"

definition demoRaw :: "rawItem list" where
  "demoRaw =
     [\<lparr>riSrcMode = ''100644'', riDstMode = ''100644'', riSrcSha = ''1'', riDstSha = ''2'', riStatus = ''M'',
       riPath = ''z.go'', riNewPath = []\<rparr>,
      \<lparr>riSrcMode = ''100644'', riDstMode = ''000000'', riSrcSha = ''1'', riDstSha = ''0'', riStatus = ''D'',
       riPath = ''gone'', riNewPath = []\<rparr>,
      \<lparr>riSrcMode = ''100644'', riDstMode = ''100644'', riSrcSha = ''1'', riDstSha = ''1'', riStatus = ''R100'',
       riPath = ''old'', riNewPath = ''new name''\<rparr>]"

lemma demoRaw_wf: "list_all wfRaw demoRaw"
  by (simp add: demoRaw_def wfRaw_def riMeta_def riTarget_def riMoved_def riAction_def solid_def)

theorem git_tracked_roundtrip_witness:
  "affectedTrackedFiles (demoOs (\<lambda>_ _. ExecOk (concat (map renderRaw demoRaw))))
     \<lparr>includeDeleted = False, includeSymlinks = False\<rparr> demoGit =
   ([FileImpl ''z.go'' ''M'', FileImpl ''new name'' ''R''], demoGit)"
proof -
  let ?os = "demoOs (\<lambda>_ _. ExecOk (concat (map renderRaw demoRaw)))"
  let ?flt = "\<lparr>includeDeleted = False, includeSymlinks = False\<rparr>"
  note inc = rawIncluded_def shouldIncludeFile_def riTarget_def riMoved_def riAction_def riMode_def
    gitModeSubmodule_def gitModeSymlink_def
  have "affectedTrackedFiles ?os ?flt demoGit =
      (map (\<lambda>r. FileImpl (riTarget r) (riAction r))
         (filter (\<lambda>r. rawIncluded ?os (checkoutRoot demoGit) ?flt r = Ok True) demoRaw), demoGit)"
    using demoRaw_wf
    by (intro git_tracked_roundtrip) (simp_all add: demoRaw_def inc demoOs_def demoGit_def)
  then show ?thesis by (simp add: demoRaw_def inc)
qed

theorem git_error_sticky_witness:
  "git_affectedFiles (demoOs (\<lambda>_ _. ExecOk ''x'')) \<lparr>includeDeleted = True, includeSymlinks = True\<rparr>
     (demoGit\<lparr>gerr := Some (ErrNotFound ''git'')\<rparr>) =
   (Files [] (Some (ErrNotFound ''git'')), demoGit\<lparr>gerr := Some (ErrNotFound ''git'')\<rparr>)"
  using git_error_sticky[of "demoGit\<lparr>gerr := Some (ErrNotFound ''git'')\<rparr>" "ErrNotFound ''git''"] by simp

definition demoHunks :: "hunk list" where
  "demoHunks =
     [\<lparr>hOldStart = 3, hNewStart = 4, hHeading = '' int f(a, b)'', hRemoved = [''a''], hAdded = [''@@ -1'', ''b''],
       hOldOpen = False, hNewOpen = False\<rparr>,
      \<lparr>hOldStart = 9, hNewStart = 11, hHeading = [], hRemoved = [''x''], hAdded = [''+y''],
       hOldOpen = True, hNewOpen = True\<rparr>]"

theorem diffNewLines_hunks_witness:
  "git_newLines (demoOs (\<lambda>_ _. ExecOk (diffText [''diff --git f f'', ''--- f''] ''f'' demoHunks @ [NL])))
      (FileImpl ''f'' ''M'') demoGit = (Ok [(4, ''@@ -1''), (5, ''b''), (11, ''+y'')], demoGit)"
proof -
  let ?d = "diffText [''diff --git f f'', ''--- f''] ''f'' demoHunks"
  let ?os = "demoOs (\<lambda>_ _. ExecOk (?d @ [NL]))"
  have hdr: "NL \<notin> set l \<and> \<not> HasPrefix (l @ [NL]) ''+++ ''" if "l \<in> set [''diff --git f f'', ''--- f'']" for l
    using that by (auto simp: HasPrefix_def)
  have wf: "list_all wfHunk demoHunks" "demoHunks \<noteq> []" by (simp_all add: demoHunks_def wfHunk_def)
  have free: "NL \<notin> set l" if "h \<in> set demoHunks" "l \<in> insert (hHeading h) (set (hRemoved h) \<union> set (hAdded h))" for h l
    using that by (auto simp: demoHunks_def)
  have ends: "solid (hd ?d)" "solid (last ?d)"
    by (simp_all add: diffText_def demoHunks_def hunkLines_def noNewlineMark_def solid_def)
  have "concat (map hunkNew demoHunks) = [(4, ''@@ -1''), (5, ''b''), (11, ''+y'')]"
    by (simp add: hunkNew_def demoHunks_def upt_rec numeral_eq_Suc)
  then show ?thesis
    using diffNewLines_hunks[where hdr = "[''diff --git f f'', ''--- f'']" and hs = demoHunks and p = "''f''" and g = demoGit and f = "FileImpl ''f'' ''M''" and os = ?os, OF hdr _ wf free] ends
    by (simp add: demoGit_def) (simp add: demoOs_def)
qed

definition demoCommits :: "scmCommit list" where
  "demoCommits = [\<lparr>commitHash = ''bb'', commitMessage = ''fix'' @ [NL, NL] @ ''body'' @ [NL]\<rparr>,
     \<lparr>commitHash = ''ab'', commitMessage = [NL]\<rparr>]"

theorem git_commits_roundtrip_witness:
  "git_commits (demoOs (\<lambda>_ _. ExecOk (renderCommits demoCommits))) demoGit = (Ok demoCommits, demoGit)"
  by (rule git_commits_roundtrip) (simp_all add: demoCommits_def wfCommit_def solid_def demoGit_def demoOs_def)

theorem git_allFiles_empty_panics_witness:
  "git_allFiles (demoOs (\<lambda>_ _. ExecOk [])) \<lparr>includeDeleted = True, includeSymlinks = True\<rparr> demoGit =
     (FilesPanic ''slice bounds out of range'', demoGit)"
  by (rule git_allFiles_empty_panics) (simp_all add: demoGit_def demoOs_def)

text \<open>
  The output of git is trimmed as a whole, so white space at the end of the last added line is
  lost: the line below has two blanks at its end, and the check sees none.
\<close>

lemma new_lines_lose_trailing_blanks:
  "runGitCmd (\<lambda>_ _. ExecOk (''+a  '' @ [NL])) ''/r'' [''diff''] = Ok ''+a''"
  by (simp add: runGitCmd_def TrimSpace_def trimLeft.simps spaceAt_def spaceSeqs_def HasPrefix_def)

end
