(* ===== verification/Scm.thy ===== *)
theory Scm
  imports Git_Scm
begin

text \<open>
  The checkouts of internal/engine/runtime_ctx_scm.go other than git, how they wrap each other
  (a directory tree without version control, one in-memory file, files named on the command
  line, ignore patterns, a subdirectory, a cache), getSCM() and the ctx.scm functions. The
  interface scmCheckout promises that "Returned files must be sorted"; the locale
  \<open>sorted_listing\<close> states that promise with the invariant of the state it needs, proves what its
  clients rely on, and is interpreted on the model's two listings.
\<close>

section \<open>A directory tree without version control\<close>

text \<open>
  rawTree fills its list on the first call; a list that is still empty (nil) is filled again. The
  callback of filepath.WalkDir skips what cannot be read, directories, dangling links and links
  to directories, and cuts the root and a slash off the path.
\<close>

fun rawWalk :: "osView \<Rightarrow> int \<Rightarrow> walkEntry list \<Rightarrow> rawTreeFile list outcome" where
  "rawWalk os l [] = Ok []"
| "rawWalk os l (d # ds) =
     (if walkErr d \<or> walkIsDir d then rawWalk os l ds
      else if walkIsSymlink d \<and> osStat os (walkPath d) \<noteq> StatFile then rawWalk os l ds
      else bindO (goFrom (walkPath d) l) (\<lambda>p.
           bindO (rawWalk os l ds) (\<lambda>fs.
             Ok (\<lparr>rawPath = p, isSymlink = walkIsSymlink d\<rparr> # fs))))"

definition rawLoad :: "osView \<Rightarrow> string \<Rightarrow> rawTreeFile list \<Rightarrow> rawTreeFile list outcome" where
  "rawLoad os root all =
     (if all \<noteq> [] then Ok all
      else bindO (rawWalk os (int (length root) + 1) (osWalk os root)) (\<lambda>fs. Ok (sortRaw os fs)))"

definition rawSelect :: "fileFilter \<Rightarrow> rawTreeFile list \<Rightarrow> scmFile list" where
  "rawSelect flt all =
     map (\<lambda>e. FileImpl (rawPath e) []) (filter (\<lambda>e. \<not> (isSymlink e \<and> \<not> includeSymlinks flt)) all)"

definition raw_allFiles ::
    "osView \<Rightarrow> fileFilter \<Rightarrow> string \<Rightarrow> rawTreeFile list \<Rightarrow> listing \<times> rawTreeFile list" where
  "raw_allFiles os flt root all =
     (case rawLoad os root all of
        Ok all' \<Rightarrow> (Files (rawSelect flt all') None, all')
      | Err e \<Rightarrow> (Files [] (Some e), all)
      | Panic m \<Rightarrow> (FilesPanic m, all))"

section \<open>The checkouts\<close>

text \<open>
  One constructor per implementation of scmCheckout, with its state. The caches map a filter to
  the files a listing returned, and the commits with their error once they are loaded.
\<close>

datatype scm =
    Git gitCheckout
  | RawTree string "rawTreeFile list"
  | InMemory string scmFile
  | Specified "scmFile list" string scm
  | Subdir scm string
  | Filtered "string list \<Rightarrow> bool \<Rightarrow> bool" scm
  | Caching scm "(fileFilter \<times> scmFile list) list" "(fileFilter \<times> scmFile list) list"
      "(scmCommit list \<times> err option) option"

fun mapListing :: "(scmFile list \<Rightarrow> scmFile list) \<Rightarrow> listing \<Rightarrow> listing" where
  "mapListing f (Files fs e) = Files (f fs) e"
| "mapListing f (FilesPanic m) = FilesPanic m"

text \<open>
  A lookup in the cache, or the listing of the wrapped checkout, whose files are stored whatever
  its error is.
\<close>

definition cached ::
    "(fileFilter \<times> scmFile list) list \<Rightarrow> fileFilter \<Rightarrow> listing \<times> 's \<Rightarrow> 's \<Rightarrow>
      listing \<times> 's \<times> (fileFilter \<times> scmFile list) list" where
  "cached cache flt miss s =
     (case map_of cache flt of
        Some fs \<Rightarrow> (Files fs None, s, cache)
      | None \<Rightarrow>
          (case miss of
             (Files fs e, s') \<Rightarrow> (Files fs e, s', (flt, fs) # cache)
           | (FilesPanic m, s') \<Rightarrow> (FilesPanic m, s', cache)))"

text \<open>
  The methods of each wrapper on what the wrapped checkout answered, with the state it left: the
  listings are filtered, and everything else is passed on.
\<close>

definition raw_affectedFiles :: "osView \<Rightarrow> fileFilter \<Rightarrow> string \<Rightarrow> rawTreeFile list \<Rightarrow> listing \<times> rawTreeFile list" where
  [simp]: "raw_affectedFiles os flt root all = raw_allFiles os flt root all"

definition raw_newLines :: "osView \<Rightarrow> string \<Rightarrow> scmFile \<Rightarrow> (int \<times> string) list outcome" where
  [simp]: "raw_newLines os root f = newLinesWhole (osReadFile os) root (rootedpath f)"

definition raw_commits :: "scmCommit list \<times> err option" where
  [simp]: "raw_commits = ([], None)"

definition inMemory_files :: "scmFile \<Rightarrow> listing" where
  [simp]: "inMemory_files target = Files [target] None"

definition inMemory_newLines :: "string \<Rightarrow> scmFile \<Rightarrow> scmFile \<Rightarrow> (int \<times> string) list outcome" where
  [simp]: "inMemory_newLines content target f =
     (if rootedpath f \<noteq> rootedpath target
      then Err (Errorf ''file %q is not managed'' [FStr (rootedpath f)])
      else Ok (newLinesWholeBytes content))"

definition inMemory_commits :: "scmCommit list \<times> err option" where
  [simp]: "inMemory_commits = ([], None)"

definition specified_affectedFiles :: "scmFile list \<Rightarrow> listing" where
  [simp]: "specified_affectedFiles fs = Files fs None"

definition specified_delegate :: "scmFile list \<Rightarrow> string \<Rightarrow> 'r \<times> scm \<Rightarrow> 'r \<times> scm" where
  [simp]: "specified_delegate fs root x = (let (r, base') = x in (r, Specified fs root base'))"

definition subdir_list :: "string \<Rightarrow> listing \<times> scm \<Rightarrow> listing \<times> scm" where
  [simp]: "subdir_list subdir x = (let (r, s') = x in (mapListing (filterFilesLoop subdir) r, Subdir s' subdir))"

definition subdir_delegate :: "string \<Rightarrow> 'r \<times> scm \<Rightarrow> 'r \<times> scm" where
  [simp]: "subdir_delegate subdir x = (let (r, s') = x in (r, Subdir s' subdir))"

definition filtered_list :: "(string list \<Rightarrow> bool \<Rightarrow> bool) \<Rightarrow> listing \<times> scm \<Rightarrow> listing \<times> scm" where
  [simp]: "filtered_list m x = (let (r, s') = x in (mapListing (filteredSCM_filter m) r, Filtered m s'))"

definition filtered_delegate :: "(string list \<Rightarrow> bool \<Rightarrow> bool) \<Rightarrow> 'r \<times> scm \<Rightarrow> 'r \<times> scm" where
  [simp]: "filtered_delegate m x = (let (r, s') = x in (r, Filtered m s'))"

primrec scm_allFiles :: "osView \<Rightarrow> fileFilter \<Rightarrow> scm \<Rightarrow> listing \<times> scm" where
  "scm_allFiles os flt (Git g) = (let (r, g') = git_allFiles os flt g in (r, Git g'))"
| "scm_allFiles os flt (RawTree root all) =
     (let (r, all') = raw_allFiles os flt root all in (r, RawTree root all'))"
| "scm_allFiles os flt (InMemory content target) = (inMemory_files target, InMemory content target)"
| "scm_allFiles os flt (Specified fs root base) = specified_delegate fs root (scm_allFiles os flt base)"
| "scm_allFiles os flt (Subdir s subdir) = subdir_list subdir (scm_allFiles os flt s)"
| "scm_allFiles os flt (Filtered m s) = filtered_list m (scm_allFiles os flt s)"
| "scm_allFiles os flt (Caching s affected all cs) =
     (let (r, s', all') = cached all flt (scm_allFiles os flt s) s in (r, Caching s' affected all' cs))"

primrec scm_affectedFiles :: "osView \<Rightarrow> fileFilter \<Rightarrow> scm \<Rightarrow> listing \<times> scm" where
  "scm_affectedFiles os flt (Git g) = (let (r, g') = git_affectedFiles os flt g in (r, Git g'))"
| "scm_affectedFiles os flt (RawTree root all) =
     (let (r, all') = raw_affectedFiles os flt root all in (r, RawTree root all'))"
| "scm_affectedFiles os flt (InMemory content target) = (inMemory_files target, InMemory content target)"
| "scm_affectedFiles os flt (Specified fs root base) = (specified_affectedFiles fs, Specified fs root base)"
| "scm_affectedFiles os flt (Subdir s subdir) = subdir_list subdir (scm_affectedFiles os flt s)"
| "scm_affectedFiles os flt (Filtered m s) = filtered_list m (scm_affectedFiles os flt s)"
| "scm_affectedFiles os flt (Caching s affected all cs) =
     (let (r, s', affected') = cached affected flt (scm_affectedFiles os flt s) s
      in (r, Caching s' affected' all cs))"

primrec scm_newLines :: "osView \<Rightarrow> scmFile \<Rightarrow> scm \<Rightarrow> (int \<times> string) list outcome \<times> scm" where
  "scm_newLines os f (Git g) = (let (r, g') = git_newLines os f g in (r, Git g'))"
| "scm_newLines os f (RawTree root all) = (raw_newLines os root f, RawTree root all)"
| "scm_newLines os f (InMemory content target) = (inMemory_newLines content target f, InMemory content target)"
| "scm_newLines os f (Specified fs root base) = specified_delegate fs root (scm_newLines os f base)"
| "scm_newLines os f (Subdir s subdir) = subdir_delegate subdir (scm_newLines os f s)"
| "scm_newLines os f (Filtered m s) = filtered_delegate m (scm_newLines os f s)"
| "scm_newLines os f (Caching s affected all cs) =
     (let (r, s') = scm_newLines os f s in (r, Caching s' affected all cs))"

fun pairOf :: "'a list outcome \<Rightarrow> 'a list \<times> err option" where
  "pairOf (Ok xs) = (xs, None)"
| "pairOf (Err e) = ([], Some e)"
| "pairOf (Panic m) = ([], Some (ErrOther m))"

primrec scm_commits :: "osView \<Rightarrow> scm \<Rightarrow> (scmCommit list \<times> err option) \<times> scm" where
  "scm_commits os (Git g) = (let (r, g') = git_commits os g in (pairOf r, Git g'))"
| "scm_commits os (RawTree root all) = (raw_commits, RawTree root all)"
| "scm_commits os (InMemory content target) = (inMemory_commits, InMemory content target)"
| "scm_commits os (Specified fs root base) = specified_delegate fs root (scm_commits os base)"
| "scm_commits os (Subdir s subdir) = subdir_delegate subdir (scm_commits os s)"
| "scm_commits os (Filtered m s) = filtered_delegate m (scm_commits os s)"
| "scm_commits os (Caching s affected all cs) =
     (case cs of
        Some r \<Rightarrow> (r, Caching s affected all cs)
      | None \<Rightarrow> (let (r, s') = scm_commits os s in (r, Caching s' affected all (Some r))))"

section \<open>Choosing the checkout\<close>

text \<open>
  getSCM() asks git first. An error other than a missing git or a directory outside any
  repository is returned. evalSymlinks is filepath.EvalSymlinks.
\<close>

definition isNotFound :: "err \<Rightarrow> bool" where
  "isNotFound e \<longleftrightarrow> (case e of ErrNotFound p \<Rightarrow> True | _ \<Rightarrow> False)"

definition getSCM ::
    "osView \<Rightarrow> (string \<Rightarrow> string outcome) \<Rightarrow> string \<Rightarrow> bool \<Rightarrow> scm outcome" where
  "getSCM os evalSymlinks root allFiles =
     (let g = g_init (osGit os) \<lparr>returnAll = allFiles, checkoutRoot = root,
            head = \<lparr>hash = [], ref = []\<rparr>, upstream = \<lparr>hash = [], ref = []\<rparr>, gerr = None\<rparr>
      in case gerr g of
           None \<Rightarrow>
             if checkoutRoot g \<noteq> root then
               bindO (if HasPrefix root (checkoutRoot g) then Ok (root, checkoutRoot g)
                      else bindO (evalSymlinks root) (\<lambda>r.
                           bindO (evalSymlinks (checkoutRoot g)) (\<lambda>c. Ok (r, c))))
                 (\<lambda>(root', croot).
                    let g' = g\<lparr>checkoutRoot := croot\<rparr>
                    in if croot \<noteq> root'
                       then bindO (goFrom root' (int (length croot) + 1)) (\<lambda>sub.
                              Ok (Subdir (Git g') (sub @ ''/'')))
                       else Ok (Git g'))
             else Ok (Git g)
         | Some e \<Rightarrow>
             if isNotFound e \<or> Contains (errText e) ''not a git repository''
             then Ok (RawTree root []) else Err e)"

section \<open>The functions of ctx.scm\<close>

text \<open>The dictionary has the path a check sees as its key; its order is the order of the files.\<close>

definition ctxScmFiles ::
    "(string \<Rightarrow> string list \<Rightarrow> bool \<Rightarrow> matchResult) \<Rightarrow> listing \<Rightarrow> globArg \<Rightarrow> (string \<times> scmFile) list outcome" where
  "ctxScmFiles pat l glob =
     (case l of
        FilesPanic m \<Rightarrow> Panic m
      | Files fs (Some e) \<Rightarrow> Err e
      | Files fs None \<Rightarrow> bindO (filterFilesByGlob pat fs glob) (\<lambda>fs'. Ok (ctxScmFilesReturnValue fs')))"

definition ctxScmAffectedFiles ::
    "osView \<Rightarrow> (string \<Rightarrow> string list \<Rightarrow> bool \<Rightarrow> matchResult) \<Rightarrow> fileFilter \<Rightarrow> globArg \<Rightarrow> scm \<Rightarrow>
      (string \<times> scmFile) list outcome \<times> scm" where
  "ctxScmAffectedFiles os pat flt glob s =
     (let (l, s') = scm_affectedFiles os flt s in (ctxScmFiles pat l glob, s'))"

definition ctxScmAllFiles ::
    "osView \<Rightarrow> (string \<Rightarrow> string list \<Rightarrow> bool \<Rightarrow> matchResult) \<Rightarrow> fileFilter \<Rightarrow> globArg \<Rightarrow> scm \<Rightarrow>
      (string \<times> scmFile) list outcome \<times> scm" where
  "ctxScmAllFiles os pat flt glob s =
     (let (l, s') = scm_allFiles os flt s in (ctxScmFiles pat l glob, s'))"

definition commitMetadata :: "scmCommit \<Rightarrow> starValue" where
  "commitMetadata c = VStruct ''commit'' [(''hash'', VStr (commitHash c)), (''message'', VStr (commitMessage c))]"

definition ctxScmCommits :: "osView \<Rightarrow> scm \<Rightarrow> starValue outcome \<times> scm" where
  "ctxScmCommits os s =
     (let ((cs, e), s') = scm_commits os s
      in (case e of Some e \<Rightarrow> Err e | None \<Rightarrow> Ok (VTuple (map commitMetadata cs)), s'))"

text \<open>
  A file object keeps the new lines it was asked for and their error; only the first call of
  new_lines() reaches the checkout.
\<close>

record fileMeta =
  fmLines :: "(int \<times> string) list option"
  fmErr :: "err option"

definition file_new_lines ::
    "osView \<Rightarrow> scmFile \<Rightarrow> fileMeta \<Rightarrow> scm \<Rightarrow> (int \<times> string) list outcome \<times> fileMeta \<times> scm" where
  "file_new_lines os f st s =
     (if fmLines st = None \<and> fmErr st = None then
        (let (r, s') = scm_newLines os f s
         in case r of
              Ok ls \<Rightarrow> (r, st\<lparr>fmLines := Some ls\<rparr>, s')
            | Err e \<Rightarrow> (r, st\<lparr>fmErr := Some e\<rparr>, s')
            | Panic m \<Rightarrow> (r, st, s'))
      else (case fmErr st of
              Some e \<Rightarrow> Err e
            | None \<Rightarrow> Ok (case fmLines st of Some ls \<Rightarrow> ls | None \<Rightarrow> []), st, s))"

section \<open>The contract of scmCheckout\<close>

locale sorted_listing =
  fixes list_files :: "fileFilter \<Rightarrow> 's \<Rightarrow> listing \<times> 's" and inv :: "'s \<Rightarrow> bool"
  assumes listed_sorted: "inv s \<Longrightarrow> list_files flt s = (Files fs e, s') \<Longrightarrow>
      sorted (map rootedpath fs) \<and> sorted (map relpath fs)"
    and inv_kept: "inv s \<Longrightarrow> list_files flt s = (l, s') \<Longrightarrow> inv s'"
begin

lemma search_finds:
  assumes "inv s" and "list_files flt s = (Files fs e, s')"
  shows "snd (sortFind (length fs) (\<lambda>i. stringsCompare p (map relpath fs ! i))) \<longleftrightarrow> p \<in> relpath ` set fs"
  using sortFind_sorted[of "map relpath fs" p] listed_sorted[OF assms] by simp

lemma subdir_sorted:
  assumes "inv s" and "list_files flt s = (Files fs e, s')"
  shows "sorted (map rootedpath (filterFilesLoop d fs)) \<and> sorted (map relpath (filterFilesLoop d fs))"
  using listed_sorted[OF assms] filterFilesLoop_sorted
  by (simp add: filterFilesLoop_rooted sorted_wrt_filter)

lemma filtered_sorted:
  assumes "inv s" and "list_files flt s = (Files fs e, s')"
  shows "sorted (map rootedpath (filteredSCM_filter m fs)) \<and> sorted (map relpath (filteredSCM_filter m fs))"
  using listed_sorted[OF assms] by (simp add: filteredSCM_filter_eq sorted_filter)

end

definition goodSorts :: "osView \<Rightarrow> bool" where
  "goodSorts os \<longleftrightarrow> sort_slice rootedpath (sortFiles os) \<and> sort_slice rawPath (sortRaw os)"

definition bothSorted :: "scmFile list \<Rightarrow> bool" where
  "bothSorted fs \<longleftrightarrow> sorted (map rootedpath fs) \<and> sorted (map relpath fs)"

text \<open>The invariant of a checkout: what it has stored is sorted.\<close>

primrec scmSorted :: "scm \<Rightarrow> bool" where
  "scmSorted (Git g) = True"
| "scmSorted (RawTree root all) = sorted (map rawPath all)"
| "scmSorted (InMemory data target) = True"
| "scmSorted (Specified fs root base) = (bothSorted fs \<and> scmSorted base)"
| "scmSorted (Subdir s subdir) = scmSorted s"
| "scmSorted (Filtered m s) = scmSorted s"
| "scmSorted (Caching s affected all cs) =
     (scmSorted s \<and> list_all (\<lambda>(f, fs). bothSorted fs) affected \<and> list_all (\<lambda>(f, fs). bothSorted fs) all)"

fun listingSorted :: "listing \<Rightarrow> bool" where
  "listingSorted (Files fs e) = bothSorted fs"
| "listingSorted (FilesPanic m) = True"

fun isFileImpl :: "scmFile \<Rightarrow> bool" where
  "isFileImpl (FileImpl p a) = True"
| "isFileImpl (FileSubdir g r) = False"

lemma isFileImpl_relpath: "isFileImpl f \<Longrightarrow> relpath f = rootedpath f"
  by (cases f) auto

lemma impl_bothSorted: "list_all isFileImpl fs \<Longrightarrow> sorted (map rootedpath fs) \<Longrightarrow> bothSorted fs"
proof -
  assume i: "list_all isFileImpl fs" and s: "sorted (map rootedpath fs)"
  have "map relpath fs = map rootedpath fs"
    using i isFileImpl_relpath by (auto simp: list_all_iff)
  then show ?thesis using s by (metis bothSorted_def)
qed

lemma trackedLoop_impl: "list_all isFileImpl (fst (trackedLoop os root up flt o0))"
proof (induction os root up flt o0 rule: trackedLoop.induct)
  case (1 os root up flt o0)
  then show ?case
    by (subst trackedLoop.simps) (auto split: rawRecord.splits outcome.splits prod.splits)
qed

lemma untrackedLoop_impl: "untrackedLoop os root flt items = Ok fs \<Longrightarrow> list_all isFileImpl fs"
  by (induction items arbitrary: fs) (auto simp: go_out split: lstatRes.splits if_splits)

lemma allLoop_impl: "allLoop os root flt acts items = Ok fs \<Longrightarrow> list_all isFileImpl fs"
  by (induction items arbitrary: fs)
    (auto simp: go_out split: lstatRes.splits if_splits option.splits prod.splits)

lemma sortFiles_bothSorted:
  assumes "goodSorts os" and "list_all isFileImpl fs"
  shows "bothSorted (sortFiles os fs)"
  using assms sort_slice.set_sort[of rootedpath "sortFiles os" fs] sort_slice.ordered[of rootedpath "sortFiles os" fs]
  by (intro impl_bothSorted) (auto simp: goodSorts_def list_all_iff)

lemma git_allFiles_sorted: "goodSorts os \<Longrightarrow> listingSorted (fst (git_allFiles os flt g))"
  by (auto simp: git_allFiles_def toListing_def bothSorted_def[of "[]"] go_out Let_def
      split: prod.splits outcome.splits intro!: sortFiles_bothSorted allLoop_impl)

lemma git_affectedFiles_sorted:
  assumes "goodSorts os"
  shows "listingSorted (fst (git_affectedFiles os flt g))"
proof -
  have t: "list_all isFileImpl fs" if "affectedTrackedFiles os flt g = (fs, g')" for fs g'
    using that trackedLoop_impl by (auto simp: affectedTrackedFiles_def split: prod.splits) (metis fst_conv)+
  have u: "list_all isFileImpl fs" if "untrackedFiles os flt g1 = (Ok fs, g')" for fs g1 g'
    using that untrackedLoop_impl by (auto simp: untrackedFiles_def go_out split: prod.splits)
  show ?thesis
    using assms by (auto simp: git_affectedFiles_def git_allFiles_sorted bothSorted_def[of "[]"] Let_def
        split: prod.splits outcome.splits dest!: t u intro!: sortFiles_bothSorted)
qed

lemma rawSelect_sorted: "sorted (map rawPath all) \<Longrightarrow> bothSorted (rawSelect flt all)"
proof -
  assume "sorted (map rawPath all)"
  then have "sorted (map rawPath (filter (\<lambda>e. \<not> (isSymlink e \<and> \<not> includeSymlinks flt)) all))"
    by (rule sorted_filter)
  then show ?thesis by (simp add: bothSorted_def rawSelect_def comp_def)
qed

lemma raw_allFiles_sorted:
  assumes "goodSorts os" and "sorted (map rawPath all)"
  shows "listingSorted (fst (raw_allFiles os flt root all)) \<and>
    sorted (map rawPath (snd (raw_allFiles os flt root all)))"
proof -
  have "sorted (map rawPath all')" if "rawLoad os root all = Ok all'" for all'
    using that assms sort_slice.ordered[of rawPath "sortRaw os"]
    by (auto simp: rawLoad_def goodSorts_def go_out split: if_splits)
  then show ?thesis
    using assms(2) by (auto simp: raw_allFiles_def bothSorted_def[of "[]"] intro: rawSelect_sorted split: outcome.splits)
qed

lemma mapListing_sorted:
  assumes "listingSorted l"
  shows "listingSorted (mapListing (filterFilesLoop d) l)" and "listingSorted (mapListing (filteredSCM_filter m) l)"
  using assms filterFilesLoop_sorted
  by (cases l; simp add: bothSorted_def filterFilesLoop_rooted sorted_wrt_filter filteredSCM_filter_eq sorted_filter)+

lemma cached_sorted:
  assumes "list_all (\<lambda>(f, fs). bothSorted fs) cache" and "listingSorted (fst miss)"
  shows "listingSorted (fst (cached cache flt miss s)) \<and>
    list_all (\<lambda>(f, fs). bothSorted fs) (snd (snd (cached cache flt miss s)))"
  using assms map_of_SomeD[of cache flt]
  by (cases miss) (auto simp: cached_def list_all_iff split: option.splits listing.splits)

lemma cached_state: "fst (snd (cached cache flt miss s)) = s \<or> fst (snd (cached cache flt miss s)) = snd miss"
  by (cases miss) (auto simp: cached_def split: option.splits listing.splits)

lemma scm_allFiles_sorted:
  "goodSorts os \<Longrightarrow> scmSorted s \<Longrightarrow>
   listingSorted (fst (scm_allFiles os flt s)) \<and> scmSorted (snd (scm_allFiles os flt s))"
proof (induction s)
  case (Git g)
  then show ?case using git_allFiles_sorted[of os flt g] by (auto split: prod.splits)
next
  case (RawTree root all)
  then show ?case using raw_allFiles_sorted[of os all flt root] by (auto split: prod.splits)
next
  case (Caching s affected all cs)
  then show ?case
    using cached_sorted[of all "scm_allFiles os flt s" flt s] cached_state[of all flt "scm_allFiles os flt s" s]
    by (auto split: prod.splits)
qed (auto simp: bothSorted_def mapListing_sorted split: prod.splits)

lemma scm_affectedFiles_sorted:
  "goodSorts os \<Longrightarrow> scmSorted s \<Longrightarrow>
   listingSorted (fst (scm_affectedFiles os flt s)) \<and> scmSorted (snd (scm_affectedFiles os flt s))"
proof (induction s)
  case (Git g)
  then show ?case using git_affectedFiles_sorted[of os flt g] by (auto split: prod.splits)
next
  case (RawTree root all)
  then show ?case using raw_allFiles_sorted[of os all flt root] by (auto split: prod.splits)
next
  case (Caching s affected all cs)
  then show ?case
    using cached_sorted[of affected "scm_affectedFiles os flt s" flt s]
      cached_state[of affected flt "scm_affectedFiles os flt s" s]
    by (auto split: prod.splits)
qed (auto simp: bothSorted_def mapListing_sorted split: prod.splits)

text \<open>Both listings of every checkout keep the contract, on any system whose sort.Slice sorts.\<close>

interpretation all_listing: sorted_listing "scm_allFiles os" "\<lambda>s. goodSorts os \<and> scmSorted s" for os
proof unfold_locales
  show "goodSorts os \<and> scmSorted s'" if "goodSorts os \<and> scmSorted s" "scm_allFiles os flt s = (l, s')" for s flt l s'
    using that scm_allFiles_sorted[of os s flt] by simp
  show "sorted (map rootedpath fs) \<and> sorted (map relpath fs)"
    if "goodSorts os \<and> scmSorted s" "scm_allFiles os flt s = (Files fs e, s')" for s flt fs e s'
    using that scm_allFiles_sorted[of os s flt] by (simp add: bothSorted_def)
qed

interpretation affected_listing:
  sorted_listing "scm_affectedFiles os" "\<lambda>s. goodSorts os \<and> scmSorted s" for os
proof unfold_locales
  show "goodSorts os \<and> scmSorted s'" if "goodSorts os \<and> scmSorted s" "scm_affectedFiles os flt s = (l, s')" for s flt l s'
    using that scm_affectedFiles_sorted[of os s flt] by simp
  show "sorted (map rootedpath fs) \<and> sorted (map relpath fs)"
    if "goodSorts os \<and> scmSorted s" "scm_affectedFiles os flt s = (Files fs e, s')" for s flt fs e s'
    using that scm_affectedFiles_sorted[of os s flt] by (simp add: bothSorted_def)
qed

section \<open>Properties\<close>

lemma scm_newLines_sorted: "scmSorted s \<Longrightarrow> scmSorted (snd (scm_newLines os f s))"
  by (induction s) (auto split: prod.splits)

lemma scm_commits_sorted: "scmSorted s \<Longrightarrow> scmSorted (snd (scm_commits os s))"
  by (induction s) (auto split: prod.splits option.splits)

lemma getSCM_sorted: "getSCM os evalSymlinks root every = Ok s \<Longrightarrow> scmSorted s"
  by (auto simp: getSCM_def Let_def bindO_eq_Ok split: option.splits if_splits)

text \<open>C14. Every checkout keeps the promise of the scmCheckout interface, for all files and for affected
  files: what it lists, however the wrappers are stacked, is sorted by the path in the repository and
  by the path the check sees, a binary search in it finds exactly the listed paths, and neither this
  listing nor any other call that follows, of all four methods, makes it break the promise. What
  getSCM() answers starts with it.\<close>

theorem scm_listing_contract:
  assumes "goodSorts os" and "scmSorted s \<or> getSCM os evalSymlinks root every = Ok s"
    and "scm_allFiles os flt s = (Files fs e, s') \<or> scm_affectedFiles os flt s = (Files fs e, s')"
  shows "sorted (map rootedpath fs) \<and> sorted (map relpath fs) \<and>
    (snd (sortFind (length fs) (\<lambda>i. stringsCompare p (map relpath fs ! i))) \<longleftrightarrow> p \<in> relpath ` set fs) \<and>
    scmSorted s' \<and>
    scmSorted (snd (scm_allFiles os flt' s')) \<and> scmSorted (snd (scm_affectedFiles os flt' s')) \<and>
    scmSorted (snd (scm_newLines os f s')) \<and> scmSorted (snd (scm_commits os s'))"
proof -
  have inv: "goodSorts os \<and> scmSorted s" using assms(1,2) getSCM_sorted by blast
  have "scmSorted s'" using assms(3) inv all_listing.inv_kept[of os s flt] affected_listing.inv_kept[of os s flt] by blast
  then show ?thesis
    using assms(1,3) inv all_listing.listed_sorted[of os s flt fs e s'] affected_listing.listed_sorted[of os s flt fs e s']
      all_listing.search_finds[of os s flt fs e s' p] affected_listing.search_finds[of os s flt fs e s' p]
      scm_allFiles_sorted[of os s' flt'] scm_affectedFiles_sorted[of os s' flt'] scm_newLines_sorted scm_commits_sorted
    by blast
qed

text \<open>The in-place loop that removes ignored files returns exactly the files no pattern matches,
  in their order, and passes the error of the wrapped checkout on.\<close>

theorem filtered_listing:
  assumes "scm_affectedFiles os flt s = (Files fs e, s')"
  shows "scm_affectedFiles os flt (Filtered m s) =
    (Files (filter (\<lambda>f. \<not> m (Split (rootedpath f) CHR ''/'') False) fs) e, Filtered m s')"
  using assms by (simp add: filteredSCM_filter_eq)

text \<open>A check in a subdirectory sees exactly the files below it, in order, each under its path
  with the directory cut off, so that the directory and that path together are the file's path.\<close>

theorem subdir_listing:
  assumes "scm_affectedFiles os flt s = (Files fs e, s')"
    and "scm_affectedFiles os flt (Subdir s d) = (Files out e', s'')"
  shows "map rootedpath out = filter (\<lambda>p. HasPrefix p d) (map rootedpath fs) \<and> e' = e \<and>
    (\<forall>f \<in> set out. rootedpath f = d @ relpath f)"
  using assms filterFilesLoop_rooted filterFilesLoop_relpath by (auto split: prod.splits)

text \<open>The cache keeps the files of a listing but not its error: when the first call for a filter
  fails, the next call for it succeeds with whatever files came with the error.\<close>

theorem caching_forgets_errors:
  assumes "scm_affectedFiles os flt s = (Files fs (Some e), s')" and "map_of affected flt = None"
  shows "\<exists>s1. scm_affectedFiles os flt (Caching s affected all cs) = (Files fs (Some e), s1) \<and>
    scm_affectedFiles os flt s1 = (Files fs None, s1)"
  using assms by (simp add: cached_def)

text \<open>The cache is transparent for listings that succeed: the first call for a filter returns what
  the wrapped checkout lists, every later call returns the same again whatever the file system or
  git say by then, and the wrapped checkout is asked only once.\<close>

theorem caching_once:
  assumes "scm_affectedFiles os flt s = (Files fs None, s')" and "map_of affected flt = None"
    and "scm_affectedFiles os flt (Caching s affected all cs) = (r1, c1)"
  shows "r1 = Files fs None \<and> c1 = Caching s' ((flt, fs) # affected) all cs \<and>
    scm_affectedFiles os' flt c1 = (Files fs None, c1)"
  using assms by (auto simp: cached_def)

text \<open>The hypotheses on the gitignore library: a pattern that starts with "!" never excludes, and "**"
  matches every path. A file the matcher excludes is a file the glob selects.\<close>

definition negatesOnly :: "(string \<Rightarrow> string list \<Rightarrow> bool \<Rightarrow> matchResult) \<Rightarrow> bool" where
  "negatesOnly pat \<longleftrightarrow> (\<forall>p path d. HasPrefix p ''!'' \<longrightarrow> pat p path d \<noteq> Exclude)"

definition starMatchesAll :: "(string \<Rightarrow> string list \<Rightarrow> bool \<Rightarrow> matchResult) \<Rightarrow> bool" where
  "starMatchesAll pat \<longleftrightarrow> (\<forall>path d. pat ''**'' path d = Exclude)"

lemma matcherMatch_negative:
  assumes "negatesOnly pat" and "\<forall>p \<in> set ps. HasPrefix p ''!''"
  shows "\<not> matcherMatch pat ps path d"
  using assms by (induction ps) (auto simp: negatesOnly_def)

text \<open>A glob of negative patterns only selects the complement: every file that none of the
  patterns matches, where the patterns by themselves would select nothing.\<close>

theorem glob_all_negative:
  assumes "negatesOnly pat" and "starMatchesAll pat" and "ps \<noteq> []"
    and "\<forall>p \<in> set ps. HasPrefix p ''!''"
  shows "filterFilesByGlob pat fs (GlobSeq (map VStr ps)) =
      Ok (filter (\<lambda>f. \<forall>p \<in> set ps. pat p (Split (rootedpath f) CHR ''/'') False = NoMatch) fs) \<and>
    filter (\<lambda>f. matcherMatch pat ps (Split (rootedpath f) CHR ''/'') False) fs = []"
proof -
  have strs: "sequenceToStrings (map VStr ps) = Some ps" for ps by (induction ps) auto
  have ne: "\<not> list_ex (\<lambda>p. p = []) ps"
    using assms(4) by (auto simp: list_ex_iff HasPrefix_def)
  have all: "list_all (\<lambda>p. HasPrefix p ''!'') ps" using assms(4) by (simp add: list_all_iff)
  have match: "matcherMatch pat (''**'' # ps) path False \<longleftrightarrow> (\<forall>p \<in> set ps. pat p path False = NoMatch)" for path
    using assms(2) matcherMatch_negative[OF assms(1,4)] by (auto simp: starMatchesAll_def)
  show ?thesis
    using assms(3) all ne matcherMatch_negative[OF assms(1,4)]
    by (simp add: filterFilesByGlob_def globPatterns_def strs match del: matcherMatch.simps)
qed

lemma g_run_root: "checkoutRoot (snd (g_run exec args g)) = checkoutRoot g"
  by (simp add: g_run_def split: outcome.splits)

lemma g_init_root: "checkoutRoot (g_init exec g) = checkoutRoot g"
proof -
  have run: "checkoutRoot g' = checkoutRoot g" if "g_run exec args g = (r, g')" for r args g g'
    using that g_run_root[of exec args g] by simp
  have up: "checkoutRoot (initUpstream exec g) = checkoutRoot g" for g
    by (auto simp: initUpstream_def Let_def dest!: run split: prod.splits option.splits)
  show ?thesis by (auto simp: g_init_def up Let_def dest!: run split: prod.splits)
qed

text \<open>getSCM() never takes its subdirectory branch: starting git does not change the checkout's
  root, so a repository gives the git checkout for the whole directory it was given, a directory
  outside git gives the raw tree, and any other error of git is returned.\<close>

theorem getSCM_cases:
  "case getSCM os ev root allFiles of
     Ok (Git g) \<Rightarrow> checkoutRoot g = root \<and> gerr g = None
   | Ok (RawTree r all) \<Rightarrow> r = root \<and> all = []
   | Ok _ \<Rightarrow> False
   | Err e \<Rightarrow> \<not> isNotFound e
   | Panic m \<Rightarrow> False"
  by (auto simp: getSCM_def Let_def g_init_root split: option.splits)

section \<open>The properties on concrete checkouts\<close>

definition demoFiles :: "scmFile list" where
  "demoFiles = [FileImpl ''a.go'' ''M'', FileImpl ''d/b.go'' ''A'']"

definition demoScm :: scm where
  "demoScm = Specified demoFiles ''/r'' (RawTree ''/r'' [])"

abbreviation demoFlt :: fileFilter where
  "demoFlt \<equiv> \<lparr>includeDeleted = False, includeSymlinks = False\<rparr>"

lemma demoOs_sorts: "goodSorts (demoOs git)"
  by (simp add: goodSorts_def demoOs_def stable_sort.sort_slice_axioms)

theorem scm_listing_contract_witness:
  "snd (sortFind 2 (\<lambda>i. stringsCompare ''d/b.go'' (map relpath demoFiles ! i))) \<and>
   snd (sortFind 1 (\<lambda>i. stringsCompare ''b'' (map relpath [FileSubdir (FileImpl ''d/b'' []) ''b''] ! i)))"
proof
  have "scmSorted demoScm" by (simp add: demoScm_def demoFiles_def bothSorted_def)
  moreover have "scm_affectedFiles (demoOs (\<lambda>_ _. ExecOk [])) demoFlt demoScm = (Files demoFiles None, demoScm)"
    by (simp add: demoScm_def)
  ultimately show "snd (sortFind 2 (\<lambda>i. stringsCompare ''d/b.go'' (map relpath demoFiles ! i)))"
    using scm_listing_contract[of "demoOs (\<lambda>_ _. ExecOk [])" demoScm _ _ _ demoFlt demoFiles None demoScm "''d/b.go''"]
      demoOs_sorts by (simp add: demoFiles_def numeral_2_eq_2)
  let ?tree = "RawTree ''/r'' [\<lparr>rawPath = ''a'', isSymlink = False\<rparr>, \<lparr>rawPath = ''d/b'', isSymlink = False\<rparr>]"
  have "scmSorted (Subdir ?tree ''d/'')" by simp
  moreover have "scm_allFiles (demoOs (\<lambda>_ _. ExecOk [])) demoFlt (Subdir ?tree ''d/'') =
      (Files [FileSubdir (FileImpl ''d/b'' []) ''b''] None, Subdir ?tree ''d/'')"
    by (simp add: raw_allFiles_def rawLoad_def rawSelect_def HasPrefix_def)
  ultimately show "snd (sortFind 1 (\<lambda>i. stringsCompare ''b'' (map relpath [FileSubdir (FileImpl ''d/b'' []) ''b''] ! i)))"
    using scm_listing_contract[of "demoOs (\<lambda>_ _. ExecOk [])" "Subdir ?tree ''d/''" _ _ _ demoFlt
        "[FileSubdir (FileImpl ''d/b'' []) ''b'']" None "Subdir ?tree ''d/''" "''b''"]
      demoOs_sorts by simp
qed

theorem filtered_listing_witness:
  "scm_affectedFiles (demoOs (\<lambda>_ _. ExecOk [])) demoFlt (Filtered (\<lambda>path _. hd path = ''d'') demoScm) =
     (Files [FileImpl ''a.go'' ''M''] None, Filtered (\<lambda>path _. hd path = ''d'') demoScm)"
proof -
  have "scm_affectedFiles (demoOs (\<lambda>_ _. ExecOk [])) demoFlt demoScm = (Files demoFiles None, demoScm)"
    by (simp add: demoScm_def)
  from filtered_listing[OF this, of "\<lambda>path _. hd path = ''d''"]
  show ?thesis by (simp add: demoFiles_def)
qed

theorem subdir_listing_witness:
  "map rootedpath (filterFilesLoop ''d/'' demoFiles) = [''d/b.go'']"
proof -
  have "scm_affectedFiles (demoOs (\<lambda>_ _. ExecOk [])) demoFlt demoScm = (Files demoFiles None, demoScm)"
    by (simp add: demoScm_def)
  moreover have "scm_affectedFiles (demoOs (\<lambda>_ _. ExecOk [])) demoFlt (Subdir demoScm ''d/'') =
      (Files (filterFilesLoop ''d/'' demoFiles) None, Subdir demoScm ''d/'')"
    by (simp add: demoScm_def)
  ultimately show ?thesis
    using subdir_listing[of "demoOs (\<lambda>_ _. ExecOk [])" demoFlt demoScm demoFiles None demoScm "''d/''"]
    by (simp add: demoFiles_def HasPrefix_def)
qed

definition failedGit :: gitCheckout where
  "failedGit = demoGit\<lparr>gerr := Some (ErrOther ''killed'')\<rparr>"

lemma failedGit_lists:
  "scm_affectedFiles (demoOs (\<lambda>_ _. ExecOk [])) demoFlt (Git failedGit) =
     (Files [] (Some (ErrOther ''killed'')), Git failedGit)"
  by (simp add: failedGit_def demoGit_def git_affectedFiles_def affectedTrackedFiles_def g_run_def
      trackedLoop.simps)

theorem caching_forgets_errors_witness:
  "\<exists>s1. scm_affectedFiles (demoOs (\<lambda>_ _. ExecOk [])) demoFlt (Caching (Git failedGit) [] [] None) =
      (Files [] (Some (ErrOther ''killed'')), s1) \<and>
    scm_affectedFiles (demoOs (\<lambda>_ _. ExecOk [])) demoFlt s1 = (Files [] None, s1)"
  by (rule caching_forgets_errors[OF failedGit_lists]) simp

theorem caching_once_witness:
  "scm_affectedFiles (demoOs (\<lambda>_ _. ExecOk ''x'')) demoFlt (Caching demoScm [(demoFlt, demoFiles)] [] None) =
     (Files demoFiles None, Caching demoScm [(demoFlt, demoFiles)] [] None)"
proof -
  have a: "scm_affectedFiles (demoOs (\<lambda>_ _. ExecOk [])) demoFlt demoScm = (Files demoFiles None, demoScm)"
    by (simp add: demoScm_def)
  then have "scm_affectedFiles (demoOs (\<lambda>_ _. ExecOk [])) demoFlt (Caching demoScm [] [] None) =
      (Files demoFiles None, Caching demoScm [(demoFlt, demoFiles)] [] None)"
    by (simp add: cached_def)
  from caching_once[OF a _ this, of "demoOs (\<lambda>_ _. ExecOk ''x'')"] show ?thesis by simp
qed

definition demoPat :: "string \<Rightarrow> string list \<Rightarrow> bool \<Rightarrow> matchResult" where
  "demoPat p path d =
     (if p = ''**'' then Exclude
      else if HasPrefix p ''!'' then (if tl p = Join path ''/'' then Include else NoMatch)
      else if p = Join path ''/'' then Exclude else NoMatch)"

theorem glob_all_negative_witness:
  "filterFilesByGlob demoPat demoFiles (GlobSeq [VStr ''!a.go'']) = Ok [FileImpl ''d/b.go'' ''A'']"
proof -
  have neg: "negatesOnly demoPat"
    unfolding negatesOnly_def
  proof (intro allI impI)
    fix p path d assume "HasPrefix p ''!''"
    moreover have "p \<noteq> ''**''" using \<open>HasPrefix p ''!''\<close> by (auto simp: HasPrefix_def)
    ultimately show "demoPat p path d \<noteq> Exclude" by (simp add: demoPat_def)
  qed
  have "filterFilesByGlob demoPat demoFiles (GlobSeq (map VStr [''!a.go''])) =
      Ok (filter (\<lambda>f. \<forall>p \<in> set [''!a.go'']. demoPat p (Split (rootedpath f) CHR ''/'') False = NoMatch) demoFiles)"
    using glob_all_negative[OF neg, of "[''!a.go'']" demoFiles]
    by (simp add: starMatchesAll_def HasPrefix_def) (simp add: demoPat_def)
  then show ?thesis by (simp add: demoFiles_def demoPat_def HasPrefix_def)
qed

end
