(* ===== verification/Io.thy ===== *)
theory Io
  imports Scm
begin

text \<open>
  Paths, files and temporary directories: absPath() and ctx.io (runtime_ctx_io.go), newTempDir()
  and normalizeFiles() (run.go), the regular expression cache and match objects of ctx.re
  (runtime_ctx_re.go). Reading is modelled by the content of a file and the sizes of the pieces
  that successive reads give.
\<close>

section \<open>absPath\<close>

definition BS :: char where "BS = CHR 0x5C"

definition absPath :: "string \<Rightarrow> string \<Rightarrow> string outcome" where
  "absPath rel rootDir =
     (if BS \<in> set rel then Err (New ''use POSIX style path'')
      else if IsAbs rel then Err (New ''do not use absolute path'')
      else if Clean rel \<noteq> rel then Err (New ''pass cleaned path'')
      else let res = PathJoin (rootDir # Split rel CHR ''/'')
           in if \<not> HasPrefix res rootDir then Err (New ''cannot escape root'') else Ok res)"

section \<open>Reading a file\<close>

datatype openRes = OpenErr err | OpenDir | OpenFile string

abbreviation hardMax :: int where "hardMax \<equiv> 4294967296"

definition readSize :: "int \<Rightarrow> int \<Rightarrow> int" where
  "readSize lim fileSize =
     (let size = (if lim > 0 \<and> fileSize > lim then lim else fileSize)
      in if size > hardMax then hardMax else size)"

text \<open>
  One read asks for what is left of the buffer and gets at most the next piece's size; at the end
  of the content it gets io.EOF. \<open>None\<close> says that the pieces ran out before the loop ended.
\<close>

primrec readLoop :: "string \<Rightarrow> nat \<Rightarrow> nat list \<Rightarrow> nat \<Rightarrow> string option" where
  "readLoop content cap [] len = None"
| "readLoop content cap (k # ks) len =
     (if cap = len \<or> length content \<le> len then Some (take len content)
      else let n = min (max 1 k) (min (cap - len) (length content - len))
           in if len + n = cap then Some (take (len + n) content)
              else readLoop content cap ks (len + n))"

definition readFileImpl ::
    "(string \<Rightarrow> openRes) \<Rightarrow> nat list \<Rightarrow> string \<Rightarrow> int \<Rightarrow> string outcome option" where
  "readFileImpl open_file ks name lim =
     (case open_file name of
        OpenErr e \<Rightarrow> Some (Err e)
      | OpenDir \<Rightarrow> Some (Err (New ''is a directory''))
      | OpenFile content \<Rightarrow>
          map_option Ok (readLoop content (nat (readSize lim (int (length content)))) ks 0))"

abbreviation maxInt64 :: int where "maxInt64 \<equiv> 9223372036854775807"

definition ctxIoReadFile ::
    "(string \<Rightarrow> openRes) \<Rightarrow> nat list \<Rightarrow> string \<Rightarrow> string \<Rightarrow> string \<Rightarrow> int \<Rightarrow> string outcome option" where
  "ctxIoReadFile open_file ks root subdir filepath argsize =
     (if argsize < - maxInt64 - 1 \<or> argsize > maxInt64
      then Some (Err (Errorf ''for parameter \"size\": %s is an invalid size'' [FInt argsize]))
      else case (if IsAbs filepath then Ok filepath else absPath filepath (PathJoin [root, subdir])) of
          Err e \<Rightarrow> Some (Err (Errorf ''for parameter \"filepath\": %s %w'' [FStr filepath, FErr e]))
        | Panic m \<Rightarrow> Some (Panic m)
        | Ok dst \<Rightarrow>
            map_option (\<lambda>r. case r of
                Err e \<Rightarrow>
                  if isNotExist e then Err (Errorf ''for parameter \"filepath\": %s not found'' [FStr filepath])
                  else Err (Errorf ''for parameter \"filepath\": %s %w'' [FStr filepath, FErr e])
              | other \<Rightarrow> other) (readFileImpl open_file ks dst argsize))"

section \<open>Temporary directories\<close>

text \<open>os.Mkdir is a parameter: the error it gives for a path, if any. Its calls are logged.\<close>

record tempState =
  tmpdir :: string
  tmpdirIndex :: int
  mkdirs :: "string list"

definition newTempDir :: "(string \<Rightarrow> err option) \<Rightarrow> tempState \<Rightarrow> string outcome \<times> tempState" where
  "newTempDir mkdir st =
     (let i = tmpdirIndex st;
          st1 = st\<lparr>tmpdirIndex := i + 1\<rparr>;
          (e, st2) = (if i = 0 then (mkdir (tmpdir st), st1\<lparr>mkdirs := mkdirs st1 @ [tmpdir st]\<rparr>) else (None, st1))
      in case e of
           Some err \<Rightarrow> (Err err, st2)
         | None \<Rightarrow>
             if i \<ge> 1000000 then (Err (New ''too many temporary directories requested''), st2)
             else let p = PathJoin [tmpdir st, Itoa i]
                  in (case mkdir p of Some err \<Rightarrow> Err err | None \<Rightarrow> Ok p, st2\<lparr>mkdirs := mkdirs st2 @ [p]\<rparr>))"

text \<open>The write that ctx.io.tempfile() makes: the directory made for it, the file and its content.\<close>

definition ctxIoTempfile ::
    "(string \<Rightarrow> err option) \<Rightarrow> (string \<Rightarrow> err option) \<Rightarrow> (string \<Rightarrow> err option) \<Rightarrow> starValue \<Rightarrow> string \<Rightarrow>
      tempState \<Rightarrow> string outcome \<times> (string \<times> string) option \<times> tempState" where
  "ctxIoTempfile mkdir mkdirAll writable content name st =
     (case (case content of VBytes b \<Rightarrow> Some b | VStr b \<Rightarrow> Some b | _ \<Rightarrow> None) of
        None \<Rightarrow> (Err (Errorf ''for parameter \"content\": got %s, want str or bytes'' [FStr (Type content)]), None, st)
      | Some b \<Rightarrow>
          (case newTempDir mkdir st of
             (Err e, st') \<Rightarrow> (Err e, None, st')
           | (Panic m, st') \<Rightarrow> (Panic m, None, st')
           | (Ok dir, st') \<Rightarrow>
               if IsAbs name then (Err (New ''for parameter \"name\": absolute paths are not allowed''), None, st')
               else let p = PathJoin [dir, name]
                    in case mkdirAll (Dir p) of
                         Some e \<Rightarrow> (Err e, None, st')
                       | None \<Rightarrow>
                           (case writable p of
                              Some e \<Rightarrow> (Err e, None, st')
                            | None \<Rightarrow> (Ok p, Some (p, b), st'))))"

section \<open>The files named on the command line\<close>

text \<open>
  os.Stat, filepath.EvalSymlinks and filepath.Rel with filepath.IsLocal are the environment;
  slices.Sort and slices.Compact give the distinct paths in order.
\<close>

record fsView =
  fvCwd :: "string outcome"
  fvStat :: "string \<Rightarrow> statRes"
  fvEval :: "string \<Rightarrow> string outcome"
  fvRel :: "string \<Rightarrow> string \<Rightarrow> string outcome"
  fvIsLocal :: "string \<Rightarrow> bool"

definition relativizeOne :: "fsView \<Rightarrow> string \<Rightarrow> string \<Rightarrow> string \<Rightarrow> string outcome" where
  "relativizeOne fv cwd resolvedRoot orig =
     (let f = (if IsAbs orig then orig else PathJoin [cwd, orig])
      in case fvStat fv f of
           StatErr e \<Rightarrow> if isNotExist e then Err (Errorf ''no such file: %s'' [FStr orig]) else Err e
         | StatDir \<Rightarrow> Err (Errorf ''is a directory: %s'' [FStr orig])
         | StatFile \<Rightarrow>
             bindO (fvEval fv f) (\<lambda>f'.
             bindO (fvRel fv resolvedRoot f') (\<lambda>rel.
               if fvIsLocal fv rel then Ok rel
               else Err (Errorf ''cannot analyze file outside root: %s'' [FStr orig]))))"

fun relativizeAll :: "fsView \<Rightarrow> string \<Rightarrow> string \<Rightarrow> string list \<Rightarrow> string list outcome" where
  "relativizeAll fv cwd root [] = Ok []"
| "relativizeAll fv cwd root (f # fs) =
     bindO (relativizeOne fv cwd root f) (\<lambda>r. bindO (relativizeAll fv cwd root fs) (\<lambda>rs. Ok (r # rs)))"

fun compact :: "string list \<Rightarrow> string list" where
  "compact (a # b # xs) = (if a = b then compact (b # xs) else a # compact (b # xs))"
| "compact xs = xs"

definition normalizeFiles :: "fsView \<Rightarrow> string list \<Rightarrow> string \<Rightarrow> scmFile list outcome" where
  "normalizeFiles fv files root =
     bindO (fvCwd fv) (\<lambda>cwd.
     bindO (fvEval fv root) (\<lambda>resolved.
     bindO (relativizeAll fv cwd resolved files) (\<lambda>rels.
       Ok (map (\<lambda>p. FileImpl p []) (compact (sort rels))))))"

section \<open>ctx.re\<close>

fun matchGroups :: "string \<Rightarrow> int list \<Rightarrow> starValue list outcome" where
  "matchGroups s (b # e # rest) =
     bindO (if b < 0 \<and> e < 0 then Ok VNone else bindO (goSlice s b e) (\<lambda>t. Ok (VStr t))) (\<lambda>g.
     bindO (matchGroups s rest) (\<lambda>gs. Ok (g # gs)))"
| "matchGroups s xs = Ok []"

definition matchToGroup :: "string \<Rightarrow> int list \<Rightarrow> starValue outcome" where
  "matchToGroup s groups =
     bindO (matchGroups s groups) (\<lambda>g.
     bindO (goIndex groups 0) (\<lambda>off.
       Ok (VStruct ''match'' [(''offset'', VInt off), (''groups'', VTuple g)])))"

text \<open>regexp.Compile is a parameter; a compiled pattern stays in the cache, an error does not.\<close>

definition reCompile ::
    "(string \<Rightarrow> 're outcome) \<Rightarrow> string \<Rightarrow> (string \<rightharpoonup> 're) \<Rightarrow> 're outcome \<times> (string \<rightharpoonup> 're)" where
  "reCompile compile pat cache =
     (case cache pat of
        Some r \<Rightarrow> (Ok r, cache)
      | None \<Rightarrow> (case compile pat of Ok r \<Rightarrow> (Ok r, cache(pat \<mapsto> r)) | other \<Rightarrow> (other, cache)))"

definition ctxReMatch ::
    "(string \<Rightarrow> 're outcome) \<Rightarrow> ('re \<Rightarrow> string \<Rightarrow> int list option) \<Rightarrow> string \<Rightarrow> string \<Rightarrow>
      (string \<rightharpoonup> 're) \<Rightarrow> starValue outcome \<times> (string \<rightharpoonup> 're)" where
  "ctxReMatch compile submatch pat s cache =
     (let (r, cache') = reCompile compile pat cache
      in (bindO r (\<lambda>re. case submatch re s of None \<Rightarrow> Ok VNone | Some m \<Rightarrow> matchToGroup s m), cache'))"

fun matchAll :: "string \<Rightarrow> int list list \<Rightarrow> starValue list outcome" where
  "matchAll s [] = Ok []"
| "matchAll s (m # ms) = bindO (matchToGroup s m) (\<lambda>v. bindO (matchAll s ms) (\<lambda>vs. Ok (v # vs)))"

definition ctxReAllMatches ::
    "(string \<Rightarrow> 're outcome) \<Rightarrow> ('re \<Rightarrow> string \<Rightarrow> int list list) \<Rightarrow> string \<Rightarrow> string \<Rightarrow>
      (string \<rightharpoonup> 're) \<Rightarrow> starValue outcome \<times> (string \<rightharpoonup> 're)" where
  "ctxReAllMatches compile submatches pat s cache =
     (let (r, cache') = reCompile compile pat cache
      in (bindO r (\<lambda>re. bindO (matchAll s (submatches re s)) (\<lambda>vs. Ok (VTuple vs))), cache'))"

section \<open>Properties\<close>

lemmas path_eval = PathJoin_def Clean_def cleanElems_def cleanStep_def IsAbs_def Let_def

lemma PathJoin_abs:
  assumes "list_all plainElem rs" and "list_all plainElem ps" and "ps \<noteq> []"
  shows "PathJoin (absForm rs # ps) = absForm (rs @ ps)"
proof (cases "rs = []")
  case True
  have "Join (absForm [] # ps) ''/'' = ''//'' @ Join ps ''/''"
    using assms(3) by (simp add: Join_Cons absForm_def)
  moreover have "Split (''//'' @ Join ps ''/'') CHR ''/'' = [] # [] # ps"
    using Join_plain(3)[OF assms(2,3)] by simp
  moreover have "cleanElems True ([] # [] # ps) = ps"
    using cleanElems_plain[OF assms(2)] by (simp add: cleanElems_def cleanStep_def)
  ultimately show ?thesis
    using True by (simp add: PathJoin_def Clean_def IsAbs_def absForm_def)
next
  case False
  have "Join (absForm rs # ps) ''/'' = absForm (rs @ ps)"
    using assms(3) False by (simp add: Join_Cons absForm_def Join_append)
  moreover have "absForm rs \<noteq> []" by (simp add: absForm_def)
  ultimately show ?thesis
    using assms Clean_absForm[of "rs @ ps"] by (simp add: PathJoin_def)
qed

lemma cleanElems_dot: "list_all plainElem rs \<Longrightarrow> cleanElems True ([] # rs @ [''.'']) = rs"
  by (simp add: cleanElems_def foldl_cleanStep_plain cleanStep_def)

lemma Clean_rooted:
  "IsAbs p \<Longrightarrow> Clean p = ''/'' @ Join (cleanElems True (Split p CHR ''/'')) ''/''"
  by (auto simp: Clean_def IsAbs_def Let_def)

lemma PathJoin_abs_dot:
  assumes "list_all plainElem rs" and "rs \<noteq> []"
  shows "PathJoin [absForm rs, ''.''] = absForm rs"
proof -
  have free: "CHR ''/'' \<notin> set x" if "x \<in> set ([] # rs @ [''.''])" for x
    using that plain_slash_free[OF assms(1), of x] by (cases "x \<in> set rs") auto
  have "Split (absForm rs @ ''/.'') CHR ''/'' = Split (Join ([] # rs @ [''.'']) ''/'') CHR ''/''"
    using assms(2) by (simp add: absForm_def Join_Cons Join_snoc)
  also have "\<dots> = [] # rs @ [''.'']" by (rule Split_Join) (simp, rule free)
  finally have "Split (absForm rs @ ''/.'') CHR ''/'' = [] # rs @ [''.'']" .
  moreover have "IsAbs (absForm rs @ ''/.'')" by (simp add: IsAbs_def absForm_def)
  ultimately have "Clean (absForm rs @ ''/.'') = absForm rs"
    by (simp only: Clean_rooted cleanElems_dot[OF assms(1)] absForm_def)
  moreover have "PathJoin [absForm rs, ''.''] = Clean (absForm rs @ ''/.'')"
    by (simp add: PathJoin_def absForm_def)
  ultimately show ?thesis by metis
qed

lemma clean_rel_elems:
  assumes "Clean rel = rel" and "\<not> IsAbs rel" and "''..'' \<notin> set (Split rel CHR ''/'')"
  shows "rel = ''.'' \<or> list_all plainElem (Split rel CHR ''/'')"
proof -
  let ?es = "cleanElems False (Split rel CHR ''/'')"
  have form: "cleanForm False ?es" by (rule clean_form_Split)
  have "rel \<noteq> []" using assms(1) by (auto simp: Clean_def)
  then have eq: "rel = (if Join ?es ''/'' = [] then ''.'' else Join ?es ''/'')"
    using assms(1,2) by (simp add: Clean_def Let_def)
  show ?thesis
  proof (cases "Join ?es ''/'' = []")
    case True
    then show ?thesis using eq by simp
  next
    case False
    then have ne: "?es \<noteq> []" by auto
    have rel: "rel = Join ?es ''/''" using eq False by simp
    have "Split (Join ?es ''/'') CHR ''/'' = ?es"
      by (rule Split_Join[OF ne]) (use cleanForm_elem[OF form] in blast)
    then have sp: "Split rel CHR ''/'' = ?es" using rel by simp
    obtain n ps where nps: "?es = replicate n ''..'' @ ps" "list_all plainElem ps"
      using form by (auto simp: cleanForm_def)
    have "n = 0" using nps(1) assms(3) sp by (cases n) auto
    then show ?thesis using sp nps by simp
  qed
qed

text \<open>A relative path without ".." that absPath() accepts under a clean absolute root names a
  path below the root: the root's elements followed by the path's own, or the root itself for ".".\<close>

theorem absPath_below_root:
  assumes "list_all plainElem rs" and "rs \<noteq> []" and "absPath rel (absForm rs) = Ok p"
    and "''..'' \<notin> set (Split rel CHR ''/'')"
  shows "(rel = ''.'' \<and> p = absForm rs) \<or>
    (list_all plainElem (Split rel CHR ''/'') \<and> p = absForm (rs @ Split rel CHR ''/''))"
proof -
  have ok: "Clean rel = rel" "\<not> IsAbs rel" and p: "p = PathJoin (absForm rs # Split rel CHR ''/'')"
    using assms(3) by (auto simp: absPath_def Let_def split: if_splits)
  from clean_rel_elems[OF ok assms(4)] show ?thesis
  proof
    assume "rel = ''.''"
    then show ?thesis using p PathJoin_abs_dot[OF assms(1,2)] by simp
  next
    assume "list_all plainElem (Split rel CHR ''/'')"
    then show ?thesis using p PathJoin_abs[OF assms(1)] by simp
  qed
qed

theorem absPath_below_root_witness: "absForm ([''a''] @ Split ''b/c'' CHR ''/'') = ''/a/b/c''"
proof -
  have "absPath ''b/c'' (absForm [''a'']) = Ok ''/a/b/c''"
    by (simp add: absPath_def path_eval BS_def HasPrefix_def absForm_def)
  then show ?thesis
    using absPath_below_root[of "[''a'']" "''b/c''" "''/a/b/c''"] by (simp add: plainElem_def)
qed

text \<open>The root is compared as a string, not element by element: a path that climbs out of the
  root into a sibling whose name starts with the root's last element is accepted.\<close>

theorem absPath_sibling_escape: "absPath ''../root2/x'' ''/a/root'' = Ok ''/a/root2/x''"
  by (simp add: absPath_def path_eval BS_def HasPrefix_def)

lemma readLoop_spec:
  "len \<le> cap \<Longrightarrow> len \<le> length content \<Longrightarrow> cap - len < length ks \<Longrightarrow>
   readLoop content cap ks len = Some (take cap content)"
proof (induction ks arbitrary: len)
  case Nil
  then show ?case by simp
next
  case (Cons k ks)
  define n where "n = min (max 1 k) (min (cap - len) (length content - len))"
  show ?case
  proof (cases "cap = len \<or> length content \<le> len")
    case True
    then show ?thesis using Cons.prems by auto
  next
    case False
    then have n: "0 < n" "len + n \<le> cap" "len + n \<le> length content"
      using Cons.prems by (auto simp: n_def)
    then have "len + n \<noteq> cap \<longrightarrow> readLoop content cap ks (len + n) = Some (take cap content)"
      using Cons.IH[of "len + n"] Cons.prems by simp
    then show ?thesis using False by (simp add: n_def Let_def)
  qed
qed

text \<open>C37. However the operating system splits a file into reads, reading it ends and gives its
  content, cut at the size asked for and at 4 GiB; one read per byte is always enough.\<close>

theorem readFileImpl_content:
  assumes "open_file name = OpenFile content" and "length content < length ks"
  shows "readFileImpl open_file ks name lim =
    Some (Ok (take (nat (if lim > 0 then min lim hardMax else hardMax)) content))"
proof -
  define cap where "cap = nat (readSize lim (int (length content)))"
  have "readLoop content cap ks 0 = Some (take cap content)"
    using assms(2) by (intro readLoop_spec) (auto simp: cap_def readSize_def Let_def)
  moreover have "take cap content = take (nat (if lim > 0 then min lim hardMax else hardMax)) content"
    by (auto simp: cap_def readSize_def Let_def min_def)
  ultimately show ?thesis using assms(1) by (simp add: readFileImpl_def cap_def)
qed

theorem readFileImpl_content_witness:
  "readFileImpl (\<lambda>_. OpenFile ''abcde'') [2, 1, 1, 1, 1, 1] ''f'' 3 = Some (Ok ''abc'')"
  using readFileImpl_content[of "\<lambda>_. OpenFile ''abcde''" "''f''" "''abcde''" "[2, 1, 1, 1, 1, 1]" 3]
  by simp

fun newTempDirs :: "(string \<Rightarrow> err option) \<Rightarrow> nat \<Rightarrow> tempState \<Rightarrow> string outcome list" where
  "newTempDirs mkdir 0 st = []"
| "newTempDirs mkdir (Suc n) st =
     (let (r, st') = newTempDir mkdir st in r # newTempDirs mkdir n st')"

definition okValues :: "'a outcome list \<Rightarrow> 'a list" where
  "okValues rs = concat (map (\<lambda>r. case r of Ok x \<Rightarrow> [x] | _ \<Rightarrow> []) rs)"

lemma newTempDir_step:
  assumes "newTempDir mkdir st = (r, st')"
  shows "tmpdirIndex st' = tmpdirIndex st + 1 \<and> tmpdir st' = tmpdir st \<and>
    (\<forall>p. r = Ok p \<longrightarrow> p = PathJoin [tmpdir st, Itoa (tmpdirIndex st)] \<and> tmpdirIndex st < 1000000)"
  using assms by (auto simp: newTempDir_def Let_def split: if_splits option.splits prod.splits)

lemma Itoa_plain: "0 \<le> i \<Longrightarrow> plainElem (Itoa i)"
proof -
  assume "0 \<le> i"
  then have d: "list_all isDigit (Itoa i)" by (simp add: Itoa_def)
  have "\<not> list_all isDigit ''.''" "\<not> list_all isDigit ''..''" by (simp_all add: isDigit_def)
  moreover have "CHR ''/'' \<notin> set (Itoa i)" using d by (auto simp: list_all_iff isDigit_def)
  ultimately show ?thesis using d by (auto simp: plainElem_def)
qed

lemma tempPath:
  assumes "list_all plainElem ts" and "0 \<le> i"
  shows "PathJoin [absForm ts, Itoa i] = absForm (ts @ [Itoa i])"
  using PathJoin_abs[OF assms(1), of "[Itoa i]"] Itoa_plain[OF assms(2)] by simp

lemma tempPath_inj:
  assumes "list_all plainElem ts" and "0 \<le> i" "i < 1000000" "0 \<le> j" "j < 1000000"
    and "PathJoin [absForm ts, Itoa i] = PathJoin [absForm ts, Itoa j]"
  shows "i = j"
proof -
  have split: "Split (PathJoin [absForm ts, Itoa k]) CHR ''/'' = [] # ts @ [Itoa k]" if "0 \<le> k" for k
    using assms(1) Itoa_plain[OF that] by (simp add: tempPath[OF assms(1) that] Split_absForm)
  have "[] # ts @ [Itoa i] = [] # ts @ [Itoa j]" using assms(6) split assms(2,4) by metis
  then have "Itoa i = Itoa j" by simp
  moreover have "Atoi (Itoa i) = Some i" using assms(2,3) by (intro Atoi_Itoa) auto
  moreover have "Atoi (Itoa j) = Some j" using assms(4,5) by (intro Atoi_Itoa) auto
  ultimately show ?thesis by (metis option.inject)
qed

lemma newTempDirs_range:
  assumes "p \<in> set (okValues (newTempDirs mkdir n st))"
  shows "\<exists>k \<ge> tmpdirIndex st. k < 1000000 \<and> p = PathJoin [tmpdir st, Itoa k]"
  using assms
proof (induction n arbitrary: st)
  case 0
  then show ?case by (simp add: okValues_def)
next
  case (Suc n)
  obtain r st' where step: "newTempDir mkdir st = (r, st')" by (cases "newTempDir mkdir st")
  note s = newTempDir_step[OF step]
  consider "r = Ok p" | "p \<in> set (okValues (newTempDirs mkdir n st'))"
    using Suc.prems step by (auto simp: okValues_def split: outcome.splits)
  then show ?case
  proof cases
    case 1
    then show ?thesis using s by auto
  next
    case 2
    then obtain k where "k \<ge> tmpdirIndex st'" "k < 1000000" "p = PathJoin [tmpdir st', Itoa k]"
      using Suc.IH by blast
    then show ?thesis using s by (auto intro!: exI[of _ k])
  qed
qed

text \<open>No two calls of ctx.io.tempdir() (or tempfile()) of one shac.star get the same directory,
  whatever calls fail in between.\<close>

theorem newTempDirs_distinct:
  assumes "tmpdir st = absForm ts" and "list_all plainElem ts" and "0 \<le> tmpdirIndex st"
  shows "distinct (okValues (newTempDirs mkdir n st))"
  using assms
proof (induction n arbitrary: st)
  case 0
  then show ?case by (simp add: okValues_def)
next
  case (Suc n)
  obtain r st' where step: "newTempDir mkdir st = (r, st')" by (cases "newTempDir mkdir st")
  note s = newTempDir_step[OF step]
  have rest: "distinct (okValues (newTempDirs mkdir n st'))" using Suc s by simp
  have "p \<notin> set (okValues (newTempDirs mkdir n st'))" if r: "r = Ok p" for p
  proof
    assume "p \<in> set (okValues (newTempDirs mkdir n st'))"
    then obtain k where k: "k \<ge> tmpdirIndex st'" "k < 1000000" "p = PathJoin [tmpdir st', Itoa k]"
      using newTempDirs_range by blast
    then have "k = tmpdirIndex st"
      using tempPath_inj[OF Suc.prems(2), of k "tmpdirIndex st"] s r Suc.prems by auto
    then show False using k s by simp
  qed
  then show ?case using rest step by (auto simp: okValues_def split: outcome.splits)
qed

theorem newTempDirs_distinct_witness:
  "distinct (okValues (newTempDirs (\<lambda>_. None) 2 \<lparr>tmpdir = ''/t'', tmpdirIndex = 0, mkdirs = []\<rparr>))"
  by (rule newTempDirs_distinct[of _ "[''t'']"]) (simp_all add: absForm_def plainElem_def)

text \<open>The name of a temporary file is only refused when it is absolute: one with ".." in it is
  written outside the directory that was made for it.\<close>

theorem tempfile_escapes:
  "ctxIoTempfile (\<lambda>_. None) (\<lambda>_. None) (\<lambda>_. None) (VStr ''x'') ''../../out''
     \<lparr>tmpdir = ''/t/0'', tmpdirIndex = 4, mkdirs = []\<rparr> =
   (Ok ''/t/out'', Some (''/t/out'', ''x''), \<lparr>tmpdir = ''/t/0'', tmpdirIndex = 5, mkdirs = [''/t/0/4'']\<rparr>)"
proof -
  have "Itoa 4 = ''4''" by code_simp
  then show ?thesis by (simp add: ctxIoTempfile_def newTempDir_def path_eval)
qed

lemma compact_set: "set (compact xs) = set xs"
  by (induction xs rule: compact.induct) auto

lemma compact_sorted: "sorted xs \<Longrightarrow> sorted (compact xs) \<and> distinct (compact xs)"
  by (induction xs rule: compact.induct) (auto simp: compact_set)

text \<open>Files named on the command line become a sorted list without duplicates of paths inside
  the root, which is what a listing of a checkout has to be.\<close>

theorem normalizeFiles_sorted:
  assumes "normalizeFiles fv files root = Ok fs"
  shows "sorted (map rootedpath fs) \<and> distinct (map rootedpath fs) \<and>
    (\<forall>f \<in> set fs. fvIsLocal fv (rootedpath f)) \<and> map relpath fs = map rootedpath fs"
proof -
  obtain cwd resolved rels where rels: "relativizeAll fv cwd resolved files = Ok rels"
    and fs: "fs = map (\<lambda>p. FileImpl p []) (compact (sort rels))"
    using assms by (auto simp: normalizeFiles_def go_out)
  have one: "relativizeOne fv cwd resolved f = Ok r \<Longrightarrow> fvIsLocal fv r" for f r
    by (auto simp: relativizeOne_def Let_def go_out split: statRes.splits if_splits)
  have "\<forall>r \<in> set rels. fvIsLocal fv r"
    using rels by (induction files arbitrary: rels) (auto simp: go_out dest: one)
  then show ?thesis
    using compact_sorted[of "sort rels"] by (auto simp: fs comp_def compact_set)
qed


theorem normalizeFiles_sorted_witness:
  "map rootedpath [FileImpl ''a'' [], FileImpl ''b'' []] = sort (map rootedpath [FileImpl ''a'' [], FileImpl ''b'' []])"
proof -
  let ?fv = "\<lparr>fvCwd = Ok ''/r'', fvStat = (\<lambda>_. StatFile), fvEval = Ok, fvRel = (\<lambda>r p. Ok (TrimPrefix p (r @ ''/''))),
    fvIsLocal = (\<lambda>p. \<not> IsAbs p)\<rparr>"
  have "normalizeFiles ?fv [''/r/b'', ''/r/a'', ''/r/b''] ''/r'' = Ok [FileImpl ''a'' [], FileImpl ''b'' []]"
    by code_simp
  from normalizeFiles_sorted[OF this] show ?thesis by (simp add: sorted_sort_id)
qed

end
