(* ===== verification/Sandbox.thy ===== *)
theory Sandbox
  imports Io
begin

text \<open>
  Running commands in a sandbox (internal/sandbox): the mounts of a configuration and their
  resolution through symbolic links (fuse_unix.go), and the command lines built for nsjail,
  for sandbox-exec on macOS and without a sandbox (sandbox.go). os.Lstat, filepath.EvalSymlinks
  and filepath.Rel are parameters. Environment maps are lists of pairs, in the order Go's map
  iteration happens to give.
\<close>

record Mount =
  mPath :: string
  mDest :: string
  mWritable :: bool

record sandboxConfig =
  Cmd :: "string list"
  Cwd :: string
  cfgAllowNetwork :: bool
  Env :: "(string \<times> string) list"
  Mounts :: "Mount list"

section \<open>Resolving mounts\<close>

record linkView =
  lvIsLink :: "string \<Rightarrow> bool"
  lvEval :: "string \<Rightarrow> string option"
  lvRel :: "string \<Rightarrow> string \<Rightarrow> string option"

text \<open>The first mount of a destination wins.\<close>

definition addMount :: "string \<Rightarrow> string \<Rightarrow> bool \<Rightarrow> Mount list \<Rightarrow> Mount list" where
  "addMount p dest w ms =
     (if dest \<in> mDest ` set ms then ms else ms @ [\<lparr>mPath = p, mDest = dest, mWritable = w\<rparr>])"

definition destOf :: "Mount \<Rightarrow> string" where
  "destOf m = (if mDest m = [] then mPath m else mDest m)"

text \<open>
  The walk from the mount's path up to the root, with the number of directories it may visit as
  fuel; \<open>None\<close> says that it has not come to the root by then.
\<close>

fun climbLoop :: "nat \<Rightarrow> linkView \<Rightarrow> string \<Rightarrow> bool \<Rightarrow> string \<Rightarrow> Mount list \<Rightarrow> Mount list option" where
  "climbLoop n lv root w p ms =
     (if p = root \<or> p = ''.'' then Some ms
      else case n of
          0 \<Rightarrow> None
        | Suc n' \<Rightarrow>
            climbLoop n' lv root w (Dir p)
              (if lvIsLink lv p then
                 (case lvEval lv p of
                    None \<Rightarrow> ms
                  | Some real \<Rightarrow> addMount (Clean real) p w (addMount (Clean real) (Clean real) w ms))
               else ms))"

declare climbLoop.simps [simp del]

definition resolveOne :: "nat \<Rightarrow> linkView \<Rightarrow> string \<Rightarrow> Mount \<Rightarrow> Mount list \<Rightarrow> Mount list option" where
  "resolveOne n lv root m ms =
     (case lvRel lv root (mPath m) of
        None \<Rightarrow> Some (addMount (mPath m) (destOf m) (mWritable m) ms)
      | Some rel \<Rightarrow>
          if HasPrefix rel ''..'' then Some (addMount (mPath m) (destOf m) (mWritable m) ms)
          else
            map_option
              (\<lambda>ms1. case lvEval lv (mPath m) of
                 None \<Rightarrow> addMount (mPath m) (destOf m) (mWritable m) ms1
               | Some real \<Rightarrow>
                   addMount (Clean real) (Clean (destOf m)) (mWritable m)
                     (addMount (Clean real) (Clean real) (mWritable m) ms1))
              (climbLoop n lv root (mWritable m) (mPath m) ms))"

fun resolveAll :: "nat \<Rightarrow> linkView \<Rightarrow> string \<Rightarrow> Mount list \<Rightarrow> Mount list \<Rightarrow> Mount list option" where
  "resolveAll n lv root [] ms = Some ms"
| "resolveAll n lv root (m # rest) ms =
     (case resolveOne n lv root m ms of None \<Rightarrow> None | Some ms1 \<Rightarrow> resolveAll n lv root rest ms1)"

definition resolveMounts :: "nat \<Rightarrow> linkView \<Rightarrow> string \<Rightarrow> string \<Rightarrow> Mount list \<Rightarrow> Mount list option" where
  "resolveMounts n lv root exe mounts =
     resolveAll n lv root
       (mounts @ (if exe = [] then [] else [\<lparr>mPath = exe, mDest = [], mWritable = False\<rparr>])) []"

section \<open>Command lines\<close>

text \<open>A command: the program, its arguments, its directory and its environment.\<close>

record command =
  cmdPath :: string
  cmdArgs :: "string list"
  cmdDir :: string
  cmdEnv :: "string list"

definition envPair :: "string \<times> string \<Rightarrow> string" where
  "envPair kv = fst kv @ ''='' @ snd kv"

definition mountArgs :: "Mount \<Rightarrow> string list" where
  "mountArgs m =
     [if mWritable m then ''--bindmount'' else ''--bindmount_ro'',
      if mDest m = [] then mPath m else mPath m @ '':'' @ mDest m]"

definition nsjailMounts ::
    "nat \<Rightarrow> linkView \<Rightarrow> (Mount list \<Rightarrow> Mount list) \<Rightarrow> sandboxConfig \<Rightarrow> Mount list option" where
  "nsjailMounts n lv sortM c = map_option sortM (resolveMounts n lv (Cwd c) (Cmd c ! 0) (Mounts c))"

definition nsjailCommand ::
    "nat \<Rightarrow> linkView \<Rightarrow> (Mount list \<Rightarrow> Mount list) \<Rightarrow> string \<Rightarrow> sandboxConfig \<Rightarrow> command option" where
  "nsjailCommand n lv sortM nsjailPath c =
     map_option (\<lambda>ms. \<lparr>cmdPath = nsjailPath,
         cmdArgs =
           [''--quiet'', ''--forward_signals'', ''--disable_rlimits'', ''--disable_clone_newcgroup'',
            ''--time_limit'', ''0'', ''--cwd'', Cwd c] @
           (if cfgAllowNetwork c then [''--disable_clone_newnet''] else []) @
           concat (map (\<lambda>kv. [''--env'', envPair kv]) (Env c)) @
           concat (map mountArgs ms) @ [''--''] @ Cmd c,
         cmdDir = [], cmdEnv = []\<rparr>)
       (nsjailMounts n lv sortM c)"

definition macCommand :: "sandboxConfig \<Rightarrow> command" where
  "macCommand c =
     (let profile = [''(version 1)'', ''(allow default)''] @ (if cfgAllowNetwork c then [] else [''(deny network*)''])
      in \<lparr>cmdPath = ''/usr/bin/sandbox-exec'', cmdArgs = [''-p'', Join profile [CHR 0x0A]] @ Cmd c,
          cmdDir = Cwd c, cmdEnv = map envPair (Env c)\<rparr>)"

definition genericCommand :: "sandboxConfig \<Rightarrow> command" where
  "genericCommand c =
     \<lparr>cmdPath = Cmd c ! 0, cmdArgs = drop 1 (Cmd c), cmdDir = Cwd c, cmdEnv = map envPair (Env c)\<rparr>"

section \<open>The mounts\<close>

lemma addMount_dests: "mDest ` set (addMount p d w ms) = insert d (mDest ` set ms)"
  by (auto simp: addMount_def image_iff)

lemma addMount_distinct: "distinct (map mDest ms) \<Longrightarrow> distinct (map mDest (addMount p d w ms))"
  by (auto simp: addMount_def)

lemma addMount_mono: "set ms \<subseteq> set (addMount p d w ms)"
  by (auto simp: addMount_def)

text \<open>What a step may add: the invariant every mount in the list keeps.\<close>

definition keepsMounts :: "(Mount \<Rightarrow> bool) \<Rightarrow> Mount list \<Rightarrow> Mount list \<Rightarrow> bool" where
  "keepsMounts P ms ms' \<longleftrightarrow> (distinct (map mDest ms) \<longrightarrow> distinct (map mDest ms')) \<and> set ms \<subseteq> set ms' \<and>
     ((\<forall>m \<in> set ms. P m) \<longrightarrow> (\<forall>m \<in> set ms'. P m))"

lemma keepsMounts_refl [simp]: "keepsMounts P ms ms"
  by (simp add: keepsMounts_def)

lemma keepsMounts_trans: "keepsMounts P a b \<Longrightarrow> keepsMounts P b c \<Longrightarrow> keepsMounts P a c"
  unfolding keepsMounts_def by blast

lemma keepsMounts_add:
  "P \<lparr>mPath = p, mDest = d, mWritable = w\<rparr> \<Longrightarrow> keepsMounts P ms (addMount p d w ms)"
  using addMount_distinct[of ms p d w] addMount_mono[of ms p d w]
  by (auto simp: keepsMounts_def addMount_def)

text \<open>The paths a climb visits.\<close>

fun climb :: "nat \<Rightarrow> string \<Rightarrow> string" where
  "climb 0 p = p"
| "climb (Suc k) p = climb k (Dir p)"

text \<open>The \<open>k\<close>-th directory above a path is still visited: none up to it is the root or ".".\<close>

definition climbs :: "string \<Rightarrow> nat \<Rightarrow> string \<Rightarrow> bool" where
  "climbs root k p \<longleftrightarrow> (\<forall>j \<le> k. climb j p \<noteq> root \<and> climb j p \<noteq> ''.'')"

lemma climbs_0: "p \<noteq> root \<Longrightarrow> p \<noteq> ''.'' \<Longrightarrow> climbs root 0 p"
  by (simp add: climbs_def)

lemma climbs_Suc:
  assumes "p \<noteq> root" and "p \<noteq> ''.''" and "climbs root k (Dir p)"
  shows "climbs root (Suc k) p"
  unfolding climbs_def
proof (intro allI impI)
  fix j assume "j \<le> Suc k"
  then show "climb j p \<noteq> root \<and> climb j p \<noteq> ''.''" using assms by (cases j) (auto simp: climbs_def)
qed

lemma climbLoop_keeps:
  assumes "climbLoop n lv root w p ms = Some ms'"
    and "\<And>k real d. climbs root k p \<Longrightarrow> lvIsLink lv (climb k p) \<Longrightarrow> lvEval lv (climb k p) = Some real \<Longrightarrow>
      d \<in> {Clean real, climb k p} \<Longrightarrow> P \<lparr>mPath = Clean real, mDest = d, mWritable = w\<rparr>"
  shows "keepsMounts P ms ms'"
  using assms
proof (induction n arbitrary: p ms)
  case 0
  then show ?case by (simp add: climbLoop.simps split: if_splits)
next
  case (Suc n)
  show ?case
  proof (cases "p = root \<or> p = ''.''")
    case True
    then show ?thesis using Suc.prems(1) by (simp add: climbLoop.simps)
  next
    case False
    define ms1 where "ms1 = (if lvIsLink lv p then
        (case lvEval lv p of None \<Rightarrow> ms
         | Some real \<Rightarrow> addMount (Clean real) p w (addMount (Clean real) (Clean real) w ms)) else ms)"
    have "climbLoop n lv root w (Dir p) ms1 = Some ms'"
      using Suc.prems(1) False by (subst (asm) climbLoop.simps) (simp add: ms1_def)
    then have "keepsMounts P ms1 ms'"
    proof (rule Suc.IH)
      fix k real d
      assume "climbs root k (Dir p)" "lvIsLink lv (climb k (Dir p))" "lvEval lv (climb k (Dir p)) = Some real"
        "d \<in> {Clean real, climb k (Dir p)}"
      then show "P \<lparr>mPath = Clean real, mDest = d, mWritable = w\<rparr>"
        using Suc.prems(2)[of "Suc k" real d] climbs_Suc[of p root k] False by simp
    qed
    moreover have "keepsMounts P ms ms1"
    proof (cases "if lvIsLink lv p then lvEval lv p else None")
      case None
      then show ?thesis by (auto simp: ms1_def split: if_splits)
    next
      case (Some real)
      then have link: "lvIsLink lv p" "lvEval lv p = Some real" by (simp_all split: if_splits)
      have "P \<lparr>mPath = Clean real, mDest = d, mWritable = w\<rparr>" if "d \<in> {Clean real, p}" for d
        using Suc.prems(2)[of 0 real d] climbs_0[of p root] False link that by simp
      then have "keepsMounts P ms (addMount (Clean real) p w (addMount (Clean real) (Clean real) w ms))"
        by (intro keepsMounts_trans[OF keepsMounts_add keepsMounts_add]) simp_all
      then show ?thesis using link by (simp add: ms1_def)
    qed
    ultimately show ?thesis by (rule keepsMounts_trans[rotated])
  qed
qed

text \<open>
  Where a mount may come from. A requested mount outside the working directory, or one that cannot
  be resolved, is mounted as it is requested. Any other is mounted from its real path, at this path
  and at the requested destination, and so is every symbolic link on the way from it up to the
  working directory, at the link and at its target.
\<close>

definition insideRoot :: "linkView \<Rightarrow> string \<Rightarrow> string \<Rightarrow> bool" where
  "insideRoot lv root p \<longleftrightarrow> (case lvRel lv root p of None \<Rightarrow> False | Some rel \<Rightarrow> \<not> HasPrefix rel ''..'')"

definition mountFrom :: "linkView \<Rightarrow> string \<Rightarrow> Mount \<Rightarrow> Mount \<Rightarrow> bool" where
  "mountFrom lv root m r \<longleftrightarrow> mWritable r = mWritable m \<and>
     ((\<not> insideRoot lv root (mPath m) \<or> lvEval lv (mPath m) = None) \<and> mPath r = mPath m \<and> mDest r = destOf m \<or>
      insideRoot lv root (mPath m) \<and>
        (\<exists>real. lvEval lv (mPath m) = Some real \<and> mPath r = Clean real \<and> mDest r \<in> {Clean real, Clean (destOf m)}) \<or>
      insideRoot lv root (mPath m) \<and>
        (\<exists>k real. climbs root k (mPath m) \<and> lvIsLink lv (climb k (mPath m)) \<and> lvEval lv (climb k (mPath m)) = Some real \<and>
           mPath r = Clean real \<and> mDest r \<in> {Clean real, climb k (mPath m)}))"

lemma mountFrom_link:
  "insideRoot lv root (mPath m) \<Longrightarrow> climbs root k (mPath m) \<Longrightarrow> lvIsLink lv (climb k (mPath m)) \<Longrightarrow>
   lvEval lv (climb k (mPath m)) = Some real \<Longrightarrow> d \<in> {Clean real, climb k (mPath m)} \<Longrightarrow>
   mountFrom lv root m \<lparr>mPath = Clean real, mDest = d, mWritable = mWritable m\<rparr>"
  unfolding mountFrom_def by (simp, blast)

lemma resolveOne_spec:
  assumes "resolveOne n lv root m ms = Some ms'" and "\<And>r. mountFrom lv root m r \<Longrightarrow> P r"
  shows "keepsMounts P ms ms' \<and> (destOf m \<in> mDest ` set ms' \<or> Clean (destOf m) \<in> mDest ` set ms')"
proof -
  have plain: "keepsMounts P xs (addMount (mPath m) (destOf m) (mWritable m) xs)"
    if "\<not> insideRoot lv root (mPath m) \<or> lvEval lv (mPath m) = None" for xs
    using assms(2) that by (intro keepsMounts_add) (simp add: mountFrom_def)
  have climbed: "keepsMounts P ms ms1"
    if "insideRoot lv root (mPath m)" "climbLoop n lv root (mWritable m) (mPath m) ms = Some ms1" for ms1
    using that(2) by (rule climbLoop_keeps) (intro assms(2) mountFrom_link[OF that(1)])
  consider "\<not> insideRoot lv root (mPath m)" "ms' = addMount (mPath m) (destOf m) (mWritable m) ms"
    | ms1 where "insideRoot lv root (mPath m)" "climbLoop n lv root (mWritable m) (mPath m) ms = Some ms1"
        "lvEval lv (mPath m) = None" "ms' = addMount (mPath m) (destOf m) (mWritable m) ms1"
    | ms1 real where "insideRoot lv root (mPath m)" "climbLoop n lv root (mWritable m) (mPath m) ms = Some ms1"
        "lvEval lv (mPath m) = Some real"
        "ms' = addMount (Clean real) (Clean (destOf m)) (mWritable m) (addMount (Clean real) (Clean real) (mWritable m) ms1)"
    using assms(1) unfolding resolveOne_def insideRoot_def
    by (cases "lvRel lv root (mPath m)"; cases "lvEval lv (mPath m)")
       (simp_all split: if_splits, blast+)
  then show ?thesis
  proof cases
    case 1
    then show ?thesis using plain addMount_dests by auto
  next
    case (2 ms1)
    then show ?thesis using climbed[of ms1] plain[of ms1] keepsMounts_trans addMount_dests by blast
  next
    case (3 ms1 real)
    have good: "P \<lparr>mPath = Clean real, mDest = d, mWritable = mWritable m\<rparr>" if "d \<in> {Clean real, Clean (destOf m)}" for d
      using 3(1,3) that by (intro assms(2)) (simp add: mountFrom_def)
    have two: "keepsMounts P ms1 ms'"
      unfolding 3(4) using good by (intro keepsMounts_trans[OF keepsMounts_add keepsMounts_add]) simp_all
    have "keepsMounts P ms ms'" using climbed[OF 3(1,2)] two by (rule keepsMounts_trans)
    moreover have "Clean (destOf m) \<in> mDest ` set ms'" unfolding 3(4) by (simp add: addMount_dests)
    ultimately show ?thesis by blast
  qed
qed


lemma resolveAll_keeps:
  assumes "resolveAll n lv root mounts ms = Some ms'" and "\<And>m r. m \<in> set mounts \<Longrightarrow> mountFrom lv root m r \<Longrightarrow> P r"
  shows "keepsMounts P ms ms' \<and>
    (\<forall>m \<in> set mounts. destOf m \<in> mDest ` set ms' \<or> Clean (destOf m) \<in> mDest ` set ms')"
  using assms
proof (induction mounts arbitrary: ms)
  case (Cons m rest)
  obtain ms1 where one: "resolveOne n lv root m ms = Some ms1" and others: "resolveAll n lv root rest ms1 = Some ms'"
    using Cons.prems(1) by (auto split: option.splits)
  have a: "keepsMounts P ms ms1 \<and> (destOf m \<in> mDest ` set ms1 \<or> Clean (destOf m) \<in> mDest ` set ms1)"
    by (rule resolveOne_spec[OF one]) (use Cons.prems(2) in auto)
  have b: "keepsMounts P ms1 ms' \<and>
      (\<forall>m \<in> set rest. destOf m \<in> mDest ` set ms' \<or> Clean (destOf m) \<in> mDest ` set ms')"
    by (rule Cons.IH[OF others]) (use Cons.prems(2) in auto)
  have "mDest ` set ms1 \<subseteq> mDest ` set ms'" using b by (auto simp: keepsMounts_def)
  then show ?case using a b keepsMounts_trans by auto
qed simp

text \<open>A directory precedes what is below it in the order of strings.\<close>

lemma parent_less: "p \<le> p @ (q :: string)"
  by (induction p) auto

lemma sorted_no_prefix_after:
  assumes "sorted (map f xs)" and "i < j" and "j < length xs" and "HasPrefix (f (xs ! i)) (f (xs ! j) :: string)"
  shows "f (xs ! i) = f (xs ! j)"
proof -
  obtain q where "f (xs ! i) = f (xs ! j) @ q" using assms(4) by (rule HasPrefixE)
  then have "f (xs ! j) \<le> f (xs ! i)" using parent_less by metis
  moreover have "f (xs ! i) \<le> f (xs ! j)" using assms(1-3) sorted_nth_mono[of "map f xs" i j] by simp
  ultimately show ?thesis by simp
qed

lemma sort_slice_map:
  assumes "sort_slice key sortF"
  shows "set (sortF xs) = set xs" and "distinct (map f (sortF xs)) \<longleftrightarrow> distinct (map f xs)"
    and "sorted (map key (sortF xs))"
  using sort_slice.set_sort[OF assms] sort_slice.ordered[OF assms] sort_slice.perm[OF assms, of xs]
    mset_eq_imp_distinct_iff[of "map f (sortF xs)" "map f xs"] by auto

lemma nsjail_mounts_resolved:
  assumes "sort_slice destOf sortM" and "nsjailMounts n lv sortM c = Some ms"
  shows "distinct (map mDest ms)"
    and "\<And>m. m \<in> set (Mounts c) \<Longrightarrow> destOf m \<in> mDest ` set ms \<or> Clean (destOf m) \<in> mDest ` set ms"
    and "sorted (map destOf ms)"
    and "\<And>r. r \<in> set ms \<Longrightarrow> (\<exists>m \<in> set (Mounts c). mountFrom lv (Cwd c) m r) \<or> \<not> mWritable r"
proof -
  obtain ms0 where res: "resolveMounts n lv (Cwd c) (Cmd c ! 0) (Mounts c) = Some ms0" and ms: "ms = sortM ms0"
    using assms(2) by (auto simp: nsjailMounts_def)
  let ?P = "\<lambda>r. (\<exists>m \<in> set (Mounts c). mountFrom lv (Cwd c) m r) \<or> \<not> mWritable r"
  have k: "keepsMounts ?P [] ms0 \<and>
      (\<forall>m \<in> set (Mounts c @ (if Cmd c ! 0 = [] then [] else [\<lparr>mPath = Cmd c ! 0, mDest = [], mWritable = False\<rparr>])).
         destOf m \<in> mDest ` set ms0 \<or> Clean (destOf m) \<in> mDest ` set ms0)"
    by (rule resolveAll_keeps[OF res[unfolded resolveMounts_def]]) (auto simp: mountFrom_def split: if_splits)
  note sorted = sort_slice_map[OF assms(1), where xs = ms0]
  show "distinct (map mDest ms)" using k sort_slice_map(2)[OF assms(1), of mDest ms0] by (simp add: ms keepsMounts_def)
  show "destOf m \<in> mDest ` set ms \<or> Clean (destOf m) \<in> mDest ` set ms" if "m \<in> set (Mounts c)" for m
    using k that sorted(1) by (simp add: ms)
  show "sorted (map destOf ms)" using sorted(3) by (simp add: ms)
  show "?P r" if "r \<in> set ms" for r using k that sorted(1) by (simp add: ms keepsMounts_def)
qed

lemmas nsjail_mounts_from = nsjail_mounts_resolved(4)

text \<open>
  C13. The mounts of a sandboxed command: no destination is mounted twice, every mount is
  read-only or comes from a requested mount with that request's access: the request itself, its real
  path, or a symbolic link between it and the working directory; every
  request has its destination in the sandbox, and no mount is followed by one at a shorter prefix
  of its destination, so that nothing is hidden by a later mount of a directory above it.
\<close>

theorem nsjail_mounts_sound:
  assumes "sort_slice destOf sortM" and "nsjailMounts n lv sortM c = Some ms"
  shows "distinct (map mDest ms) \<and>
    (\<forall>r \<in> set ms. (\<exists>m \<in> set (Mounts c). mountFrom lv (Cwd c) m r) \<or> \<not> mWritable r) \<and>
    (\<forall>m \<in> set (Mounts c). destOf m \<in> mDest ` set ms \<or> Clean (destOf m) \<in> mDest ` set ms) \<and>
    (\<forall>i j. i < j \<and> j < length ms \<and> HasPrefix (destOf (ms ! i)) (destOf (ms ! j)) \<longrightarrow>
       destOf (ms ! i) = destOf (ms ! j))"
  using nsjail_mounts_resolved[OF assms] sorted_no_prefix_after by blast

text \<open>A checkout whose bin directory is a link, with a writable and a read-only request.\<close>

definition demoLinks :: linkView where
  "demoLinks = \<lparr>
     lvIsLink = (\<lambda>p. p = ''/r/bin''),
     lvEval = (\<lambda>p. if p = ''/r/bin'' then Some ''/opt/x'' else if p = ''/r/bin/out'' then Some ''/opt/x/out'' else None),
     lvRel = (\<lambda>r p. if HasPrefix p (r @ ''/'') then Some (TrimPrefix p (r @ ''/''))
                     else if p = r then Some ''.'' else Some ''../x'')\<rparr>"

definition demoSandbox :: sandboxConfig where
  "demoSandbox = \<lparr>Cmd = [''/bin/sh''], Cwd = ''/r'', cfgAllowNetwork = False, Env = [],
     Mounts = [\<lparr>mPath = ''/r/bin/out'', mDest = [], mWritable = True\<rparr>, \<lparr>mPath = ''/r'', mDest = [], mWritable = False\<rparr>]\<rparr>"


lemma nsjail_mounts_sound_witness:
  "nsjailMounts 9 demoLinks (sort_key destOf) demoSandbox \<noteq> None \<and>
   distinct (map mDest (the (nsjailMounts 9 demoLinks (sort_key destOf) demoSandbox)))"
proof -
  have "nsjailMounts 9 demoLinks (sort_key destOf) demoSandbox \<noteq> None" by code_simp
  then obtain ms where ms: "nsjailMounts 9 demoLinks (sort_key destOf) demoSandbox = Some ms" by blast
  show ?thesis using nsjail_mounts_sound[OF stable_sort.sort_slice_axioms ms] ms by simp
qed

text \<open>
  A writable request for one file below a linked directory makes the link's whole target
  writable: the climb mounts every linked parent with the access of the request.
\<close>

theorem writable_leaf_opens_linked_parent:
  "\<exists>ms. nsjailMounts 9 demoLinks (sort_key destOf) demoSandbox = Some ms \<and>
     \<lparr>mPath = ''/opt/x'', mDest = ''/opt/x'', mWritable = True\<rparr> \<in> set ms \<and>
     mPath ` {m \<in> set (Mounts demoSandbox). mWritable m} = {''/r/bin/out''}"
proof -
  have "(case nsjailMounts 9 demoLinks (sort_key destOf) demoSandbox of None \<Rightarrow> False
      | Some ms \<Rightarrow> \<lparr>mPath = ''/opt/x'', mDest = ''/opt/x'', mWritable = True\<rparr> \<in> set ms)" by code_simp
  moreover have "{m \<in> set (Mounts demoSandbox). mWritable m} = {\<lparr>mPath = ''/r/bin/out'', mDest = [], mWritable = True\<rparr>}"
    by (auto simp: demoSandbox_def)
  ultimately show ?thesis by (auto split: option.splits)
qed

section \<open>The climb ends\<close>

lemma Clean_absForm_slash:
  assumes "list_all plainElem es" and "es \<noteq> []"
  shows "Clean (absForm es @ ''/'') = absForm es"
proof -
  have free: "CHR ''/'' \<notin> set x" if "x \<in> set ([] # es @ [[]])" for x
    using that plain_slash_free[OF assms(1), of x] by (cases "x \<in> set es") auto
  have "Split (absForm es @ ''/'') CHR ''/'' = Split (Join ([] # es @ [[]]) ''/'') CHR ''/''"
    using assms(2) by (simp add: absForm_def Join_Cons Join_snoc)
  also have "\<dots> = [] # es @ [[]]" by (rule Split_Join) (simp, rule free)
  finally have "cleanElems True (Split (absForm es @ ''/'') CHR ''/'') = es"
    using cleanElems_plain[OF assms(1), of True] by (simp add: cleanElems_def cleanStep_def)
  moreover have "IsAbs (absForm es @ ''/'')" by (simp add: IsAbs_def absForm_def)
  ultimately show ?thesis by (simp only: Clean_rooted absForm_def)
qed

lemma Dir_absForm:
  assumes "list_all plainElem (es @ [e])"
  shows "Dir (absForm (es @ [e])) = absForm es"
proof (cases "es = []")
  case True
  then have "CHR ''/'' \<notin> set e" using assms by (simp add: plainElem_def)
  then have "dirPart (absForm [e]) = ''/''"
    using dirPart_append[of e "[]"] by (simp add: absForm_def)
  then show ?thesis using True by (simp add: Dir_def Clean_def absForm_def path_eval)
next
  case False
  then have "CHR ''/'' \<notin> set e" using assms by (simp add: plainElem_def)
  then have "dirPart (absForm (es @ [e])) = absForm es @ ''/''"
    using dirPart_append[of e "absForm es"] False by (simp add: absForm_def Join_snoc)
  moreover have "Clean (absForm es @ ''/'') = absForm es"
    using assms False by (intro Clean_absForm_slash) simp_all
  ultimately show ?thesis by (simp add: Dir_def)
qed

lemma climbLoop_returns:
  assumes "list_all plainElem (rs @ es)" and "length es \<le> n"
  shows "\<exists>ms'. climbLoop n lv (absForm rs) w (absForm (rs @ es)) ms = Some ms'"
  using assms
proof (induction es arbitrary: n ms rule: rev_induct)
  case Nil
  then show ?case by (simp add: climbLoop.simps)
next
  case (snoc e es)
  obtain n' where n: "n = Suc n'" using snoc.prems(2) by (cases n) auto
  have "Dir (absForm (rs @ es @ [e])) = absForm (rs @ es)"
    using Dir_absForm[of "rs @ es" e] snoc.prems(1) by simp
  then show ?case using snoc by (subst climbLoop.simps) (simp add: n)
qed

text \<open>
  Resolving the mounts ends: below a clean absolute root the climb from a mount takes as many
  steps as the mount is below the root, and a mount that filepath.Rel puts outside is not climbed.
\<close>

theorem resolveMounts_returns:
  assumes "list_all plainElem rs"
    and "\<And>p. p \<in> insert exe (mPath ` set mounts) \<Longrightarrow>
      (case lvRel lv (absForm rs) p of None \<Rightarrow> True | Some rel \<Rightarrow> HasPrefix rel ''..'') \<or>
      (\<exists>es. list_all plainElem es \<and> length es \<le> n \<and> p = absForm (rs @ es))"
  shows "\<exists>ms. resolveMounts n lv (absForm rs) exe mounts = Some ms"
proof -
  have one: "\<exists>ms'. resolveOne n lv (absForm rs) m ms = Some ms'"
    if "(case lvRel lv (absForm rs) (mPath m) of None \<Rightarrow> True | Some rel \<Rightarrow> HasPrefix rel ''..'') \<or>
      (\<exists>es. list_all plainElem es \<and> length es \<le> n \<and> mPath m = absForm (rs @ es))" for m ms
    using that climbLoop_returns[of rs _ n lv "mWritable m" ms] assms(1)
    by (fastforce simp: resolveOne_def split: option.splits)
  have "\<exists>ms'. resolveAll n lv (absForm rs) xs ms = Some ms'"
    if "\<And>m. m \<in> set xs \<Longrightarrow> mPath m \<in> insert exe (mPath ` set mounts)" for xs ms
    using that
  proof (induction xs arbitrary: ms)
    case (Cons m xs)
    obtain ms1 where "resolveOne n lv (absForm rs) m ms = Some ms1" using one assms(2) Cons.prems by (meson list.set_intros(1))
    then show ?case using Cons by simp
  qed simp
  note all = this
  show ?thesis unfolding resolveMounts_def by (rule all) (auto split: if_splits)
qed

lemma resolveMounts_returns_witness:
  "\<exists>ms. resolveMounts 2 demoLinks ''/r'' ''/bin/sh'' (Mounts demoSandbox) = Some ms"
proof -
  have r: "absForm [''r''] = ''/r''" by (simp add: absForm_def)
  have "\<exists>ms. resolveMounts 2 demoLinks (absForm [''r'']) ''/bin/sh'' (Mounts demoSandbox) = Some ms"
  proof (rule resolveMounts_returns)
    show "list_all plainElem [''r'']" by (simp add: plainElem_def)
    fix p assume "p \<in> insert ''/bin/sh'' (mPath ` set (Mounts demoSandbox))"
    then consider "p = ''/bin/sh''" | "p = absForm [''r'', ''bin'', ''out'']" | "p = absForm [''r'']"
      by (auto simp: demoSandbox_def absForm_def)
    then show "(case lvRel demoLinks (absForm [''r'']) p of None \<Rightarrow> True | Some rel \<Rightarrow> HasPrefix rel ''..'') \<or>
      (\<exists>es. list_all plainElem es \<and> length es \<le> 2 \<and> p = absForm ([''r''] @ es))"
    proof cases
      case 1
      then show ?thesis by (simp add: demoLinks_def r HasPrefix_def)
    next
      case 2
      then show ?thesis by (intro disjI2 exI[of _ "[''bin'', ''out'']"]) (simp add: plainElem_def)
    next
      case 3
      then show ?thesis by (intro disjI2 exI[of _ "[]"]) simp
    qed
  qed
  then show ?thesis by (simp add: r)
qed

end
