(* ===== verification/Emit.thy ===== *)
theory Emit
  imports Io
begin

text \<open>
  The ctx.emit functions (internal/engine/runtime_ctx_emit.go), the property bag of a finding
  (findings_properties.go), ctx.vars.get (runtime_ctx_vars.go) and fail (runtime.go). An emit
  function works on the running check, on the checkout it asks for tracked files and on the
  report, whose answer to an emission is a parameter; the emissions made so far are kept in
  order. Arguments are what starlark.UnpackArgs leaves in the Go variables.
\<close>

section \<open>The state of a running check\<close>

record finding =
  fdCheck :: string
  fdLevel :: Level
  fdMessage :: string
  fdRoot :: string
  fdFile :: string
  fdSpan :: Span
  fdReplacements :: "string list"
  fdProps :: "(string \<times> string) list option"

record commitFinding =
  cfCheck :: string
  cfLevel :: Level
  cfMessage :: string
  cfHash :: string
  cfCommitMessage :: string
  cfSpan :: Span
  cfProps :: "(string \<times> string) list option"

record artifact =
  arCheck :: string
  arRoot :: string
  arFile :: string
  arContent :: "string option"

datatype emission = EmFinding finding | EmCommit commitFinding | EmArtifact artifact

text \<open>What the handlers read of shacState, and the state they change.\<close>

record shacEnv =
  seRoot :: string
  seSubdir :: string
  seAllowedProps :: "string list"
  seVars :: "string \<rightharpoonup> string"

record checkRun =
  crCheck :: registeredCheck
  crScm :: scm
  crEmitted :: "emission list"

type_synonym report = "emission \<Rightarrow> err option"

section \<open>Spans\<close>

definition intToInt :: "int \<Rightarrow> int" where
  "intToInt i = (if i < 0 \<or> i > maxInt then -1 else i)"

definition mkSpan :: "int \<Rightarrow> int \<Rightarrow> int \<Rightarrow> int \<Rightarrow> Span" where
  "mkSpan l c el ec = \<lparr>Start = \<lparr>Line = l, Col = c\<rparr>, End = \<lparr>Line = el, Col = ec\<rparr>\<rparr>"

definition oneBased :: "string \<Rightarrow> int \<Rightarrow> Span outcome" where
  "oneBased param arg =
     Err (Errorf (''for parameter \"'' @ param @ ''\": got %s, line are 1 based'') [FInt arg])"

definition parseSpan :: "int \<Rightarrow> int \<Rightarrow> int \<Rightarrow> int \<Rightarrow> Span outcome" where
  "parseSpan argline argcol argendLine argendCol =
     (let l = intToInt argline; c = intToInt argcol; el = intToInt argendLine; ec = intToInt argendCol
      in if l \<le> -1 then oneBased ''line'' argline
         else if c \<le> -1 then oneBased ''col'' argcol
         else if el \<le> -1 then oneBased ''end_line'' argendLine
         else if ec \<le> -1 then oneBased ''end_col'' argendCol
         else if c = 0 \<and> ec > 0 then Err (New ''for parameter \"end_col\": \"col\" must be specified'')
         else if l > 0 then
           (if el > 0 then
              (if el < l then Err (Errorf ''for parameter \"end_line\": \"end_line\" (%d) must be greater than or equal to \"line\" (%d)'' [FInt el, FInt l])
               else if el = l \<and> ec > 0 \<and> ec < c
               then Err (Errorf ''for parameter \"end_col\": \"end_col\" (%d) must be greater than or equal to \"col\" (%d)'' [FInt ec, FInt c])
               else Ok (mkSpan l c el ec))
            else if ec > 0 then Ok (mkSpan l c l ec)
            else Ok (mkSpan l c el ec))
         else if el > 0 then Err (New ''for parameter \"end_line\": \"line\" must be specified'')
         else if c > 0 then Err (New ''for parameter \"col\": \"line\" must be specified'')
         else Ok (mkSpan l c el ec))"

section \<open>The properties of a finding\<close>

definition toGoValue :: "starValue \<Rightarrow> string outcome" where
  "toGoValue v = (case v of VStr s \<Rightarrow> Ok s | _ \<Rightarrow> Err (Errorf ''unsupported starlark type: %s, expected str'' [FStr (Type v)]))"

fun toMap :: "(starValue \<times> starValue) list \<Rightarrow> string list \<Rightarrow> (string \<times> string) list outcome" where
  "toMap [] allowed = Ok []"
| "toMap ((k, v) # items) allowed =
     (case k of
        VStr key \<Rightarrow>
          if key \<notin> set allowed
          then Err (Errorf ''key %q not found in allowed_findings_properties'' [FStr key])
          else (case toGoValue v of
                  Ok s \<Rightarrow> bindO (toMap items allowed) (\<lambda>m. Ok ((key, s) # m))
                | Err e \<Rightarrow> Err (Errorf ''property %q: %s'' [FStr key, FErr e])
                | Panic m \<Rightarrow> Panic m)
      | _ \<Rightarrow> Err (Errorf ''dict key must be string, got %s'' [FStr (Type k)]))"

text \<open>The keys of a Starlark dict are distinct, so the map has one entry for each item.\<close>

definition bag_Unpack :: "string list \<Rightarrow> starValue \<Rightarrow> (string \<times> string) list outcome" where
  "bag_Unpack allowed v =
     (case v of
        VDict items \<Rightarrow>
          if allowed = [] \<and> items \<noteq> []
          then Err (New ''no properties are supported in allowed_findings_properties field'')
          else toMap items allowed
      | _ \<Rightarrow> Err (Errorf ''got %s, want dict'' [FStr (Type v)]))"

text \<open>Without the argument the map of properties stays nil, which the reports tell from an empty one.\<close>

definition unpackProps :: "string list \<Rightarrow> starValue option \<Rightarrow> (string \<times> string) list option outcome" where
  "unpackProps allowed v =
     (case v of None \<Rightarrow> Ok None | Some d \<Rightarrow> bindO (bag_Unpack allowed d) (\<lambda>m. Ok (Some m)))"

section \<open>ctx.emit.finding\<close>

text \<open>The replacements are a Starlark sequence: the name of its type and its elements.\<close>

record findingArgs =
  faLevel :: string
  faMessage :: string
  faFile :: string
  faLine :: int
  faCol :: int
  faEndLine :: int
  faEndCol :: int
  faReplacements :: "(string \<times> starValue list) option"
  faProps :: "starValue option"

definition levelErr :: "string \<Rightarrow> err" where
  "levelErr l = Errorf ''for parameter \"level\": got %s, want one of \"notice\", \"warning\" or \"error\"'' [FStr l]"

definition parseReplacements :: "string \<Rightarrow> (string \<times> starValue list) option \<Rightarrow> string list outcome" where
  "parseReplacements file reps =
     (case reps of
        None \<Rightarrow> Ok []
      | Some (typ, vs) \<Rightarrow>
          if file = [] then Err (New ''for parameter \"replacements\": \"filepath\" must be specified'')
          else (case sequenceToStrings vs of
                  None \<Rightarrow> Err (Errorf ''for parameter \"replacements\": got %s, want sequence of str'' [FStr typ])
                | Some rs \<Rightarrow>
                    if length rs > 100
                    then Err (Errorf ''for parameter \"replacements\": excessive number (%d) of replacements''
                           [FInt (int (length rs))])
                    else Ok rs))"

definition defaultMessage :: "check \<Rightarrow> string \<Rightarrow> string \<Rightarrow> string list \<Rightarrow> string outcome" where
  "defaultMessage c message file reps =
     (if message = [] then
        (if formatter c \<and> file \<noteq> [] \<and> length reps = 1
         then Ok ''File not formatted. Run `shac fmt` to fix.''
         else Err (New ''for parameter \"message\": must not be empty''))
      else Ok message)"

text \<open>The arguments of a call once they are all accepted.\<close>

definition parseFinding ::
    "shacEnv \<Rightarrow> check \<Rightarrow> findingArgs \<Rightarrow> (Span \<times> string list \<times> string \<times> (string \<times> string) list option) outcome" where
  "parseFinding env c a =
     bindO (unpackProps (seAllowedProps env) (faProps a)) (\<lambda>props.
       if \<not> isValid (faLevel a) then Err (levelErr (faLevel a))
       else bindO (parseSpan (faLine a) (faCol a) (faEndLine a) (faEndCol a)) (\<lambda>span.
         if Line (Start span) > 0 \<and> faFile a = []
         then Err (New ''for parameter \"line\": \"filepath\" must be specified'')
         else bindO (parseReplacements (faFile a) (faReplacements a)) (\<lambda>reps.
              bindO (defaultMessage c (faMessage a) (faFile a) reps) (\<lambda>msg.
                Ok (span, reps, msg, props)))))"

definition raiseTo :: "Level \<Rightarrow> checkRun \<Rightarrow> checkRun" where
  "raiseTo level st =
     st\<lparr>crCheck := (crCheck st)\<lparr>highestLevel := raiseLevel (highestLevel (crCheck st)) level\<rparr>\<rparr>"

definition emitTo :: "report \<Rightarrow> emission \<Rightarrow> checkRun \<Rightarrow> unit outcome \<times> checkRun" where
  "emitTo report em st =
     (case report em of
        None \<Rightarrow> Ok () | Some e \<Rightarrow> Err (Errorf ''failed to emit: %w'' [FErr e]),
      st\<lparr>crEmitted := crEmitted st @ [em]\<rparr>)"

text \<open>
  The file must be one of the checkout's, looked up by binary search in the sorted listing. The text of
  the error has the path as it is, where the code prints the Starlark string with its quotes.
\<close>

definition checkTracked :: "osView \<Rightarrow> string \<Rightarrow> scm \<Rightarrow> unit outcome \<times> scm" where
  "checkTracked os file s =
     (case scm_allFiles os \<lparr>includeDeleted = False, includeSymlinks = True\<rparr> s of
        (FilesPanic m, s') \<Rightarrow> (Panic m, s')
      | (Files fs (Some e), s') \<Rightarrow> (Err e, s')
      | (Files fs None, s') \<Rightarrow>
          (if snd (sortFind (length fs) (\<lambda>i. stringsCompare file (map relpath fs ! i))) then Ok ()
           else Err (Errorf ''for parameter \"filepath\": %s is not tracked'' [FStr file]), s'))"

definition ctxEmitFinding ::
    "osView \<Rightarrow> report \<Rightarrow> shacEnv \<Rightarrow> findingArgs \<Rightarrow> checkRun \<Rightarrow> unit outcome \<times> checkRun" where
  "ctxEmitFinding os report env a st =
     (case parseFinding env (checkOf (crCheck st)) a of
        Err e \<Rightarrow> (Err e, st)
      | Panic m \<Rightarrow> (Panic m, st)
      | Ok (span, reps, msg, props) \<Rightarrow>
          (let st1 = raiseTo (faLevel a) st;
               root = (if faFile a = [] then [] else PathJoin [seRoot env, seSubdir env]);
               (tracked, scm') = (if faFile a = [] then (Ok (), crScm st1) else checkTracked os (faFile a) (crScm st1));
               st2 = st1\<lparr>crScm := scm'\<rparr>
           in case tracked of
                Err e \<Rightarrow> (Err e, st2)
              | Panic m \<Rightarrow> (Panic m, st2)
              | Ok u \<Rightarrow>
                  emitTo report (EmFinding \<lparr>fdCheck = rname (crCheck st2), fdLevel = faLevel a,
                    fdMessage = msg, fdRoot = root, fdFile = faFile a, fdSpan = span,
                    fdReplacements = reps, fdProps = props\<rparr>) st2))"

section \<open>ctx.emit.commit_message_finding\<close>

record commitArgs =
  caLevel :: string
  caMessage :: string
  caCommit :: starValue
  caLine :: int
  caCol :: int
  caEndLine :: int
  caEndCol :: int
  caProps :: "starValue option"

definition structString :: "string \<Rightarrow> (string \<times> starValue) list \<Rightarrow> string outcome" where
  "structString field flds =
     (case map_of flds field of
        None \<Rightarrow> Err (Errorf ''for parameter \"commit\": missing '%s' field'' [FStr field])
      | Some (VStr s) \<Rightarrow> Ok s
      | Some _ \<Rightarrow> Err (Errorf ''for parameter \"commit\": '%s' field must be string'' [FStr field]))"

definition commitFields :: "starValue \<Rightarrow> (string \<times> string) outcome" where
  "commitFields v =
     (case v of
        VStruct ctor flds \<Rightarrow>
          if ctor \<noteq> ''commit'' then Err (Errorf ''for parameter \"commit\": got %s, want commit object'' [FStr ctor])
          else bindO (structString ''hash'' flds) (\<lambda>h.
               bindO (structString ''message'' flds) (\<lambda>m. Ok (h, m)))
      | _ \<Rightarrow> Err (Errorf ''for parameter \"commit\": got %s, want commit object'' [FStr (Type v)]))"

definition ctxEmitCommitMessageFinding ::
    "report \<Rightarrow> shacEnv \<Rightarrow> commitArgs \<Rightarrow> checkRun \<Rightarrow> unit outcome \<times> checkRun" where
  "ctxEmitCommitMessageFinding report env a st =
     (case bindO (unpackProps (seAllowedProps env) (caProps a)) (\<lambda>props.
          if \<not> isValid (caLevel a) then Err (levelErr (caLevel a))
          else bindO (commitFields (caCommit a)) (\<lambda>(h, m).
               bindO (parseSpan (caLine a) (caCol a) (caEndLine a) (caEndCol a)) (\<lambda>span.
                 if caMessage a = [] then Err (New ''for parameter \"message\": must not be empty'')
                 else Ok (h, m, span, props)))) of
        Err e \<Rightarrow> (Err e, st)
      | Panic p \<Rightarrow> (Panic p, st)
      | Ok (h, m, span, props) \<Rightarrow>
          (let st1 = raiseTo (caLevel a) st
           in emitTo report (EmCommit \<lparr>cfCheck = rname (crCheck st1), cfLevel = caLevel a,
                cfMessage = caMessage a, cfHash = h, cfCommitMessage = m, cfSpan = span, cfProps = props\<rparr>) st1))"

section \<open>ctx.emit.artifact\<close>

definition artifactRoot ::
    "(string \<Rightarrow> statRes) \<Rightarrow> shacEnv \<Rightarrow> string \<Rightarrow> starValue \<Rightarrow> (string \<times> string option) outcome" where
  "artifactRoot stat env f content =
     (case content of
        VBytes b \<Rightarrow> Ok ([], Some b)
      | VStr b \<Rightarrow> Ok ([], Some b)
      | VNone \<Rightarrow>
          (let root = PathJoin [seRoot env, seSubdir env]
           in case absPath f root of
                Err e \<Rightarrow> Err (Errorf ''for parameter \"filepath\": %s %w'' [FStr f, FErr e])
              | Panic m \<Rightarrow> Panic m
              | Ok dst \<Rightarrow>
                  (case stat dst of
                     StatErr e \<Rightarrow>
                       if isNotExist e then Err (Errorf ''for parameter \"filepath\": %q not found'' [FStr f])
                       else Err (Errorf ''for parameter \"filepath\": %w'' [FErr e])
                   | StatDir \<Rightarrow> Err (Errorf ''for parameter \"filepath\": %q is a directory'' [FStr f])
                   | StatFile \<Rightarrow> Ok (root, None)))
      | _ \<Rightarrow> Err (Errorf ''for parameter \"content\": got %s, want str or bytes'' [FStr (Type content)]))"

definition ctxEmitArtifact ::
    "(string \<Rightarrow> statRes) \<Rightarrow> report \<Rightarrow> shacEnv \<Rightarrow> string \<Rightarrow> starValue \<Rightarrow> checkRun \<Rightarrow> unit outcome \<times> checkRun" where
  "ctxEmitArtifact stat report env f content st =
     (case artifactRoot stat env f content of
        Err e \<Rightarrow> (Err e, st)
      | Panic m \<Rightarrow> (Panic m, st)
      | Ok (root, b) \<Rightarrow>
          emitTo report (EmArtifact \<lparr>arCheck = rname (crCheck st), arRoot = root, arFile = f, arContent = b\<rparr>) st)"

section \<open>ctx.vars.get, fail() and the wrapper of the builtins\<close>

definition ctxVarsGet :: "shacEnv \<Rightarrow> string \<Rightarrow> starValue outcome" where
  "ctxVarsGet env name =
     (if name = [] then Err (New ''for parameter \"name\": must not be empty'')
      else case seVars env name of
          None \<Rightarrow> Err (Errorf ''unknown variable %q'' [FStr name])
        | Some v \<Rightarrow> Ok (VStr v))"

text \<open>
  fail() joins the texts of its arguments (AsString or String(), given as strings here) with the
  separator and adds the error of its own arguments, if they were wrong; it annotates the running
  check, or the state when it is called while loading.
\<close>

definition failMessage :: "string \<Rightarrow> string list \<Rightarrow> err option \<Rightarrow> string" where
  "failMessage sep texts argErr =
     Join texts sep @ (case argErr of None \<Rightarrow> [] | Some e \<Rightarrow> [NL] @ errText e)"

definition fail_builtin ::
    "string \<Rightarrow> string list \<Rightarrow> err option \<Rightarrow> registeredCheck option \<Rightarrow>
      err \<times> registeredCheck option \<times> err option" where
  "fail_builtin sep texts argErr running =
     (let msg = failMessage sep texts argErr
      in (New (''fail: '' @ msg),
          map_option (\<lambda>c. c\<lparr>failErr := Some (Failure msg)\<rparr>) running,
          if running = None then Some (Failure msg) else None))"

definition builtinWrapper :: "string \<Rightarrow> 'a outcome \<Rightarrow> 'a outcome" where
  "builtinWrapper name r =
     (case r of
        Err e \<Rightarrow> if HasPrefix (errText e) (name @ '': '') then Err e else Err (Errorf ''%s: %w'' [FStr name, FErr e])
      | other \<Rightarrow> other)"

section \<open>Properties\<close>

text \<open>A span as the consumers of findings expect it.\<close>

definition wfSpan :: "Span \<Rightarrow> bool" where
  "wfSpan s \<longleftrightarrow>
     0 \<le> Line (Start s) \<and> 0 \<le> Col (Start s) \<and> 0 \<le> Line (End s) \<and> 0 \<le> Col (End s) \<and>
     (Line (Start s) = 0 \<longrightarrow> Col (Start s) = 0 \<and> Line (End s) = 0 \<and> Col (End s) = 0) \<and>
     (Col (Start s) = 0 \<longrightarrow> Col (End s) = 0) \<and>
     (Line (End s) \<noteq> 0 \<longrightarrow> Line (Start s) \<le> Line (End s)) \<and>
     (Col (End s) \<noteq> 0 \<longrightarrow> Line (End s) \<noteq> 0)"

definition ordered_span :: "Span \<Rightarrow> bool" where
  "ordered_span s \<longleftrightarrow>
     (Line (End s) = Line (Start s) \<and> Col (End s) \<noteq> 0 \<longrightarrow> Col (Start s) \<le> Col (End s))"

text \<open>C40. Every span a check may emit is well formed: positions are not negative, a column needs a
  line, an end column needs a column, and the last line is not before the first; and when the
  check gives end_line itself, the end column is not before the column on a single line.\<close>

theorem parseSpan_wf:
  assumes "parseSpan l c el ec = Ok s"
  shows "wfSpan s \<and> (el > 0 \<longrightarrow> ordered_span s)"
proof -
  have nn: "x = intToInt y \<Longrightarrow> \<not> x \<le> -1 \<Longrightarrow> 0 \<le> x" for x y by (simp add: intToInt_def)
  have el: "el > 0 \<Longrightarrow> intToInt el > 0 \<or> intToInt el \<le> -1" by (simp add: intToInt_def)
  show ?thesis
    using assms el
    by (auto simp: parseSpan_def Let_def oneBased_def wfSpan_def ordered_span_def mkSpan_def
        split: if_splits)
qed

theorem parseSpan_wf_witness: "wfSpan (mkSpan 3 2 3 5) \<and> ordered_span (mkSpan 3 2 3 5)"
proof -
  have "parseSpan 3 2 3 5 = Ok (mkSpan 3 2 3 5)" by (simp add: parseSpan_def intToInt_def)
  then show ?thesis using parseSpan_wf by simp
qed

text \<open>Without end_line the end column is not compared with the column: the span ends before it
  starts, on the same line, and is accepted.\<close>

theorem parseSpan_inverted:
  assumes "0 < l" "l \<le> maxInt" "0 < ec" "ec < c" "c \<le> maxInt"
  shows "parseSpan l c 0 ec = Ok (mkSpan l c l ec) \<and> \<not> ordered_span (mkSpan l c l ec) \<and>
    \<not> isOk (parseSpan l c l ec)"
  using assms by (auto simp: parseSpan_def intToInt_def ordered_span_def mkSpan_def)

theorem parseSpan_inverted_witness: "parseSpan 1 9 0 2 = Ok (mkSpan 1 9 1 2)"
  using parseSpan_inverted[of 1 2 9] by simp

text \<open>C25. A finding on a file is reported exactly when the checkout tracks the file, as the binary
  search in the listing decides it; the level counts for the check either way, since it is raised
  before the file is looked up.\<close>

theorem emit_iff_tracked:
  assumes "goodSorts os" and "scmSorted (crScm st)" and "faFile a \<noteq> []"
    and "parseFinding env (checkOf (crCheck st)) a = Ok parsed"
    and "scm_allFiles os \<lparr>includeDeleted = False, includeSymlinks = True\<rparr> (crScm st) = (Files fs None, s')"
    and "ctxEmitFinding os report env a st = (r, st')"
  shows "(if faFile a \<in> relpath ` set fs
      then \<exists>f. crEmitted st' = crEmitted st @ [EmFinding f] \<and> fdFile f = faFile a \<and> fdLevel f = faLevel a \<and>
             (r = Ok () \<longleftrightarrow> report (EmFinding f) = None)
      else crEmitted st' = crEmitted st \<and> \<not> isOk r) \<and>
    highestLevel (crCheck st') = raiseLevel (highestLevel (crCheck st)) (faLevel a)"
proof -
  obtain span reps msg props where p: "parsed = (span, reps, msg, props)" by (cases parsed)
  have find: "snd (sortFind (length fs) (\<lambda>i. stringsCompare (faFile a) (map relpath fs ! i))) \<longleftrightarrow>
      faFile a \<in> relpath ` set fs"
    using all_listing.search_finds[of os "crScm st" _ fs None s'] assms(1,2,5) by blast
  have tracked: "checkTracked os (faFile a) (crScm st) =
      (if faFile a \<in> relpath ` set fs then Ok ()
       else Err (Errorf ''for parameter \"filepath\": %s is not tracked'' [FStr (faFile a)]), s')"
    using assms(5) find by (simp add: checkTracked_def)
  show ?thesis
    using assms(3,4,6) tracked
    by (auto simp: ctxEmitFinding_def p raiseTo_def emitTo_def Let_def split: if_splits option.splits)
qed

text \<open>The calls a check makes, until the first that fails aborts it.\<close>

datatype emitCall = CallFinding findingArgs | CallCommit commitArgs

fun callLevel :: "emitCall \<Rightarrow> Level" where
  "callLevel (CallFinding a) = faLevel a"
| "callLevel (CallCommit a) = caLevel a"

fun emitCall_run :: "osView \<Rightarrow> report \<Rightarrow> shacEnv \<Rightarrow> emitCall \<Rightarrow> checkRun \<Rightarrow> unit outcome \<times> checkRun" where
  "emitCall_run os report env (CallFinding a) st = ctxEmitFinding os report env a st"
| "emitCall_run os report env (CallCommit a) st = ctxEmitCommitMessageFinding report env a st"

fun emitAll :: "osView \<Rightarrow> report \<Rightarrow> shacEnv \<Rightarrow> emitCall list \<Rightarrow> checkRun \<Rightarrow> unit outcome \<times> checkRun" where
  "emitAll os report env [] st = (Ok (), st)"
| "emitAll os report env (c # cs) st =
     (case emitCall_run os report env c st of
        (Ok u, st') \<Rightarrow> emitAll os report env cs st'
      | (other, st') \<Rightarrow> (other, st'))"

lemma emitTo_level [simp]: "emitTo report em st = (r, st') \<Longrightarrow> highestLevel (crCheck st') = highestLevel (crCheck st)"
  by (auto simp: emitTo_def)

lemma emitCall_level:
  assumes "emitCall_run os report env c st = (Ok u, st')"
  shows "isValid (callLevel c) \<and> highestLevel (crCheck st') = raiseLevel (highestLevel (crCheck st)) (callLevel c)"
proof (cases c)
  case (CallFinding a)
  have "isValid (faLevel a)" if "parseFinding env k a = Ok x" for k x
    using that by (auto simp: parseFinding_def go_out split: if_splits)
  then show ?thesis
    using assms CallFinding
    by (auto simp: ctxEmitFinding_def raiseTo_def Let_def split: outcome.splits prod.splits dest!: emitTo_level)
next
  case (CallCommit a)
  then show ?thesis
    using assms by (auto simp: ctxEmitCommitMessageFinding_def raiseTo_def Let_def go_out
        split: outcome.splits prod.splits if_splits dest!: emitTo_level)
qed

lemma emitAll_levels:
  assumes "emitAll os report env cs st = (Ok u, st')" and "highestLevel (crCheck st) = Nothing"
  shows "severityOf (highestLevel (crCheck st')) = foldl max SevNothing (map (severityOf \<circ> callLevel) cs) \<and>
    (highestLevel (crCheck st') = Error \<longleftrightarrow> Error \<in> callLevel ` set cs)"
proof -
  have run: "list_all isValid (map callLevel cs) \<and>
      highestLevel (crCheck st') = foldl raiseLevel (highestLevel (crCheck st)) (map callLevel cs)"
    using assms(1)
  proof (induction cs arbitrary: st)
    case (Cons c cs)
    then show ?case
      using emitCall_level[of os report env c st] by (auto split: prod.splits outcome.splits)
  qed simp
  define h where "h = highestLevel (crCheck st')"
  have h: "isValid h \<or> h = Nothing" "severityOf h = foldl max SevNothing (map severityOf (map callLevel cs))"
    using raiseLevel_fold[of "map callLevel cs" Nothing] run assms(2)
    by (simp_all add: h_def severityOf_def level_defs)
  have valid: "\<forall>c \<in> set cs. isValid (callLevel c)" using run by (simp add: list_all_iff)
  have "h = Error \<longleftrightarrow> SevError \<in> set (map severityOf (map callLevel cs))"
    using severityOf_Error[OF h(1)] h(2) foldl_max_SevError by simp
  also have "\<dots> \<longleftrightarrow> Error \<in> callLevel ` set cs"
    using valid severityOf_Error by (force simp: image_iff)
  finally show ?thesis using h(2) by (simp add: h_def)
qed

text \<open>After a check's emissions its highest level is the most severe level among them, and it is
  "error" exactly when one of them was an error: the verdict on the check does not depend on their
  order.\<close>

theorem emitAll_highestLevel:
  assumes "emitAll os report env cs st = (Ok u, st')" and "highestLevel (crCheck st) = Nothing"
  shows "severityOf (highestLevel (crCheck st')) = foldl max SevNothing (map (severityOf \<circ> callLevel) cs) \<and>
    (highestLevel (crCheck st') = Error \<longleftrightarrow> Error \<in> callLevel ` set cs)"
  using assms by (rule emitAll_levels)

text \<open>The properties of a finding that is emitted are the ones the check gave, under names the
  configuration allows, and all of them strings.\<close>

theorem props_allowed:
  assumes "bag_Unpack allowed (VDict items) = Ok m"
  shows "map (\<lambda>(k, v). (VStr k, VStr v)) m = items \<and> fst ` set m \<subseteq> set allowed"
proof -
  have m: "toMap items allowed = Ok m" using assms by (auto simp: bag_Unpack_def split: if_splits)
  have "map (\<lambda>(k, v). (VStr k, VStr v)) m = items \<and> list_all (\<lambda>kv. fst kv \<in> set allowed) m"
    using m
    by (induction items arbitrary: m)
      (auto simp: toGoValue_def go_out split: starValue.splits if_splits outcome.splits)
  then show ?thesis by (auto simp: list_all_iff)
qed

section \<open>The properties on concrete calls\<close>

definition demoCheck :: registeredCheck where
  "demoCheck = newRegistered \<lparr>impl = \<lparr>fnName = ''cb'', params = [(''ctx'', None)], NumKwonly = 0, HasVarargs = False, HasKwargs = False\<rparr>,
     cname = ''cb'', formatter = False, kwargs = []\<rparr>"

definition demoRun :: checkRun where
  "demoRun = \<lparr>crCheck = demoCheck, crScm = Specified demoFiles ''/r'' (InMemory [] (FileImpl ''a.go'' [])), crEmitted = []\<rparr>"

definition demoEnv :: shacEnv where
  "demoEnv = \<lparr>seRoot = ''/r'', seSubdir = [], seAllowedProps = [''k''], seVars = Map.empty\<rparr>"

definition demoArgs :: "string \<Rightarrow> string \<Rightarrow> findingArgs" where
  "demoArgs level file = \<lparr>faLevel = level, faMessage = ''m'', faFile = file, faLine = 0, faCol = 0,
     faEndLine = 0, faEndCol = 0, faReplacements = None, faProps = None\<rparr>"

lemma demoArgs_parse:
  "isValid level \<Longrightarrow> parseFinding demoEnv c (demoArgs level file) = Ok (mkSpan 0 0 0 0, [], ''m'', None)"
  by (simp add: parseFinding_def demoArgs_def unpackProps_def parseSpan_def intToInt_def mkSpan_def
      parseReplacements_def defaultMessage_def)

theorem emit_iff_tracked_witness:
  "crEmitted (snd (ctxEmitFinding (demoOs (\<lambda>_ _. ExecOk [])) (\<lambda>_. None) demoEnv (demoArgs Warning ''b.go'') demoRun)) = [] \<and>
   highestLevel (crCheck (snd (ctxEmitFinding (demoOs (\<lambda>_ _. ExecOk [])) (\<lambda>_. None) demoEnv
     (demoArgs Warning ''b.go'') demoRun))) = Warning"
proof -
  let ?os = "demoOs (\<lambda>_ _. ExecOk [])"
  let ?run = "ctxEmitFinding ?os (\<lambda>_. None) demoEnv (demoArgs Warning ''b.go'') demoRun"
  have list: "scm_allFiles ?os \<lparr>includeDeleted = False, includeSymlinks = True\<rparr> (crScm demoRun) =
      (Files [FileImpl ''a.go'' []] None, crScm demoRun)"
    by (simp add: demoRun_def)
  have sorted: "scmSorted (crScm demoRun)" by (simp add: demoRun_def demoFiles_def bothSorted_def)
  have af: "faFile (demoArgs Warning ''b.go'') = ''b.go''" "faLevel (demoArgs Warning ''b.go'') = Warning"
    by (simp_all add: demoArgs_def)
  have lvl: "highestLevel (crCheck demoRun) = []" "crEmitted demoRun = []"
    by (simp_all add: demoRun_def demoCheck_def newRegistered_def Nothing_def)
  have parse: "parseFinding demoEnv (checkOf (crCheck demoRun)) (demoArgs Warning ''b.go'') =
      Ok (mkSpan 0 0 0 0, [], ''m'', None)"
    by (rule demoArgs_parse) (simp add: isValid_def)
  obtain r st' where st: "?run = (r, st')" by (cases ?run)
  have "crEmitted st' = crEmitted demoRun \<and> highestLevel (crCheck st') = raiseLevel (highestLevel (crCheck demoRun)) Warning"
    using emit_iff_tracked[OF demoOs_sorts sorted _ parse list st] af by simp
  then show ?thesis using st lvl by (simp add: raiseLevel_def)
qed

theorem emitAll_highestLevel_witness:
  "highestLevel (crCheck (snd (emitAll (demoOs (\<lambda>_ _. ExecOk [])) (\<lambda>_. None) demoEnv
     [CallFinding (demoArgs Error []), CallFinding (demoArgs Notice [])] demoRun))) = Error"
proof -
  let ?cs = "[CallFinding (demoArgs Error []), CallFinding (demoArgs Notice [])]"
  let ?run = "emitAll (demoOs (\<lambda>_ _. ExecOk [])) (\<lambda>_. None) demoEnv ?cs demoRun"
  have valid: "isValid Error" "isValid Notice" by (simp_all add: isValid_def)
  have no_file: "faFile (demoArgs level []) = []" for level by (simp add: demoArgs_def)
  have one: "fst (ctxEmitFinding os (\<lambda>_. None) demoEnv (demoArgs level []) st) = Ok ()"
    if "isValid level" for os level st
    using that by (simp add: ctxEmitFinding_def demoArgs_parse emitTo_def Let_def no_file)
  obtain st1 where st1: "ctxEmitFinding (demoOs (\<lambda>_ _. ExecOk [])) (\<lambda>_. None) demoEnv (demoArgs Error []) demoRun = (Ok (), st1)"
    using one[OF valid(1)] by (metis prod.collapse)
  obtain st2 where st2: "ctxEmitFinding (demoOs (\<lambda>_ _. ExecOk [])) (\<lambda>_. None) demoEnv (demoArgs Notice []) st1 = (Ok (), st2)"
    using one[OF valid(2)] by (metis prod.collapse)
  have run: "?run = (Ok (), st2)" by (simp add: st1 st2)
  have "highestLevel (crCheck demoRun) = Nothing" by (simp add: demoRun_def demoCheck_def newRegistered_def)
  from emitAll_highestLevel[OF run this] show ?thesis
    unfolding run by (simp add: demoArgs_def)
qed

theorem props_allowed_witness: "fst ` set [(''k'', ''v'')] \<subseteq> set [''k'']"
proof -
  have "bag_Unpack [''k''] (VDict [(VStr ''k'', VStr ''v'')]) = Ok [(''k'', ''v'')]"
    by (simp add: bag_Unpack_def toGoValue_def)
  from props_allowed[OF this] show ?thesis by simp
qed

end
