(* ===== verification/Config.thy ===== *)
theory Config
  imports Go_Path
begin

text \<open>
  The configuration file shac.textproto once parsed (internal/engine/config.go, the messages of
  shac.proto) and the version of the tool (version.go): the version check, the validation of
  dependencies, of the digests known for them and of variables, and the lookup of a digest. The
  parsing of URLs (net/url) is a parameter. The lemmas show what a validated document guarantees
  to the package manager.
\<close>

section \<open>The document\<close>

record Dependency =
  Url :: string
  Alias :: string
  Version :: string

record VersionDigest =
  vdVersion :: string
  vdDigest :: string

record Known =
  kUrl :: string
  Seen :: "VersionDigest list"

record Requirements =
  Direct :: "Dependency list"
  Indirect :: "Dependency list"

record Var =
  vName :: string
  vDefault :: string

record PassthroughEnv =
  peName :: string
  peIsPath :: bool
  peWriteable :: bool

record Document =
  MinShacVersion :: string
  AllowNetwork :: bool
  WritableRoot :: bool
  Ignore :: "string list"
  docRequirements :: "Requirements option"
  docSum :: "Known list option"
  VendorPath :: string
  Vars :: "Var list"
  docPassthroughEnv :: "PassthroughEnv list"
  AllowedFindingsProperties :: "string list option"

section \<open>Versions\<close>

definition shacVersion :: "int list" where
  "shacVersion = [0, 1, 33]"

fun atoiAll :: "string list \<Rightarrow> int list option" where
  "atoiAll [] = Some []"
| "atoiAll (x # xs) =
     (case Atoi x of None \<Rightarrow> None | Some i \<Rightarrow> map_option (Cons i) (atoiAll xs))"

definition parseVersion :: "string \<Rightarrow> int list option" where
  "parseVersion s = atoiAll (Split s CHR ''.'')"

definition versionString :: "int list \<Rightarrow> string" where
  "versionString v = Join (map Itoa v) ''.''"

fun versionLoop :: "int list \<Rightarrow> int list \<Rightarrow> bool" where
  "versionLoop (v # vs) (w # ws) = (if v > w then False else if v < w then True else versionLoop vs ws)"
| "versionLoop vs ws = True"

definition CheckVersion :: "Document \<Rightarrow> unit outcome" where
  "CheckVersion doc =
     (if MinShacVersion doc = [] then Ok ()
      else case parseVersion (MinShacVersion doc) of
          None \<Rightarrow> Err (New ''min_shac_version is invalid'')
        | Some v \<Rightarrow>
            if length v > length shacVersion then Err (New ''min_shac_version is invalid'')
            else if versionLoop v shacVersion then Ok ()
            else Err (Errorf ''min_shac_version specifies unsupported version %q, running %s''
                   [FStr (MinShacVersion doc), FStr (versionString shacVersion)]))"

section \<open>URLs, aliases and versions of dependencies\<close>

record goURL =
  Scheme :: string
  Host :: string
  uPath :: string
  RawQuery :: string
  Fragment :: string

record urlLib =
  url_Parse :: "string \<Rightarrow> goURL outcome"
  url_String :: "goURL \<Rightarrow> string"

definition cleanURL :: "urlLib \<Rightarrow> string \<Rightarrow> string outcome" where
  "cleanURL lib n =
     bindO (url_Parse lib n) (\<lambda>u.
       if Scheme u \<noteq> [] then Err (Errorf ''unexpected scheme for %s'' [FStr n])
       else if RawQuery u \<noteq> [] then Err (Errorf ''unexpected query for %s'' [FStr n])
       else if Fragment u \<noteq> [] then Err (Errorf ''unexpected fragment for %s'' [FStr n])
       else if n \<noteq> url_String lib u then Err (Errorf ''unclean url %s'' [FStr n])
       else bindO (url_Parse lib (url_String lib (u\<lparr>Scheme := ''https''\<rparr>))) (\<lambda>u2.
         if Host u2 = [] then Err (New ''a hostname is required'')
         else if uPath u2 = [] then Err (New ''a path is required'')
         else Ok (url_String lib u2)))"

definition BSl :: char where "BSl = CHR 0x5C"
definition badChars :: string where
  "badChars = ''$^[]{}\"'' @ [CHR 0x27, BSl] @ '':+*<>=''"

definition isBadAlias :: "string \<Rightarrow> bool" where
  "isBadAlias s = ContainsAny s (badChars @ ''.'')"

definition isBadVersion :: "string \<Rightarrow> bool" where
  "isBadVersion s \<longleftrightarrow> ContainsAny s badChars \<or> Contains s ''..''"

text \<open>The regular expressions, as tests of the elements between slashes.\<close>

definition digits :: "nat \<Rightarrow> nat \<Rightarrow> string \<Rightarrow> bool" where
  "digits lo hi s \<longleftrightarrow> lo \<le> length s \<and> length s \<le> hi \<and> list_all isDigit s"

definition isGerritRef :: "string \<Rightarrow> bool" where
  "isGerritRef v =
     (case Split v CHR ''/'' of
        [r, c, a, b, d] \<Rightarrow> r = ''refs'' \<and> c = ''changes'' \<and> digits 1 2 a \<and> digits 1 11 b \<and> digits 1 3 d
      | _ \<Rightarrow> False)"

definition isPullRef :: "string \<Rightarrow> bool" where
  "isPullRef v =
     (case Split v CHR ''/'' of
        [p, n, h] \<Rightarrow> p = ''pull'' \<and> n \<noteq> [] \<and> list_all isDigit n \<and> h = ''head''
      | _ \<Rightarrow> False)"

text \<open>
  Validate tests "^pull/^\d+/head$" instead: the second "^" only matches at the start of the text,
  where "pull/" cannot precede it, so no version matches.
\<close>

definition isPullRefValidate :: "string \<Rightarrow> bool" where
  "isPullRefValidate v = False"

definition isHexDigit :: "char \<Rightarrow> bool" where
  "isHexDigit c \<longleftrightarrow> isDigit c \<or> List.member ''abcdefABCDEF'' c"

definition isCommitHash :: "string \<Rightarrow> bool" where
  "isCommitHash v \<longleftrightarrow> 40 \<le> length v \<and> length v \<le> 64 \<and> list_all isHexDigit v"

definition Dependency_Validate :: "urlLib \<Rightarrow> Dependency \<Rightarrow> unit outcome" where
  "Dependency_Validate lib d =
     (if Url d = [] then Err (New ''url must be set'')
      else case cleanURL lib (Url d) of
          Err e \<Rightarrow> Err (Errorf ''url is invalid: %w'' [FErr e])
        | Panic m \<Rightarrow> Panic m
        | Ok u \<Rightarrow>
            if isBadAlias (Alias d) then Err (New ''alias is invalid'')
            else if Version d = [] then Err (New ''version must be set'')
            else if \<not> isPullRefValidate (Version d) \<and> \<not> isGerritRef (Version d) \<and> \<not> isCommitHash (Version d) \<and>
              isBadVersion (Version d)
            then Err (New ''version is invalid'')
            else Ok ())"

section \<open>Known digests\<close>

text \<open>
  base64.StdEncoding.DecodeString: newlines are skipped, groups of four characters give three
  bytes, and the last group may be padded.
\<close>

definition b64Val :: "char \<Rightarrow> nat option" where
  "b64Val c =
     (let n = (of_char c :: nat)
      in if 65 \<le> n \<and> n \<le> 90 then Some (n - 65)
         else if 97 \<le> n \<and> n \<le> 122 then Some (n - 71)
         else if 48 \<le> n \<and> n \<le> 57 then Some (n + 4)
         else if n = 43 then Some 62
         else if n = 47 then Some 63 else None)"

fun b64Groups :: "string \<Rightarrow> nat list option" where
  "b64Groups [] = Some []"
| "b64Groups (a # b # c # d # rest) =
     (case (b64Val a, b64Val b) of
        (Some x, Some y) \<Rightarrow>
          if c = CHR ''='' then (if d = CHR ''='' \<and> rest = [] then Some [4 * x + y div 16] else None)
          else (case b64Val c of
              None \<Rightarrow> None
            | Some z \<Rightarrow>
                if d = CHR ''=''
                then (if rest = [] then Some [4 * x + y div 16, 16 * (y mod 16) + z div 4] else None)
                else (case b64Val d of
                    None \<Rightarrow> None
                  | Some w \<Rightarrow>
                      map_option (\<lambda>bs. (4 * x + y div 16) # (16 * (y mod 16) + z div 4) # (64 * (z mod 4) + w) # bs)
                        (b64Groups rest)))
      | _ \<Rightarrow> None)"
| "b64Groups _ = None"

definition b64Decode :: "string \<Rightarrow> nat list option" where
  "b64Decode s = b64Groups (filter (\<lambda>c. c \<noteq> CHR 0x0A \<and> c \<noteq> CHR 0x0D) s)"

definition seenErr :: "nat \<Rightarrow> string \<Rightarrow> unit outcome" where
  "seenErr i msg = Err (Errorf (''seen block #%d: '' @ msg) [FInt (int i + 1)])"

fun seenLoop :: "nat \<Rightarrow> string \<Rightarrow> VersionDigest list \<Rightarrow> unit outcome" where
  "seenLoop i l [] = Ok ()"
| "seenLoop i l (vd # vds) =
     (if vdVersion vd = [] then seenErr i ''version must be set''
      else if isBadVersion (vdVersion vd) then seenErr i ''version is invalid''
      else if vdVersion vd \<le> l then seenErr i ''version must be sorted''
      else if vdDigest vd = [] then seenErr i ''digest must be set''
      else if \<not> HasPrefix (vdDigest vd) ''h1:'' then seenErr i ''digest is invalid, must start with \"h1:\"''
      else case b64Decode (drop 3 (vdDigest vd)) of
          None \<Rightarrow> seenErr i ''digest is invalid''
        | Some dec \<Rightarrow>
            if length dec \<noteq> 32
            then Err (Errorf ''seen block #%d: digest is invalid, expected 32 bytes, got %d''
                   [FInt (int i + 1), FInt (int (length dec))])
            else seenLoop (Suc i) (vdVersion vd) vds)"

definition Known_Validate :: "urlLib \<Rightarrow> Known \<Rightarrow> unit outcome" where
  "Known_Validate lib k =
     (if kUrl k = [] then Err (New ''url must be set'')
      else case cleanURL lib (kUrl k) of
          Err e \<Rightarrow> Err (Errorf ''url is invalid: %w'' [FErr e])
        | Panic m \<Rightarrow> Panic m
        | Ok u \<Rightarrow>
            if Seen k = [] then Err (New ''there must be at least on seen entry'')
            else seenLoop 0 [] (Seen k))"

fun digestOf :: "VersionDigest list \<Rightarrow> string \<Rightarrow> string option" where
  "digestOf [] version = None"
| "digestOf (vd # vds) version = (if vdVersion vd = version then Some (vdDigest vd) else digestOf vds version)"

fun Digest :: "Known list \<Rightarrow> string \<Rightarrow> string \<Rightarrow> string" where
  "Digest [] url version = []"
| "Digest (k # ks) url version =
     (if kUrl k = url
      then (case digestOf (Seen k) version of Some d \<Rightarrow> d | None \<Rightarrow> Digest ks url version)
      else Digest ks url version)"

section \<open>Validation of the document\<close>

text \<open>The dependencies listed so far, as the map from URL to version, and the aliases in use.\<close>

record reqState =
  rsDeps :: "(string \<times> string) list"
  rsAliases :: "string list"

fun requireLoop :: "urlLib \<Rightarrow> string \<Rightarrow> nat \<Rightarrow> Dependency list \<Rightarrow> reqState \<Rightarrow> reqState outcome" where
  "requireLoop lib kind i [] st = Ok st"
| "requireLoop lib kind i (d # ds) st =
     (case Dependency_Validate lib d of
        Err e \<Rightarrow> Err (Errorf (kind @ '' require block #%d: %w'') [FInt (int i + 1), FErr e])
      | Panic m \<Rightarrow> Panic m
      | Ok u \<Rightarrow>
          if Url d \<in> fst ` set (rsDeps st)
          then Err (Errorf (kind @ '' require block #%d: %s was already listed'') [FInt (int i + 1), FStr (Url d)])
          else if Alias d \<noteq> [] \<and> Alias d \<in> set (rsAliases st)
          then Err (Errorf (kind @ '' require block #%d: alias %s was already listed'') [FInt (int i + 1), FStr (Alias d)])
          else requireLoop lib kind (Suc i) ds
                 \<lparr>rsDeps = rsDeps st @ [(Url d, Version d)],
                  rsAliases = (if Alias d = [] then rsAliases st else Alias d # rsAliases st)\<rparr>)"

definition requirementsCheck :: "urlLib \<Rightarrow> Requirements option \<Rightarrow> reqState outcome" where
  "requirementsCheck lib r =
     (case r of
        None \<Rightarrow> Ok \<lparr>rsDeps = [], rsAliases = []\<rparr>
      | Some rq \<Rightarrow>
          if Indirect rq \<noteq> [] \<and> Direct rq = []
          then Err (New ''cannot have indirect dependency without direct one'')
          else bindO (requireLoop lib ''direct'' 0 (Direct rq) \<lparr>rsDeps = [], rsAliases = []\<rparr>)
                 (requireLoop lib ''indirect'' 0 (Indirect rq)))"

fun knownLoop :: "urlLib \<Rightarrow> nat \<Rightarrow> Known list \<Rightarrow> (string \<times> VersionDigest list) list \<Rightarrow>
    (string \<times> VersionDigest list) list outcome" where
  "knownLoop lib i [] seen = Ok seen"
| "knownLoop lib i (k # ks) seen =
     (case Known_Validate lib k of
        Err e \<Rightarrow> Err (Errorf ''sum known block #%d: %w'' [FInt (int i + 1), FErr e])
      | Panic m \<Rightarrow> Panic m
      | Ok u \<Rightarrow>
          if kUrl k \<in> fst ` set seen
          then Err (Errorf ''sum known block #%d: %s was already listed'' [FInt (int i + 1), FStr (kUrl k)])
          else knownLoop lib (Suc i) ks (seen @ [(kUrl k, Seen k)]))"

definition sumCheck ::
    "urlLib \<Rightarrow> (string \<times> string) list \<Rightarrow> Known list option \<Rightarrow> (string \<times> VersionDigest list) list outcome" where
  "sumCheck lib deps s =
     (case s of
        None \<Rightarrow> Ok []
      | Some ks \<Rightarrow>
          if deps = [] \<and> ks \<noteq> [] then Err (New ''cannot have sum without at least one dependency'')
          else knownLoop lib 0 ks [])"

fun depsLoop :: "(string \<times> VersionDigest list) list \<Rightarrow> (string \<times> string) list \<Rightarrow> unit outcome" where
  "depsLoop seen [] = Ok ()"
| "depsLoop seen ((name, version) # deps) =
     (case map_of seen name of
        None \<Rightarrow> Err (Errorf ''dependency %s doesn't have a known block'' [FStr name])
      | Some known \<Rightarrow>
          if list_ex (\<lambda>vd. vdVersion vd = version) known then depsLoop seen deps
          else Err (Errorf ''dependency %s doesn't have a known version %s'' [FStr name, FStr version]))"

definition Document_Validate :: "urlLib \<Rightarrow> Document \<Rightarrow> unit outcome" where
  "Document_Validate lib doc =
     bindO (CheckVersion doc) (\<lambda>_.
     bindO (requirementsCheck lib (docRequirements doc)) (\<lambda>st.
     bindO (sumCheck lib (rsDeps st) (docSum doc)) (\<lambda>seen.
     bindO (depsLoop seen (rsDeps st)) (\<lambda>_.
       if VendorPath doc \<noteq> [] \<and> Clean (VendorPath doc) \<noteq> VendorPath doc
       then Err (Errorf ''vendor_path %s is not clean'' [FStr (VendorPath doc)])
       else if list_ex (\<lambda>v. vName v = []) (Vars doc) then Err (New ''vars cannot have empty names'')
       else Ok ()))))"

definition allDeps :: "Document \<Rightarrow> Dependency list" where
  "allDeps doc = (case docRequirements doc of None \<Rightarrow> [] | Some r \<Rightarrow> Direct r @ Indirect r)"

definition docDigest :: "Document \<Rightarrow> Dependency \<Rightarrow> string outcome" where
  "docDigest doc d =
     (case docSum doc of
        None \<Rightarrow> Panic ''nil pointer dereference''
      | Some ks \<Rightarrow> Ok (Digest ks (Url d) (Version d)))"

section \<open>What validation guarantees\<close>

lemma versionLoop_lex: "length v \<le> length w \<Longrightarrow> versionLoop v w \<longleftrightarrow> v \<le> take (length v) w"
  by (induction v w rule: versionLoop.induct) auto

definition validDigest :: "string \<Rightarrow> bool" where
  "validDigest d \<longleftrightarrow> HasPrefix d ''h1:'' \<and> (\<exists>dec. b64Decode (drop 3 d) = Some dec \<and> length dec = 32)"

lemma seenLoop_Ok:
  "seenLoop i l vds = Ok () \<Longrightarrow>
   (\<forall>vd \<in> set vds. l < vdVersion vd \<and> validDigest (vdDigest vd)) \<and> sorted_wrt (<) (map vdVersion vds)"
proof (induction i l vds rule: seenLoop.induct)
  case (1 i l)
  then show ?case by simp
next
  case (2 i l vd vds)
  obtain dec where dec: "b64Decode (drop 3 (vdDigest vd)) = Some dec" "length dec = 32"
    and vd: "l < vdVersion vd" "HasPrefix (vdDigest vd) ''h1:''"
    and rest: "seenLoop (Suc i) (vdVersion vd) vds = Ok ()"
    using "2.prems" by (auto simp: seenErr_def split: if_splits option.splits)
  have "validDigest (vdDigest vd)" using dec vd by (auto simp: validDigest_def)
  moreover have "(\<forall>x \<in> set vds. vdVersion vd < vdVersion x \<and> validDigest (vdDigest x)) \<and>
      sorted_wrt (<) (map vdVersion vds)"
    using "2.prems" dec vd rest "2.IH" by (auto simp: seenErr_def split: if_splits)
  ultimately show ?case using vd(1) by fastforce
qed

lemma Known_Validate_Ok:
  "Known_Validate lib k = Ok () \<Longrightarrow> seenLoop 0 [] (Seen k) = Ok () \<and> kUrl k \<noteq> []"
  by (auto simp: Known_Validate_def split: if_splits outcome.splits)

lemma knownLoop_Ok:
  "knownLoop lib i ks seen = Ok out \<Longrightarrow>
   out = seen @ map (\<lambda>k. (kUrl k, Seen k)) ks \<and> (\<forall>k \<in> set ks. Known_Validate lib k = Ok ()) \<and>
   (distinct (map fst seen) \<longrightarrow> distinct (map fst out))"
proof (induction ks arbitrary: i seen)
  case Nil
  then show ?case by simp
next
  case (Cons k ks)
  then have k: "Known_Validate lib k = Ok ()" "kUrl k \<notin> fst ` set seen"
    "knownLoop lib (Suc i) ks (seen @ [(kUrl k, Seen k)]) = Ok out"
    by (auto split: outcome.splits if_splits)
  have "distinct (map fst out)" if "distinct (map fst seen)"
  proof -
    have "distinct (map fst (seen @ [(kUrl k, Seen k)]))" using that k(2) by simp
    then show ?thesis using Cons.IH[OF k(3)] by blast
  qed
  moreover have "out = seen @ map (\<lambda>k. (kUrl k, Seen k)) (k # ks) \<and>
      (\<forall>k \<in> set (k # ks). Known_Validate lib k = Ok ())" using Cons.IH[OF k(3)] k(1) by simp
  ultimately show ?case by blast
qed

lemma requireLoop_Ok:
  "requireLoop lib kind i ds st = Ok st' \<Longrightarrow>
   rsDeps st' = rsDeps st @ map (\<lambda>d. (Url d, Version d)) ds \<and>
   (\<forall>d \<in> set ds. Dependency_Validate lib d = Ok ()) \<and>
   (distinct (map fst (rsDeps st)) \<longrightarrow> distinct (map fst (rsDeps st')))"
proof (induction ds arbitrary: i st)
  case Nil
  then show ?case by simp
next
  case (Cons d ds)
  let ?st = "\<lparr>rsDeps = rsDeps st @ [(Url d, Version d)],
                  rsAliases = (if Alias d = [] then rsAliases st else Alias d # rsAliases st)\<rparr>"
  have d: "Dependency_Validate lib d = Ok ()" "Url d \<notin> fst ` set (rsDeps st)"
    "requireLoop lib kind (Suc i) ds ?st = Ok st'"
    using Cons.prems by (auto split: outcome.splits if_splits)
  have "distinct (map fst (rsDeps st'))" if "distinct (map fst (rsDeps st))"
  proof -
    have "distinct (map fst (rsDeps ?st))" using that d(2) by simp
    then show ?thesis using Cons.IH[OF d(3)] by blast
  qed
  moreover have "rsDeps st' = rsDeps st @ map (\<lambda>d. (Url d, Version d)) (d # ds) \<and>
      (\<forall>d \<in> set (d # ds). Dependency_Validate lib d = Ok ())" using Cons.IH[OF d(3)] d(1) by simp
  ultimately show ?case by blast
qed

lemma requirementsCheck_Ok:
  assumes "requirementsCheck lib (docRequirements doc) = Ok st"
  shows "rsDeps st = map (\<lambda>d. (Url d, Version d)) (allDeps doc) \<and>
    (\<forall>d \<in> set (allDeps doc). Dependency_Validate lib d = Ok ()) \<and> distinct (map Url (allDeps doc))"
proof (cases "docRequirements doc")
  case None
  then show ?thesis using assms by (auto simp: requirementsCheck_def allDeps_def)
next
  case (Some rq)
  then obtain st1 where st1: "requireLoop lib ''direct'' 0 (Direct rq) \<lparr>rsDeps = [], rsAliases = []\<rparr> = Ok st1"
    "requireLoop lib ''indirect'' 0 (Indirect rq) st1 = Ok st"
    using assms by (auto simp: requirementsCheck_def go_out split: if_splits)
  have "distinct (map fst (rsDeps st1))"
    by (rule requireLoop_Ok[OF st1(1), THEN conjunct2, THEN conjunct2, THEN mp]) simp
  then have dis: "distinct (map fst (rsDeps st))" using requireLoop_Ok[OF st1(2)] by blast
  have eq: "rsDeps st = map (\<lambda>d. (Url d, Version d)) (allDeps doc)"
    using requireLoop_Ok[OF st1(1)] requireLoop_Ok[OF st1(2)] Some by (simp add: allDeps_def)
  have "distinct (map Url (allDeps doc))" using dis unfolding eq by (simp add: comp_def)
  moreover have "\<forall>d \<in> set (allDeps doc). Dependency_Validate lib d = Ok ()"
    using requireLoop_Ok[OF st1(1)] requireLoop_Ok[OF st1(2)] Some by (auto simp: allDeps_def)
  ultimately show ?thesis using eq by blast
qed

lemma depsLoop_Ok:
  "depsLoop seen deps = Ok () \<Longrightarrow> (name, version) \<in> set deps \<Longrightarrow>
   \<exists>known. map_of seen name = Some known \<and> (\<exists>vd \<in> set known. vdVersion vd = version)"
  by (induction seen deps rule: depsLoop.induct) (auto simp: list_ex_iff split: option.splits if_splits)

lemma digestOf_Some: "\<exists>vd \<in> set vds. vdVersion vd = version \<Longrightarrow>
  \<exists>vd \<in> set vds. vdVersion vd = version \<and> digestOf vds version = Some (vdDigest vd)"
  by (induction vds) auto

lemma digestOf_distinct:
  "distinct (map vdVersion vds) \<Longrightarrow> vd \<in> set vds \<Longrightarrow> digestOf vds (vdVersion vd) = Some (vdDigest vd)"
  by (induction vds) (auto simp: image_iff)

lemma Digest_known:
  assumes "map_of (map (\<lambda>k. (kUrl k, Seen k)) ks) url = Some known" and "digestOf known version = Some d"
  shows "Digest ks url version = d"
  using assms by (induction ks) (auto split: if_splits)

lemma Validate_dependencies_pinned:
  assumes "Document_Validate lib doc = Ok ()" and "d \<in> set (allDeps doc)"
  shows "distinct (map Url (allDeps doc)) \<and> (\<exists>dig. docDigest doc d = Ok dig \<and> dig \<noteq> [] \<and> validDigest dig)"
proof -
  obtain st seen where st: "requirementsCheck lib (docRequirements doc) = Ok st"
    and seen: "sumCheck lib (rsDeps st) (docSum doc) = Ok seen" and deps: "depsLoop seen (rsDeps st) = Ok ()"
    using assms(1) by (auto simp: Document_Validate_def go_out)
  note req = requirementsCheck_Ok[OF st]
  obtain known where known: "map_of seen (Url d) = Some known" "\<exists>vd \<in> set known. vdVersion vd = Version d"
    using depsLoop_Ok[OF deps, of "Url d" "Version d"] assms(2) req by auto
  then obtain ks where ks: "docSum doc = Some ks" "knownLoop lib 0 ks [] = Ok seen"
    using seen by (auto simp: sumCheck_def split: option.splits if_splits)
  note kl = knownLoop_Ok[OF ks(2)]
  obtain vd where vd: "vd \<in> set known" "digestOf known (Version d) = Some (vdDigest vd)"
    using digestOf_Some[OF known(2)] by blast
  have "(Url d, known) \<in> set seen" using known(1) by (rule map_of_SomeD)
  then obtain k where k: "k \<in> set ks" "Seen k = known" using kl by auto
  then have "validDigest (vdDigest vd)"
    using kl Known_Validate_Ok seenLoop_Ok vd(1) by blast
  moreover have "docDigest doc d = Ok (vdDigest vd)"
    using Digest_known[OF _ vd(2)] known(1) kl ks(1) by (simp add: docDigest_def)
  ultimately show ?thesis using req by (auto simp: validDigest_def HasPrefix_def)
qed

section \<open>Properties\<close>

text \<open>min_shac_version is accepted exactly when it is empty or a list of at most three dot-separated
  integers that is not above the tool's own version, compared element by element up to its length.\<close>

theorem CheckVersion_iff:
  "CheckVersion doc = Ok () \<longleftrightarrow>
     MinShacVersion doc = [] \<or>
     (\<exists>v. parseVersion (MinShacVersion doc) = Some v \<and> length v \<le> 3 \<and> v \<le> take (length v) [0, 1, 33])"
  using versionLoop_lex[of _ shacVersion]
  by (auto simp: CheckVersion_def shacVersion_def split: option.splits if_splits)

text \<open>C27. A validated document pins every dependency, direct or indirect: its URL is listed once, and
  the digest looked up for its URL and version is not empty but a well-formed "h1:" digest of 32
  bytes, so the lookup never meets a missing sum.\<close>

theorem Validate_pins_dependencies:
  assumes "Document_Validate lib doc = Ok ()" and "d \<in> set (allDeps doc)"
  shows "distinct (map Url (allDeps doc)) \<and> (\<exists>dig. docDigest doc d = Ok dig \<and> dig \<noteq> [] \<and> validDigest dig)"
  by (rule Validate_dependencies_pinned[OF assms])

text \<open>The versions seen for a known URL are strictly increasing, so each has one digest and the
  order of the file does not matter to a lookup.\<close>

theorem Known_versions_increase:
  assumes "Known_Validate lib k = Ok ()" and "vd \<in> set (Seen k)" and "kUrl k = url"
  shows "sorted_wrt (<) (map vdVersion (Seen k)) \<and> Digest [k] url (vdVersion vd) = vdDigest vd"
proof -
  have s: "sorted_wrt (<) (map vdVersion (Seen k))"
    using seenLoop_Ok Known_Validate_Ok[OF assms(1)] by blast
  then have "distinct (map vdVersion (Seen k))" using strict_sorted_iff by blast
  then have "digestOf (Seen k) (vdVersion vd) = Some (vdDigest vd)"
    using assms(2) by (rule digestOf_distinct)
  then show ?thesis using s assms(3) by simp
qed

section \<open>The properties on a concrete document\<close>

definition demoUrls :: urlLib where
  "demoUrls = \<lparr>url_Parse = (\<lambda>s. Ok (if HasPrefix s ''https://''
       then \<lparr>Scheme = ''https'', Host = ''h'', uPath = drop 8 s, RawQuery = [], Fragment = []\<rparr>
       else \<lparr>Scheme = [], Host = [], uPath = s, RawQuery = [], Fragment = []\<rparr>)),
     url_String = (\<lambda>u. if Scheme u = [] then uPath u else ''https://'' @ uPath u)\<rparr>"

definition demoDigest :: string where
  "demoDigest = ''h1:AAAAAAAAAAAAAAAAAAAAAAAAAAAAAAAAAAAAAAAAAAA=''"

definition demoDep :: Dependency where
  "demoDep = \<lparr>Url = ''h/p'', Alias = ''p'', Version = ''v1''\<rparr>"

definition demoKnown :: Known where
  "demoKnown = \<lparr>kUrl = ''h/p'', Seen = [\<lparr>vdVersion = ''v1'', vdDigest = demoDigest\<rparr>]\<rparr>"

definition demoDoc :: Document where
  "demoDoc = \<lparr>MinShacVersion = ''0.1'', AllowNetwork = False, WritableRoot = False, Ignore = [],
     docRequirements = Some \<lparr>Direct = [demoDep], Indirect = []\<rparr>, docSum = Some [demoKnown],
     VendorPath = [], Vars = [], docPassthroughEnv = [], AllowedFindingsProperties = None\<rparr>"

lemma demoKnown_valid: "Known_Validate demoUrls demoKnown = Ok ()"
proof -
  have "b64Decode (drop 3 demoDigest) = Some (replicate 32 0)" by code_simp
  moreover have "HasPrefix demoDigest ''h1:''" "demoDigest \<noteq> []" by (simp_all add: demoDigest_def HasPrefix_def)
  moreover have "\<not> isBadVersion ''v1''" by code_simp
  moreover have "cleanURL demoUrls ''h/p'' = Ok ''https://h/p''"
    by (simp add: cleanURL_def demoUrls_def HasPrefix_def)
  moreover have "\<not> ''v1'' \<le> ([] :: string)" by simp
  ultimately show ?thesis by (simp add: Known_Validate_def demoKnown_def)
qed

lemma demoDep_valid: "Dependency_Validate demoUrls demoDep = Ok ()"
proof -
  have "\<not> isBadVersion ''v1''" "\<not> isBadAlias ''p''" by code_simp+
  moreover have "cleanURL demoUrls ''h/p'' = Ok ''https://h/p''"
    by (simp add: cleanURL_def demoUrls_def HasPrefix_def)
  ultimately show ?thesis by (simp add: Dependency_Validate_def demoDep_def)
qed

lemma demoDoc_valid: "Document_Validate demoUrls demoDoc = Ok ()"
proof -
  have "CheckVersion demoDoc = Ok ()" by code_simp
  moreover have "requirementsCheck demoUrls (docRequirements demoDoc) = Ok \<lparr>rsDeps = [(''h/p'', ''v1'')], rsAliases = [''p'']\<rparr>"
    using demoDep_valid by (simp add: requirementsCheck_def demoDoc_def) (simp add: demoDep_def)
  moreover have "sumCheck demoUrls [(''h/p'', ''v1'')] (docSum demoDoc) = Ok [(''h/p'', Seen demoKnown)]"
    using demoKnown_valid by (simp add: sumCheck_def demoDoc_def) (simp add: demoKnown_def)
  ultimately show ?thesis by (simp add: Document_Validate_def demoDoc_def demoKnown_def)
qed

theorem Validate_pins_dependencies_witness: "docDigest demoDoc demoDep = Ok demoDigest \<and> validDigest demoDigest"
proof -
  have d: "docDigest demoDoc demoDep = Ok demoDigest"
    by (simp add: docDigest_def demoDoc_def demoDep_def demoKnown_def)
  then show ?thesis
    using Validate_pins_dependencies[OF demoDoc_valid, of demoDep] by (simp add: allDeps_def demoDoc_def)
qed

theorem Known_versions_increase_witness: "Digest [demoKnown] ''h/p'' ''v1'' = demoDigest"
  using Known_versions_increase[OF demoKnown_valid, of "\<lparr>vdVersion = ''v1'', vdDigest = demoDigest\<rparr>" "''h/p''"]
  by (simp add: demoKnown_def)

end
