(* ===== verification/Step_System.thy ===== *)
theory Step_System
  imports Main
begin

text \<open>
  What the step relations of the concurrent components share: an invariant that every step keeps
  holds in every state that can be reached, and a measure that every step lowers bounds the length
  of every run. The components interpret these locales on their own steps.
\<close>

locale step_invariant =
  fixes step :: "'s \<Rightarrow> 's \<Rightarrow> bool" and inv :: "'s \<Rightarrow> bool"
  assumes keeps: "inv s \<Longrightarrow> step s s' \<Longrightarrow> inv s'"
begin

lemma reached: "step\<^sup>*\<^sup>* s s' \<Longrightarrow> inv s \<Longrightarrow> inv s'"
  by (induction rule: rtranclp_induct) (auto intro: keeps)

lemma after: "(step ^^ n) s s' \<Longrightarrow> inv s \<Longrightarrow> inv s'"
  by (rule reached[OF relpowp_imp_rtranclp])

end

locale step_measure = step_invariant +
  fixes left :: "'s \<Rightarrow> nat"
  assumes lowers: "inv s \<Longrightarrow> step s s' \<Longrightarrow> left s' < left s"
begin

lemma bounded: "(step ^^ n) s s' \<Longrightarrow> inv s \<Longrightarrow> n + left s' \<le> left s"
proof (induction n arbitrary: s')
  case (Suc n)
  then obtain u where u: "(step ^^ n) s u" "step u s'" by auto
  then show ?case using Suc.IH[OF u(1) Suc.prems(2)] lowers[OF after[OF u(1) Suc.prems(2)] u(2)] by simp
qed simp

lemma run_length: "(step ^^ n) s s' \<Longrightarrow> inv s \<Longrightarrow> n \<le> left s"
  using bounded by fastforce

text \<open>From every state that keeps the invariant a state without steps can be reached.\<close>

lemma comes_to_end: "inv s \<Longrightarrow> \<exists>s'. step\<^sup>*\<^sup>* s s' \<and> (\<forall>t. \<not> step s' t)"
proof (induction "left s" arbitrary: s rule: less_induct)
  case less
  show ?case
  proof (cases "\<exists>t. step s t")
    case True
    then obtain t where t: "step s t" by blast
    obtain s' where "step\<^sup>*\<^sup>* t s'" "\<forall>u. \<not> step s' u" using less.hyps[OF lowers[OF less.prems t] keeps[OF less.prems t]] by blast
    then show ?thesis using converse_rtranclp_into_rtranclp[of step, OF t] by blast
  qed blast
qed

end

end
