(* ===== verification/Subprocess.thy ===== *)
theory Subprocess
  imports Sandbox Emit Config Step_System "HOL-Library.AList"
begin

text \<open>
  ctx.os.exec() and the objects it returns (runtime_ctx_os.go), the pool of output buffers all
  checks share (buffers.go), and the call of a check, which cleans up what the check did not wait
  for (run.go, registeredCheck.call). What the operating system answers is a parameter: the
  environment, stat, mkdir, the removal of a directory and how every started command ends.
  Starlark's String method is a parameter as well.
\<close>

section \<open>The buffer pool\<close>

text \<open>
  A buffer is its address; the contents of all buffers are a map. The pool is a Go map, from
  which get takes an arbitrary element: \<open>pick\<close> says which.
\<close>

record bufferPool =
  poolB :: "nat list"
  poolNext :: nat
  bufData :: "nat \<Rightarrow> string"

definition buffers_get :: "(nat list \<Rightarrow> nat) \<Rightarrow> bufferPool \<Rightarrow> nat \<times> bufferPool" where
  "buffers_get pick bp =
     (if length (poolB bp) = 0
      then (poolNext bp, bp\<lparr>poolNext := poolNext bp + 1, bufData := (bufData bp)(poolNext bp := [])\<rparr>)
      else let b = pick (poolB bp) in (b, bp\<lparr>poolB := removeAll b (poolB bp)\<rparr>))"

definition buffers_push :: "nat option \<Rightarrow> bufferPool \<Rightarrow> bufferPool outcome" where
  "buffers_push b bp =
     (case b of
        None \<Rightarrow> Panic ''nil pointer dereference''
      | Some b \<Rightarrow>
          if b \<in> set (poolB bp) then Panic ''buffer has already been returned to the pool''
          else Ok (bp\<lparr>poolB := poolB bp @ [b], bufData := (bufData bp)(b := [])\<rparr>))"

definition initialPool :: bufferPool where
  "initialPool = \<lparr>poolB = [0, 1, 2], poolNext = 3, bufData = (\<lambda>_. [])\<rparr>"

section \<open>Subprocesses\<close>

record subprocess =
  spConfig :: sandboxConfig
  spCmd :: command
  spStdin :: string
  spArgs :: "string list"
  spStdout :: "nat option"
  spStderr :: "nat option"
  raiseOnFailure :: bool
  okRetcodes :: "int list"
  spTempDir :: string
  waitCalled :: bool

text \<open>
  How a command ends: what it wrote, the error that its run sends (an exit code, or another
  error), and, for a process that was started and never reaped, what killing it gives.
\<close>

datatype exitRes = ExitNil | ExitCode int | ExitErr err

record procEnd =
  peOut :: string
  peErr :: string
  peRes :: exitRes
  peKill :: "err option option"

record execState =
  esTemp :: tempState
  esPool :: bufferPool
  esProcs :: "subprocess list"
  esRemoved :: "string list"

text \<open>The answers of the system.\<close>

datatype statAns = OsStatErr err | OsStatOk bool

record sysView =
  LookupEnv :: "string \<Rightarrow> string option"
  GOROOT :: string
  PathListSeparator :: char
  Stat :: "string \<Rightarrow> statAns"
  LookPath :: "string \<Rightarrow> err + string"
  Mkdir :: "string \<Rightarrow> err option"
  RemoveAll :: "string \<Rightarrow> err option"
  onWindows :: bool
  starString :: "starValue \<Rightarrow> string"
  chooseBuf :: "nat list \<Rightarrow> nat"
  endOf :: "nat \<Rightarrow> procEnd"

definition subprocess_String :: "subprocess \<Rightarrow> string" where
  "subprocess_String p = fillFmt ''<subprocess %q>'' [Join (spArgs p) '' '']"

abbreviation outputLimit :: nat where "outputLimit \<equiv> 10 * 1024 * 1024"

definition failureText :: "int \<Rightarrow> string list \<Rightarrow> string \<Rightarrow> string" where
  "failureText retcode args err =
     errText (Errorf ''command failed with exit code %d: %s'' [FInt retcode, FStr (''['' @ Join args '' '' @ '']'')]) @
     (if length err > 0 then [NL] @ err else [])"

text \<open>
  The output is read from the end of the process, which says what finishing puts into the buffers,
  instead of from the buffers.
\<close>

definition waitInner :: "procEnd \<Rightarrow> subprocess \<Rightarrow> starValue outcome" where
  "waitInner pe p =
     (case (case peRes pe of ExitErr e \<Rightarrow> Err e | ExitCode c \<Rightarrow> Ok c | ExitNil \<Rightarrow> Ok 0) of
        Ok retcode \<Rightarrow>
          if length (peOut pe) > outputLimit then Err (New ''process returned too much stdout'')
          else if length (peErr pe) > outputLimit then Err (New ''process returned too much stderr'')
          else if retcode \<notin> set (okRetcodes p) \<and> raiseOnFailure p
          then Err (New (failureText retcode (spArgs p) (peErr pe)))
          else Ok (VStruct ''completed_subprocess''
                 [(''retcode'', VInt retcode), (''stderr'', VStr (peErr pe)), (''stdout'', VStr (peOut pe))])
      | Err e \<Rightarrow> Err e
      | Panic m \<Rightarrow> Panic m)"

text \<open>
  The buffers hold the output by the time the error of the run has been received: the output of
  the process is put there first.
\<close>

definition finishProc :: "sysView \<Rightarrow> nat \<Rightarrow> execState \<Rightarrow> execState" where
  "finishProc sys i st =
     (let pe = endOf sys i; p = esProcs st ! i; bp = esPool st
      in st\<lparr>esPool := bp\<lparr>bufData := (bufData bp)
              (the (spStdout p) := peOut pe, the (spStderr p) := peErr pe)\<rparr>\<rparr>)"

definition cleanup :: "sysView \<Rightarrow> nat \<Rightarrow> execState \<Rightarrow> unit outcome \<times> execState" where
  "cleanup sys i st =
     (let p = esProcs st ! i;
          e1 = (case peKill (endOf sys i) of None \<Rightarrow> None | Some k \<Rightarrow> k);
          rm = RemoveAll sys (spTempDir p);
          e2 = (case e1 of None \<Rightarrow> rm | Some e \<Rightarrow> Some e);
          st1 = st\<lparr>esRemoved := esRemoved st @ [spTempDir p]\<rparr>
      in case bindO (buffers_push (spStdout p) (esPool st1)) (buffers_push (spStderr p)) of
           Ok bp \<Rightarrow>
             (case e2 of None \<Rightarrow> Ok () | Some e \<Rightarrow> Err e,
              st1\<lparr>esPool := bp, esProcs := (esProcs st1)[i := p\<lparr>spStdout := None, spStderr := None\<rparr>]\<rparr>)
         | Err e \<Rightarrow> (Err e, st1)
         | Panic m \<Rightarrow> (Panic m, st1))"

definition subprocess_wait :: "sysView \<Rightarrow> nat \<Rightarrow> execState \<Rightarrow> starValue outcome \<times> execState" where
  "subprocess_wait sys i st =
     (if waitCalled (esProcs st ! i) then (Err (New ''wait was already called''), st)
      else let st1 = finishProc sys i (st\<lparr>esProcs := (esProcs st)[i := (esProcs st ! i)\<lparr>waitCalled := True\<rparr>]\<rparr>);
               val = waitInner (endOf sys i) (esProcs st1 ! i);
               (err2, st2) = cleanup sys i st1
           in (case val of
                 Ok v \<Rightarrow> (case err2 of Ok u \<Rightarrow> Ok v | Err e \<Rightarrow> Err e | Panic m \<Rightarrow> Panic m)
               | Err e \<Rightarrow> (case err2 of Panic m \<Rightarrow> Panic m | other \<Rightarrow> Err e)
               | Panic m \<Rightarrow> Panic m, st2))"

section \<open>ctx.os.exec()\<close>

record execArgs =
  eaCmd :: "string \<times> starValue list"
  eaCwd :: string
  eaEnv :: "(starValue \<times> starValue) list"
  eaStdin :: starValue
  eaAllowNetwork :: bool
  eaOkRetcodes :: starValue
  eaRaise :: bool

record execEnv =
  xeRoot :: string
  xeSubdir :: string
  xeWritableRoot :: bool
  xePassthrough :: "PassthroughEnv list"
  xeSandbox :: "sandboxConfig \<Rightarrow> command"

abbreviation minInt :: int where "minInt \<equiv> - maxInt - 1"

fun sequenceToInts :: "starValue list \<Rightarrow> int list option" where
  "sequenceToInts [] = Some []"
| "sequenceToInts (v # vs) =
     (case v of
        VInt i \<Rightarrow> if i < minInt \<or> i > maxInt then None else map_option (Cons i) (sequenceToInts vs)
      | _ \<Rightarrow> None)"

text \<open>The elements of a starlark.Sequence: a list, a tuple, or the keys of a dict.\<close>

fun asSequence :: "starValue \<Rightarrow> starValue list option" where
  "asSequence (VList vs) = Some vs"
| "asSequence (VTuple vs) = Some vs"
| "asSequence (VDict items) = Some (map fst items)"
| "asSequence _ = None"

definition parseOkRetcodes :: "(starValue \<Rightarrow> string) \<Rightarrow> starValue \<Rightarrow> bool \<Rightarrow> int list outcome" where
  "parseOkRetcodes str v raise =
     (if v = VNone then Ok [0]
      else if \<not> raise then Err (New ''cannot combine \"ok_retcodes\" and \"raise_on_failure=False\"'')
      else case (case asSequence v of None \<Rightarrow> None | Some vs \<Rightarrow> sequenceToInts vs) of
             None \<Rightarrow> Err (Errorf ''for parameter \"ok_retcodes\": got %s, wanted sequence of ints'' [FStr (str v)])
           | Some rs \<Rightarrow> Ok rs)"

definition Getenv :: "sysView \<Rightarrow> string \<Rightarrow> string" where
  "Getenv sys k = (case LookupEnv sys k of None \<Rightarrow> [] | Some v \<Rightarrow> v)"

definition baseEnv :: "sysView \<Rightarrow> string \<Rightarrow> (string \<times> string) list" where
  "baseEnv sys tempDir =
     [(''PATH'', if GOROOT sys \<noteq> []
                 then Join [PathJoin [GOROOT sys, ''bin''], Getenv sys ''PATH''] [PathListSeparator sys]
                 else Getenv sys ''PATH''),
      (''TEMP'', tempDir), (''TMPDIR'', tempDir), (''TEMPDIR'', tempDir)]"

fun passthrough ::
    "sysView \<Rightarrow> PassthroughEnv list \<Rightarrow> (string \<times> string) list \<Rightarrow> (string \<times> string) list \<times> Mount list" where
  "passthrough sys [] env = (env, [])"
| "passthrough sys (pte # ptes) env =
     (case LookupEnv sys (peName pte) of
        None \<Rightarrow> passthrough sys ptes env
      | Some val \<Rightarrow>
          let (env', ms) = passthrough sys ptes (AList.update (peName pte) val env)
          in (env', (if peIsPath pte then [\<lparr>mPath = val, mDest = [], mWritable = peWriteable pte\<rparr>] else []) @ ms))"

fun userEnv ::
    "(starValue \<Rightarrow> string) \<Rightarrow> (starValue \<times> starValue) list \<Rightarrow> (string \<times> string) list \<Rightarrow>
      (string \<times> string) list outcome" where
  "userEnv str [] env = Ok env"
| "userEnv str ((k, v) # items) env =
     (case k of
        VStr k' \<Rightarrow>
          if k' = ''PATH'' then Err (New ''$PATH cannot be overridden'')
          else (case v of
                  VStr v' \<Rightarrow> userEnv str items (AList.update k' v' env)
                | _ \<Rightarrow> Err (Errorf ''\"env\" value is not a string: %s'' [FStr (str v)]))
      | _ \<Rightarrow> Err (Errorf ''\"env\" key is not a string: %s'' [FStr (str k)]))"

definition parseStdin :: "starValue \<Rightarrow> string outcome" where
  "parseStdin v =
     (case v of
        VStr s \<Rightarrow> Ok s
      | VBytes b \<Rightarrow> Ok b
      | VNone \<Rightarrow> Ok []
      | _ \<Rightarrow> Err (Errorf ''for parameter \"stdin\": got %s, want str or bytes'' [FStr (Type v)]))"

text \<open>The program to run: an absolute path that exists, a file of the checkout, or one of $PATH.\<close>

definition resolveProgram :: "sysView \<Rightarrow> execEnv \<Rightarrow> string \<Rightarrow> string outcome" where
  "resolveProgram sys x prog =
     (if IsAbs prog then (case Stat sys prog of OsStatErr e \<Rightarrow> Err e | OsStatOk d \<Rightarrow> Ok prog)
      else let p = PathJoin [xeRoot x, xeSubdir x, prog]
           in (case Stat sys p of
                 OsStatOk d \<Rightarrow> Ok p
               | OsStatErr e \<Rightarrow>
                   if \<not> isNotExist e \<or> CHR ''/'' \<in> set prog then Err e
                   else (case LookPath sys prog of Inl e' \<Rightarrow> Err e' | Inr p' \<Rightarrow> Ok p')))"

definition roMount :: "string \<Rightarrow> Mount" where
  "roMount p = \<lparr>mPath = p, mDest = [], mWritable = False\<rparr>"

definition isDirPath :: "sysView \<Rightarrow> string \<Rightarrow> bool" where
  "isDirPath sys p = (case Stat sys p of OsStatErr e \<Rightarrow> False | OsStatOk d \<Rightarrow> d)"

definition execMounts ::
    "sysView \<Rightarrow> execEnv \<Rightarrow> string \<Rightarrow> Mount list \<Rightarrow> string \<Rightarrow> Mount list" where
  "execMounts sys x tempDir pts path =
     (if onWindows sys then []
      else [\<lparr>mPath = xeRoot x, mDest = [], mWritable = xeWritableRoot x\<rparr>,
            \<lparr>mPath = ''/dev/null'', mDest = [], mWritable = True\<rparr>] @
           map roMount [''/dev/urandom'', ''/dev/zero'', ''/etc/nsswitch.conf'', ''/etc/resolv.conf'',
             ''/etc/ssl/certs'', ''/lib'', ''/lib64'', ''/usr/include'', ''/usr/lib'', ''/usr/share''] @
           [\<lparr>mPath = Dir tempDir, mDest = [], mWritable = True\<rparr>] @ pts @
           map roMount (filter (isDirPath sys) [''/bin'', ''/usr/bin'', ''/sbin'', ''/usr/sbin'']) @
           (if GOROOT sys \<noteq> [] then [roMount (GOROOT sys)] else []) @
           map roMount (filter (\<lambda>p. IsAbs p \<and> isDirPath sys p) (Split path (PathListSeparator sys))))"

text \<open>The configuration of the command and its standard input, once the temporary directory is made.\<close>

definition execConfig :: "sysView \<Rightarrow> execEnv \<Rightarrow> execArgs \<Rightarrow> string \<Rightarrow> (sandboxConfig \<times> string) outcome" where
  "execConfig sys x a tempDir =
     (let (env0, pts) = passthrough sys (xePassthrough x) (baseEnv sys tempDir)
      in bindO (userEnv (starString sys) (eaEnv a) env0) (\<lambda>env.
         bindO (parseStdin (eaStdin a)) (\<lambda>stdin.
         bindO (let cwd = PathJoin [xeRoot x, xeSubdir x]
                in if eaCwd a \<noteq> [] then absPath (eaCwd a) cwd else Ok cwd) (\<lambda>cwd.
         case sequenceToStrings (snd (eaCmd a)) of
           None \<Rightarrow> Err (Errorf ''for parameter \"cmd\": got %s, want sequence of str'' [FStr (fst (eaCmd a))])
         | Some fullCmd \<Rightarrow>
             bindO (resolveProgram sys x (fullCmd ! 0)) (\<lambda>prog.
               Ok (\<lparr>Cmd = fullCmd[0 := prog], Cwd = cwd, cfgAllowNetwork = eaAllowNetwork a, Env = env,
                    Mounts = execMounts sys x tempDir pts (the (map_of env ''PATH''))\<rparr>, stdin))))))"

text \<open>Starting the command: its buffers, and the process that the check keeps.\<close>

definition startProc ::
    "sysView \<Rightarrow> execEnv \<Rightarrow> execArgs \<Rightarrow> string \<Rightarrow> int list \<Rightarrow> sandboxConfig \<Rightarrow> string \<Rightarrow> registeredCheck \<Rightarrow> execState \<Rightarrow>
      nat outcome \<times> registeredCheck \<times> execState" where
  "startProc sys x a tempDir oks config stdin chk st =
     (let (out, bp1) = buffers_get (chooseBuf sys) (esPool st);
          (err, bp2) = buffers_get (chooseBuf sys) bp1;
          proc = \<lparr>spConfig = config, spCmd = xeSandbox x config, spStdin = stdin,
            spArgs = the (sequenceToStrings (snd (eaCmd a))), spStdout = Some out,
            spStderr = Some err, raiseOnFailure = eaRaise a, okRetcodes = oks,
            spTempDir = tempDir, waitCalled = False\<rparr>;
          i = length (esProcs st)
      in (Ok i, chk\<lparr>subprocesses := subprocesses chk @ [i]\<rparr>,
          st\<lparr>esPool := bp2, esProcs := esProcs st @ [proc]\<rparr>))"

definition ctxOsExec ::
    "sysView \<Rightarrow> execEnv \<Rightarrow> execArgs \<Rightarrow> registeredCheck \<Rightarrow> execState \<Rightarrow>
      nat outcome \<times> registeredCheck \<times> execState" where
  "ctxOsExec sys x a chk st =
     (if length (snd (eaCmd a)) = 0 then (Err (New ''cmdline must not be an empty list''), chk, st)
      else case parseOkRetcodes (starString sys) (eaOkRetcodes a) (eaRaise a) of
        Err e \<Rightarrow> (Err e, chk, st)
      | Panic m \<Rightarrow> (Panic m, chk, st)
      | Ok oks \<Rightarrow>
          (let (td, ts) = newTempDir (Mkdir sys) (esTemp st); st1 = st\<lparr>esTemp := ts\<rparr>
           in case td of
             Err e \<Rightarrow> (Err e, chk, st1)
           | Panic m \<Rightarrow> (Panic m, chk, st1)
           | Ok tempDir \<Rightarrow>
               (case execConfig sys x a tempDir of
                  Err e \<Rightarrow> (Err e, chk, st1\<lparr>esRemoved := esRemoved st1 @ [tempDir]\<rparr>)
                | Panic m \<Rightarrow> (Panic m, chk, st1\<lparr>esRemoved := esRemoved st1 @ [tempDir]\<rparr>)
                | Ok (config, stdin) \<Rightarrow>
                    startProc sys x a tempDir oks config stdin chk st1)))"

section \<open>Calling a check\<close>

text \<open>The loop over the processes of a check that has returned.\<close>

fun cleanupUnwaited :: "sysView \<Rightarrow> nat list \<Rightarrow> err option \<Rightarrow> execState \<Rightarrow> unit outcome \<times> execState" where
  "cleanupUnwaited sys [] e st = (case e of None \<Rightarrow> Ok () | Some e \<Rightarrow> Err e, st)"
| "cleanupUnwaited sys (i # is) e st =
     (if waitCalled (esProcs st ! i) then cleanupUnwaited sys is e st
      else let e' = (case e of
             None \<Rightarrow> Some (Errorf ''wait() was not called on %s'' [FStr (subprocess_String (esProcs st ! i))])
           | Some x \<Rightarrow> Some x)
      in case cleanup sys i (finishProc sys i st) of
           (Panic m, st1) \<Rightarrow> (Panic m, st1)
         | (other, st1) \<Rightarrow> cleanupUnwaited sys is e' st1)"

text \<open>What follows the Starlark call, whose result is a value or an error.\<close>

definition registeredCheck_call ::
    "sysView \<Rightarrow> registeredCheck \<Rightarrow> starValue outcome \<Rightarrow> execState \<Rightarrow> unit outcome \<times> execState" where
  "registeredCheck_call sys c r st =
     (case r of
        Panic m \<Rightarrow> (Panic m, st)
      | Err e \<Rightarrow> (Err (case failErr c of Some f \<Rightarrow> f | None \<Rightarrow> e), st)
      | Ok v \<Rightarrow>
          if v \<noteq> VNone
          then (Err (Errorf ''check %q returned an object of type %s, expected None'' [FStr (rname c), FStr (Type v)]), st)
          else cleanupUnwaited sys (subprocesses c) None st)"

section \<open>The buffers of processes\<close>

text \<open>
  What holds of the pool and of the buffers that are out of it, counted with their multiplicity:
  no buffer occurs twice, addresses are below the next one, and a buffer in the pool is empty.
\<close>

definition wfPool :: "nat multiset \<Rightarrow> bufferPool \<Rightarrow> bool" where
  "wfPool H bp \<longleftrightarrow> (\<forall>b. count (mset (poolB bp) + H) b \<le> 1) \<and> (\<forall>b \<in># mset (poolB bp) + H. b < poolNext bp) \<and>
     (\<forall>b \<in> set (poolB bp). bufData bp b = [])"

definition picks :: "(nat list \<Rightarrow> nat) \<Rightarrow> bool" where
  "picks pick \<longleftrightarrow> (\<forall>bs. bs \<noteq> [] \<longrightarrow> pick bs \<in> set bs)"

lemma count_removeAll: "count (mset (removeAll b xs)) c = (if c = b then 0 else count (mset xs) c)"
  by (induction xs) auto

lemma wfPool_apart:
  assumes "wfPool H bp" and "b \<in># H"
  shows "b \<notin> set (poolB bp)"
proof
  assume "b \<in> set (poolB bp)"
  then have "count (mset (poolB bp)) b > 0" by simp
  moreover have "count H b > 0" using assms(2) by simp
  moreover have "count (mset (poolB bp)) b + count H b \<le> 1" using assms(1) by (simp add: wfPool_def)
  ultimately show False by linarith
qed

lemma get_wf:
  assumes "wfPool H bp" and "picks pick" and "buffers_get pick bp = (b, bp')"
  shows "wfPool (add_mset b H) bp' \<and> bufData bp' b = []"
proof (cases "poolB bp = []")
  case True
  then have "b = poolNext bp" and "bp' = bp\<lparr>poolNext := poolNext bp + 1, bufData := (bufData bp)(poolNext bp := [])\<rparr>"
    using assms(3) by (auto simp: buffers_get_def)
  moreover have "poolNext bp \<notin># H" using assms(1) by (auto simp: wfPool_def)
  ultimately show ?thesis using assms(1) True by (auto simp: wfPool_def not_in_iff)
next
  case False
  have b: "b \<in> set (poolB bp)" and bp': "bp' = bp\<lparr>poolB := removeAll b (poolB bp)\<rparr>"
    using assms(2,3) False unfolding buffers_get_def picks_def by (simp_all add: Let_def) metis+
  have all: "count (mset (poolB bp)) c + count H c \<le> 1" for c using assms(1) by (simp add: wfPool_def)
  have "count H b = 0" using wfPool_apart[OF assms(1)] b by (metis not_in_iff)
  then have "count (mset (removeAll b (poolB bp)) + add_mset b H) c \<le> 1" for c
    using all[of c] by (cases "c = b") (simp_all add: count_removeAll)
  then show ?thesis using assms(1) b unfolding bp' wfPool_def by auto
qed

lemma push_wf:
  assumes "wfPool (add_mset b H) bp"
  shows "\<exists>bp'. buffers_push (Some b) bp = Ok bp' \<and> wfPool H bp'"
proof -
  have "b \<notin> set (poolB bp)" using wfPool_apart[OF assms] by simp
  moreover have "wfPool H (bp\<lparr>poolB := poolB bp @ [b], bufData := (bufData bp)(b := [])\<rparr>)"
    using assms by (auto simp: wfPool_def)
  ultimately show ?thesis by (simp add: buffers_push_def)
qed


definition heldOf :: "subprocess \<Rightarrow> nat multiset" where
  "heldOf p = (case spStdout p of None \<Rightarrow> {#} | Some b \<Rightarrow> {#b#}) + (case spStderr p of None \<Rightarrow> {#} | Some b \<Rightarrow> {#b#})"

definition heldAll :: "subprocess list \<Rightarrow> nat multiset" where
  "heldAll ps = sum_list (map heldOf ps)"

lemma heldAll_snoc: "heldAll (ps @ [p]) = heldAll ps + heldOf p"
  by (simp add: heldAll_def)

lemma heldAll_update: "i < length ps \<Longrightarrow> heldAll (ps[i := p]) + heldOf (ps ! i) = heldAll ps + heldOf p"
proof (induction ps arbitrary: i)
  case (Cons q ps)
  then show ?case by (cases i) (auto simp: heldAll_def add.commute add.left_commute add.assoc)
qed simp

lemma heldAll_update_same: "i < length ps \<Longrightarrow> heldOf p = heldOf (ps ! i) \<Longrightarrow> heldAll (ps[i := p]) = heldAll ps"
  using heldAll_update[of i ps p] by simp

lemma held_in: "i < length ps \<Longrightarrow> heldOf (ps ! i) \<subseteq># heldAll ps"
proof (induction ps arbitrary: i)
  case (Cons q ps)
  show ?case
  proof (cases i)
    case (Suc j)
    then have "heldOf (ps ! j) \<subseteq># heldAll ps" using Cons by simp
    then show ?thesis using Suc
      by (simp add: heldAll_def) (metis mset_subset_eq_add_right subset_mset.order_trans)
  qed (simp add: heldAll_def)
qed simp

definition bufInv :: "execState \<Rightarrow> bool" where
  "bufInv st \<longleftrightarrow> wfPool (heldAll (esProcs st)) (esPool st)"

definition holds :: "subprocess \<Rightarrow> bool" where
  "holds p \<longleftrightarrow> spStdout p \<noteq> None \<and> spStderr p \<noteq> None"

definition released :: "subprocess \<Rightarrow> subprocess" where
  "released p = p\<lparr>spStdout := None, spStderr := None\<rparr>"

lemma finish_inv:
  assumes "bufInv st" and "i < length (esProcs st)" and "holds (esProcs st ! i)"
  shows "bufInv (finishProc sys i st)"
proof -
  obtain a b where ab: "spStdout (esProcs st ! i) = Some a" "spStderr (esProcs st ! i) = Some b"
    using assms(3) by (auto simp: holds_def)
  have "heldOf (esProcs st ! i) = {#a, b#}" using ab by (simp add: heldOf_def)
  then have "a \<in># heldAll (esProcs st)" "b \<in># heldAll (esProcs st)"
    using held_in[OF assms(2)] by (auto dest: mset_subset_eqD)
  then have "a \<notin> set (poolB (esPool st))" "b \<notin> set (poolB (esPool st))"
    using assms(1) wfPool_apart by (auto simp: bufInv_def)
  then show ?thesis using assms(1) ab by (auto simp: bufInv_def wfPool_def finishProc_def Let_def)
qed


lemma finish_same:
  "esProcs (finishProc sys i st) = esProcs st" "esTemp (finishProc sys i st) = esTemp st"
  "esRemoved (finishProc sys i st) = esRemoved st"
  by (simp_all add: finishProc_def Let_def)

lemma cleanup_inv:
  assumes "bufInv st" and "i < length (esProcs st)" and "holds (esProcs st ! i)"
  shows "\<exists>r st'. cleanup sys i st = (r, st') \<and> (\<forall>m. r \<noteq> Panic m) \<and> bufInv st' \<and>
    esProcs st' = (esProcs st)[i := released (esProcs st ! i)] \<and>
    esRemoved st' = esRemoved st @ [spTempDir (esProcs st ! i)]"
proof -
  let ?p = "esProcs st ! i"
  obtain a b where ab: "spStdout ?p = Some a" "spStderr ?p = Some b"
    using assms(3) by (auto simp: holds_def)
  let ?H = "heldAll ((esProcs st)[i := released ?p])"
  have "heldAll (esProcs st) = add_mset a (add_mset b ?H)"
    using heldAll_update[OF assms(2), of "released ?p"] ab by (simp add: heldOf_def released_def add_mset_commute)
  then have wf: "wfPool (add_mset a (add_mset b ?H)) (esPool st)" using assms(1) by (simp add: bufInv_def)
  obtain bp1 where one: "buffers_push (Some a) (esPool st) = Ok bp1" and wf1: "wfPool (add_mset b ?H) bp1"
    using push_wf[OF wf] by blast
  obtain bp2 where two: "buffers_push (Some b) bp1 = Ok bp2" and wf2: "wfPool ?H bp2"
    using push_wf[OF wf1] by blast
  show ?thesis
    using one two wf2 ab by (simp add: cleanup_def Let_def bufInv_def released_def split: option.split)
qed

lemma wait_inv:
  assumes "bufInv st" and "i < length (esProcs st)"
    and "\<not> waitCalled (esProcs st ! i) \<Longrightarrow> holds (esProcs st ! i)"
  shows "\<exists>r st'. subprocess_wait sys i st = (r, st') \<and> (\<forall>m. r \<noteq> Panic m) \<and> bufInv st' \<and>
    length (esProcs st') = length (esProcs st) \<and> waitCalled (esProcs st' ! i) \<and>
    (\<forall>j. j \<noteq> i \<longrightarrow> esProcs st' ! j = esProcs st ! j)"
proof (cases "waitCalled (esProcs st ! i)")
  case True
  then show ?thesis using assms by (simp add: subprocess_wait_def)
next
  case False
  let ?p = "(esProcs st ! i)\<lparr>waitCalled := True\<rparr>"
  let ?s0 = "st\<lparr>esProcs := (esProcs st)[i := ?p]\<rparr>"
  have "heldAll ((esProcs st)[i := ?p]) = heldAll (esProcs st)"
    by (rule heldAll_update_same[OF assms(2)]) (simp add: heldOf_def)
  then have inv0: "bufInv ?s0" using assms(1) by (simp add: bufInv_def)
  have at: "esProcs ?s0 ! i = ?p" "i < length (esProcs ?s0)" using assms(2) by simp_all
  have "holds ?p" using assms(3)[OF False] by (simp add: holds_def)
  then have "bufInv (finishProc sys i ?s0)" using finish_inv[OF inv0 at(2)] at(1) by simp
  then obtain r st' where c: "cleanup sys i (finishProc sys i ?s0) = (r, st')" "\<forall>m. r \<noteq> Panic m" "bufInv st'"
      "esProcs st' = (esProcs ?s0)[i := released ?p]"
    using cleanup_inv[of "finishProc sys i ?s0" i sys] at \<open>holds ?p\<close> by (auto simp: finish_same)
  have no: "waitInner (endOf sys i) ?p \<noteq> Panic m" for m
    by (simp add: waitInner_def Let_def split: exitRes.split)
  have proc: "esProcs (finishProc sys i ?s0) ! i = ?p" using assms(2) by (simp add: finish_same)
  have run: "subprocess_wait sys i st = (case waitInner (endOf sys i) ?p of
        Ok v \<Rightarrow> (case r of Ok u \<Rightarrow> Ok v | Err e \<Rightarrow> Err e | Panic m \<Rightarrow> Panic m)
      | Err e \<Rightarrow> (case r of Panic m \<Rightarrow> Panic m | other \<Rightarrow> Err e)
      | Panic m \<Rightarrow> Panic m, st')"
    using False c(1) by (simp add: subprocess_wait_def Let_def proc)
  have "fst (subprocess_wait sys i st) \<noteq> Panic m" for m
    unfolding run fst_conv using c(2) no by (auto split: outcome.splits)
  moreover have "waitCalled (esProcs st' ! i)" using assms(2) by (simp add: c(4) released_def)
  moreover have "length (esProcs st') = length (esProcs st)" "\<forall>j. j \<noteq> i \<longrightarrow> esProcs st' ! j = esProcs st ! j"
    by (simp_all add: c(4))
  ultimately show ?thesis using run c(3)
    by (intro exI[of _ "fst (subprocess_wait sys i st)"] exI[of _ st']) simp
qed

lemma cleanupUnwaited_inv:
  assumes "bufInv st" and "distinct is" and "\<And>i. i \<in> set is \<Longrightarrow> i < length (esProcs st)"
    and "\<And>i. i \<in> set is \<Longrightarrow> \<not> waitCalled (esProcs st ! i) \<Longrightarrow> holds (esProcs st ! i)"
  shows "\<exists>r st'. cleanupUnwaited sys is e st = (r, st') \<and> (\<forall>m. r \<noteq> Panic m) \<and> bufInv st' \<and>
    length (esProcs st') = length (esProcs st) \<and>
    (\<forall>j. j \<notin> set is \<longrightarrow> esProcs st' ! j = esProcs st ! j) \<and>
    (\<forall>i \<in> set is. \<not> waitCalled (esProcs st ! i) \<longrightarrow>
       esProcs st' ! i = released (esProcs st ! i) \<and> spTempDir (esProcs st ! i) \<in> set (esRemoved st')) \<and>
    (\<forall>i \<in> set is. waitCalled (esProcs st ! i) \<longrightarrow> esProcs st' ! i = esProcs st ! i) \<and>
    set (esRemoved st) \<subseteq> set (esRemoved st') \<and>
    ((r = Ok ()) = (e = None \<and> (\<forall>i \<in> set is. waitCalled (esProcs st ! i))))"
  using assms
proof (induction "is" arbitrary: e st)
  case Nil
  then show ?case by (simp split: option.split)
next
  case (Cons i "is")
  show ?case
  proof (cases "waitCalled (esProcs st ! i)")
    case True
    have "i \<notin> set is" using Cons.prems(2) by simp
    then show ?thesis using True Cons.IH[of st e] Cons.prems by auto
  next
    case False
    let ?f = "finishProc sys i st"
    have "bufInv ?f" using finish_inv[OF Cons.prems(1)] Cons.prems(3,4) False by simp
    then obtain r1 st1 where c: "cleanup sys i ?f = (r1, st1)" "\<forall>m. r1 \<noteq> Panic m" "bufInv st1"
        "esProcs st1 = (esProcs st)[i := released (esProcs st ! i)]"
        "esRemoved st1 = esRemoved st @ [spTempDir (esProcs st ! i)]"
      using cleanup_inv[of ?f i sys] Cons.prems(3,4) False by (auto simp: finish_same)
    have notin: "i \<notin> set is" using Cons.prems(2) by simp
    then have other: "esProcs st1 ! j = esProcs st ! j" if "j \<in> set is" for j
      using that c(4) by (metis nth_list_update_neq)
    obtain e' where e': "cleanupUnwaited sys (i # is) e st = cleanupUnwaited sys is (Some e') st1"
      using False c(1,2) by (cases e; cases r1) (auto simp: Let_def)
    have len: "length (esProcs st1) = length (esProcs st)" "i < length (esProcs st)"
      using c(4) Cons.prems(3) by simp_all
    have at: "esProcs st1 ! i = released (esProcs st ! i)" using c(4) len by simp
    obtain r st' where IH: "cleanupUnwaited sys is (Some e') st1 = (r, st')" "\<forall>m. r \<noteq> Panic m" "bufInv st'"
        "length (esProcs st') = length (esProcs st1)"
        "\<forall>j. j \<notin> set is \<longrightarrow> esProcs st' ! j = esProcs st1 ! j"
        "\<forall>i \<in> set is. \<not> waitCalled (esProcs st1 ! i) \<longrightarrow>
           esProcs st' ! i = released (esProcs st1 ! i) \<and> spTempDir (esProcs st1 ! i) \<in> set (esRemoved st')"
        "\<forall>i \<in> set is. waitCalled (esProcs st1 ! i) \<longrightarrow> esProcs st' ! i = esProcs st1 ! i"
        "set (esRemoved st1) \<subseteq> set (esRemoved st')" "r \<noteq> Ok ()"
      using Cons.IH[of st1 "Some e'"] c(3) Cons.prems(2,3,4) other len by auto
    have "\<forall>j. j \<notin> set (i # is) \<longrightarrow> esProcs st' ! j = esProcs st ! j" using IH(5) c(4) by simp
    moreover have "\<forall>j \<in> set (i # is). \<not> waitCalled (esProcs st ! j) \<longrightarrow>
       esProcs st' ! j = released (esProcs st ! j) \<and> spTempDir (esProcs st ! j) \<in> set (esRemoved st')"
      using IH(5,6,8) c(5) at notin other by auto
    moreover have "\<forall>j \<in> set (i # is). waitCalled (esProcs st ! j) \<longrightarrow> esProcs st' ! j = esProcs st ! j"
      using IH(7) False other by auto
    moreover have "set (esRemoved st) \<subseteq> set (esRemoved st')" using IH(8) c(5) by auto
    ultimately show ?thesis using e' IH(1-4,9) len False by auto
  qed
qed


section \<open>The configuration of a command\<close>

lemma newTempDir_no_panic: "fst (newTempDir mk st) \<noteq> Panic m"
  by (simp add: newTempDir_def Let_def split: option.split prod.split)

lemma userEnv_no_panic: "userEnv str items env \<noteq> Panic m"
  by (induction items arbitrary: env) (auto split: starValue.splits if_splits)

lemma execConfig_no_panic: "execConfig sys x a td \<noteq> Panic m"
proof -
  have abs: "absPath p q \<noteq> Panic m" for p q by (simp add: absPath_def Let_def)
  have prog: "resolveProgram sys x p \<noteq> Panic m" for p
    by (simp add: resolveProgram_def Let_def split: statAns.split sum.split)
  have sin: "parseStdin v \<noteq> Panic m" for v by (simp add: parseStdin_def split: starValue.split)
  show ?thesis
    unfolding execConfig_def Let_def
    using abs prog sin userEnv_no_panic
    by (auto split: prod.split option.split bindO_split if_splits)
qed

text \<open>What a successful configuration is made of.\<close>

lemma execConfig_Ok:
  assumes "execConfig sys x a td = Ok (config, stdin)"
  obtains env0 pts env cwd cmd prog where
    "passthrough sys (xePassthrough x) (baseEnv sys td) = (env0, pts)"
    "userEnv (starString sys) (eaEnv a) env0 = Ok env"
    "(if eaCwd a \<noteq> [] then absPath (eaCwd a) (PathJoin [xeRoot x, xeSubdir x])
      else Ok (PathJoin [xeRoot x, xeSubdir x])) = Ok cwd"
    "sequenceToStrings (snd (eaCmd a)) = Some cmd" "resolveProgram sys x (cmd ! 0) = Ok prog"
    "config = \<lparr>Cmd = cmd[0 := prog], Cwd = cwd, cfgAllowNetwork = eaAllowNetwork a, Env = env,
       Mounts = execMounts sys x td pts (the (map_of env ''PATH''))\<rparr>"
proof -
  obtain env0 pts where pass: "passthrough sys (xePassthrough x) (baseEnv sys td) = (env0, pts)" by fastforce
  show ?thesis
    using assms that[OF pass] unfolding execConfig_def pass Let_def
    by (auto simp: go_out split: option.splits)
qed

section \<open>What ctx.os.exec() changes\<close>

lemma exec_cases:
  assumes "ctxOsExec sys x a chk st = (r, chk', st')"
  obtains e where "r = Err e" "chk' = chk" "esPool st' = esPool st" "esProcs st' = esProcs st"
      "\<And>td. fst (newTempDir (Mkdir sys) (esTemp st)) = Ok td \<Longrightarrow>
         esTemp st' = esTemp st \<and> esRemoved st' = esRemoved st \<or> esRemoved st' = esRemoved st @ [td]"
    | td ts config stdin oks out bp1 err bp2 where
      "newTempDir (Mkdir sys) (esTemp st) = (Ok td, ts)"
      "parseOkRetcodes (starString sys) (eaOkRetcodes a) (eaRaise a) = Ok oks"
      "execConfig sys x a td = Ok (config, stdin)"
      "buffers_get (chooseBuf sys) (esPool st) = (out, bp1)" "buffers_get (chooseBuf sys) bp1 = (err, bp2)"
      "r = Ok (length (esProcs st))" "chk' = chk\<lparr>subprocesses := subprocesses chk @ [length (esProcs st)]\<rparr>"
      "st' = st\<lparr>esTemp := ts, esPool := bp2, esProcs := esProcs st @
         [\<lparr>spConfig = config, spCmd = xeSandbox x config, spStdin = stdin,
           spArgs = the (sequenceToStrings (snd (eaCmd a))), spStdout = Some out, spStderr = Some err,
           raiseOnFailure = eaRaise a, okRetcodes = oks, spTempDir = td, waitCalled = False\<rparr>]\<rparr>"
proof (cases "length (snd (eaCmd a)) = 0")
  case True
  then show ?thesis using assms by (intro that(1)) (auto simp: ctxOsExec_def)
next
  case nonempty: False
  show ?thesis
  proof (cases "parseOkRetcodes (starString sys) (eaOkRetcodes a) (eaRaise a)")
    case (Err e)
    then show ?thesis using assms nonempty by (intro that(1)) (auto simp: ctxOsExec_def)
  next
    case (Panic m)
    then show ?thesis by (auto simp: parseOkRetcodes_def split: if_splits option.splits)
  next
    case (Ok oks)
    obtain td ts where td: "newTempDir (Mkdir sys) (esTemp st) = (td, ts)" by fastforce
    note unf = assms[unfolded ctxOsExec_def startProc_def Let_def td] nonempty Ok
    show ?thesis
    proof (cases td)
      case (Err e)
      then show ?thesis using unf td by (intro that(1)) auto
    next
      case (Panic m)
      then show ?thesis using newTempDir_no_panic[of "Mkdir sys" "esTemp st" m] td by simp
    next
      case dir: (Ok d)
      show ?thesis
      proof (cases "execConfig sys x a d")
        case (Err e)
        then show ?thesis using unf td dir by (intro that(1)) auto
      next
        case (Panic m)
        then show ?thesis using execConfig_no_panic by metis
      next
        case conf: (Ok c)
        obtain config stdin where c: "c = (config, stdin)" by fastforce
        obtain out bp1 where g1: "buffers_get (chooseBuf sys) (esPool st) = (out, bp1)" by fastforce
        obtain err bp2 where g2: "buffers_get (chooseBuf sys) bp1 = (err, bp2)" by fastforce
        show ?thesis
          using unf td dir conf c g1 g2 by (intro that(2)[of d ts oks config stdin out bp1 err bp2]) auto
      qed
    qed
  qed
qed

lemma exec_inv:
  assumes "ctxOsExec sys x a chk st = (r, chk', st')" and "bufInv st" and "picks (chooseBuf sys)"
  shows "(\<forall>m. r \<noteq> Panic m) \<and> bufInv st' \<and>
    (esProcs st' = esProcs st \<and> chk' = chk \<or>
     (\<exists>p. esProcs st' = esProcs st @ [p] \<and> holds p \<and> \<not> waitCalled p \<and>
        subprocesses chk' = subprocesses chk @ [length (esProcs st)]))"
  using assms(1)
proof (cases rule: exec_cases)
  case 1
  then show ?thesis using assms(2) by (simp add: bufInv_def)
next
  case (2 td ts config stdin oks out bp1 err bp2)
  have "wfPool (add_mset out (heldAll (esProcs st))) bp1"
    using get_wf[OF _ assms(3) 2(4)] assms(2) by (simp add: bufInv_def)
  then have "wfPool (add_mset err (add_mset out (heldAll (esProcs st)))) bp2"
    using get_wf[OF _ assms(3) 2(5)] by blast
  then have "bufInv st'" by (simp add: 2(8) bufInv_def heldAll_snoc heldOf_def add_mset_commute)
  then show ?thesis by (simp add: 2 holds_def)
qed


section \<open>Checks running in parallel over one pool\<close>

text \<open>
  The calls that running checks make, in any interleaving: a check that has not ended may start a
  command, wait for a command of its own, or end, with any result of its Starlark function. The
  checks of one shac file share the state of the temporary directories and all checks share the
  pool. The buffers that a git command borrows while it runs are not part of this.
\<close>

record world =
  wChecks :: "registeredCheck list"
  wEnded :: "nat set"
  wExec :: execState

inductive wstep :: "sysView \<Rightarrow> world \<Rightarrow> world \<Rightarrow> bool" for sys where
  exec: "c < length (wChecks w) \<Longrightarrow> c \<notin> wEnded w \<Longrightarrow> ctxOsExec sys x a (wChecks w ! c) (wExec w) = (r, chk', st') \<Longrightarrow>
    wstep sys w (w\<lparr>wChecks := (wChecks w)[c := chk'], wExec := st'\<rparr>)"
| wait: "c < length (wChecks w) \<Longrightarrow> c \<notin> wEnded w \<Longrightarrow> i \<in> set (subprocesses (wChecks w ! c)) \<Longrightarrow>
    subprocess_wait sys i (wExec w) = (r, st') \<Longrightarrow> wstep sys w (w\<lparr>wExec := st'\<rparr>)"
| ends: "c < length (wChecks w) \<Longrightarrow> c \<notin> wEnded w \<Longrightarrow>
    registeredCheck_call sys (wChecks w ! c) res (wExec w) = (r, st') \<Longrightarrow>
    wstep sys w (w\<lparr>wEnded := insert c (wEnded w), wExec := st'\<rparr>)"

definition startWorld :: "check list \<Rightarrow> tempState \<Rightarrow> world" where
  "startWorld cs ts = \<lparr>wChecks = map newRegistered cs, wEnded = {},
     wExec = \<lparr>esTemp = ts, esPool = initialPool, esProcs = [], esRemoved = []\<rparr>\<rparr>"

text \<open>A check owns its processes, and holds the buffers of those it has not waited for.\<close>

definition ownInv :: "world \<Rightarrow> bool" where
  "ownInv w \<longleftrightarrow>
     (\<forall>c < length (wChecks w). distinct (subprocesses (wChecks w ! c)) \<and>
        (\<forall>i \<in> set (subprocesses (wChecks w ! c)). i < length (esProcs (wExec w)) \<and>
           (c \<notin> wEnded w \<longrightarrow> \<not> waitCalled (esProcs (wExec w) ! i) \<longrightarrow> holds (esProcs (wExec w) ! i)))) \<and>
     (\<forall>c < length (wChecks w). \<forall>d < length (wChecks w). c \<noteq> d \<longrightarrow>
        set (subprocesses (wChecks w ! c)) \<inter> set (subprocesses (wChecks w ! d)) = {})"

definition worldInv :: "world \<Rightarrow> bool" where
  "worldInv w \<longleftrightarrow> bufInv (wExec w) \<and> ownInv w"

lemma startWorld_inv: "worldInv (startWorld cs ts)"
  by (simp add: worldInv_def ownInv_def bufInv_def startWorld_def newRegistered_def heldAll_def wfPool_def initialPool_def)

lemma ownInv_D:
  assumes "ownInv w" and "c < length (wChecks w)"
  shows "distinct (subprocesses (wChecks w ! c))"
    and "\<And>i. i \<in> set (subprocesses (wChecks w ! c)) \<Longrightarrow> i < length (esProcs (wExec w))"
    and "\<And>i. i \<in> set (subprocesses (wChecks w ! c)) \<Longrightarrow> c \<notin> wEnded w \<Longrightarrow>
      \<not> waitCalled (esProcs (wExec w) ! i) \<Longrightarrow> holds (esProcs (wExec w) ! i)"
    and "\<And>d. d < length (wChecks w) \<Longrightarrow> c \<noteq> d \<Longrightarrow>
      set (subprocesses (wChecks w ! c)) \<inter> set (subprocesses (wChecks w ! d)) = {}"
  using assms unfolding ownInv_def by blast+

text \<open>A step that changes only processes of one check, each of which ends up waited for or keeps its buffers.\<close>

lemma ownInv_own:
  assumes "ownInv w" and "c < length (wChecks w)" and "length (esProcs st') = length (esProcs (wExec w))"
    and "\<And>j. j \<notin> set (subprocesses (wChecks w ! c)) \<Longrightarrow> esProcs st' ! j = esProcs (wExec w) ! j"
    and "c \<notin> E \<Longrightarrow> (\<And>j. j \<in> set (subprocesses (wChecks w ! c)) \<Longrightarrow>
      waitCalled (esProcs st' ! j) \<or> holds (esProcs st' ! j))" and "wEnded w \<subseteq> E"
  shows "ownInv (w\<lparr>wEnded := E, wExec := st'\<rparr>)"
proof -
  note D = ownInv_D[OF assms(1)]
  have "waitCalled (esProcs st' ! i) \<or> holds (esProcs st' ! i)"
    if "d < length (wChecks w)" "i \<in> set (subprocesses (wChecks w ! d))" "d \<notin> E" for d i
  proof (cases "d = c")
    case True
    then show ?thesis using that assms(5) by blast
  next
    case False
    then have "i \<notin> set (subprocesses (wChecks w ! c))" using D(4)[OF that(1) assms(2)] that(2) by blast
    moreover have "d \<notin> wEnded w" using that(3) assms(6) by blast
    ultimately show ?thesis using D(3)[OF that(1,2)] assms(4) by auto
  qed
  then show ?thesis using D(1,2,4) assms(3) unfolding ownInv_def by (simp, blast)
qed

lemma ownInv_snoc:
  assumes "ownInv w" and "c < length (wChecks w)" and "esProcs st' = esProcs (wExec w) @ [p]" and "holds p"
    and "subprocesses chk' = subprocesses (wChecks w ! c) @ [length (esProcs (wExec w))]"
  shows "ownInv (w\<lparr>wChecks := (wChecks w)[c := chk'], wExec := st'\<rparr>)"
proof -
  note D = ownInv_D[OF assms(1)]
  let ?n = "length (esProcs (wExec w))"
  have subs: "subprocesses ((wChecks w)[c := chk'] ! d) = subprocesses (wChecks w ! d) @ (if d = c then [?n] else [])"
    if "d < length (wChecks w)" for d
    using that assms(5) by (cases "d = c") simp_all
  have old: "i < ?n" if "d < length (wChecks w)" "i \<in> set (subprocesses (wChecks w ! d))" for d i
    using D(2)[OF that] .
  have "distinct (subprocesses ((wChecks w)[c := chk'] ! d))" if "d < length (wChecks w)" for d
    using that subs[OF that] D(1)[OF that] old[OF that] by auto
  moreover have "i < length (esProcs st') \<and> (d \<notin> wEnded w \<longrightarrow> \<not> waitCalled (esProcs st' ! i) \<longrightarrow> holds (esProcs st' ! i))"
    if "d < length (wChecks w)" "i \<in> set (subprocesses ((wChecks w)[c := chk'] ! d))" for d i
  proof (cases "i = ?n")
    case True
    then show ?thesis using assms(3,4) by simp
  next
    case False
    then have i: "i \<in> set (subprocesses (wChecks w ! d))" using that(2) subs[OF that(1)] by (auto split: if_splits)
    then show ?thesis using old[OF that(1) i] D(3)[OF that(1) i] assms(3) by (simp add: nth_append)
  qed
  moreover have "set (subprocesses ((wChecks w)[c := chk'] ! d)) \<inter> set (subprocesses ((wChecks w)[c := chk'] ! e)) = {}"
    if "d < length (wChecks w)" "e < length (wChecks w)" "d \<noteq> e" for d e
    using D(4)[OF that] old[OF that(1), of ?n] old[OF that(2), of ?n] that(3) subs[OF that(1)] subs[OF that(2)] by auto
  ultimately show ?thesis unfolding ownInv_def by simp
qed


lemma call_inv:
  assumes "worldInv w" and "c < length (wChecks w)" and "c \<notin> wEnded w" and "\<And>m. res \<noteq> Panic m"
    and "registeredCheck_call sys (wChecks w ! c) res (wExec w) = (r, st')"
  shows "(\<forall>m. r \<noteq> Panic m) \<and> worldInv (w\<lparr>wEnded := insert c (wEnded w), wExec := st'\<rparr>)"
proof -
  have own: "ownInv w" and buf: "bufInv (wExec w)" using assms(1) by (simp_all add: worldInv_def)
  note D = ownInv_D[OF own assms(2)]
  let ?subs = "subprocesses (wChecks w ! c)"
  consider "st' = wExec w" "\<forall>m. r \<noteq> Panic m" | "cleanupUnwaited sys ?subs None (wExec w) = (r, st')"
    using assms(4,5) by (auto simp: registeredCheck_call_def split: outcome.splits if_splits)
  then show ?thesis
  proof cases
    case 1
    then show ?thesis using buf ownInv_own[OF own assms(2), of st' "insert c (wEnded w)"] by (auto simp: worldInv_def)
  next
    case 2
    obtain r' st2 where "cleanupUnwaited sys ?subs None (wExec w) = (r', st2)" "\<forall>m. r' \<noteq> Panic m" "bufInv st2"
        "length (esProcs st2) = length (esProcs (wExec w))"
        "\<forall>j. j \<notin> set ?subs \<longrightarrow> esProcs st2 ! j = esProcs (wExec w) ! j"
      using cleanupUnwaited_inv[OF buf D(1), of sys None] D(2,3) assms(3) by blast
    moreover from this have "r' = r" "st2 = st'" using 2 by simp_all
    ultimately show ?thesis
      using ownInv_own[OF own assms(2), of st' "insert c (wEnded w)"] by (auto simp: worldInv_def)
  qed
qed

lemma wait_world:
  assumes "worldInv w" and "c < length (wChecks w)" and "c \<notin> wEnded w" and "i \<in> set (subprocesses (wChecks w ! c))"
    and "subprocess_wait sys i (wExec w) = (r, st')"
  shows "(\<forall>m. r \<noteq> Panic m) \<and> worldInv (w\<lparr>wExec := st'\<rparr>)"
proof -
  have own: "ownInv w" and buf: "bufInv (wExec w)" using assms(1) by (simp_all add: worldInv_def)
  note D = ownInv_D[OF own assms(2)]
  obtain r' st2 where "subprocess_wait sys i (wExec w) = (r', st2)" "\<forall>m. r' \<noteq> Panic m" "bufInv st2"
      "length (esProcs st2) = length (esProcs (wExec w))" "waitCalled (esProcs st2 ! i)"
      "\<forall>j. j \<noteq> i \<longrightarrow> esProcs st2 ! j = esProcs (wExec w) ! j"
    using wait_inv[OF buf D(2)[OF assms(4)] D(3)[OF assms(4,3)], of sys] by blast
  moreover from this have "r' = r" "st2 = st'" using assms(5) by simp_all
  ultimately have st: "\<forall>m. r \<noteq> Panic m" "bufInv st'" "length (esProcs st') = length (esProcs (wExec w))"
      "waitCalled (esProcs st' ! i)" "\<And>j. j \<noteq> i \<Longrightarrow> esProcs st' ! j = esProcs (wExec w) ! j" by simp_all
  have "ownInv (w\<lparr>wEnded := wEnded w, wExec := st'\<rparr>)"
  proof (rule ownInv_own[OF own assms(2) st(3)])
    show "esProcs st' ! j = esProcs (wExec w) ! j" if "j \<notin> set (subprocesses (wChecks w ! c))" for j
      using that assms(4) st(5) by metis
    show "waitCalled (esProcs st' ! j) \<or> holds (esProcs st' ! j)"
      if "c \<notin> wEnded w" "j \<in> set (subprocesses (wChecks w ! c))" for j
      using D(3)[OF that(2,1)] st(4,5) by (cases "j = i") auto
  qed simp
  then show ?thesis using st(1,2) by (simp add: worldInv_def)
qed

lemma exec_world:
  assumes "worldInv w" and "c < length (wChecks w)" and "picks (chooseBuf sys)"
    and "ctxOsExec sys x a (wChecks w ! c) (wExec w) = (r, chk', st')"
  shows "(\<forall>m. r \<noteq> Panic m) \<and> worldInv (w\<lparr>wChecks := (wChecks w)[c := chk'], wExec := st'\<rparr>)"
proof -
  have own: "ownInv w" and buf: "bufInv (wExec w)" using assms(1) by (simp_all add: worldInv_def)
  have inv: "\<forall>m. r \<noteq> Panic m" "bufInv st'"
      "esProcs st' = esProcs (wExec w) \<and> chk' = wChecks w ! c \<or>
       (\<exists>p. esProcs st' = esProcs (wExec w) @ [p] \<and> holds p \<and> \<not> waitCalled p \<and>
          subprocesses chk' = subprocesses (wChecks w ! c) @ [length (esProcs (wExec w))])"
    using exec_inv[OF assms(4) buf assms(3)] by auto
  from inv(3) have "ownInv (w\<lparr>wChecks := (wChecks w)[c := chk'], wExec := st'\<rparr>)"
  proof (elim disjE exE conjE)
    assume same: "esProcs st' = esProcs (wExec w)" "chk' = wChecks w ! c"
    show ?thesis using own by (simp add: ownInv_def same)
  next
    fix p assume "esProcs st' = esProcs (wExec w) @ [p]" "holds p"
      "subprocesses chk' = subprocesses (wChecks w ! c) @ [length (esProcs (wExec w))]"
    then show ?thesis by (rule ownInv_snoc[OF own assms(2)])
  qed
  then show ?thesis using inv(1,2) by (simp add: worldInv_def)
qed

text \<open>The result of a Starlark call is a value or an error.\<close>

lemma wstep_inv:
  assumes "wstep sys w w'" and "worldInv w" and "picks (chooseBuf sys)"
  shows "worldInv w'"
  using assms(1)
proof cases
  case (exec c x a r chk' st')
  then show ?thesis using exec_world[OF assms(2) _ assms(3)] by blast
next
  case (wait c i r st')
  then show ?thesis using wait_world[OF assms(2)] by blast
next
  case (ends c res r st')
  have "worldInv (w\<lparr>wEnded := insert c (wEnded w), wExec := st'\<rparr>)"
  proof (cases res)
    case (Panic m)
    then have "st' = wExec w" using ends by (simp add: registeredCheck_call_def)
    then show ?thesis using assms(2) ownInv_own[OF _ ends(2), of st' "insert c (wEnded w)"] by (auto simp: worldInv_def)
  qed (use call_inv[OF assms(2) ends(2,3) _ ends(4)] in auto)
  then show ?thesis using ends(1) by simp
qed

interpretation world: step_invariant "wstep sys" "\<lambda>w. picks (chooseBuf sys) \<and> worldInv w" for sys
  by unfold_locales (blast intro: wstep_inv)

lemmas reach_inv = world.reached[OF _ conjI, THEN conjunct2]

text \<open>
  C4. Whatever checks that run in parallel start, wait for and leave behind, in any order: two
  processes never write to one buffer, a buffer in the pool is empty and held by nobody, and no
  call of a running check panics because a buffer is given back twice or was given back already.
\<close>

theorem buffers_never_shared:
  assumes "picks (chooseBuf sys)" and "(wstep sys)\<^sup>*\<^sup>* (startWorld cs ts) w" and "c < length (wChecks w)" and "c \<notin> wEnded w"
  shows "(\<forall>b. count (heldAll (esProcs (wExec w)) + mset (poolB (esPool (wExec w)))) b \<le> 1) \<and>
    (\<forall>b \<in> set (poolB (esPool (wExec w))). bufData (esPool (wExec w)) b = []) \<and>
    (\<forall>i m. i \<in> set (subprocesses (wChecks w ! c)) \<longrightarrow> fst (subprocess_wait sys i (wExec w)) \<noteq> Panic m) \<and>
    (\<forall>x a m. fst (ctxOsExec sys x a (wChecks w ! c) (wExec w)) \<noteq> Panic m) \<and>
    (\<forall>v m. fst (registeredCheck_call sys (wChecks w ! c) (Ok v) (wExec w)) \<noteq> Panic m)"
proof -
  have inv: "worldInv w" using reach_inv[OF assms(2,1) startWorld_inv] .
  have pool: "wfPool (heldAll (esProcs (wExec w))) (esPool (wExec w))" using inv by (simp add: worldInv_def bufInv_def)
  have "fst (subprocess_wait sys i (wExec w)) \<noteq> Panic m" if "i \<in> set (subprocesses (wChecks w ! c))" for i m
    using wait_world[OF inv assms(3,4) that] by (metis prod.collapse)
  moreover have "fst (ctxOsExec sys x a (wChecks w ! c) (wExec w)) \<noteq> Panic m" for x a m
    using exec_world[OF inv assms(3,1)] by (metis prod.collapse)
  moreover have "fst (registeredCheck_call sys (wChecks w ! c) (Ok v) (wExec w)) \<noteq> Panic m" for v m
    using call_inv[OF inv assms(3,4), of "Ok v"] by (metis outcome.distinct(3) prod.collapse)
  ultimately show ?thesis using pool by (simp add: wfPool_def add.commute)
qed


section \<open>The environment and the mounts of a command\<close>

lemma baseEnv_PATH: "map_of (baseEnv sys td) ''PATH'' = Some (if GOROOT sys \<noteq> []
    then Join [PathJoin [GOROOT sys, ''bin''], Getenv sys ''PATH''] [PathListSeparator sys] else Getenv sys ''PATH'')"
  by (simp add: baseEnv_def)

lemma passthrough_other:
  "passthrough sys ptes env = (env', ms) \<Longrightarrow> k \<notin> peName ` set ptes \<Longrightarrow> map_of env' k = map_of env k"
  by (induction ptes arbitrary: env env' ms)
     (fastforce simp: update_conv' split: option.splits prod.splits)+

lemma passthrough_mounts:
  "passthrough sys ptes env = (env', ms) \<Longrightarrow> m \<in> set ms \<Longrightarrow>
     \<exists>pte \<in> set ptes. peIsPath pte \<and> mWritable m = peWriteable pte \<and> LookupEnv sys (peName pte) = Some (mPath m)"
  by (induction ptes arbitrary: env env' ms) (fastforce split: option.splits prod.splits if_splits)+

lemma userEnv_PATH: "userEnv str items env = Ok env' \<Longrightarrow> map_of env' ''PATH'' = map_of env ''PATH''"
  by (induction items arbitrary: env) (auto simp: update_conv' split: starValue.splits if_splits)

lemma userEnv_keeps:
  "userEnv str items env = Ok env' \<Longrightarrow> VStr k \<notin> fst ` set items \<Longrightarrow> map_of env' k = map_of env k"
  by (induction items arbitrary: env) (auto simp: update_conv' split: starValue.splits if_splits)

lemma userEnv_sets:
  "userEnv str items env = Ok env' \<Longrightarrow> distinct (map fst items) \<Longrightarrow> (VStr k, v) \<in> set items \<Longrightarrow>
     \<exists>s. v = VStr s \<and> map_of env' k = Some s"
proof (induction items arbitrary: env)
  case (Cons item items)
  obtain key val where item: "item = (key, val)" by fastforce
  obtain k' v' where kv: "key = VStr k'" "val = VStr v'"
      "userEnv str items (AList.update k' v' env) = Ok env'"
    using Cons.prems(1) item by (auto split: starValue.splits if_splits)
  show ?case
  proof (cases "(VStr k, v) = item")
    case True
    then have "VStr k \<notin> fst ` set items" using Cons.prems(2) item by simp
    then show ?thesis using True item kv userEnv_keeps[OF kv(3), of k] by (simp add: update_conv')
  next
    case False
    then have "(VStr k, v) \<in> set items" using Cons.prems(3) item by auto
    then show ?thesis using Cons.IH[OF kv(3)] Cons.prems(2) by simp
  qed
qed simp

text \<open>
  C34. The environment of a started command: $PATH is the one of shac, with the Go toolchain in
  front, unless the project passes it through itself, whatever the check gives as env; every
  variable of env has the value given there; and the temporary directory is announced unless env
  or the project sets it otherwise.
\<close>

theorem exec_environment:
  assumes "ctxOsExec sys x a chk st = (Ok i, chk', st')" and "distinct (map fst (eaEnv a))"
    and "''PATH'' \<notin> peName ` set (xePassthrough x)"
  shows "map_of (Env (spConfig (esProcs st' ! i))) ''PATH'' = map_of (baseEnv sys []) ''PATH'' \<and>
    (\<forall>k v. (VStr k, v) \<in> set (eaEnv a) \<longrightarrow> (\<exists>s. v = VStr s \<and> map_of (Env (spConfig (esProcs st' ! i))) k = Some s)) \<and>
    (VStr ''TMPDIR'' \<notin> fst ` set (eaEnv a) \<and> ''TMPDIR'' \<notin> peName ` set (xePassthrough x) \<longrightarrow>
       map_of (Env (spConfig (esProcs st' ! i))) ''TMPDIR'' = Some (spTempDir (esProcs st' ! i)))"
  using assms(1)
proof (cases rule: exec_cases)
  case (2 td ts config stdin oks out bp1 err bp2)
  have proc: "spConfig (esProcs st' ! i) = config" "spTempDir (esProcs st' ! i) = td" using 2(6,8) by simp_all
  from 2(3) obtain env0 pts env where e:
      "passthrough sys (xePassthrough x) (baseEnv sys td) = (env0, pts)"
      "userEnv (starString sys) (eaEnv a) env0 = Ok env" "Env config = env"
    by (rule execConfig_Ok) simp
  have "map_of env ''PATH'' = map_of (baseEnv sys []) ''PATH''"
    using userEnv_PATH[OF e(2)] passthrough_other[OF e(1) assms(3)] by (simp add: baseEnv_PATH)
  moreover have "map_of env ''TMPDIR'' = Some td"
    if "VStr ''TMPDIR'' \<notin> fst ` set (eaEnv a)" "''TMPDIR'' \<notin> peName ` set (xePassthrough x)"
    using userEnv_keeps[OF e(2) that(1)] passthrough_other[OF e(1) that(2)] by (simp add: baseEnv_def)
  ultimately show ?thesis unfolding proc e(3) using userEnv_sets[OF e(2) assms(2)] by blast
qed simp

text \<open>Where a check may write: the checkout if the project says so, its scratch space, and what the project passes through.\<close>

definition mayWrite :: "sysView \<Rightarrow> execEnv \<Rightarrow> string \<Rightarrow> string \<Rightarrow> bool" where
  "mayWrite sys x td p \<longleftrightarrow> p = xeRoot x \<and> xeWritableRoot x \<or> p = ''/dev/null'' \<or> p = Dir td \<or>
     (\<exists>pte \<in> set (xePassthrough x). peIsPath pte \<and> peWriteable pte \<and> LookupEnv sys (peName pte) = Some p)"

lemma execMounts_writable:
  assumes "m \<in> set (execMounts sys x td pts path)" and "mWritable m"
  shows "m \<in> set pts \<or> mPath m = xeRoot x \<and> xeWritableRoot x \<or> mPath m = ''/dev/null'' \<or> mPath m = Dir td"
proof -
  have ro: "m \<notin> set (map roMount ps)" for ps using assms(2) by (auto simp: roMount_def)
  have ro1: "m \<noteq> roMount p" for p using assms(2) by (auto simp: roMount_def)
  show ?thesis
    using assms ro unfolding execMounts_def
    by (simp only: set_append Un_iff split: if_splits) (auto simp: ro1)
qed

text \<open>
  C10. In the sandbox of a started command the only writable mounts are the checkout (if the
  project allows it), /dev/null, the directory of the temporary directories and the writable paths
  the project passes through, mounted as they are or from their real path, and the targets of the
  symbolic links that are met on the way from one of these up to the working directory, and of no
  other directory above it.
\<close>

theorem exec_writable_mounts:
  assumes "ctxOsExec sys x a chk st = (Ok i, chk', st')" and "sort_slice destOf sortM"
    and "nsjailMounts n lv sortM (spConfig (esProcs st' ! i)) = Some ms" and "r \<in> set ms" and "mWritable r"
  shows "\<exists>m. mayWrite sys x (spTempDir (esProcs st' ! i)) (mPath m) \<and>
    mountFrom lv (Cwd (spConfig (esProcs st' ! i))) m r"
  using assms(1)
proof (cases rule: exec_cases)
  case (2 td ts config stdin oks out bp1 err bp2)
  have proc: "spConfig (esProcs st' ! i) = config" "spTempDir (esProcs st' ! i) = td" using 2(6,8) by simp_all
  from 2(3) obtain env0 pts env where e:
      "passthrough sys (xePassthrough x) (baseEnv sys td) = (env0, pts)"
      "Mounts config = execMounts sys x td pts (the (map_of env ''PATH''))"
    by (rule execConfig_Ok) simp
  obtain m where m: "m \<in> set (Mounts config)" "mountFrom lv (Cwd config) m r"
    using nsjail_mounts_from[OF assms(2) assms(3)[unfolded proc] assms(4)] assms(5) by blast
  then have "mWritable m" using assms(5) by (simp add: mountFrom_def)
  then have "mayWrite sys x td (mPath m)"
    using execMounts_writable[of m] m(1) passthrough_mounts[OF e(1), of m] unfolding e(2) mayWrite_def by blast
  then show ?thesis using m(2) unfolding proc by blast
qed simp


section \<open>Waiting, and the end of a check\<close>

text \<open>
  A call of ctx.os.exec() that fails starts no process, takes no buffer, and removes the
  temporary directory it had made for the process.
\<close>

theorem exec_error_leaves_nothing:
  assumes "ctxOsExec sys x a chk st = (Err e, chk', st')"
  shows "chk' = chk \<and> esProcs st' = esProcs st \<and> esPool st' = esPool st \<and>
    (\<forall>td. fst (newTempDir (Mkdir sys) (esTemp st)) = Ok td \<longrightarrow> esTemp st' = esTemp st \<or> td \<in> set (esRemoved st'))"
  using assms
proof (cases rule: exec_cases)
  case (1 e')
  have "esTemp st' = esTemp st \<or> td \<in> set (esRemoved st')"
    if "fst (newTempDir (Mkdir sys) (esTemp st)) = Ok td" for td
    using 1(5)[OF that] by auto
  then show ?thesis using 1(2-4) by blast
qed simp











lemma step_ended:
  assumes "wstep sys w w'" and "worldInv w" and "c < length (wChecks w)" and "c \<in> wEnded w"
    and "i \<in> set (subprocesses (wChecks w ! c))" and "picks (chooseBuf sys)"
  shows "esProcs (wExec w') ! i = esProcs (wExec w) ! i \<and> c \<in> wEnded w' \<and> c < length (wChecks w') \<and>
    i \<in> set (subprocesses (wChecks w' ! c))"
proof -
  have own: "ownInv w" and buf: "bufInv (wExec w)" using assms(2) by (simp_all add: worldInv_def)
  note D = ownInv_D[OF own]
  have i: "i < length (esProcs (wExec w))" using D(2)[OF assms(3,5)] .
  have apart: "i \<notin> set (subprocesses (wChecks w ! d))" if "d < length (wChecks w)" "d \<notin> wEnded w" for d
    using D(4)[OF assms(3) that(1)] that(2) assms(4,5) by blast
  show ?thesis
    using assms(1)
  proof cases
    case (exec d x a r chk' st')
    then show ?thesis using exec_inv[OF exec(4) buf assms(6)] i assms(3-5) apart
      by (cases "c = d") (auto simp: nth_append)
  next
    case (wait d j r st')
    have "j \<noteq> i" using apart[OF wait(2,3)] wait(4) by blast
    then have "esProcs st' ! i = esProcs (wExec w) ! i"
      using wait_inv[OF buf D(2)[OF wait(2,4)] D(3)[OF wait(2,4,3)], of sys] wait(5) by auto
    then show ?thesis using wait assms(3-5) by simp
  next
    case (ends d res r st')
    have "esProcs st' ! i = esProcs (wExec w) ! i"
    proof (cases "st' = wExec w")
      case False
      then have "cleanupUnwaited sys (subprocesses (wChecks w ! d)) None (wExec w) = (r, st')"
        using ends(4) by (auto simp: registeredCheck_call_def split: outcome.splits if_splits)
      then show ?thesis
        using cleanupUnwaited_inv[OF buf D(1)[OF ends(2)], of sys None] D(2,3)[OF ends(2)] ends(3) apart[OF ends(2,3)]
        by auto
    qed simp
    then show ?thesis using ends assms(3-5) by simp
  qed
qed

text \<open>
  A check that fails (an error of its Starlark function, a call of fail())
  leaves the processes it has not waited for alone: whatever the other checks do afterwards, those
  processes keep their buffers, which never go back to the pool.
\<close>

theorem failed_check_leaks:
  assumes "picks (chooseBuf sys)" and "(wstep sys)\<^sup>*\<^sup>* (startWorld cs ts) w" and "c < length (wChecks w)" and "c \<notin> wEnded w"
    and "i \<in> set (subprocesses (wChecks w ! c))" and "\<not> waitCalled (esProcs (wExec w) ! i)"
    and "registeredCheck_call sys (wChecks w ! c) (Err e) (wExec w) = (r, st')"
    and "(wstep sys)\<^sup>*\<^sup>* (w\<lparr>wEnded := insert c (wEnded w), wExec := st'\<rparr>) w'"
  shows "holds (esProcs (wExec w') ! i)"
proof -
  have inv: "worldInv w" using reach_inv[OF assms(2,1) startWorld_inv] .
  let ?w1 = "w\<lparr>wEnded := insert c (wEnded w), wExec := st'\<rparr>"
  have inv1: "worldInv ?w1" using call_inv[OF inv assms(3,4) _ assms(7)] by simp
  have st': "st' = wExec w" using assms(7) by (simp add: registeredCheck_call_def)
  have h: "holds (esProcs (wExec w) ! i)"
    using inv ownInv_D(3)[OF _ assms(3,5,4,6)] by (simp add: worldInv_def)
  have "esProcs (wExec w') ! i = esProcs (wExec ?w1) ! i \<and> c \<in> wEnded w' \<and> c < length (wChecks w') \<and>
      i \<in> set (subprocesses (wChecks w' ! c)) \<and> worldInv w'"
    using assms(8)
  proof (induction rule: rtranclp_induct)
    case base
    show ?case using inv1 assms(3,5) by simp
  next
    case (step u v)
    then have u: "worldInv u" "c < length (wChecks u)" "c \<in> wEnded u" "i \<in> set (subprocesses (wChecks u ! c))" by simp_all
    show ?case using step_ended[OF step(2) u assms(1)] wstep_inv[OF step(2) u(1) assms(1)] step.IH by simp
  qed
  then show ?thesis using h by (simp add: st')
qed


section \<open>The properties on a concrete run\<close>

definition demoSys :: sysView where
  "demoSys = \<lparr>LookupEnv = (\<lambda>k. if k = ''PATH'' then Some ''/usr/bin'' else if k = ''CACHE'' then Some ''/cache'' else None),
     GOROOT = [], PathListSeparator = CHR '':'', Stat = (\<lambda>p. OsStatOk (HasPrefix p ''/usr'')), LookPath = (\<lambda>p. Inl (ErrNotFound p)),
     Mkdir = (\<lambda>_. None), RemoveAll = (\<lambda>_. None), onWindows = False, starString = Type, chooseBuf = hd,
     endOf = (\<lambda>_. \<lparr>peOut = ''hi'', peErr = [], peRes = ExitNil, peKill = None\<rparr>)\<rparr>"

definition demoX :: execEnv where
  "demoX = \<lparr>xeRoot = ''/r'', xeSubdir = [], xeWritableRoot = False,
     xePassthrough = [\<lparr>peName = ''CACHE'', peIsPath = True, peWriteable = True\<rparr>], xeSandbox = genericCommand\<rparr>"

definition demoExec :: "string \<Rightarrow> execArgs" where
  "demoExec cwd = \<lparr>eaCmd = (''list'', [VStr ''/bin/sh'']), eaCwd = cwd, eaEnv = [(VStr ''A'', VStr ''1'')],
     eaStdin = VNone, eaAllowNetwork = False, eaOkRetcodes = VNone, eaRaise = True\<rparr>"

definition demoTemp :: tempState where
  "demoTemp = \<lparr>tmpdir = ''/t'', tmpdirIndex = 0, mkdirs = []\<rparr>"

definition demoStart :: world where
  "demoStart = startWorld [checkOf demoCheck] demoTemp"

definition demoStarted :: "registeredCheck \<times> execState" where
  "demoStarted = snd (ctxOsExec demoSys demoX (demoExec []) (wChecks demoStart ! 0) (wExec demoStart))"

definition demoWorld :: world where
  "demoWorld = demoStart\<lparr>wChecks := (wChecks demoStart)[0 := fst demoStarted], wExec := snd demoStarted\<rparr>"

lemma demo_picks: "picks (chooseBuf demoSys)"
  by (simp add: picks_def demoSys_def)

lemma demo_exec:
  "ctxOsExec demoSys demoX (demoExec []) (wChecks demoStart ! 0) (wExec demoStart) = (Ok 0, fst demoStarted, snd demoStarted)"
proof -
  have "fst (ctxOsExec demoSys demoX (demoExec []) (wChecks demoStart ! 0) (wExec demoStart)) = Ok 0" by code_simp
  then show ?thesis unfolding demoStarted_def by (metis prod.collapse)
qed

lemma demo_facts:
  "length (wChecks demoStart) = 1" "wEnded demoStart = {}" "wEnded demoWorld = {}" "length (wChecks demoWorld) = 1"
  "wChecks demoWorld ! 0 = fst demoStarted" "wExec demoWorld = snd demoStarted"
  by (simp_all add: demoStart_def startWorld_def demoWorld_def)

lemma demo_started:
  "subprocesses (fst demoStarted) = [0]" "length (esProcs (snd demoStarted)) = 1"
  "\<not> waitCalled (esProcs (snd demoStarted) ! 0)" "spStdout (esProcs (snd demoStarted) ! 0) = Some 0"
  "spStderr (esProcs (snd demoStarted) ! 0) = Some 1" "spTempDir (esProcs (snd demoStarted) ! 0) = ''/t/0''"
  by code_simp+

lemma demo_reach: "(wstep demoSys)\<^sup>*\<^sup>* (startWorld [checkOf demoCheck] demoTemp) demoWorld"
  using wstep.exec[of 0 demoStart demoSys demoX "demoExec []" "Ok 0" "fst demoStarted" "snd demoStarted"] demo_exec demo_facts
  unfolding demoWorld_def demoStart_def by simp

lemma demo_running: "0 < length (wChecks demoWorld)" "0 \<notin> wEnded demoWorld" "0 \<in> set (subprocesses (wChecks demoWorld ! 0))"
  "\<not> waitCalled (esProcs (wExec demoWorld) ! 0)"
  by (simp_all add: demo_facts demo_started)

theorem buffers_never_shared_witness:
  "count (heldAll (esProcs (wExec demoWorld)) + mset (poolB (esPool (wExec demoWorld)))) 1 \<le> 1 \<and>
   fst (subprocess_wait demoSys 0 (wExec demoWorld)) \<noteq> Panic []"
  using buffers_never_shared[OF demo_picks demo_reach demo_running(1,2)] demo_running(3) by blast

theorem exec_environment_witness:
  "map_of (Env (spConfig (esProcs (snd demoStarted) ! 0))) ''PATH'' = Some ''/usr/bin''"
proof -
  have "distinct (map fst (eaEnv (demoExec [])))" "''PATH'' \<notin> peName ` set (xePassthrough demoX)"
    by (simp_all add: demoExec_def demoX_def)
  from exec_environment[OF demo_exec this] have
    "map_of (Env (spConfig (esProcs (snd demoStarted) ! 0))) ''PATH'' = map_of (baseEnv demoSys []) ''PATH''" by blast
  moreover have "map_of (baseEnv demoSys []) ''PATH'' = Some ''/usr/bin''" by code_simp
  ultimately show ?thesis by simp
qed

theorem exec_writable_mounts_witness:
  "\<exists>m. mayWrite demoSys demoX ''/t/0'' (mPath m) \<and> 
    mountFrom demoLinks (Cwd (spConfig (esProcs (snd demoStarted) ! 0))) m \<lparr>mPath = ''/cache'', mDest = ''/cache'', mWritable = True\<rparr>"
proof -
  let ?ms = "nsjailMounts 9 demoLinks (sort_key destOf) (spConfig (esProcs (snd demoStarted) ! 0))"
  have "case ?ms of None \<Rightarrow> False | Some ms \<Rightarrow> \<lparr>mPath = ''/cache'', mDest = ''/cache'', mWritable = True\<rparr> \<in> set ms"
    by code_simp
  then obtain ms where ms: "?ms = Some ms" "\<lparr>mPath = ''/cache'', mDest = ''/cache'', mWritable = True\<rparr> \<in> set ms"
    by (auto split: option.splits)
  from exec_writable_mounts[OF demo_exec stable_sort.sort_slice_axioms ms] show ?thesis
    by (simp add: demo_started)
qed

theorem exec_error_leaves_nothing_witness:
  "''/t/0'' \<in> set (esRemoved (snd (snd (ctxOsExec demoSys demoX (demoExec ''..'') (wChecks demoStart ! 0) (wExec demoStart)))))"
proof -
  let ?run = "ctxOsExec demoSys demoX (demoExec ''..'') (wChecks demoStart ! 0) (wExec demoStart)"
  have "fst ?run = Err (New ''cannot escape root'')" by code_simp
  then have run: "?run = (Err (New ''cannot escape root''), fst (snd ?run), snd (snd ?run))" by (metis prod.collapse)
  have td: "fst (newTempDir (Mkdir demoSys) (esTemp (wExec demoStart))) = Ok ''/t/0''" by code_simp
  have "tmpdirIndex (esTemp (snd (snd ?run))) = 1" "tmpdirIndex (esTemp (wExec demoStart)) = 0" by code_simp+
  then have "esTemp (snd (snd ?run)) \<noteq> esTemp (wExec demoStart)" by (intro notI) simp
  then show ?thesis using exec_error_leaves_nothing[OF run] td by blast
qed



theorem failed_check_leaks_witness: "holds (esProcs (wExec demoWorld) ! 0)"
proof -
  have run: "registeredCheck_call demoSys (wChecks demoWorld ! 0) (Err (EvalError [])) (wExec demoWorld) =
      (fst (registeredCheck_call demoSys (wChecks demoWorld ! 0) (Err (EvalError [])) (wExec demoWorld)), wExec demoWorld)"
    by (simp add: registeredCheck_call_def)
  from failed_check_leaks[OF demo_picks demo_reach demo_running run rtranclp.rtrancl_refl] show ?thesis by simp
qed

end
