(* ===== verification/Pkg.thy ===== *)
theory Pkg
  imports Config Io
begin

text \<open>
  The package manager (internal/engine/pkg.go): the digest of a directory tree, its verification,
  and the retrieval of packages from a vendor directory or from git. The hash of Go modules
  (dirhash.Hash1), module.EscapeVersion and the git command are parameters; the tree walk is
  modelled on trees of files. Packages are named by the directory they are served from. Git
  packages are fetched here one after the other in the order of the document; the code fetches
  them in parallel and stops at the first error.
\<close>

section \<open>The digest of a tree\<close>

datatype ftree = TFile string | TDir "(string \<times> ftree) list"

type_synonym tree = "(string \<times> ftree) list"

text \<open>fs.WalkDir from ".", skipping the directories whose path starts with a dot.\<close>

fun walkTree :: "string \<Rightarrow> tree \<Rightarrow> string list" and walkNode :: "string \<Rightarrow> ftree \<Rightarrow> string list" where
  "walkTree pre [] = []"
| "walkTree pre ((n, t) # es) = walkNode (pre @ n) t @ walkTree pre es"
| "walkNode p (TFile c) = [p]"
| "walkNode p (TDir sub) =
     (if p \<noteq> ''.'' \<and> p \<noteq> [] \<and> hd p = CHR ''.'' then [] else walkTree (p @ ''/'') sub)"

fun lookupPath :: "string list \<Rightarrow> tree \<Rightarrow> string option" where
  "lookupPath [] es = None"
| "lookupPath (p # ps) es =
     (case map_of es p of
        None \<Rightarrow> None
      | Some (TFile c) \<Rightarrow> if ps = [] then Some c else None
      | Some (TDir sub) \<Rightarrow> lookupPath ps sub)"

definition fsOpen :: "tree \<Rightarrow> string \<Rightarrow> string outcome" where
  "fsOpen t p = (case lookupPath (Split p CHR ''/'') t of None \<Rightarrow> Err (ErrNotExist p) | Some c \<Rightarrow> Ok c)"

type_synonym hash1 = "string list \<Rightarrow> (string \<Rightarrow> string outcome) \<Rightarrow> string outcome"

definition slashes :: "string \<Rightarrow> string" where
  "slashes p = map (\<lambda>c. if c = BSl then CHR ''/'' else c) p"

definition FSToDigest :: "hash1 \<Rightarrow> tree \<Rightarrow> string \<Rightarrow> string outcome" where
  "FSToDigest hash1 f pre =
     (if pre = [] then Err (New ''prefix is required'')
      else hash1 (map (\<lambda>p. pre @ ''/'' @ slashes p) (walkTree [] f))
             (\<lambda>name. case fsOpen f (drop (length pre + 1) name) of
                Err e \<Rightarrow> Err (Errorf ''couldn't open %s (prefix: %s): %w'' [FStr name, FStr pre, FErr e])
              | other \<Rightarrow> other))"

section \<open>Verification\<close>

record pkgEnv =
  pkStat :: "string \<Rightarrow> statRes"
  pkTree :: "string \<Rightarrow> tree"
  pkHash :: hash1
  pkUrls :: urlLib
  pkGit :: "string \<Rightarrow> string list \<Rightarrow> err option"
  pkMkdirAll :: "string \<Rightarrow> err option"
  pkEscape :: "string \<Rightarrow> string outcome"

definition isDir :: "pkgEnv \<Rightarrow> string \<Rightarrow> unit outcome" where
  "isDir env d =
     (case pkStat env d of
        StatErr e \<Rightarrow> if isNotExist e then Err (Errorf ''path %s is missing'' [FStr d]) else Err e
      | StatFile \<Rightarrow> Err (Errorf ''path %s is not a directory'' [FStr d])
      | StatDir \<Rightarrow> Ok ())"

definition verifyDir :: "pkgEnv \<Rightarrow> string \<Rightarrow> string \<Rightarrow> string \<Rightarrow> string \<Rightarrow> string outcome" where
  "verifyDir env d url version digest =
     (if digest \<noteq> [] then
        (case FSToDigest (pkHash env) (pkTree env d) (url @ ''@'' @ version) of
           Err e \<Rightarrow> Err (Errorf ''hashing failed: %w'' [FErr e])
         | Panic m \<Rightarrow> Panic m
         | Ok got \<Rightarrow>
             if got \<noteq> digest then Err (Errorf ''mismatched digest, got %s, expected %s'' [FStr got, FStr digest])
             else Ok d)
      else Ok d)"

section \<open>Fetching with git\<close>

text \<open>The commands run so far are kept with the directory they ran in.\<close>

type_synonym gitLog = "(string \<times> string list) list"

definition runGit :: "pkgEnv \<Rightarrow> string \<Rightarrow> string list \<Rightarrow> gitLog \<Rightarrow> unit outcome \<times> gitLog" where
  "runGit env d args log = (case pkGit env d args of None \<Rightarrow> Ok () | Some e \<Rightarrow> Err e, log @ [(d, args)])"

definition gitThen :: "'a outcome \<times> gitLog \<Rightarrow> ('a \<Rightarrow> gitLog \<Rightarrow> 'b outcome \<times> gitLog) \<Rightarrow> 'b outcome \<times> gitLog" where
  "gitThen m k = (case m of (Ok x, log) \<Rightarrow> k x log | (Err e, log) \<Rightarrow> (Err e, log) | (Panic p, log) \<Rightarrow> (Panic p, log))"

definition ensureGitPkg ::
    "pkgEnv \<Rightarrow> string \<Rightarrow> string \<Rightarrow> string \<Rightarrow> string \<Rightarrow> gitLog \<Rightarrow> string outcome \<times> gitLog" where
  "ensureGitPkg env pmRoot url version digest log =
     (case cleanURL (pkUrls env) url of
        Err e \<Rightarrow> (Err e, log)
      | Panic m \<Rightarrow> (Panic m, log)
      | Ok fullURL \<Rightarrow>
          (let depdir = PathJoin [pmRoot, url]
           in gitThen
                (if isGerritRef version \<or> isPullRef version
                 then gitThen (runGit env depdir [''fetch'', fullURL, version] log)
                        (\<lambda>_ log. (Ok (depdir, ''FETCH_HEAD''), log))
                 else (bindO (pkEscape env version) (\<lambda>v. Ok (depdir @ ''@'' @ v, version)), log))
                (\<lambda>(depdir, version) log.
                   let parentdir = Dir depdir
                   in case pkMkdirAll env parentdir of
                        Some e \<Rightarrow> (Err e, log)
                      | None \<Rightarrow>
                          gitThen (runGit env parentdir [''clone'', fullURL, Base depdir] log) (\<lambda>_ log.
                          gitThen (runGit env depdir [''checkout'', version] log) (\<lambda>_ log.
                            (verifyDir env depdir url version digest, log))))))"

section \<open>RetrievePackages\<close>

type_synonym packages = "string \<rightharpoonup> string"

definition addPackage :: "Dependency \<Rightarrow> string \<Rightarrow> packages \<Rightarrow> packages" where
  "addPackage d f pk =
     (let pk1 = pk(Url d \<mapsto> f) in if Alias d = [] then pk1 else pk1(Alias d \<mapsto> f))"

fun vendoredLoop :: "pkgEnv \<Rightarrow> Document \<Rightarrow> string \<Rightarrow> Dependency list \<Rightarrow> packages \<Rightarrow> packages outcome" where
  "vendoredLoop env doc vendorRoot [] pk = Ok pk"
| "vendoredLoop env doc vendorRoot (d # ds) pk =
     (let dir = PathJoin [vendorRoot, Url d]
      in case isDir env dir of
           Err e \<Rightarrow> Err (Errorf ''vendored %w'' [FErr e])
         | Panic m \<Rightarrow> Panic m
         | Ok u \<Rightarrow>
             (case bindO (docDigest doc d) (verifyDir env dir (Url d) (Version d)) of
                Err e \<Rightarrow> Err (Errorf ''%s couldn't be fetched: %w'' [FStr (Url d), FErr e])
              | Panic m \<Rightarrow> Panic m
              | Ok f \<Rightarrow> vendoredLoop env doc vendorRoot ds (addPackage d f pk)))"

fun gitLoop :: "pkgEnv \<Rightarrow> Document \<Rightarrow> string \<Rightarrow> Dependency list \<Rightarrow> packages \<Rightarrow> gitLog \<Rightarrow> packages outcome \<times> gitLog" where
  "gitLoop env doc pmRoot [] pk log = (Ok pk, log)"
| "gitLoop env doc pmRoot (d # ds) pk log =
     (case docDigest doc d of
        Ok dig \<Rightarrow>
          (case ensureGitPkg env pmRoot (Url d) (Version d) dig log of
             (Ok f, log') \<Rightarrow> gitLoop env doc pmRoot ds (addPackage d f pk) log'
           | (Err e, log') \<Rightarrow> (Err (Errorf ''%s couldn't be fetched: %w'' [FStr (Url d), FErr e]), log')
           | (Panic m, log') \<Rightarrow> (Panic m, log'))
      | Err e \<Rightarrow> (Err e, log)
      | Panic m \<Rightarrow> (Panic m, log))"

definition absDir :: "pkgEnv \<Rightarrow> string \<Rightarrow> unit outcome" where
  "absDir env d =
     (if \<not> IsAbs d then Err (Errorf ''path %s is not absolute'' [FStr d]) else isDir env d)"

definition RetrievePackages ::
    "pkgEnv \<Rightarrow> string \<Rightarrow> string \<Rightarrow> Document \<Rightarrow> packages outcome \<times> gitLog" where
  "RetrievePackages env pmRoot root doc =
     (case bindO (absDir env pmRoot) (\<lambda>_. absDir env root) of
        Err e \<Rightarrow> (Err e, [])
      | Panic m \<Rightarrow> (Panic m, [])
      | Ok u \<Rightarrow>
          (let pk = [''__main__'' \<mapsto> root]
           in if VendorPath doc \<noteq> []
              then (vendoredLoop env doc (PathJoin [root, VendorPath doc]) (allDeps doc) pk, [])
              else gitLoop env doc pmRoot (allDeps doc) pk []))"

section \<open>Properties\<close>

text \<open>A directory that carries the digest the document knows for a dependency.\<close>

definition verifiedFor :: "pkgEnv \<Rightarrow> Document \<Rightarrow> Dependency \<Rightarrow> string \<Rightarrow> bool" where
  "verifiedFor env doc d dir \<longleftrightarrow>
     (\<exists>version dig. (version = Version d \<or> version = ''FETCH_HEAD'') \<and> docDigest doc d = Ok dig \<and> dig \<noteq> [] \<and>
        FSToDigest (pkHash env) (pkTree env dir) (Url d @ ''@'' @ version) = Ok dig)"

lemma verifyDir_Ok:
  "verifyDir env d url version digest = Ok f \<Longrightarrow> digest \<noteq> [] \<Longrightarrow>
   f = d \<and> FSToDigest (pkHash env) (pkTree env d) (url @ ''@'' @ version) = Ok digest"
  by (auto simp: verifyDir_def split: outcome.splits if_splits)

lemma gitThen_Ok: "gitThen m k = (Ok y, log') \<longleftrightarrow> (\<exists>x log. m = (Ok x, log) \<and> k x log = (Ok y, log'))"
  by (auto simp: gitThen_def split: prod.splits outcome.splits)

lemma ensureGitPkg_Ok:
  assumes "ensureGitPkg env pmRoot url version digest log = (Ok f, log')" and "digest \<noteq> []"
  shows "\<exists>v. (v = version \<or> v = ''FETCH_HEAD'') \<and>
    FSToDigest (pkHash env) (pkTree env f) (url @ ''@'' @ v) = Ok digest"
proof -
  obtain depdir v where v: "v = version \<or> v = ''FETCH_HEAD''" "verifyDir env depdir url v digest = Ok f"
    using assms(1)
    by (auto simp: ensureGitPkg_def Let_def gitThen_Ok go_out split: outcome.splits option.splits if_splits)
  then show ?thesis using verifyDir_Ok[OF v(2) assms(2)] by blast
qed

definition packagesVerified :: "pkgEnv \<Rightarrow> Document \<Rightarrow> string \<Rightarrow> Dependency list \<Rightarrow> packages \<Rightarrow> bool" where
  "packagesVerified env doc root ds pk \<longleftrightarrow>
     (\<forall>k dir. pk k = Some dir \<longrightarrow>
        (k = ''__main__'' \<and> dir = root) \<or>
        (\<exists>d \<in> set ds. (k = Url d \<or> k = Alias d) \<and> verifiedFor env doc d dir))"

lemma addPackage_verified:
  "packagesVerified env doc root ds pk \<Longrightarrow> d \<in> set ds \<Longrightarrow> verifiedFor env doc d f \<Longrightarrow>
   packagesVerified env doc root ds (addPackage d f pk)"
  by (auto simp: packagesVerified_def addPackage_def Let_def)

lemma vendoredLoop_verified:
  assumes "vendoredLoop env doc vr ds pk = Ok pk'" and "set ds \<subseteq> set all"
    and "packagesVerified env doc root all pk"
    and "\<forall>d \<in> set all. \<exists>dig. docDigest doc d = Ok dig \<and> dig \<noteq> []"
  shows "packagesVerified env doc root all pk'"
  using assms
proof (induction ds arbitrary: pk)
  case Nil
  then show ?case by simp
next
  case (Cons d ds)
  obtain dig where dig: "docDigest doc d = Ok dig" "dig \<noteq> []" using Cons.prems by auto
  obtain f where f: "verifyDir env (PathJoin [vr, Url d]) (Url d) (Version d) dig = Ok f"
    "vendoredLoop env doc vr ds (addPackage d f pk) = Ok pk'"
    using Cons.prems(1) dig by (auto simp: Let_def split: outcome.splits)
  have "verifiedFor env doc d f"
    using verifyDir_Ok[OF f(1) dig(2)] dig by (auto simp: verifiedFor_def)
  then show ?case using Cons.IH[OF f(2)] Cons.prems addPackage_verified by simp
qed

lemma gitLoop_verified:
  assumes "gitLoop env doc pr ds pk log = (Ok pk', log')" and "set ds \<subseteq> set all"
    and "packagesVerified env doc root all pk"
    and "\<forall>d \<in> set all. \<exists>dig. docDigest doc d = Ok dig \<and> dig \<noteq> []"
  shows "packagesVerified env doc root all pk'"
  using assms
proof (induction ds arbitrary: pk log)
  case Nil
  then show ?case by simp
next
  case (Cons d ds)
  obtain dig where dig: "docDigest doc d = Ok dig" "dig \<noteq> []" using Cons.prems by auto
  obtain f log1 where f: "ensureGitPkg env pr (Url d) (Version d) dig log = (Ok f, log1)"
    "gitLoop env doc pr ds (addPackage d f pk) log1 = (Ok pk', log')"
    using Cons.prems(1) dig by (auto split: outcome.splits prod.splits)
  have "verifiedFor env doc d f"
    using ensureGitPkg_Ok[OF f(1) dig(2)] dig by (auto simp: verifiedFor_def)
  then show ?case using Cons.IH[OF f(2)] Cons.prems addPackage_verified by simp
qed

text \<open>C6. When the document was validated, every package the engine can load from, other than the
  project itself, was hashed and its hash equals the digest the document has for one of its
  dependencies: no package is served unverified, vendored or fetched, by URL or by alias.\<close>

theorem packages_are_verified:
  assumes "Document_Validate lib doc = Ok ()" and "RetrievePackages env pmRoot root doc = (Ok pk, log)"
    and "pk k = Some dir"
  shows "(k = ''__main__'' \<and> dir = root) \<or>
    (\<exists>d \<in> set (allDeps doc). (k = Url d \<or> k = Alias d) \<and> verifiedFor env doc d dir)"
proof -
  have pinned: "\<forall>d \<in> set (allDeps doc). \<exists>dig. docDigest doc d = Ok dig \<and> dig \<noteq> []"
    using Validate_dependencies_pinned[OF assms(1)] by blast
  have init: "packagesVerified env doc root (allDeps doc) [''__main__'' \<mapsto> root]"
    by (simp add: packagesVerified_def)
  have "packagesVerified env doc root (allDeps doc) pk"
    using assms(2) vendoredLoop_verified[OF _ subset_refl init pinned] gitLoop_verified[OF _ subset_refl init pinned]
    by (auto simp: RetrievePackages_def Let_def split: outcome.splits if_splits)
  then show ?thesis using assms(3) by (simp add: packagesVerified_def)
qed

text \<open>The hypothesis on dirhash.Hash1: the hash depends on the listed files only through what they hold.\<close>

definition hashReadsListed :: "hash1 \<Rightarrow> bool" where
  "hashReadsListed h \<longleftrightarrow> (\<forall>fs o1 o2. (\<forall>f \<in> set fs. o1 f = o2 f) \<longrightarrow> h fs o1 = h fs o2)"

lemma walkNode_prefix: "f \<in> set (walkTree pre es) \<Longrightarrow> \<exists>r. f = pre @ r"
  and "f \<in> set (walkNode p t) \<Longrightarrow> \<exists>r. f = p @ r"
proof (induction pre es and p t rule: walkTree_walkNode.induct)
  case (4 p sub)
  then show ?case by (auto split: if_splits)
qed auto

text \<open>The digest of a package does not cover what lies in its root directories whose names start with
  a dot: two packages that differ only there have the same digest, so the content of such a
  directory can be replaced without verification noticing.\<close>

theorem digest_ignores_dot_directories:
  assumes "hashReadsListed h" and "hd n = CHR ''.''" and "n \<noteq> []" and "n \<noteq> ''.''" and "CHR ''/'' \<notin> set n"
    and "\<forall>p \<in> set (walkTree [] es). hd (Split (slashes p) CHR ''/'') \<noteq> n"
  shows "FSToDigest h (es @ [(n, TDir a)]) pre = FSToDigest h (es @ [(n, TDir b)]) pre"
proof -
  have walk: "walkTree [] (es @ [(n, TDir x)]) = walkTree [] es" for x
  proof -
    have "walkTree p (es @ ys) = walkTree p es @ walkTree p ys" for p ys
      by (induction es) auto
    then show ?thesis using assms(2-4) by simp
  qed
  have look: "lookupPath ps (es @ [(n, TDir a)]) = lookupPath ps (es @ [(n, TDir b)])"
    if "ps \<noteq> []" "hd ps \<noteq> n" for ps
    using that by (cases ps) (auto simp: map_of_append map_add_def split: option.splits)
  have opn: "fsOpen (es @ [(n, TDir a)]) (slashes p) = fsOpen (es @ [(n, TDir b)]) (slashes p)"
    if "p \<in> set (walkTree [] es)" for p
    using assms(6) that by (simp add: fsOpen_def look)
  have "h (map (\<lambda>p. pre @ ''/'' @ slashes p) (walkTree [] es))
          (\<lambda>name. case fsOpen (es @ [(n, TDir a)]) (drop (length pre + 1) name) of
             Err e \<Rightarrow> Err (Errorf ''couldn't open %s (prefix: %s): %w'' [FStr name, FStr pre, FErr e]) | other \<Rightarrow> other) =
        h (map (\<lambda>p. pre @ ''/'' @ slashes p) (walkTree [] es))
          (\<lambda>name. case fsOpen (es @ [(n, TDir b)]) (drop (length pre + 1) name) of
             Err e \<Rightarrow> Err (Errorf ''couldn't open %s (prefix: %s): %w'' [FStr name, FStr pre, FErr e]) | other \<Rightarrow> other)"
    using assms(1) opn by (intro assms(1)[unfolded hashReadsListed_def, rule_format]) auto
  then show ?thesis by (simp add: FSToDigest_def walk)
qed

text \<open>A dependency on a pending Gerrit change or GitHub pull request is fetched before it is cloned:
  the first git command runs in a directory that only the clone, which comes later, creates. When
  git fails there, as it does in a directory that does not exist, the package is never retrieved
  and the clone never runs.\<close>

theorem pending_change_fetched_before_clone:
  assumes "isGerritRef v \<or> isPullRef v" and "cleanURL (pkUrls env) url = Ok full"
    and "pkGit env (PathJoin [pmRoot, url]) [''fetch'', full, v] = Some e"
  shows "ensureGitPkg env pmRoot url v digest log =
    (Err e, log @ [(PathJoin [pmRoot, url], [''fetch'', full, v])])"
  using assms by (simp add: ensureGitPkg_def runGit_def gitThen_def Let_def)

section \<open>The properties on a concrete package\<close>

definition demoHash :: hash1 where
  "demoHash fs op = (if list_all (\<lambda>f. isOk (op f)) fs then Ok demoDigest else Err (New ''unreadable''))"

definition demoPkgEnv :: "(string \<Rightarrow> string list \<Rightarrow> err option) \<Rightarrow> pkgEnv" where
  "demoPkgEnv git = \<lparr>pkStat = (\<lambda>_. StatDir), pkTree = (\<lambda>_. [(''api.star'', TFile ''x'')]), pkHash = demoHash,
     pkUrls = demoUrls, pkGit = git, pkMkdirAll = (\<lambda>_. None), pkEscape = Ok\<rparr>"

lemma demoHash_reads: "hashReadsListed demoHash"
  by (auto simp: hashReadsListed_def demoHash_def list_all_iff)

lemma demo_digest: "FSToDigest demoHash [(''api.star'', TFile ''x'')] ''h/p@v1'' = Ok demoDigest"
  by (simp add: FSToDigest_def demoHash_def fsOpen_def slashes_def BSl_def)

lemma demo_retrieve:
  "fst (RetrievePackages (demoPkgEnv git) ''/t'' ''/r'' (demoDoc\<lparr>VendorPath := ''v''\<rparr>)) =
     Ok [''__main__'' \<mapsto> ''/r'', ''h/p'' \<mapsto> ''/r/v/h/p'', ''p'' \<mapsto> ''/r/v/h/p'']"
proof -
  have dig: "docDigest (demoDoc\<lparr>VendorPath := ''v''\<rparr>) demoDep = Ok demoDigest" "demoDigest \<noteq> []"
    by (simp_all add: docDigest_def demoDoc_def demoDep_def demoKnown_def demoDigest_def)
  have path: "PathJoin [PathJoin [''/r'', ''v''], ''h/p''] = ''/r/v/h/p''" by (simp add: path_eval)
  have "verifyDir (demoPkgEnv git) ''/r/v/h/p'' ''h/p'' ''v1'' demoDigest = Ok ''/r/v/h/p''"
    using demo_digest dig(2) by (simp add: verifyDir_def demoPkgEnv_def)
  then have "vendoredLoop (demoPkgEnv git) (demoDoc\<lparr>VendorPath := ''v''\<rparr>) (PathJoin [''/r'', ''v'']) [demoDep]
      [''__main__'' \<mapsto> ''/r''] = Ok (addPackage demoDep ''/r/v/h/p'' [''__main__'' \<mapsto> ''/r''])"
    using dig path by (simp add: isDir_def demoPkgEnv_def) (simp add: demoDep_def path)
  moreover have "allDeps (demoDoc\<lparr>VendorPath := ''v''\<rparr>) = [demoDep]" by (simp add: allDeps_def demoDoc_def)
  ultimately show ?thesis
    by (simp add: RetrievePackages_def absDir_def isDir_def demoPkgEnv_def IsAbs_def)
      (simp add: addPackage_def demoDep_def)
qed

theorem packages_are_verified_witness:
  "verifiedFor (demoPkgEnv (\<lambda>_ _. None)) (demoDoc\<lparr>VendorPath := ''v''\<rparr>) demoDep ''/r/v/h/p''"
proof -
  let ?doc = "demoDoc\<lparr>VendorPath := ''v''\<rparr>"
  have "Clean ''v'' = ''v''" by (simp add: path_eval)
  moreover have m: "MinShacVersion ?doc = MinShacVersion demoDoc" by simp
  moreover have "CheckVersion ?doc = CheckVersion demoDoc" unfolding CheckVersion_def m ..
  moreover have "docRequirements ?doc = docRequirements demoDoc" "docSum ?doc = docSum demoDoc"
    "Vars ?doc = []" "VendorPath ?doc = ''v''" "Vars demoDoc = []" "VendorPath demoDoc = []"
    by (simp_all add: demoDoc_def)
  ultimately have valid: "Document_Validate demoUrls ?doc = Ok ()"
    using demoDoc_valid by (simp add: Document_Validate_def)
  obtain log where "RetrievePackages (demoPkgEnv (\<lambda>_ _. None)) ''/t'' ''/r'' ?doc =
      (Ok [''__main__'' \<mapsto> ''/r'', ''h/p'' \<mapsto> ''/r/v/h/p'', ''p'' \<mapsto> ''/r/v/h/p''], log)"
    using demo_retrieve by (metis prod.collapse)
  from packages_are_verified[OF valid this, of "''p''" "''/r/v/h/p''"]
  show ?thesis by (simp add: allDeps_def demoDoc_def)
qed

theorem digest_ignores_dot_directories_witness:
  "FSToDigest demoHash [(''api.star'', TFile ''x''), (''.x'', TDir [(''f.star'', TFile ''good'')])] ''p'' =
   FSToDigest demoHash [(''api.star'', TFile ''x''), (''.x'', TDir [(''f.star'', TFile ''evil'')])] ''p''"
  using digest_ignores_dot_directories[OF demoHash_reads, of "''.x''" "[(''api.star'', TFile ''x'')]"
      "[(''f.star'', TFile ''good'')]" "''p''" "[(''f.star'', TFile ''evil'')]"]
  by (simp add: slashes_def BSl_def)

theorem pending_change_fetched_before_clone_witness:
  "ensureGitPkg (demoPkgEnv (\<lambda>d _. if d = ''/t/h/p'' then Some (ErrOther ''no such directory'') else None))
     ''/t'' ''h/p'' ''pull/12/head'' demoDigest [] =
   (Err (ErrOther ''no such directory''), [(''/t/h/p'', [''fetch'', ''https://h/p'', ''pull/12/head''])])"
proof -
  have p: "PathJoin [''/t'', ''h/p''] = ''/t/h/p''" by (simp add: path_eval)
  have "isPullRef ''pull/12/head''" by (simp add: isPullRef_def isDigit_def)
  moreover have "cleanURL demoUrls ''h/p'' = Ok ''https://h/p''"
    by (simp add: cleanURL_def demoUrls_def HasPrefix_def)
  ultimately show ?thesis
    using pending_change_fetched_before_clone[of "''pull/12/head''"
        "demoPkgEnv (\<lambda>d _. if d = ''/t/h/p'' then Some (ErrOther ''no such directory'') else None)"
        "''h/p''" "''https://h/p''" "''/t''"]
    by (simp add: p demoPkgEnv_def)
qed

text \<open>The alias "__main__" passes validation, and a dependency that has it takes the place of the
  project in the table of packages: the project's own files are then loaded from the dependency.\<close>

theorem alias_main_shadows_project:
  "\<not> isBadAlias ''__main__'' \<and>
   addPackage (demoDep\<lparr>Alias := ''__main__''\<rparr>) ''/r/v/h/p'' [''__main__'' \<mapsto> ''/r''] ''__main__'' = Some ''/r/v/h/p''"
proof
  show "\<not> isBadAlias ''__main__''" by code_simp
qed (simp add: addPackage_def)

end
