(* ===== verification/Runner.thy ===== *)
theory Runner
  imports Subprocess Pkg
begin

text \<open>
  One run of shac (run.go): the root, the configuration, the checkout, the variables and states of
  the shac files found, their loading, the check filter, the checks and the result. What the
  engine below answers is a parameter: the file system, git, the prototext parser, the gitignore
  matcher, what loading a shac file registers, and how every check ends. The checks run
  concurrently; errgroup returns the error that came first, which is a parameter as well.
\<close>

section \<open>Options and environment\<close>

record Options =
  oDir :: string
  oFiles :: "string list"
  oAllFiles :: bool
  oRecurse :: bool
  oFilter :: CheckFilter
  oVars :: "(string \<times> string) list"
  oEntryPoint :: string
  oStdin :: string
  oConfig :: string

record shacState =
  stEntryPoint :: string
  stRoot :: string
  stSubdir :: string
  stScm :: scm
  stTmpdir :: string
  stVars :: "(string \<times> string) list"
  stWritableRoot :: bool
  stAllowNetwork :: bool
  stPassthrough :: "PassthroughEnv list"
  stAllowedProps :: "string list"
  stFilter :: CheckFilter
  stChecks :: "registeredCheck list"
  stPrintCalled :: bool

text \<open>What loading a shac file does: the checks it registers, whether it prints, and its error.\<close>

record loadResult =
  lrRegisters :: "registerArg list"
  lrPrints :: bool
  lrErr :: "err option"

text \<open>How a check ends: its highest level, its error, and whether the run was cancelled by then.\<close>

record checkEnd =
  ceLevel :: Level
  ceErr :: "err option"
  ceCancelled :: bool

record runEnv =
  reOs :: osView
  reFs :: fsView
  rePk :: pkgEnv
  reAbs :: "string \<Rightarrow> string outcome"
  reReadFile :: "string \<Rightarrow> string outcome"
  reUnmarshal :: "bool \<Rightarrow> string \<Rightarrow> Document outcome"
  reMatcher :: "string list \<Rightarrow> string list \<Rightarrow> bool \<Rightarrow> bool"
  reSandboxNew :: "string \<Rightarrow> unit outcome"
  reLoad :: "shacState \<Rightarrow> loadResult"
  reEnd :: "shacState \<Rightarrow> registeredCheck \<Rightarrow> checkEnd"
  reFirst :: "err list \<Rightarrow> err"
  reMkdirTemp :: "string outcome"
  reRemoveAll :: "string \<Rightarrow> err option"

section \<open>The root\<close>

definition resolveRoot :: "runEnv \<Rightarrow> string \<Rightarrow> string outcome" where
  "resolveRoot re dir0 =
     (let dir = (if dir0 = [] then ''.'' else dir0)
      in case osStat (reOs re) dir of
           StatErr e \<Rightarrow> if isNotExist e then Err (Errorf ''no such directory: %s'' [FStr dir]) else Err e
         | StatFile \<Rightarrow> Err (Errorf ''not a directory: %s'' [FStr dir])
         | StatDir \<Rightarrow>
             bindO (reAbs re dir) (\<lambda>d.
               case runGitCmd (osGit (reOs re)) d [''rev-parse'', ''--show-toplevel''] of
                 Ok root \<Rightarrow> Ok (Clean root)
               | Err e \<Rightarrow>
                   if isNotFound e \<or> Contains (errText e) ''not a git repository'' then Ok d else Err e
               | Panic m \<Rightarrow> Panic m))"

section \<open>The configuration\<close>

definition emptyDoc :: Document where
  "emptyDoc = \<lparr>MinShacVersion = [], AllowNetwork = False, WritableRoot = False, Ignore = [],
     docRequirements = None, docSum = None, VendorPath = [], Vars = [], docPassthroughEnv = [],
     AllowedFindingsProperties = None\<rparr>"

text \<open>The first parse ignores unknown fields, so that the version is checked before they are refused.\<close>

definition loadConfig :: "runEnv \<Rightarrow> string \<Rightarrow> (Document \<times> bool) outcome" where
  "loadConfig re absConfig =
     bindO (case reReadFile re absConfig of
              Ok b \<Rightarrow>
                bindO (reUnmarshal re True b) (\<lambda>doc.
                bindO (CheckVersion doc) (\<lambda>_.
                bindO (reUnmarshal re False b) (\<lambda>doc. Ok (doc, True))))
            | Err e \<Rightarrow> if \<not> isNotExist e then Err e else Ok (emptyDoc, False)
            | Panic m \<Rightarrow> Panic m) (\<lambda>(doc, exists).
     bindO (Document_Validate (pkUrls (rePk re)) doc) (\<lambda>_. Ok (doc, exists)))"

section \<open>The checkout\<close>

definition errEmptyIgnore :: err where
  "errEmptyIgnore = New ''ignore fields cannot be empty strings''"

definition chooseScm :: "runEnv \<Rightarrow> Options \<Rightarrow> Document \<Rightarrow> string \<Rightarrow> scm outcome" where
  "chooseScm re opts doc root =
     bindO
       (if length (oFiles opts) > 0 then
          bindO (normalizeFiles (reFs re) (oFiles opts) root) (\<lambda>files.
          bindO (getSCM (reOs re) (fvEval (reFs re)) root False) (\<lambda>base.
            Ok (Specified files root base)))
        else if length (oStdin opts) > 0 \<and> length (oFiles opts) = 1 then
          bindO (normalizeFiles (reFs re) (oFiles opts) root) (\<lambda>files.
          bindO (goIndex files 0) (\<lambda>target. Ok (InMemory (oStdin opts) target)))
        else
          bindO (getSCM (reOs re) (fvEval (reFs re)) root (oAllFiles opts)) (\<lambda>s.
            if Ignore doc \<noteq> [] then
              if [] \<in> set (Ignore doc) then Err errEmptyIgnore
              else Ok (Filtered (reMatcher re (Ignore doc)) s)
            else Ok s))
       (\<lambda>s. Ok (Caching s [] [] None))"

section \<open>The states\<close>

fun userVars :: "string \<Rightarrow> bool \<Rightarrow> (string \<times> string) list \<Rightarrow> (string \<times> string) list \<Rightarrow> (string \<times> string) list outcome" where
  "userVars config exists [] vars = Ok vars"
| "userVars config exists ((name, val) # rest) vars =
     (if map_of vars name = None then
        Err (if exists then Errorf ''var not declared in %s: %s'' [FStr config, FStr name]
             else Errorf ''var must be declared in a %s file: %s'' [FStr config, FStr name])
      else userVars config exists rest (AList.update name val vars))"

definition runVars :: "string \<Rightarrow> bool \<Rightarrow> Document \<Rightarrow> Options \<Rightarrow> (string \<times> string) list outcome" where
  "runVars config exists doc opts =
     userVars config exists (oVars opts)
       (foldl (\<lambda>m v. AList.update (vName v) (vDefault v) m) [] (Vars doc))"

fun allowedProps :: "string list \<Rightarrow> string list \<Rightarrow> string list outcome" where
  "allowedProps seen [] = Ok seen"
| "allowedProps seen (p # ps) =
     (if p \<in> set seen
      then Err (Errorf ''cannot contain duplicate property name in allowed_findings_properties: %s'' [FStr p])
      else allowedProps (seen @ [p]) ps)"

definition newState ::
    "string \<Rightarrow> bool \<Rightarrow> Document \<Rightarrow> Options \<Rightarrow> string \<Rightarrow> string \<Rightarrow> string \<Rightarrow> scm \<Rightarrow> string \<Rightarrow> nat \<Rightarrow>
      shacState outcome" where
  "newState config exists doc opts entry root runDir s subdir idx =
     bindO (runVars config exists doc opts) (\<lambda>vars.
     (let sub = (if subdir = ''.'' then [] else subdir);
          s' = (if subdir = [] then s else Subdir s (if subdir = ''.'' then [] else subdir @ ''/''))
      in bindO (case AllowedFindingsProperties doc of None \<Rightarrow> Ok [] | Some ps \<Rightarrow> allowedProps [] ps) (\<lambda>props.
           Ok \<lparr>stEntryPoint = entry, stRoot = root, stSubdir = sub, stScm = s',
               stTmpdir = PathJoin [runDir, Itoa (int idx)], stVars = vars, stWritableRoot = WritableRoot doc,
               stAllowNetwork = AllowNetwork doc, stPassthrough = docPassthroughEnv doc,
               stAllowedProps = props, stFilter = oFilter opts, stChecks = [], stPrintCalled = False\<rparr>)))"

text \<open>
  The directories of the shac files: a checkout that overrides the search gives them itself, any
  other lists its files. The type switch is on the checkout as it is wrapped.
\<close>

definition posixPath :: "string \<Rightarrow> string" where
  "posixPath p = map (\<lambda>c. if c = BS then CHR ''/'' else c) p"

definition discover :: "runEnv \<Rightarrow> nat \<Rightarrow> string \<Rightarrow> scm \<Rightarrow> string list outcome option" where
  "discover re fuel entry s =
     (case s of
        Specified fs root base \<Rightarrow> shacFileDirs (osStat (reOs re)) fuel root fs entry
      | _ \<Rightarrow>
          (case fst (scm_allFiles (reOs re) \<lparr>includeDeleted = False, includeSymlinks = True\<rparr> s) of
             Files fs None \<Rightarrow>
               Some (Ok (map (\<lambda>f. posixPath (Dir (rootedpath f))) (filter (\<lambda>f. Base (rootedpath f) = entry) fs)))
           | Files fs (Some e) \<Rightarrow> Some (Err e)
           | FilesPanic m \<Rightarrow> Some (Panic m)))"

fun newStates :: "(string \<Rightarrow> nat \<Rightarrow> shacState outcome) \<Rightarrow> nat \<Rightarrow> string list \<Rightarrow> shacState list outcome" where
  "newStates mk i [] = Ok []"
| "newStates mk i (d # ds) =
     bindO (mk d i) (\<lambda>st. bindO (newStates mk (i + 1) ds) (\<lambda>sts. Ok (st # sts)))"

section \<open>Loading\<close>

text \<open>
  One shac file: what it registers in order, then the end of its evaluation. A file that neither
  registers a check nor prints is refused.
\<close>

definition parseState :: "runEnv \<Rightarrow> shacState \<Rightarrow> shacState outcome" where
  "parseState re s =
     (let lr = reLoad re s
      in bindO (registerAll (stChecks s) (lrRegisters lr)) (\<lambda>checks.
           case lrErr lr of
             Some e \<Rightarrow> Err e
           | None \<Rightarrow>
               if length checks = 0 \<and> \<not> lrPrints lr
               then Err (New ''did you forget to call shac.register_check?'')
               else Ok (s\<lparr>stChecks := checks, stPrintCalled := lrPrints lr\<rparr>)))"

definition errsOf :: "'a outcome list \<Rightarrow> err list" where
  "errsOf rs = concat (map (\<lambda>r. case r of Err e \<Rightarrow> [e] | _ \<Rightarrow> []) rs)"

definition loadAll :: "runEnv \<Rightarrow> shacState list \<Rightarrow> shacState list outcome" where
  "loadAll re states =
     (let rs = map (parseState re) states
      in if errsOf rs \<noteq> [] then Err (reFirst re (errsOf rs)) else Ok (okValues rs))"

section \<open>Filtering\<close>

fun filterStates :: "shacState list \<Rightarrow> shacState list outcome" where
  "filterStates [] = Ok []"
| "filterStates (s # ss) =
     bindO (CheckFilter_filter (stFilter s) (stChecks s)) (\<lambda>checks.
     bindO (filterStates ss) (\<lambda>ss'. Ok (s\<lparr>stChecks := checks\<rparr> # ss')))"

definition selectChecks :: "CheckFilter \<Rightarrow> shacState list \<Rightarrow> shacState list outcome" where
  "selectChecks f states =
     bindO (CheckFilter_validate f (map stChecks states)) (\<lambda>_.
     bindO (filterStates states) (\<lambda>states'.
       if sum_list (map (\<lambda>s. length (stChecks s)) states) > 0 \<and> list_all (\<lambda>s. stChecks s = []) states'
       then Err (New ''no checks to run'') else Ok states'))"

section \<open>Running the checks\<close>

record completion =
  coCheck :: string
  coLevel :: Level
  coErr :: "err option"

text \<open>A check that fails after the run was cancelled is not reported.\<close>

definition reportOf :: "registeredCheck \<Rightarrow> checkEnd \<Rightarrow> completion list" where
  "reportOf c e =
     (if ceErr e \<noteq> None \<and> ceCancelled e then []
      else [\<lparr>coCheck = rname c, coLevel = ceLevel e, coErr = ceErr e\<rparr>])"

definition endsOf :: "runEnv \<Rightarrow> shacState list \<Rightarrow> (registeredCheck \<times> checkEnd) list" where
  "endsOf re states = concat (map (\<lambda>s. map (\<lambda>c. (c, reEnd re s c)) (stChecks s)) states)"

definition runChecks :: "runEnv \<Rightarrow> shacState list \<Rightarrow> completion list \<times> unit outcome" where
  "runChecks re states =
     (let es = endsOf re states;
          errs = concat (map (\<lambda>(c, e). case ceErr e of None \<Rightarrow> [] | Some x \<Rightarrow> if ceCancelled e then [] else [x]) es)
      in (concat (map (\<lambda>(c, e). reportOf c e) es),
          if list_ex (\<lambda>(c, e). ceErr e \<noteq> None) es then Err (reFirst re errs)
          else if list_ex (\<lambda>(c, e). ceLevel e = Error) es then Err ErrCheckFailed
          else Ok ()))"

section \<open>The run\<close>

text \<open>
  The shac files and a state for each: all that the search finds, or the one in the root. \<open>None\<close> where
  the fuel of the search is not enough.
\<close>

definition findStates ::
    "runEnv \<Rightarrow> nat \<Rightarrow> Options \<Rightarrow> string \<Rightarrow> string \<Rightarrow> scm \<Rightarrow>
      (string \<Rightarrow> nat \<Rightarrow> shacState outcome) \<Rightarrow> shacState list outcome option" where
  "findStates re fuel opts entry root s newSt =
     (if oRecurse opts then
        map_option (\<lambda>r. bindO r (\<lambda>subdirs.
            if subdirs = [] then Err (Errorf ''no %s files found in %s'' [FStr entry, FStr root])
            else newStates newSt 0 subdirs))
          (discover re fuel entry s)
      else
        (case osStat (reOs re) (PathJoin [root, entry]) of
           StatErr e \<Rightarrow>
             Some (Err (if isNotExist e then Errorf ''no %s file in repository root: %s'' [FStr entry, FStr root]
                        else e))
         | _ \<Rightarrow> Some (newStates newSt 0 [[]])))"

text \<open>The states of a run, before they are loaded.\<close>

definition setupStates ::
    "runEnv \<Rightarrow> nat \<Rightarrow> Options \<Rightarrow> string \<Rightarrow> shacState list outcome option" where
  "setupStates re fuel opts runDir =
     (case resolveRoot re (oDir opts) of Err e \<Rightarrow> Some (Err e) | Panic p \<Rightarrow> Some (Panic p) | Ok root \<Rightarrow>
      let entry = (if oEntryPoint opts = [] then ''shac.star'' else oEntryPoint opts);
           config = (if oConfig opts = [] then ''shac.textproto'' else oConfig opts);
           absConfig = (if IsAbs config then config else PathJoin [root, config])
       in if IsAbs entry then Some (Err (New ''entrypoint file must not be an absolute path''))
          else case loadConfig re absConfig of Err e \<Rightarrow> Some (Err e) | Panic p \<Rightarrow> Some (Panic p) | Ok (doc, exists) \<Rightarrow>
          case chooseScm re opts doc root of Err e \<Rightarrow> Some (Err e) | Panic p \<Rightarrow> Some (Panic p) | Ok s \<Rightarrow>
          case fst (RetrievePackages (rePk re) runDir root doc) of Err e \<Rightarrow> Some (Err e) | Panic p \<Rightarrow> Some (Panic p) | Ok pk \<Rightarrow>
          case reSandboxNew re runDir of Err e \<Rightarrow> Some (Err e) | Panic p \<Rightarrow> Some (Panic p) | Ok u \<Rightarrow>
          findStates re fuel opts entry root s (newState config exists doc opts entry root runDir s))"

definition runInner :: "runEnv \<Rightarrow> nat \<Rightarrow> Options \<Rightarrow> string \<Rightarrow> (completion list \<times> unit outcome) option" where
  "runInner re fuel opts runDir =
     map_option (\<lambda>r.
       case bindO r (\<lambda>states. bindO (loadAll re states) (\<lambda>loaded. selectChecks (oFilter opts) loaded)) of
         Ok states \<Rightarrow> runChecks re states
       | Err e \<Rightarrow> ([], Err e)
       | Panic m \<Rightarrow> ([], Panic m))
     (setupStates re fuel opts runDir)"

text \<open>The run with the directories it removed.\<close>

definition Run :: "runEnv \<Rightarrow> nat \<Rightarrow> Options \<Rightarrow> (completion list \<times> unit outcome \<times> string list) option" where
  "Run re fuel opts =
     (case reMkdirTemp re of
        Ok d \<Rightarrow>
          map_option (\<lambda>(cs, r). (cs,
              case r of Ok u \<Rightarrow> (case reRemoveAll re d of None \<Rightarrow> Ok () | Some e \<Rightarrow> Err e) | other \<Rightarrow> other, [d]))
            (runInner re fuel opts d)
      | Err e \<Rightarrow> Some ([], Err e, [])
      | Panic m \<Rightarrow> Some ([], Panic m, []))"

section \<open>Variables\<close>

lemma declared_vars:
  "map_of (foldl (\<lambda>m v. AList.update (vName v) (vDefault v) m) m0 vs) k =
   (case map_of (rev (map (\<lambda>v. (vName v, vDefault v)) vs)) k of None \<Rightarrow> map_of m0 k | Some x \<Rightarrow> Some x)"
  by (induction vs arbitrary: m0) (auto simp: update_conv' map_add_def split: option.splits)

lemma userVars_Ok:
  assumes "userVars config exists given vars = Ok vars'" and "distinct (map fst given)"
  shows "fst ` set given \<subseteq> dom (map_of vars) \<and>
    map_of vars' = (\<lambda>k. case map_of given k of Some v \<Rightarrow> Some v | None \<Rightarrow> map_of vars k)"
  using assms
proof (induction given arbitrary: vars)
  case (Cons kv given)
  obtain name val where kv: "kv = (name, val)" by fastforce
  have in_dom: "name \<in> dom (map_of vars)" and rest: "userVars config exists given (AList.update name val vars) = Ok vars'"
    using Cons.prems(1) kv by (auto split: if_splits)
  have IH: "fst ` set given \<subseteq> dom (map_of (AList.update name val vars))"
      "map_of vars' = (\<lambda>k. case map_of given k of Some v \<Rightarrow> Some v | None \<Rightarrow> map_of (AList.update name val vars) k)"
    using Cons.IH[OF rest] Cons.prems(2) by simp_all
  have "name \<notin> dom (map_of given)" using Cons.prems(2) kv by (simp add: dom_map_of_conv_image_fst)
  then have "map_of given name = None" by (auto simp: dom_def)
  then show ?case using in_dom IH kv by (auto simp: update_conv' fun_eq_iff split: option.split if_splits)
qed simp

lemma userVars_complete:
  assumes "fst ` set given \<subseteq> dom (map_of vars)"
  shows "\<exists>vars'. userVars config exists given vars = Ok vars'"
  using assms
proof (induction given arbitrary: vars)
  case (Cons kv given)
  obtain name val where kv: "kv = (name, val)" by fastforce
  have "fst ` set given \<subseteq> dom (map_of (AList.update name val vars))" using Cons.prems by (auto simp: update_conv')
  then show ?case using Cons.IH[of "AList.update name val vars"] Cons.prems kv by auto
qed simp

text \<open>
  The variables of a run: every variable given on the command line must be declared in the
  configuration, and then the checks see its given value; a declared variable that is not given
  has its (last) default; nothing else is a variable.
\<close>

theorem run_variables:
  assumes "distinct (map fst (oVars opts))"
  shows "((\<exists>vars. runVars config exists doc opts = Ok vars) = (fst ` set (oVars opts) \<subseteq> vName ` set (Vars doc))) \<and>
    (\<forall>vars. runVars config exists doc opts = Ok vars \<longrightarrow>
       (\<forall>k. map_of vars k = (case map_of (oVars opts) k of Some v \<Rightarrow> Some v
              | None \<Rightarrow> map_of (rev (map (\<lambda>v. (vName v, vDefault v)) (Vars doc))) k)))"
proof -
  let ?base = "foldl (\<lambda>m v. AList.update (vName v) (vDefault v) m) [] (Vars doc)"
  let ?decl = "map_of (rev (map (\<lambda>v. (vName v, vDefault v)) (Vars doc)))"
  have base: "map_of ?base = ?decl" by (simp add: fun_eq_iff declared_vars split: option.split)
  have dom: "dom ?decl = vName ` set (Vars doc)" by (simp add: dom_map_of_conv_image_fst image_image)
  have "map_of vars k = (case map_of (oVars opts) k of Some v \<Rightarrow> Some v | None \<Rightarrow> ?decl k)"
    "fst ` set (oVars opts) \<subseteq> vName ` set (Vars doc)"
    if "runVars config exists doc opts = Ok vars" for vars k
    using userVars_Ok[OF that[unfolded runVars_def] assms, unfolded base dom] by simp_all
  note given = this
  have "\<exists>vars. runVars config exists doc opts = Ok vars" if "fst ` set (oVars opts) \<subseteq> vName ` set (Vars doc)"
    using userVars_complete[of "oVars opts" ?base config exists] that unfolding runVars_def base dom by blast
  then show ?thesis using given by blast
qed

definition demoOptions :: Options where
  "demoOptions = \<lparr>oDir = [], oFiles = [], oAllFiles = False, oRecurse = False,
     oFilter = \<lparr>formatterFiltering = AllChecks, AllowList = [], DenyList = []\<rparr>, oVars = [(''x'', ''2'')],
     oEntryPoint = [], oStdin = [], oConfig = []\<rparr>"

definition varsDoc :: Document where
  "varsDoc = emptyDoc\<lparr>Vars := [\<lparr>vName = ''x'', vDefault = ''1''\<rparr>, \<lparr>vName = ''y'', vDefault = ''0''\<rparr>]\<rparr>"

theorem run_variables_witness:
  "\<exists>vars. runVars ''shac.textproto'' True varsDoc demoOptions = Ok vars \<and>
     map_of vars ''x'' = Some ''2'' \<and> map_of vars ''y'' = Some ''0''"
proof -
  have given: "oVars demoOptions = [(''x'', ''2'')]" by (simp add: demoOptions_def)
  have declared: "Vars varsDoc = [\<lparr>vName = ''x'', vDefault = ''1''\<rparr>, \<lparr>vName = ''y'', vDefault = ''0''\<rparr>]"
    by (simp add: varsDoc_def)
  have "distinct (map fst (oVars demoOptions))" by (simp add: given)
  note v = run_variables[OF this, of "''shac.textproto''" True varsDoc]
  obtain vars where vars: "runVars ''shac.textproto'' True varsDoc demoOptions = Ok vars"
    using v by (auto simp: given declared)
  have "map_of vars k = (case map_of [(''x'', ''2'')] k of Some v \<Rightarrow> Some v
      | None \<Rightarrow> map_of [(''y'', ''0''), (''x'', ''1'')] k)" for k
    using v vars by (simp add: given declared)
  then show ?thesis using vars by auto
qed


section \<open>Which checks run\<close>

lemma filterStates_Ok:
  assumes "\<forall>s \<in> set states. stFilter s = f" and "\<forall>n. formatterFiltering f \<noteq> OtherFiltering n"
  shows "filterStates states = Ok (map (\<lambda>s. s\<lparr>stChecks := filter (selects f) (stChecks s)\<rparr>) states)"
  using assms(1) by (induction states) (simp_all add: CheckFilter_filter_spec[OF assms(2)])

text \<open>
  C23. The checks of a run: with a filter that names only checks that exist, none of them both
  allowed and denied, every state runs exactly the checks it registered that the filter selects,
  in order; otherwise, and when checks were registered but the filter leaves none of them in any
  state, the run is refused.
\<close>

theorem selected_checks:
  assumes "\<forall>s \<in> set states. stFilter s = f" and "\<forall>n. formatterFiltering f \<noteq> OtherFiltering n"
  shows "(selectChecks f states = Ok states') =
    (set (AllowList f) \<inter> set (DenyList f) = {} \<and>
     set (AllowList f) \<union> set (DenyList f) \<subseteq> (\<Union>s \<in> set states. rname ` set (stChecks s)) \<and>
     ((\<forall>s \<in> set states. stChecks s = []) \<or> (\<exists>s \<in> set states. \<exists>c \<in> set (stChecks s). selects f c)) \<and>
     states' = map (\<lambda>s. s\<lparr>stChecks := filter (selects f) (stChecks s)\<rparr>) states)"
proof -
  let ?new = "map (\<lambda>s. s\<lparr>stChecks := filter (selects f) (stChecks s)\<rparr>) states"
  have pos: "sum_list (map (\<lambda>s. length (stChecks s)) states) > 0 \<longleftrightarrow> \<not> (\<forall>s \<in> set states. stChecks s = [])"
    by (induction states) auto
  have none: "list_all (\<lambda>s. stChecks s = []) ?new \<longleftrightarrow>
      \<not> (\<exists>s \<in> set states. \<exists>c \<in> set (stChecks s). selects f c)"
    by (auto simp: list_all_iff filter_empty_conv)
  have valid: "(CheckFilter_validate f (map stChecks states) = Ok ()) =
      (set (AllowList f) \<inter> set (DenyList f) = {} \<and>
       set (AllowList f) \<union> set (DenyList f) \<subseteq> (\<Union>s \<in> set states. rname ` set (stChecks s)))"
    unfolding CheckFilter_validate_Ok by simp
  show ?thesis
  proof (cases "CheckFilter_validate f (map stChecks states) = Ok ()")
    case True
    then have "selectChecks f states =
        (if \<not> (\<forall>s \<in> set states. stChecks s = []) \<and> \<not> (\<exists>s \<in> set states. \<exists>c \<in> set (stChecks s). selects f c)
         then Err (New ''no checks to run'') else Ok ?new)"
      unfolding selectChecks_def filterStates_Ok[OF assms] by (simp only: bindO.simps pos none)
    then show ?thesis using True valid by (cases "\<forall>s \<in> set states. stChecks s = []") auto
  next
    case False
    then have "selectChecks f states \<noteq> Ok states'" by (auto simp: selectChecks_def go_out)
    then show ?thesis using False valid by blast
  qed
qed

definition demoState :: "registeredCheck list \<Rightarrow> CheckFilter \<Rightarrow> shacState" where
  "demoState cs f = \<lparr>stEntryPoint = ''shac.star'', stRoot = ''/r'', stSubdir = [], stScm = RawTree ''/r'' [],
     stTmpdir = ''/t/0'', stVars = [], stWritableRoot = False, stAllowNetwork = False, stPassthrough = [],
     stAllowedProps = [], stFilter = f, stChecks = cs, stPrintCalled = False\<rparr>"

definition denyCb :: CheckFilter where
  "denyCb = \<lparr>formatterFiltering = AllChecks, AllowList = [], DenyList = [''cb'']\<rparr>"

theorem selected_checks_witness:
  "selectChecks denyCb [demoState [demoCheck] denyCb] \<noteq> Ok [demoState [] denyCb]"
  using selected_checks[of "[demoState [demoCheck] denyCb]" denyCb "[demoState [] denyCb]"]
  by (auto simp: demoState_def denyCb_def demoCheck_def newRegistered_def selects_def)

section \<open>The verdict\<close>

definition firstOf :: "(err list \<Rightarrow> err) \<Rightarrow> bool" where
  "firstOf first \<longleftrightarrow> (\<forall>es. es \<noteq> [] \<longrightarrow> first es \<in> set es)"

text \<open>Cancellation has a cause: a check that fails because of it comes after one that failed by itself.\<close>

definition causedCancels :: "runEnv \<Rightarrow> shacState list \<Rightarrow> bool" where
  "causedCancels re states \<longleftrightarrow>
     ((\<exists>c e. (c, e) \<in> set (endsOf re states) \<and> ceErr e \<noteq> None) \<longrightarrow>
      (\<exists>c e. (c, e) \<in> set (endsOf re states) \<and> ceErr e \<noteq> None \<and> \<not> ceCancelled e))"

lemma run_result:
  assumes "reMkdirTemp re = Ok d" and "setupStates re fuel opts d = Some (Ok states0)"
    and "loadAll re states0 = Ok loaded" and "selectChecks (oFilter opts) loaded = Ok states"
    and "firstOf (reFirst re)" and "causedCancels re states" and "Run re fuel opts = Some (cs, r, removed)"
  shows "removed = [d] \<and>
    (r = Ok ()) = ((\<forall>c e. (c, e) \<in> set (endsOf re states) \<longrightarrow> ceErr e = None \<and> ceLevel e \<noteq> Error) \<and> reRemoveAll re d = None) \<and>
    ((\<forall>c e. (c, e) \<in> set (endsOf re states) \<longrightarrow> ceErr e = None) \<and> (\<exists>c e. (c, e) \<in> set (endsOf re states) \<and> ceLevel e = Error) \<longrightarrow>
       r = Err ErrCheckFailed) \<and>
    ((\<exists>c e. (c, e) \<in> set (endsOf re states) \<and> ceErr e \<noteq> None) \<longrightarrow>
       (\<exists>x. r = Err x \<and> (\<exists>c e. (c, e) \<in> set (endsOf re states) \<and> ceErr e = Some x \<and> \<not> ceCancelled e))) \<and>
    (\<forall>c e. (c, e) \<in> set (endsOf re states) \<longrightarrow> ceErr e = None \<longrightarrow> \<lparr>coCheck = rname c, coLevel = ceLevel e, coErr = None\<rparr> \<in> set cs)"
proof -
  let ?es = "endsOf re states"
  let ?errs = "concat (map (\<lambda>(c, e). case ceErr e of None \<Rightarrow> [] | Some x \<Rightarrow> if ceCancelled e then [] else [x]) ?es)"
  let ?failed = "\<exists>c e. (c, e) \<in> set ?es \<and> ceErr e \<noteq> None"
  define r0 where "r0 = (if ?failed then Err (reFirst re ?errs)
      else if \<exists>c e. (c, e) \<in> set ?es \<and> ceLevel e = Error then Err ErrCheckFailed else Ok ())"
  have some: "list_ex (\<lambda>(c, e). P e) ?es = (\<exists>c e. (c, e) \<in> set ?es \<and> P e)" for P by (auto simp: list_ex_iff)
  have "runInner re fuel opts d = Some (concat (map (\<lambda>(c, e). reportOf c e) ?es), r0)"
    using assms(2-4) by (simp add: runInner_def runChecks_def Let_def r0_def some[symmetric])
  then have r: "r = (case r0 of Ok u \<Rightarrow> (case reRemoveAll re d of None \<Rightarrow> Ok () | Some e \<Rightarrow> Err e) | other \<Rightarrow> other)"
    and cs: "cs = concat (map (\<lambda>(c, e). reportOf c e) ?es)" and rem: "removed = [d]"
    using assms(1,7) by (auto simp: Run_def)
  have mem: "x \<in> set ?errs \<longleftrightarrow> (\<exists>c e. (c, e) \<in> set ?es \<and> ceErr e = Some x \<and> \<not> ceCancelled e)" for x
    by (force split: option.splits if_splits)
  have cause: "?errs \<noteq> []" if failed: ?failed
  proof -
    obtain c e where "(c, e) \<in> set ?es" "ceErr e \<noteq> None" "\<not> ceCancelled e"
      using assms(6) failed unfolding causedCancels_def by blast
    then obtain x where "x \<in> set ?errs" using mem by blast
    then show ?thesis by (metis empty_iff empty_set)
  qed
  have fail: "\<exists>x. r = Err x \<and> (\<exists>c e. (c, e) \<in> set ?es \<and> ceErr e = Some x \<and> \<not> ceCancelled e)" if ?failed
  proof -
    have "reFirst re ?errs \<in> set ?errs" using assms(5) cause[OF that] unfolding firstOf_def by blast
    moreover have "r = Err (reFirst re ?errs)" using that by (simp add: r r0_def)
    ultimately show ?thesis using mem by blast
  qed
  have good: "(r = Ok ()) = ((\<forall>c e. (c, e) \<in> set ?es \<longrightarrow> ceErr e = None \<and> ceLevel e \<noteq> Error) \<and> reRemoveAll re d = None)"
    unfolding r r0_def by (cases "reRemoveAll re d") auto
  have level: "r = Err ErrCheckFailed"
    if "(\<forall>c e. (c, e) \<in> set ?es \<longrightarrow> ceErr e = None) \<and> (\<exists>c e. (c, e) \<in> set ?es \<and> ceLevel e = Error)"
    using that unfolding r r0_def by auto
  have report: "\<forall>c e. (c, e) \<in> set ?es \<longrightarrow> ceErr e = None \<longrightarrow> \<lparr>coCheck = rname c, coLevel = ceLevel e, coErr = None\<rparr> \<in> set cs"
    unfolding cs by (force simp: reportOf_def)
  show ?thesis using rem good level fail report by blast
qed

text \<open>
  C1. The result of a run whose states are loaded and filtered: success exactly when no selected
  check ended with an error, none emitted a finding of level error and the temporary directory
  could be removed; "a check failed" when no check ended with an error but one emitted such a
  finding; otherwise the error of one of the checks that failed by itself. Every check that ended
  without an error is reported, with its level, and the temporary directory is removed in all cases.
\<close>

theorem run_verdict:
  assumes "reMkdirTemp re = Ok d" and "setupStates re fuel opts d = Some (Ok states0)"
    and "loadAll re states0 = Ok loaded" and "selectChecks (oFilter opts) loaded = Ok states"
    and "firstOf (reFirst re)" and "causedCancels re states" and "Run re fuel opts = Some (cs, r, removed)"
  shows "removed = [d] \<and>
    (r = Ok ()) = ((\<forall>c e. (c, e) \<in> set (endsOf re states) \<longrightarrow> ceErr e = None \<and> ceLevel e \<noteq> Error) \<and> reRemoveAll re d = None) \<and>
    ((\<forall>c e. (c, e) \<in> set (endsOf re states) \<longrightarrow> ceErr e = None) \<and> (\<exists>c e. (c, e) \<in> set (endsOf re states) \<and> ceLevel e = Error) \<longrightarrow>
       r = Err ErrCheckFailed) \<and>
    ((\<exists>c e. (c, e) \<in> set (endsOf re states) \<and> ceErr e \<noteq> None) \<longrightarrow>
       (\<exists>x. r = Err x \<and> (\<exists>c e. (c, e) \<in> set (endsOf re states) \<and> ceErr e = Some x \<and> \<not> ceCancelled e))) \<and>
    (\<forall>c e. (c, e) \<in> set (endsOf re states) \<longrightarrow> ceErr e = None \<longrightarrow> \<lparr>coCheck = rname c, coLevel = ceLevel e, coErr = None\<rparr> \<in> set cs)"
  using assms by (rule run_result)

definition demoRe :: runEnv where
  "demoRe = \<lparr>
     reOs = (demoOs (\<lambda>_ _. ExecErr (ErrNotFound ''git'')))\<lparr>osStat := (\<lambda>p. if p = ''.'' then StatDir else StatFile)\<rparr>,
     reFs = \<lparr>fvCwd = Ok ''/r'', fvStat = (\<lambda>_. StatFile), fvEval = Ok, fvRel = (\<lambda>_ p. Ok p), fvIsLocal = (\<lambda>_. True)\<rparr>,
     rePk = (demoPkgEnv (\<lambda>_ _. None))\<lparr>pkStat := (\<lambda>_. StatDir)\<rparr>,
     reAbs = (\<lambda>_. Ok ''/r''), reReadFile = (\<lambda>p. Err (ErrNotExist p)), reUnmarshal = (\<lambda>_ _. Ok emptyDoc),
     reMatcher = (\<lambda>_ _ _. False), reSandboxNew = (\<lambda>_. Ok ()),
     reLoad = (\<lambda>_. \<lparr>lrRegisters = [ArgCheck (checkOf demoCheck)], lrPrints = False, lrErr = None\<rparr>),
     reEnd = (\<lambda>_ _. \<lparr>ceLevel = Notice, ceErr = None, ceCancelled = False\<rparr>),
     reFirst = hd, reMkdirTemp = Ok ''/t'', reRemoveAll = (\<lambda>_. None)\<rparr>"

definition plainOptions :: Options where
  "plainOptions = demoOptions\<lparr>oVars := []\<rparr>"

definition demoSetup :: "shacState list" where
  "demoSetup = (case setupStates demoRe 0 plainOptions ''/t'' of Some (Ok ss) \<Rightarrow> ss | _ \<Rightarrow> [])"

definition demoLoaded :: "shacState list" where
  "demoLoaded = (case loadAll demoRe demoSetup of Ok ss \<Rightarrow> ss | _ \<Rightarrow> [])"

definition demoSelected :: "shacState list" where
  "demoSelected = (case selectChecks (oFilter plainOptions) demoLoaded of Ok ss \<Rightarrow> ss | _ \<Rightarrow> [])"

lemma demoRe_setup:
  "reMkdirTemp demoRe = Ok ''/t''" "reRemoveAll demoRe ''/t'' = None"
  "setupStates demoRe 0 plainOptions ''/t'' = Some (Ok demoSetup)"
  "loadAll demoRe demoSetup = Ok demoLoaded"
  "selectChecks (oFilter plainOptions) demoLoaded = Ok demoSelected"
  "firstOf (reFirst demoRe)"
proof -
  show "reMkdirTemp demoRe = Ok ''/t''" "reRemoveAll demoRe ''/t'' = None" by (simp_all add: demoRe_def)
  have "case setupStates demoRe 0 plainOptions ''/t'' of Some (Ok ss) \<Rightarrow> True | _ \<Rightarrow> False" by code_simp
  then show "setupStates demoRe 0 plainOptions ''/t'' = Some (Ok demoSetup)"
    by (auto simp: demoSetup_def split: option.splits outcome.splits)
  have "case loadAll demoRe demoSetup of Ok ss \<Rightarrow> True | _ \<Rightarrow> False" by code_simp
  then show "loadAll demoRe demoSetup = Ok demoLoaded" by (auto simp: demoLoaded_def split: outcome.splits)
  have "case selectChecks (oFilter plainOptions) demoLoaded of Ok ss \<Rightarrow> True | _ \<Rightarrow> False" by code_simp
  then show "selectChecks (oFilter plainOptions) demoLoaded = Ok demoSelected"
    by (auto simp: demoSelected_def split: outcome.splits)
  show "firstOf (reFirst demoRe)" by (simp add: firstOf_def demoRe_def)
qed

lemma demoRe_end: "reEnd demoRe s c = \<lparr>ceLevel = Notice, ceErr = None, ceCancelled = False\<rparr>"
  by (simp add: demoRe_def)

lemma demoRe_ends:
  "(c, e) \<in> set (endsOf demoRe states) \<Longrightarrow> e = \<lparr>ceLevel = Notice, ceErr = None, ceCancelled = False\<rparr>"
  by (auto simp: endsOf_def demoRe_end)

lemma demoRe_cancels: "causedCancels demoRe states"
  using demoRe_ends by (fastforce simp: causedCancels_def)

theorem run_verdict_witness:
  "\<exists>cs. Run demoRe 0 plainOptions = Some (cs, Ok (), [''/t''])"
proof -
  have "Run demoRe 0 plainOptions \<noteq> None" by (simp add: Run_def demoRe_setup runInner_def)
  then obtain cs r removed where run: "Run demoRe 0 plainOptions = Some (cs, r, removed)" by auto
  have ends: "ceErr e = None \<and> ceLevel e \<noteq> Error" if x: "(c, e) \<in> set (endsOf demoRe demoSelected)" for c e
    using demoRe_ends[OF x] by (simp add: Notice_def Error_def)
  from run_verdict[OF demoRe_setup(1,3-6) demoRe_cancels run] show ?thesis
    using ends demoRe_setup(2) run by auto
qed

end
