(* ===== verification/Fix.thy ===== *)
theory Fix
  imports Emit
begin

text \<open>
  Applying the replacements of findings to files (internal/engine/fix.go): the report that
  collects findings, normalisation of spans, the choice of findings that do not overlap, and the
  application from the last to the first, line by line. The abstract specification \<open>splice\<close>
  replaces disjoint byte intervals of a text from the front to the back; the lemmas show that the
  line surgery implements it and does not panic on spans that lie in the file.
\<close>

section \<open>Normalising spans\<close>

record findingToFix =
  ffSpan :: Span
  ffRepl :: string

definition defaultLines :: "string list \<Rightarrow> Span \<Rightarrow> Span" where
  "defaultLines fileLines s =
     (let s1 = (if Line (Start s) = 0
                then s\<lparr>Start := (Start s)\<lparr>Line := 1\<rparr>, End := (End s)\<lparr>Line := int (length fileLines)\<rparr>\<rparr>
                else s);
          s2 = (if Line (End s1) = 0 then s1\<lparr>End := (End s1)\<lparr>Line := Line (Start s1)\<rparr>\<rparr> else s1)
      in if Col (Start s2) = 0 then s2\<lparr>Start := (Start s2)\<lparr>Col := 1\<rparr>\<rparr> else s2)"

definition normalize :: "string list \<Rightarrow> findingToFix \<Rightarrow> findingToFix outcome" where
  "normalize fileLines f =
     (let s = defaultLines fileLines (ffSpan f)
      in if Col (End s) = 0
         then bindO (goIndex fileLines (Line (End s) - 1)) (\<lambda>l.
                Ok (f\<lparr>ffSpan := s\<lparr>End := (End s)\<lparr>Col := int (length l) + 1\<rparr>\<rparr>\<rparr>))
         else Ok (f\<lparr>ffSpan := s\<rparr>))"

section \<open>Choosing findings\<close>

abbreviation startLine :: "findingToFix \<Rightarrow> int" where
  "startLine f \<equiv> Line (Start (ffSpan f))"

abbreviation endLine :: "findingToFix \<Rightarrow> int" where
  "endLine f \<equiv> Line (End (ffSpan f))"

fun selectLoop :: "string list \<Rightarrow> findingToFix list \<Rightarrow> int \<Rightarrow> findingToFix list outcome" where
  "selectLoop lines [] maxLine = Ok []"
| "selectLoop lines (f # fs) maxLine =
     bindO (normalize lines f) (\<lambda>g.
       if startLine g \<le> maxLine then selectLoop lines fs maxLine
       else bindO (selectLoop lines fs (if endLine g > maxLine then endLine g else maxLine))
              (\<lambda>gs. Ok (g # gs)))"

section \<open>Applying findings\<close>

definition mapLast :: "('a \<Rightarrow> 'a) \<Rightarrow> 'a list \<Rightarrow> 'a list" where
  "mapLast h xs = butlast xs @ [h (last xs)]"

definition applyOne :: "string list \<Rightarrow> findingToFix \<Rightarrow> string list outcome" where
  "applyOne lines f =
     bindO (goIndex lines (startLine f - 1)) (\<lambda>first.
     bindO (goTo first (Col (Start (ffSpan f)) - 1)) (\<lambda>pre.
     bindO (goIndex lines (endLine f - 1)) (\<lambda>final.
     bindO (goFrom final (Col (End (ffSpan f)) - 1)) (\<lambda>post.
       let repl = SplitAfter (ffRepl f) NL;
           repl' = mapLast (\<lambda>l. l @ post) ((pre @ hd repl) # tl repl)
       in slicesReplace lines (startLine f - 1) (endLine f) repl'))))"

fun applyAll :: "string list \<Rightarrow> findingToFix list \<Rightarrow> string list outcome" where
  "applyAll lines [] = Ok lines"
| "applyAll lines (f # fs) = bindO (applyOne lines f) (\<lambda>lines'. applyAll lines' fs)"

text \<open>The number of findings fixed and the new content of the file.\<close>

definition fixContent ::
    "(findingToFix list \<Rightarrow> findingToFix list) \<Rightarrow> string \<Rightarrow> findingToFix list \<Rightarrow> (int \<times> string) outcome" where
  "fixContent sortF b findings =
     (let lines = SplitAfter b NL
      in bindO (selectLoop lines (sortF findings) 0) (\<lambda>normalized.
         bindO (applyAll lines (rev normalized)) (\<lambda>lines'.
           Ok (int (length normalized), concat lines'))))"

text \<open>Files by path; a writer, when there is one, gets the content instead of the file.\<close>

type_synonym files = "string \<rightharpoonup> string"

definition fixFindings ::
    "(findingToFix list \<Rightarrow> findingToFix list) \<Rightarrow> bool \<Rightarrow> string \<Rightarrow> findingToFix list \<Rightarrow>
      files \<times> string \<Rightarrow> (int \<times> files \<times> string) outcome" where
  "fixFindings sortF toWriter path findings st =
     (case fst st path of
        None \<Rightarrow> Err (ErrNotExist path)
      | Some b \<Rightarrow>
          bindO (fixContent sortF b findings) (\<lambda>(n, content).
            if toWriter then Ok (n, fst st, snd st @ content)
            else Ok (n, (fst st)(path \<mapsto> content), snd st)))"

section \<open>Collecting findings\<close>

record findingFile =
  ffRoot :: string
  ffPath :: string

record findingCollector =
  countsByCheck :: "string \<Rightarrow> int"
  quiet :: bool
  findingsByFile :: "(findingFile \<times> findingToFix list) list"

fun addFinding :: "findingFile \<Rightarrow> findingToFix \<Rightarrow> (findingFile \<times> findingToFix list) list \<Rightarrow>
    (findingFile \<times> findingToFix list) list" where
  "addFinding k f [] = [(k, [f])]"
| "addFinding k f ((k', fs) # rest) =
     (if k = k' then (k', fs @ [f]) # rest else (k', fs) # addFinding k f rest)"

definition collector_EmitFinding :: "finding \<Rightarrow> findingCollector \<Rightarrow> findingCollector" where
  "collector_EmitFinding fd c =
     (case fdReplacements fd of
        [r] \<Rightarrow>
          c\<lparr>findingsByFile := addFinding \<lparr>ffRoot = fdRoot fd, ffPath = fdFile fd\<rparr>
               \<lparr>ffSpan = fdSpan fd, ffRepl = r\<rparr> (findingsByFile c),
            countsByCheck := (countsByCheck c)(fdCheck fd := countsByCheck c (fdCheck fd) + 1)\<rparr>
      | _ \<Rightarrow> c)"

definition collector_emit :: "emission \<Rightarrow> findingCollector \<Rightarrow> findingCollector" where
  "collector_emit em c = (case em of EmFinding fd \<Rightarrow> collector_EmitFinding fd c | _ \<Rightarrow> c)"

definition collector_CheckCompleted :: "string \<Rightarrow> err option \<Rightarrow> findingCollector \<Rightarrow> string option" where
  "collector_CheckCompleted chk e c =
     (let count = countsByCheck c chk
      in if quiet c then None
         else Some (case e of
             Some er \<Rightarrow> ''- '' @ chk @ '': '' @ errText er
           | None \<Rightarrow>
               if count = 0 then ''- '' @ chk @ '' (all good!)''
               else ''- '' @ chk @ '' ('' @ Itoa count @ '' '' @
                 (if count > 1 then ''findings'' else ''finding'') @ '' to fix)''))"

text \<open>Messages go to standard error, one line each, unless the command is quiet.\<close>

definition collector_logf :: "findingCollector \<Rightarrow> string \<Rightarrow> string list" where
  "collector_logf c s = (if quiet c then [] else [s @ [NL]])"

definition collector_Print :: "string \<Rightarrow> string \<Rightarrow> int \<Rightarrow> string \<Rightarrow> findingCollector \<Rightarrow> string list" where
  "collector_Print chk file line msg c = collector_logf c (''['' @ file @ '':'' @ Itoa line @ ''] '' @ msg)"

section \<open>Fix\<close>

fun fixFiles ::
    "(findingToFix list \<Rightarrow> findingToFix list) \<Rightarrow> bool \<Rightarrow> (findingFile \<times> findingToFix list) list \<Rightarrow>
      files \<times> string \<Rightarrow> (files \<times> string) outcome" where
  "fixFiles sortF toWriter [] st = Ok st"
| "fixFiles sortF toWriter ((k, findings) # rest) st =
     bindO (fixFindings sortF toWriter (PathJoin [ffRoot k, ffPath k]) findings st)
       (\<lambda>(n, st'). fixFiles sortF toWriter rest st')"

text \<open>
  The outcome of running the checks with the collector as the report is a parameter, as is the
  order slices.SortFunc gives files with the same path.
\<close>

definition Fix ::
    "(findingToFix list \<Rightarrow> findingToFix list) \<Rightarrow>
      ((findingFile \<times> findingToFix list) list \<Rightarrow> (findingFile \<times> findingToFix list) list) \<Rightarrow>
      bool \<Rightarrow> bool \<Rightarrow> string list \<Rightarrow> err option \<Rightarrow> findingCollector \<Rightarrow> files \<times> string \<Rightarrow> (files \<times> string) outcome" where
  "Fix sortF orderFiles hasReport toWriter optFiles runErr fc st =
     (if hasReport then Err (New ''cannot overwrite reporter'')
      else if runErr \<noteq> None \<and> runErr \<noteq> Some ErrCheckFailed then Err (the runErr)
      else let orderedFiles = orderFiles (findingsByFile fc)
           in if orderedFiles = [] \<and> length optFiles = 1 \<and> toWriter
              then (case fst st (hd optFiles) of
                      None \<Rightarrow> Err (ErrNotExist (hd optFiles))
                    | Some b \<Rightarrow> Ok (fst st, snd st @ b))
              else fixFiles sortF toWriter orderedFiles st)"

section \<open>The specification: replacing byte intervals\<close>

type_synonym edit = "nat \<times> nat \<times> string"

fun splice :: "nat \<Rightarrow> string \<Rightarrow> edit list \<Rightarrow> string" where
  "splice base text [] = drop base text"
| "splice base text ((s, e, r) # es) = take (s - base) (drop base text) @ r @ splice e text es"

text \<open>Where a line and a column are in the text, both counted from 1.\<close>

definition offset :: "string list \<Rightarrow> int \<Rightarrow> int \<Rightarrow> nat" where
  "offset lines l c = length (concat (take (nat (l - 1)) lines)) + nat (c - 1)"

definition editOf :: "string list \<Rightarrow> findingToFix \<Rightarrow> edit" where
  "editOf lines f =
     (offset lines (startLine f) (Col (Start (ffSpan f))),
      offset lines (endLine f) (Col (End (ffSpan f))), ffRepl f)"

text \<open>A span that lies in the file and does not end before it starts.\<close>

definition inRange :: "string list \<Rightarrow> findingToFix \<Rightarrow> bool" where
  "inRange lines f \<longleftrightarrow>
     1 \<le> startLine f \<and> startLine f \<le> endLine f \<and> endLine f \<le> int (length lines) \<and>
     1 \<le> Col (Start (ffSpan f)) \<and>
     Col (Start (ffSpan f)) \<le> int (length (lines ! nat (startLine f - 1))) + 1 \<and>
     1 \<le> Col (End (ffSpan f)) \<and>
     Col (End (ffSpan f)) \<le> int (length (lines ! nat (endLine f - 1))) + 1 \<and>
     (startLine f = endLine f \<longrightarrow> Col (Start (ffSpan f)) \<le> Col (End (ffSpan f)))"

fun disjointLines :: "findingToFix list \<Rightarrow> bool" where
  "disjointLines (f # g # fs) = (endLine f < startLine g \<and> disjointLines (g # fs))"
| "disjointLines fs = True"

section \<open>The line surgery implements the specification\<close>

lemma take_concat_line:
  assumes "n < length lines" and "c \<le> length (lines ! n)"
  shows "take (length (concat (take n lines)) + c) (concat lines) = concat (take n lines) @ take c (lines ! n)"
    and "drop (length (concat (take n lines)) + c) (concat lines) = drop c (lines ! n) @ concat (drop (Suc n) lines)"
proof -
  have "concat lines = concat (take n lines) @ lines ! n @ concat (drop (Suc n) lines)"
    by (subst id_take_nth_drop[OF assms(1)]) simp
  then show "take (length (concat (take n lines)) + c) (concat lines) = concat (take n lines) @ take c (lines ! n)"
    and "drop (length (concat (take n lines)) + c) (concat lines) = drop c (lines ! n) @ concat (drop (Suc n) lines)"
    using assms(2) by simp_all
qed

lemma concat_mapLast: "xs \<noteq> [] \<Longrightarrow> concat (mapLast (\<lambda>l. l @ post) xs) = concat xs @ post"
  by (cases xs rule: rev_cases) (simp_all add: mapLast_def)

lemma take_line_mono: "a \<le> b \<Longrightarrow> length (concat (take a xs)) \<le> length (concat (take b xs))"
proof -
  assume "a \<le> b"
  then have "take b xs = take a xs @ take (b - a) (drop a xs)" by (metis le_add_diff_inverse take_add)
  then show ?thesis by simp
qed

lemma offset_le_line:
  assumes "1 \<le> l" and "l \<le> int (length lines)" and "1 \<le> c" and "c \<le> int (length (lines ! nat (l - 1))) + 1"
  shows "offset lines l c \<le> length (concat (take (nat l) lines))"
proof -
  have n: "nat l = Suc (nat (l - 1))" using assms(1) by simp
  have "nat (l - 1) < length lines" using assms(1,2) by simp
  then have "take (nat l) lines = take (nat (l - 1)) lines @ [lines ! nat (l - 1)]"
    unfolding n by (rule take_Suc_conv_app_nth)
  then show ?thesis using assms(3,4) by (simp add: offset_def)
qed

lemma inRange_offsets:
  assumes "inRange lines f" and "editOf lines f = (s, e, r)"
  shows "s \<le> e \<and> e \<le> length (concat (take (nat (endLine f)) lines)) \<and> e \<le> length (concat lines)"
proof -
  let ?sc = "Col (Start (ffSpan f))" and ?ec = "Col (End (ffSpan f))"
  have se: "s = offset lines (startLine f) ?sc" "e = offset lines (endLine f) ?ec"
    using assms(2) by (simp_all add: editOf_def)
  have e: "e \<le> length (concat (take (nat (endLine f)) lines))"
    unfolding se using assms(1) by (intro offset_le_line) (auto simp: inRange_def)
  have "s \<le> e"
  proof (cases "startLine f = endLine f")
    case True
    then show ?thesis unfolding se offset_def using assms(1) by (auto simp: inRange_def)
  next
    case False
    have "s \<le> length (concat (take (nat (startLine f)) lines))"
      unfolding se using assms(1) by (intro offset_le_line) (auto simp: inRange_def)
    also have "\<dots> \<le> length (concat (take (nat (endLine f - 1)) lines))"
      using assms(1) False by (intro take_line_mono) (auto simp: inRange_def)
    also have "\<dots> \<le> e" unfolding se offset_def by simp
    finally show ?thesis .
  qed
  moreover have "e \<le> length (concat lines)"
    using e take_line_mono[of "nat (endLine f)" "length lines" lines] assms(1) by (auto simp: inRange_def nat_le_iff)
  ultimately show ?thesis using e by simp
qed

lemma applyOne_concat:
  assumes "inRange lines f" and "editOf lines f = (s, e, r)"
  shows "\<exists>lines'. applyOne lines f = Ok lines' \<and>
    concat lines' = take s (concat lines) @ r @ drop e (concat lines) \<and>
    take (nat (startLine f - 1)) lines' = take (nat (startLine f - 1)) lines \<and>
    nat (startLine f - 1) \<le> length lines'"
proof -
  let ?a = "nat (startLine f - 1)" and ?b = "nat (endLine f - 1)"
  let ?sc = "nat (Col (Start (ffSpan f)) - 1)" and ?ec = "nat (Col (End (ffSpan f)) - 1)"
  have r: "r = ffRepl f" and s: "s = length (concat (take ?a lines)) + ?sc"
    and e: "e = length (concat (take ?b lines)) + ?ec"
    using assms(2) by (simp_all add: editOf_def offset_def)
  have in_a: "?a < length lines" "?sc \<le> length (lines ! ?a)" and in_b: "?b < length lines" "?ec \<le> length (lines ! ?b)"
    using assms(1) by (auto simp: inRange_def)
  have b: "nat (endLine f) = Suc ?b" using assms(1) by (auto simp: inRange_def)
  let ?repl = "SplitAfter (ffRepl f) NL"
  let ?new = "mapLast (\<lambda>l. l @ drop ?ec (lines ! ?b)) ((take ?sc (lines ! ?a) @ hd ?repl) # tl ?repl)"
  let ?out = "take ?a lines @ ?new @ drop (nat (endLine f)) lines"
  have "applyOne lines f = Ok ?out"
    using assms(1) by (auto simp: applyOne_def go_out inRange_def Let_def)
  moreover have "concat ?new = take ?sc (lines ! ?a) @ ffRepl f @ drop ?ec (lines ! ?b)"
  proof -
    have "concat ((take ?sc (lines ! ?a) @ hd ?repl) # tl ?repl) = take ?sc (lines ! ?a) @ concat (hd ?repl # tl ?repl)"
      by (simp only: concat.simps append_assoc)
    also have "hd ?repl # tl ?repl = ?repl" by simp
    finally have c: "concat ((take ?sc (lines ! ?a) @ hd ?repl) # tl ?repl) = take ?sc (lines ! ?a) @ ffRepl f"
      by (simp only: concat_SplitAfter)
    show ?thesis by (subst concat_mapLast, simp, subst c, simp)
  qed
  then have "concat ?out = take s (concat lines) @ r @ drop e (concat lines)"
    unfolding s e r b take_concat_line(1)[OF in_a] take_concat_line(2)[OF in_b] by simp
  ultimately show ?thesis using in_a(1) by (intro exI[of _ ?out]) simp
qed

lemma splice_shift:
  assumes "b \<le> k" and "k \<le> length text" and "es \<noteq> [] \<Longrightarrow> k \<le> fst (hd es)"
  shows "splice b text es = take (k - b) (drop b text) @ splice k text es"
proof (cases es)
  case Nil
  have "drop b text = take (k - b) (drop b text) @ drop (k - b) (drop b text)"
    by (rule append_take_drop_id[symmetric])
  then show ?thesis using Nil assms(1) by simp
next
  case (Cons x es')
  obtain s e r where x: "x = (s, e, r)" by (cases x)
  have k: "k \<le> s" using assms(3) Cons x by simp
  have "take (s - b) (drop b text) = take (k - b + (s - k)) (drop b text)" using assms(1) k by simp
  also have "\<dots> = take (k - b) (drop b text) @ take (s - k) (drop k text)"
    using assms(1) unfolding take_add drop_drop by simp
  finally show ?thesis using Cons x by simp
qed

lemma applyAll_snoc: "applyAll lines (fs @ [f]) = bindO (applyAll lines fs) (\<lambda>l. applyOne l f)"
proof (induction fs arbitrary: lines)
  case Nil
  show ?case by (cases "applyOne lines f") auto
next
  case (Cons g fs)
  then show ?case by (simp add: bindO_assoc)
qed

lemma inRange_prefix:
  assumes "inRange lines f" and "take (nat (endLine f)) lines' = take (nat (endLine f)) lines"
    and "nat (endLine f) \<le> length lines'"
  shows "inRange lines' f \<and> editOf lines' f = editOf lines f"
proof -
  have nth: "lines' ! k = lines ! k" if "k < nat (endLine f)" for k
    using that assms(2) by (metis nth_take)
  have tk: "take k lines' = take k lines" if "k \<le> nat (endLine f)" for k
    using that assms(2) by (metis min.absorb1 take_take)
  have "nat (startLine f - 1) < nat (endLine f)" "nat (endLine f - 1) < nat (endLine f)"
    using assms(1) by (auto simp: inRange_def)
  then show ?thesis
    using assms(1,3) nth tk by (auto simp: inRange_def editOf_def offset_def)
qed

text \<open>Fixes further down have left the lines of this one, and their edits lie behind it.\<close>

lemma later_fixes_keep:
  assumes "disjointLines (f # fs)" and "inRange lines f" and "applyAll lines (rev fs) = Ok lines1"
    and "fs \<noteq> [] \<longrightarrow> take (nat (startLine (hd fs) - 1)) lines1 = take (nat (startLine (hd fs) - 1)) lines \<and>
       nat (startLine (hd fs) - 1) \<le> length lines1"
  shows "take (nat (endLine f)) lines1 = take (nat (endLine f)) lines \<and> nat (endLine f) \<le> length lines1"
proof (cases "fs = []")
  case True
  then show ?thesis using assms(2,3) by (auto simp: inRange_def nat_le_iff)
next
  case False
  then have le: "nat (endLine f) \<le> nat (startLine (hd fs) - 1)" using assms(1) by (cases fs) auto
  then have "take (nat (endLine f)) lines1 = take (nat (endLine f)) lines"
    using assms(4) False by (metis min.absorb1 take_take)
  then show ?thesis using assms(4) False le by simp
qed

lemma later_edits_behind:
  assumes "disjointLines (f # fs)" and "e \<le> length (concat (take (nat (endLine f)) lines))" and "fs \<noteq> []"
  shows "e \<le> fst (hd (map (editOf lines) fs))"
proof -
  have "endLine f < startLine (hd fs)" using assms(1,3) by (cases fs) auto
  then have "length (concat (take (nat (endLine f)) lines)) \<le> length (concat (take (nat (startLine (hd fs) - 1)) lines))"
    by (intro take_line_mono) simp
  then show ?thesis using assms(2,3) by (cases fs) (auto simp: editOf_def offset_def)
qed

lemma applyAll_splice:
  assumes "list_all (inRange lines) fs" and "disjointLines fs"
  shows "\<exists>lines'. applyAll lines (rev fs) = Ok lines' \<and>
    concat lines' = splice 0 (concat lines) (map (editOf lines) fs) \<and>
    (fs \<noteq> [] \<longrightarrow> take (nat (startLine (hd fs) - 1)) lines' = take (nat (startLine (hd fs) - 1)) lines \<and>
       nat (startLine (hd fs) - 1) \<le> length lines')"
  using assms
proof (induction fs)
  case Nil
  then show ?case by simp
next
  case (Cons f fs)
  obtain s e r where ed: "editOf lines f = (s, e, r)" by (cases "editOf lines f")
  have f: "inRange lines f" and dis: "disjointLines fs" and rng: "list_all (inRange lines) fs"
    using Cons.prems by (auto, cases fs) auto
  obtain lines1 where l1: "applyAll lines (rev fs) = Ok lines1"
    "concat lines1 = splice 0 (concat lines) (map (editOf lines) fs)"
    "fs \<noteq> [] \<longrightarrow> take (nat (startLine (hd fs) - 1)) lines1 = take (nat (startLine (hd fs) - 1)) lines \<and>
       nat (startLine (hd fs) - 1) \<le> length lines1"
    using Cons.IH[OF rng dis] by blast
  have keep: "take (nat (endLine f)) lines1 = take (nat (endLine f)) lines \<and> nat (endLine f) \<le> length lines1"
    by (rule later_fixes_keep[OF Cons.prems(2) f l1(1,3)])
  have rng1: "inRange lines1 f" "editOf lines1 f = (s, e, r)"
    using inRange_prefix[OF f] keep ed by auto
  obtain lines2 where l2: "applyOne lines1 f = Ok lines2"
    "concat lines2 = take s (concat lines1) @ r @ drop e (concat lines1)"
    "take (nat (startLine f - 1)) lines2 = take (nat (startLine f - 1)) lines1"
    "nat (startLine f - 1) \<le> length lines2"
    using applyOne_concat[OF rng1] by blast
  have off: "s \<le> e" "e \<le> length (concat (take (nat (endLine f)) lines))" "e \<le> length (concat lines)"
    using inRange_offsets[OF f ed] by auto
  have first: "e \<le> fst (hd (map (editOf lines) fs))" if "map (editOf lines) fs \<noteq> []"
    using later_edits_behind[OF Cons.prems(2) off(2)] that by simp
  have T1: "concat lines1 = take e (concat lines) @ splice e (concat lines) (map (editOf lines) fs)"
    using splice_shift[of 0 e "concat lines" "map (editOf lines) fs"] off(3) first l1(2) by simp
  have "concat lines2 = splice 0 (concat lines) (map (editOf lines) (f # fs))"
    using l2(2) off by (simp add: T1 ed min_def)
  moreover have "applyAll lines (rev (f # fs)) = Ok lines2" using l1(1) l2(1) by (simp add: applyAll_snoc)
  moreover have "take (nat (startLine f - 1)) lines1 = take (nat (startLine f - 1)) lines"
  proof -
    have "nat (startLine f - 1) \<le> nat (endLine f)" using f by (auto simp: inRange_def)
    then show ?thesis using keep by (metis min.absorb1 take_take)
  qed
  ultimately show ?case using l2(3,4) by (intro exI[of _ lines2]) simp
qed

section \<open>Which findings are chosen\<close>

lemma normalize_startLine:
  assumes "normalize lines f = Ok g"
  shows "startLine g = (if startLine f = 0 then 1 else startLine f)"
  using assms by (auto simp: normalize_def defaultLines_def Let_def go_out split: if_splits)

definition fixable :: "string list \<Rightarrow> findingToFix \<Rightarrow> bool" where
  "fixable lines f \<longleftrightarrow> 0 \<le> startLine f \<and> (\<exists>g. normalize lines f = Ok g \<and> inRange lines g)"

definition covered :: "findingToFix list \<Rightarrow> findingToFix \<Rightarrow> bool" where
  "covered sel g \<longleftrightarrow> (\<exists>h \<in> set sel. startLine h \<le> startLine g \<and> startLine g \<le> endLine h)"

lemma disjointLines_Cons:
  "disjointLines (f # fs) \<longleftrightarrow> (fs \<noteq> [] \<longrightarrow> endLine f < startLine (hd fs)) \<and> disjointLines fs"
  by (cases fs) auto

lemma selectLoop_spec:
  assumes "\<forall>f \<in> set fs. fixable lines f" and "sorted (map startLine fs)"
  shows "\<exists>sel. selectLoop lines fs m = Ok sel \<and> disjointLines sel \<and> list_all (inRange lines) sel \<and>
    (sel \<noteq> [] \<longrightarrow> m < startLine (hd sel)) \<and>
    (\<forall>g \<in> set sel. \<exists>f \<in> set fs. normalize lines f = Ok g) \<and>
    (\<forall>f \<in> set fs. \<exists>g. normalize lines f = Ok g \<and> (startLine g \<le> m \<or> g \<in> set sel \<or> covered sel g))"
  using assms
proof (induction fs arbitrary: m)
  case Nil
  then show ?case by simp
next
  case (Cons f fs)
  obtain g where g: "normalize lines f = Ok g" "inRange lines g"
    using Cons.prems(1) by (auto simp: fixable_def)
  have rest: "\<forall>f \<in> set fs. fixable lines f" "sorted (map startLine fs)" using Cons.prems by auto
  show ?case
  proof (cases "startLine g \<le> m")
    case True
    obtain sel where sel: "selectLoop lines fs m = Ok sel" "disjointLines sel" "list_all (inRange lines) sel"
      "sel \<noteq> [] \<longrightarrow> m < startLine (hd sel)" "\<forall>g \<in> set sel. \<exists>f \<in> set fs. normalize lines f = Ok g"
      "\<forall>f \<in> set fs. \<exists>g. normalize lines f = Ok g \<and> (startLine g \<le> m \<or> g \<in> set sel \<or> covered sel g)"
      using Cons.IH[OF rest, of m] by blast
    have "selectLoop lines (f # fs) m = Ok sel" using sel(1) g(1) True by simp
    then show ?thesis using sel g(1) True by (intro exI[of _ sel]) auto
  next
    case False
    have m': "(if endLine g > m then endLine g else m) = endLine g" using False g(2) by (auto simp: inRange_def)
    obtain sel where sel: "selectLoop lines fs (endLine g) = Ok sel" "disjointLines sel" "list_all (inRange lines) sel"
      "sel \<noteq> [] \<longrightarrow> endLine g < startLine (hd sel)" "\<forall>g \<in> set sel. \<exists>f \<in> set fs. normalize lines f = Ok g"
      "\<forall>f \<in> set fs. \<exists>g'. normalize lines f = Ok g' \<and> (startLine g' \<le> endLine g \<or> g' \<in> set sel \<or> covered sel g')"
      using Cons.IH[OF rest, of "endLine g"] by blast
    have run: "selectLoop lines (f # fs) m = Ok (g # sel)" using sel(1) g(1) False m' by simp
    have "\<exists>g'. normalize lines f' = Ok g' \<and> (startLine g' \<le> m \<or> g' \<in> set (g # sel) \<or> covered (g # sel) g')"
      if f': "f' \<in> set fs" for f'
    proof -
      obtain g' where g': "normalize lines f' = Ok g'" "startLine g' \<le> endLine g \<or> g' \<in> set sel \<or> covered sel g'"
        using sel(6) f' by blast
      have "startLine f \<le> startLine f'" using Cons.prems(2) f' by auto
      moreover have "0 \<le> startLine f" "0 \<le> startLine f'" using Cons.prems(1) f' by (auto simp: fixable_def)
      ultimately have "startLine g \<le> startLine g'"
        using normalize_startLine[OF g(1)] normalize_startLine[OF g'(1)] by auto
      then show ?thesis using g' by (auto simp: covered_def)
    qed
    then show ?thesis using run sel g False by (intro exI[of _ "g # sel"]) (auto simp: disjointLines_Cons)
  qed
qed

section \<open>Properties\<close>

text \<open>When every finding's span lies in the file, fixing does not panic and writes the text in which
  each chosen finding's byte interval is replaced, from the front to the back, and nothing else is
  touched; the chosen findings are on disjoint lines, and a finding is left out only when it starts
  on a line of a chosen one. This holds for every order sort.Slice may give equal lines.\<close>

lemma fixContent_splice:
  assumes "sort_slice startLine sortF" and "\<forall>f \<in> set findings. fixable (SplitAfter b NL) f"
  shows "\<exists>sel. fixContent sortF b findings = Ok (int (length sel), splice 0 b (map (editOf (SplitAfter b NL)) sel)) \<and>
    disjointLines sel \<and> (\<forall>g \<in> set sel. \<exists>f \<in> set findings. normalize (SplitAfter b NL) f = Ok g) \<and>
    (\<forall>f \<in> set findings. \<exists>g. normalize (SplitAfter b NL) f = Ok g \<and> (g \<in> set sel \<or> covered sel g))"
proof -
  let ?lines = "SplitAfter b NL"
  have set: "set (sortF findings) = set findings" by (rule sort_slice.set_sort[OF assms(1)])
  have fx: "\<forall>f \<in> set (sortF findings). fixable ?lines f" using assms(2) set by simp
  have srt: "sorted (map startLine (sortF findings))" by (rule sort_slice.ordered[OF assms(1)])
  obtain sel where sel: "selectLoop ?lines (sortF findings) 0 = Ok sel" "disjointLines sel"
    "list_all (inRange ?lines) sel" "\<forall>g \<in> set sel. \<exists>f \<in> set (sortF findings). normalize ?lines f = Ok g"
    "\<forall>f \<in> set (sortF findings). \<exists>g. normalize ?lines f = Ok g \<and> (startLine g \<le> 0 \<or> g \<in> set sel \<or> covered sel g)"
    using selectLoop_spec[OF fx srt, of 0] by blast
  obtain lines' where l: "applyAll ?lines (rev sel) = Ok lines'"
    "concat lines' = splice 0 (concat ?lines) (map (editOf ?lines) sel)"
    using applyAll_splice[OF sel(3,2)] by blast
  have pos: "0 < startLine g" if "normalize ?lines f = Ok g" "f \<in> set findings" for f g
    using that assms(2) normalize_startLine[OF that(1)] by (force simp: fixable_def)
  have "fixContent sortF b findings = Ok (int (length sel), splice 0 b (map (editOf ?lines) sel))"
    using sel(1) l by (simp add: fixContent_def)
  moreover have "\<exists>g. normalize ?lines f = Ok g \<and> (g \<in> set sel \<or> covered sel g)" if f: "f \<in> set findings" for f
  proof -
    obtain g where g: "normalize ?lines f = Ok g" "startLine g \<le> 0 \<or> g \<in> set sel \<or> covered sel g"
      using sel(5) f unfolding set by blast
    with pos[OF g(1) f] show ?thesis by (meson not_le)
  qed
  moreover have "\<forall>g \<in> set sel. \<exists>f \<in> set findings. normalize ?lines f = Ok g" using sel(4) unfolding set .
  ultimately show ?thesis using sel(2) by blast
qed

text \<open>A formatter's finding, with no span at all, replaces the whole file whatever the file holds,
  with or without a newline at its end.\<close>

theorem fixContent_whole_file:
  assumes "sort_slice startLine sortF"
  shows "fixContent sortF b [\<lparr>ffSpan = mkSpan 0 0 0 0, ffRepl = r\<rparr>] = Ok (1, r)"
proof -
  let ?f = "\<lparr>ffSpan = mkSpan 0 0 0 0, ffRepl = r\<rparr>" and ?lines = "SplitAfter b NL"
  let ?g = "\<lparr>ffSpan = mkSpan 1 1 (int (length ?lines)) (int (length (last ?lines)) + 1), ffRepl = r\<rparr>"
  have ne: "?lines \<noteq> []" by simp
  then have len: "nat (int (length ?lines) - 1) = length ?lines - 1" "1 \<le> length ?lines"
    by (simp_all add: Suc_leI nat_diff_distrib)
  have norm: "normalize ?lines ?f = Ok ?g"
    using ne len by (auto simp: normalize_def defaultLines_def mkSpan_def goIndex_def last_conv_nth Let_def)
  have rng: "inRange ?lines ?g"
    using len ne by (auto simp: inRange_def mkSpan_def last_conv_nth)
  have sort1: "sortF [?f] = [?f]"
    using sort_slice.set_sort[OF assms, of "[?f]"] sort_slice.length_sort[OF assms, of "[?f]"]
    by (auto simp: length_Suc_conv)
  have "editOf ?lines ?g = (0, length b, r)"
  proof -
    have "length (concat (butlast ?lines)) + length (last ?lines) = length (concat ?lines)"
      using ne by (metis append_butlast_last_id concat.simps(1) concat.simps(2) concat_append append_Nil2 length_append)
    then show ?thesis using len by (simp add: editOf_def offset_def mkSpan_def butlast_conv_take)
  qed
  moreover obtain lines' where "applyAll ?lines (rev [?g]) = Ok lines'"
    "concat lines' = splice 0 (concat ?lines) (map (editOf ?lines) [?g])"
    using applyAll_splice[of ?lines "[?g]"] rng by auto
  moreover have "0 < startLine ?g" by (simp add: mkSpan_def)
  ultimately show ?thesis
    using norm by (simp add: fixContent_def sort1)
qed

text \<open>A finding with a column, an end column before it and no end_line is accepted by the emit
  functions, and fixing it repeats the text between the two columns.\<close>

theorem inverted_finding_duplicates:
  "parseSpan 1 5 0 2 = Ok (mkSpan 1 5 1 2) \<and>
   fixContent (sort_key startLine) (''abcdef'' @ [NL]) [\<lparr>ffSpan = mkSpan 1 5 1 2, ffRepl = ''X''\<rparr>] =
     Ok (1, ''abcdXbcdef'' @ [NL])"
proof -
  have "fixContent (sort_key startLine) (''abcdef'' @ [NL]) [\<lparr>ffSpan = mkSpan 1 5 1 2, ffRepl = ''X''\<rparr>] =
      Ok (1, ''abcdXbcdef'' @ [NL])"
    by (simp add: fixContent_def normalize_def defaultLines_def mkSpan_def applyOne_def goIndex_def
        goSlice_def mapLast_def slicesReplace_def Let_def)
  then show ?thesis by (simp add: parseSpan_def intToInt_def)
qed

lemma map_of_addFinding:
  "map_of (addFinding k f m) k' =
     (if k' = k then Some ((case map_of m k of None \<Rightarrow> [] | Some fs \<Rightarrow> fs) @ [f]) else map_of m k')"
  by (induction k f m rule: addFinding.induct) auto

text \<open>The finding to fix that an emission gives for a file, if it gives one.\<close>

definition toFix :: "findingFile \<Rightarrow> emission \<Rightarrow> findingToFix list" where
  "toFix k em =
     (case em of
        EmFinding fd \<Rightarrow>
          if k = \<lparr>ffRoot = fdRoot fd, ffPath = fdFile fd\<rparr> \<and> length (fdReplacements fd) = 1
          then [\<lparr>ffSpan = fdSpan fd, ffRepl = hd (fdReplacements fd)\<rparr>] else []
      | _ \<Rightarrow> [])"

text \<open>The collector keeps, for every file, the findings with exactly one replacement in the order
  they were emitted, and nothing for files without any: commit messages, artifacts and findings with
  several replacements are never fixed.\<close>

lemma collector_keeps_fixable:
  assumes "findingsByFile c0 = []"
  shows "map_of (findingsByFile (foldl (\<lambda>c em. collector_emit em c) c0 ems)) k =
    (let fs = concat (map (toFix k) ems) in if fs = [] then None else Some fs)"
proof (induction ems rule: rev_induct)
  case Nil
  then show ?case using assms by simp
next
  case (snoc em ems)
  let ?c = "foldl (\<lambda>c em. collector_emit em c) c0 ems"
  have step: "map_of (findingsByFile (collector_emit em ?c)) k =
      (if toFix k em = [] then map_of (findingsByFile ?c) k
       else Some ((case map_of (findingsByFile ?c) k of None \<Rightarrow> [] | Some fs \<Rightarrow> fs) @ toFix k em))"
  proof (cases em)
    case (EmFinding fd)
    show ?thesis
    proof (cases "\<exists>r. fdReplacements fd = [r]")
      case True
      then obtain r where "fdReplacements fd = [r]" by blast
      then show ?thesis using EmFinding by (auto simp: collector_emit_def collector_EmitFinding_def toFix_def map_of_addFinding)
    next
      case False
      then have "length (fdReplacements fd) \<noteq> 1" by (auto simp: length_Suc_conv)
      moreover have "collector_EmitFinding fd ?c = ?c"
        using False by (auto simp: collector_EmitFinding_def split: list.splits)
      ultimately show ?thesis using EmFinding by (simp add: collector_emit_def toFix_def)
    qed
  qed (simp_all add: collector_emit_def toFix_def)
  show ?case using snoc step by (auto simp: Let_def)
qed

text \<open>With --recurse the same file can be found under two roots, the project's and a directory's.
  Its findings are then fixed in two passes, and the second uses line numbers that the first has
  made stale: here the second line is meant to be replaced, and the first finding's own text is.\<close>

theorem fix_two_roots_stale:
  "Fix (sort_key startLine) (\<lambda>xs. xs) False False [] (Some ErrCheckFailed)
     \<lparr>countsByCheck = (\<lambda>_. 1), quiet = True, findingsByFile =
        [(\<lparr>ffRoot = ''/r'', ffPath = ''d/f''\<rparr>, [\<lparr>ffSpan = mkSpan 1 0 0 0, ffRepl = ''x'' @ [NL] @ ''y'' @ [NL]\<rparr>]),
         (\<lparr>ffRoot = ''/r/d'', ffPath = ''f''\<rparr>, [\<lparr>ffSpan = mkSpan 2 0 0 0, ffRepl = ''c'' @ [NL]\<rparr>])]\<rparr>
     ([''/r/d/f'' \<mapsto> ''a'' @ [NL] @ ''b'' @ [NL]], []) =
   Ok ([''/r/d/f'' \<mapsto> ''x'' @ [NL] @ ''c'' @ [NL] @ ''b'' @ [NL]], [])"
proof -
  have p: "PathJoin [''/r'', ''d/f''] = ''/r/d/f''" "PathJoin [''/r/d'', ''f''] = ''/r/d/f''"
    by (simp_all add: path_eval)
  note ev = normalize_def defaultLines_def mkSpan_def applyOne_def goIndex_def goSlice_def mapLast_def
    slicesReplace_def Let_def
  have a: "fixContent (sort_key startLine) (''a'' @ [NL] @ ''b'' @ [NL])
      [\<lparr>ffSpan = mkSpan 1 0 0 0, ffRepl = ''x'' @ [NL] @ ''y'' @ [NL]\<rparr>] =
      Ok (1, ''x'' @ [NL] @ ''y'' @ [NL] @ ''b'' @ [NL])"
    by (simp add: fixContent_def ev)
  have b: "fixContent (sort_key startLine) (''x'' @ [NL] @ ''y'' @ [NL] @ ''b'' @ [NL])
      [\<lparr>ffSpan = mkSpan 2 0 0 0, ffRepl = ''c'' @ [NL]\<rparr>] =
      Ok (1, ''x'' @ [NL] @ ''c'' @ [NL] @ ''b'' @ [NL])"
    by (simp add: fixContent_def ev)
  show ?thesis using a b by (simp add: Fix_def fixFindings_def p)
qed

section \<open>The properties on concrete files\<close>

definition demoFixes :: "findingToFix list" where
  "demoFixes = [\<lparr>ffSpan = mkSpan 2 1 0 2, ffRepl = ''YY''\<rparr>, \<lparr>ffSpan = mkSpan 1 0 0 0, ffRepl = []\<rparr>]"

lemma fixContent_splice_example:
  "fixContent (sort_key startLine) (''ab'' @ [NL] @ ''cd'') demoFixes = Ok (2, ''YYd'') \<and>
   (\<exists>sel. fixContent (sort_key startLine) (''ab'' @ [NL] @ ''cd'') demoFixes =
      Ok (int (length sel), splice 0 (''ab'' @ [NL] @ ''cd'') (map (editOf (SplitAfter (''ab'' @ [NL] @ ''cd'') NL)) sel)) \<and>
      disjointLines sel)"
proof
  show "fixContent (sort_key startLine) (''ab'' @ [NL] @ ''cd'') demoFixes = Ok (2, ''YYd'')"
    by (simp add: fixContent_def demoFixes_def normalize_def defaultLines_def mkSpan_def applyOne_def goIndex_def
        goSlice_def mapLast_def slicesReplace_def Let_def)
  have "\<forall>f \<in> set demoFixes. fixable (SplitAfter (''ab'' @ [NL] @ ''cd'') NL) f"
    by (simp add: demoFixes_def fixable_def normalize_def defaultLines_def mkSpan_def goIndex_def inRange_def Let_def)
  from fixContent_splice[OF stable_sort.sort_slice_axioms this]
  show "\<exists>sel. fixContent (sort_key startLine) (''ab'' @ [NL] @ ''cd'') demoFixes =
      Ok (int (length sel), splice 0 (''ab'' @ [NL] @ ''cd'') (map (editOf (SplitAfter (''ab'' @ [NL] @ ''cd'') NL)) sel)) \<and>
      disjointLines sel" by blast
qed

theorem fixContent_whole_file_witness:
  "fixContent (sort_key startLine) ''ab'' [\<lparr>ffSpan = mkSpan 0 0 0 0, ffRepl = ''new''\<rparr>] = Ok (1, ''new'')"
  by (rule fixContent_whole_file) (rule stable_sort.sort_slice_axioms)

lemma collector_keeps_fixable_example:
  "map_of (findingsByFile (foldl (\<lambda>c em. collector_emit em c)
     \<lparr>countsByCheck = (\<lambda>_. 0), quiet = True, findingsByFile = []\<rparr>
     [EmFinding \<lparr>fdCheck = ''c'', fdLevel = Error, fdMessage = ''m'', fdRoot = ''/r'', fdFile = ''f'',
        fdSpan = mkSpan 1 0 0 0, fdReplacements = [''x''], fdProps = None\<rparr>])) \<lparr>ffRoot = ''/r'', ffPath = ''f''\<rparr> =
   Some [\<lparr>ffSpan = mkSpan 1 0 0 0, ffRepl = ''x''\<rparr>]"
  by (subst collector_keeps_fixable) (simp_all add: toFix_def)


section \<open>All the files of a fix\<close>

definition pathOf :: "findingFile \<Rightarrow> string" where
  "pathOf k = PathJoin [ffRoot k, ffPath k]"

text \<open>
  What a fix makes of a text: the intervals of the chosen findings are replaced; they are on disjoint
  lines, and each finding is chosen or starts on a line of a chosen one.
\<close>

definition fixedText :: "string \<Rightarrow> findingToFix list \<Rightarrow> string \<Rightarrow> bool" where
  "fixedText b findings t \<longleftrightarrow>
     (\<exists>sel. t = splice 0 b (map (editOf (SplitAfter b NL)) sel) \<and> disjointLines sel \<and>
        (\<forall>g \<in> set sel. \<exists>f \<in> set findings. normalize (SplitAfter b NL) f = Ok g) \<and>
        (\<forall>f \<in> set findings. \<exists>g. normalize (SplitAfter b NL) f = Ok g \<and> (g \<in> set sel \<or> covered sel g)))"

lemma fixFiles_spec:
  assumes "sort_slice startLine sortF" and "distinct (map (pathOf \<circ> fst) kfs)"
    and "\<And>k findings. (k, findings) \<in> set kfs \<Longrightarrow>
      \<exists>b. fs (pathOf k) = Some b \<and> (\<forall>f \<in> set findings. fixable (SplitAfter b NL) f)"
  shows "\<exists>fs'. fixFiles sortF False kfs (fs, out) = Ok (fs', out) \<and>
    (\<forall>p. p \<notin> (pathOf \<circ> fst) ` set kfs \<longrightarrow> fs' p = fs p) \<and>
    (\<forall>k findings. (k, findings) \<in> set kfs \<longrightarrow>
       (\<exists>t. fs' (pathOf k) = Some t \<and> fixedText (the (fs (pathOf k))) findings t))"
  using assms(2,3)
proof (induction kfs arbitrary: fs)
  case (Cons kf kfs)
  obtain k findings where kf: "kf = (k, findings)" by fastforce
  obtain b where b: "fs (pathOf k) = Some b" "\<forall>f \<in> set findings. fixable (SplitAfter b NL) f"
    using Cons.prems(2)[of k findings] kf by auto
  obtain sel where sel: "fixContent sortF b findings = Ok (int (length sel), splice 0 b (map (editOf (SplitAfter b NL)) sel))"
    "fixedText b findings (splice 0 b (map (editOf (SplitAfter b NL)) sel))"
    using fixContent_splice[OF assms(1) b(2)] unfolding fixedText_def by blast
  let ?t = "splice 0 b (map (editOf (SplitAfter b NL)) sel)"
  let ?fs1 = "fs(pathOf k \<mapsto> ?t)"
  have one: "fixFindings sortF False (PathJoin [ffRoot k, ffPath k]) findings (fs, out) = Ok (int (length sel), ?fs1, out)"
    using b(1) sel(1) by (simp add: fixFindings_def pathOf_def)
  have notin: "pathOf k \<notin> (pathOf \<circ> fst) ` set kfs" using Cons.prems(1) kf by simp
  have apart: "pathOf k' \<noteq> pathOf k" if k': "(k', findings') \<in> set kfs" for k' findings'
  proof
    assume "pathOf k' = pathOf k"
    then have "pathOf k = (pathOf \<circ> fst) (k', findings')" by simp
    then have "pathOf k \<in> (pathOf \<circ> fst) ` set kfs" using k' by (rule image_eqI)
    then show False using notin by simp
  qed
  have "distinct (map (pathOf \<circ> fst) kfs)" using Cons.prems(1) unfolding list.map distinct.simps by blast
  moreover have "\<exists>b. ?fs1 (pathOf k') = Some b \<and> (\<forall>f \<in> set findings'. fixable (SplitAfter b NL) f)"
    if k': "(k', findings') \<in> set kfs" for k' findings'
    using Cons.prems(2)[of k' findings'] k' apart[OF k'] by auto
  ultimately obtain fs' where IH: "fixFiles sortF False kfs (?fs1, out) = Ok (fs', out)"
    "\<forall>p. p \<notin> (pathOf \<circ> fst) ` set kfs \<longrightarrow> fs' p = ?fs1 p"
    "\<forall>k' findings'. (k', findings') \<in> set kfs \<longrightarrow>
       (\<exists>t. fs' (pathOf k') = Some t \<and> fixedText (the (?fs1 (pathOf k'))) findings' t)"
    using Cons.IH[of ?fs1] by blast
  have run: "fixFiles sortF False (kf # kfs) (fs, out) = Ok (fs', out)" using one IH(1) kf by simp
  have "pathOf k \<notin> (pathOf \<circ> fst) ` set kfs" using Cons.prems(1) kf by simp
  then have k_done: "fs' (pathOf k) = Some ?t" using IH(2) by simp
  have "\<exists>t. fs' (pathOf k') = Some t \<and> fixedText (the (fs (pathOf k'))) findings' t"
    if k': "(k', findings') \<in> set (kf # kfs)" for k' findings'
  proof (cases "(k', findings') \<in> set kfs")
    case True
    then obtain t where "fs' (pathOf k') = Some t" "fixedText (the (?fs1 (pathOf k'))) findings' t" using IH(3) by blast
    then show ?thesis using apart[OF True] by auto
  next
    case False
    then have "k' = k" "findings' = findings" using k' kf by simp_all
    then show ?thesis using k_done sel(2) b(1) by simp
  qed
  moreover have "fs' p = fs p" if p: "p \<notin> (pathOf \<circ> fst) ` set (kf # kfs)" for p
    using IH(2) p kf by simp
  ultimately show ?case using run by (intro exI[of _ fs']) blast
qed simp

text \<open>The findings to fix of a file among those emitted.\<close>

definition fixesOf :: "emission list \<Rightarrow> findingFile \<Rightarrow> findingToFix list" where
  "fixesOf ems k = concat (map (toFix k) ems)"

lemma keys_addFinding: "distinct (map fst m) \<Longrightarrow> distinct (map fst (addFinding k f m)) \<and> fst ` set (addFinding k f m) = insert k (fst ` set m)"
  by (induction k f m rule: addFinding.induct) auto

lemma collected_distinct:
  "distinct (map fst (findingsByFile c0)) \<Longrightarrow> distinct (map fst (findingsByFile (foldl (\<lambda>c em. collector_emit em c) c0 ems)))"
proof (induction ems arbitrary: c0)
  case (Cons em ems)
  have "distinct (map fst (findingsByFile (collector_emit em c0)))"
    using Cons.prems keys_addFinding by (auto simp: collector_emit_def collector_EmitFinding_def split: emission.split list.split)
  then show ?case using Cons.IH by simp
qed simp

lemma collected:
  assumes "findingsByFile c0 = []" and "fc = foldl (\<lambda>c em. collector_emit em c) c0 ems"
  shows "distinct (map fst (findingsByFile fc))"
    and "(k, findings) \<in> set (findingsByFile fc) \<longleftrightarrow> findings = fixesOf ems k \<and> findings \<noteq> []"
proof -
  show d: "distinct (map fst (findingsByFile fc))" using collected_distinct[of c0 ems] assms by simp
  have "(k, findings) \<in> set (findingsByFile fc) \<longleftrightarrow> map_of (findingsByFile fc) k = Some findings"
    using d by (metis map_of_SomeD map_of_is_SomeI)
  then show "(k, findings) \<in> set (findingsByFile fc) \<longleftrightarrow> findings = fixesOf ems k \<and> findings \<noteq> []"
    using collector_keeps_fixable[OF assms(1), of ems k] assms(2) by (auto simp: fixesOf_def Let_def)
qed

text \<open>
  C2. After "shac fix" every file with findings that have exactly one replacement holds its old text
  with the byte intervals of the chosen findings replaced, from the front to the back, and nothing
  else touched; the chosen findings are on disjoint lines, and a finding is left out only when it
  starts on a line of a chosen one. Every other file is as it was, and nothing panics. This holds
  for every order in which the findings were emitted and every order sort.Slice may give equal
  lines, as long as the findings' spans lie in the files and no file is named under two roots.
\<close>

theorem fix_rewrites_files:
  assumes "sort_slice startLine sortF" and "\<And>xs. mset (orderFiles xs) = mset xs"
    and "findingsByFile c0 = []" and "fc = foldl (\<lambda>c em. collector_emit em c) c0 ems"
    and "runErr = None \<or> runErr = Some ErrCheckFailed"
    and "inj_on pathOf {k. fixesOf ems k \<noteq> []}"
    and "\<And>k. fixesOf ems k \<noteq> [] \<Longrightarrow>
      \<exists>b. fs (pathOf k) = Some b \<and> (\<forall>f \<in> set (fixesOf ems k). fixable (SplitAfter b NL) f)"
  shows "\<exists>fs'. Fix sortF orderFiles False False optFiles runErr fc (fs, out) = Ok (fs', out) \<and>
    (\<forall>p. p \<notin> pathOf ` {k. fixesOf ems k \<noteq> []} \<longrightarrow> fs' p = fs p) \<and>
    (\<forall>k. fixesOf ems k \<noteq> [] \<longrightarrow>
       (\<exists>t. fs' (pathOf k) = Some t \<and> fixedText (the (fs (pathOf k))) (fixesOf ems k) t))"
proof -
  let ?kfs = "orderFiles (findingsByFile fc)"
  have same: "set ?kfs = set (findingsByFile fc)" using assms(2) by (metis set_mset_mset)
  have mem: "(k, findings) \<in> set ?kfs \<longleftrightarrow> findings = fixesOf ems k \<and> findings \<noteq> []" for k findings
    using collected(2)[OF assms(3,4)] same by simp
  have keys: "fst ` set ?kfs = {k. fixesOf ems k \<noteq> []}" using mem by (force simp: image_iff)
  have "mset (map fst ?kfs) = mset (map fst (findingsByFile fc))" using assms(2) by (metis mset_map)
  then have "distinct (map fst ?kfs)" using collected(1)[OF assms(3,4)] by (metis mset_eq_imp_distinct_iff)
  moreover have "inj_on pathOf (set (map fst ?kfs))" using assms(6) keys by simp
  ultimately have "distinct (map pathOf (map fst ?kfs))" by (simp only: distinct_map)
  then have dist: "distinct (map (pathOf \<circ> fst) ?kfs)" by (simp only: map_map)
  have good: "\<exists>b. fs (pathOf k) = Some b \<and> (\<forall>f \<in> set findings. fixable (SplitAfter b NL) f)"
    if kf: "(k, findings) \<in> set ?kfs" for k findings
  proof -
    have "fixesOf ems k \<noteq> []" "findings = fixesOf ems k" using kf unfolding mem by auto
    with assms(7) show ?thesis by blast
  qed
  obtain fs' where fs': "fixFiles sortF False ?kfs (fs, out) = Ok (fs', out)"
    "\<forall>p. p \<notin> (pathOf \<circ> fst) ` set ?kfs \<longrightarrow> fs' p = fs p"
    "\<forall>k findings. (k, findings) \<in> set ?kfs \<longrightarrow>
       (\<exists>t. fs' (pathOf k) = Some t \<and> fixedText (the (fs (pathOf k))) findings t)"
    using fixFiles_spec[where fs = fs and out = out and kfs = "?kfs", OF assms(1) dist good] by auto
  have "Fix sortF orderFiles False False optFiles runErr fc (fs, out) = Ok (fs', out)"
    using fs'(1) assms(5) by (auto simp: Fix_def Let_def)
  moreover have "(pathOf \<circ> fst) ` set ?kfs = pathOf ` {k. fixesOf ems k \<noteq> []}" unfolding keys[symmetric] by (simp add: image_comp)
  moreover have "\<exists>t. fs' (pathOf k) = Some t \<and> fixedText (the (fs (pathOf k))) (fixesOf ems k) t"
    if k: "fixesOf ems k \<noteq> []" for k
    using fs'(3) k mem[of k "fixesOf ems k"] by blast
  ultimately show ?thesis using fs'(2) by (intro exI[of _ fs']) simp
qed


definition demoEmission :: "findingToFix \<Rightarrow> emission" where
  "demoEmission f = EmFinding \<lparr>fdCheck = ''c'', fdLevel = Error, fdMessage = ''m'', fdRoot = ''/r'', fdFile = ''f'',
     fdSpan = ffSpan f, fdReplacements = [ffRepl f], fdProps = None\<rparr>"

lemma demo_fixesOf:
  "fixesOf (map demoEmission fs) k = (if k = \<lparr>ffRoot = ''/r'', ffPath = ''f''\<rparr> then fs else [])"
proof -
  have one: "toFix k (demoEmission f) = (if k = \<lparr>ffRoot = ''/r'', ffPath = ''f''\<rparr> then [f] else [])" for f
    by (simp add: toFix_def demoEmission_def)
  show ?thesis by (induction fs) (auto simp: fixesOf_def one)
qed

theorem fix_rewrites_files_witness:
  "\<exists>fs' t. Fix (sort_key startLine) (\<lambda>xs. xs) False False [] (Some ErrCheckFailed)
      (foldl (\<lambda>c em. collector_emit em c) \<lparr>countsByCheck = (\<lambda>_. 0), quiet = True, findingsByFile = []\<rparr> (map demoEmission demoFixes))
      ([''/r/f'' \<mapsto> ''ab'' @ [NL] @ ''cd''], []) = Ok (fs', []) \<and>
    fs' ''/r/f'' = Some t \<and> fixedText (''ab'' @ [NL] @ ''cd'') demoFixes t \<and> fs' ''/r/g'' = None"
proof -
  let ?k = "\<lparr>ffRoot = ''/r'', ffPath = ''f''\<rparr>" and ?fs = "[''/r/f'' \<mapsto> ''ab'' @ [NL] @ ''cd'']"
  let ?c0 = "\<lparr>countsByCheck = (\<lambda>_. 0), quiet = True, findingsByFile = []\<rparr>"
  let ?ems = "map demoEmission demoFixes"
  have path: "pathOf ?k = ''/r/f''" by code_simp
  have ne: "demoFixes \<noteq> []" by (simp add: demoFixes_def)
  have keys: "{k. fixesOf ?ems k \<noteq> []} = {?k}" using ne by (simp add: demo_fixesOf)
  have "\<forall>f \<in> set demoFixes. fixable (SplitAfter (''ab'' @ [NL] @ ''cd'') NL) f"
    by (simp add: demoFixes_def fixable_def normalize_def defaultLines_def mkSpan_def goIndex_def inRange_def Let_def)
  then have files: "\<exists>b. ?fs (pathOf k) = Some b \<and> (\<forall>f \<in> set (fixesOf ?ems k). fixable (SplitAfter b NL) f)"
    if k: "fixesOf ?ems k \<noteq> []" for k
  proof -
    have "k = ?k" using k keys by blast
    then show ?thesis using \<open>\<forall>f \<in> set demoFixes. _ f\<close> by (simp add: path demo_fixesOf)
  qed
  have inj: "inj_on pathOf {k. fixesOf ?ems k \<noteq> []}" unfolding keys by simp
  have run: "Some ErrCheckFailed = None \<or> Some ErrCheckFailed = Some ErrCheckFailed" by simp
  from fix_rewrites_files[where orderFiles = "\<lambda>xs. xs" and ?c0.0 = ?c0 and ems = ?ems and fs = ?fs and out = "[]" and optFiles = "[]",
      OF stable_sort.sort_slice_axioms refl _ refl run inj files]
  obtain fs' where fs': "Fix (sort_key startLine) (\<lambda>xs. xs) False False [] (Some ErrCheckFailed)
      (foldl (\<lambda>c em. collector_emit em c) ?c0 ?ems) (?fs, []) = Ok (fs', [])"
    "\<forall>p. p \<notin> pathOf ` {k. fixesOf ?ems k \<noteq> []} \<longrightarrow> fs' p = ?fs p"
    "\<forall>k. fixesOf ?ems k \<noteq> [] \<longrightarrow> (\<exists>t. fs' (pathOf k) = Some t \<and> fixedText (the (?fs (pathOf k))) (fixesOf ?ems k) t)"
    by auto
  have kne: "fixesOf ?ems ?k \<noteq> []" using ne by (simp add: demo_fixesOf)
  with fs'(3) obtain t where t: "fs' (pathOf ?k) = Some t" "fixedText (the (?fs (pathOf ?k))) (fixesOf ?ems ?k) t" by blast
  have "fs' ''/r/g'' = None" using fs'(2) unfolding keys by (simp add: path)
  moreover have "fs' ''/r/f'' = Some t" using t(1) unfolding path .
  moreover have "fixedText (''ab'' @ [NL] @ ''cd'') demoFixes t" using t(2) by (simp only: path demo_fixesOf) simp
  ultimately show ?thesis using fs'(1) by blast
qed

end
