(* ===== verification/Reporting.thy ===== *)
theory Reporting
  imports Emit
begin

text \<open>
  The reports that write to the terminal (internal/reporting/reporting.go), the ANSI codes
  (ansi.go), the report that tees to several (multi.go) and the choice among them. A report method
  gives the texts it writes, in order, with its result; what the writer answers is a parameter.
  Durations are given as their text, rounded to milliseconds; strconv.Quote, which consults the
  Unicode tables, is a parameter.
\<close>

section \<open>ANSI codes\<close>

datatype ansiCode = UnknownAnsi
  | AReset | Bold | Faint | Italic | Underline | BlinkSlow | BlinkRapid | ReverseVideo | Concealed | CrossedOut
  | FgBlack | FgRed | FgGreen | FgYellow | FgBlue | FgMagenta | FgCyan | FgWhite
  | FgHiBlack | FgHiRed | FgHiGreen | FgHiYellow | FgHiBlue | FgHiMagenta | FgHiCyan | FgHiWhite
  | BgBlack | BgRed | BgGreen | BgYellow | BgBlue | BgMagenta | BgCyan | BgWhite
  | BgHiBlack | BgHiRed | BgHiGreen | BgHiYellow | BgHiBlue | BgHiMagenta | BgHiCyan | BgHiWhite

definition escSeq :: "string \<Rightarrow> string" where
  "escSeq ps = CHR 0x1B # ''['' @ ps @ ''m''"

primrec ansiCode_String :: "ansiCode \<Rightarrow> string" where
  "ansiCode_String UnknownAnsi = []"
| "ansiCode_String AReset = escSeq ''0''"
| "ansiCode_String Bold = escSeq ''1''"
| "ansiCode_String Faint = escSeq ''2''"
| "ansiCode_String Italic = escSeq ''3''"
| "ansiCode_String Underline = escSeq ''4''"
| "ansiCode_String BlinkSlow = escSeq ''5''"
| "ansiCode_String BlinkRapid = escSeq ''6''"
| "ansiCode_String ReverseVideo = escSeq ''7''"
| "ansiCode_String Concealed = escSeq ''8''"
| "ansiCode_String CrossedOut = escSeq ''9''"
| "ansiCode_String FgBlack = escSeq ''30''"
| "ansiCode_String FgRed = escSeq ''31''"
| "ansiCode_String FgGreen = escSeq ''32''"
| "ansiCode_String FgYellow = escSeq ''33''"
| "ansiCode_String FgBlue = escSeq ''34''"
| "ansiCode_String FgMagenta = escSeq ''35''"
| "ansiCode_String FgCyan = escSeq ''36''"
| "ansiCode_String FgWhite = escSeq ''37''"
| "ansiCode_String BgBlack = escSeq ''40''"
| "ansiCode_String BgRed = escSeq ''41''"
| "ansiCode_String BgGreen = escSeq ''42''"
| "ansiCode_String BgYellow = escSeq ''43''"
| "ansiCode_String BgBlue = escSeq ''44''"
| "ansiCode_String BgMagenta = escSeq ''45''"
| "ansiCode_String BgCyan = escSeq ''46''"
| "ansiCode_String BgWhite = escSeq ''47''"
| "ansiCode_String FgHiBlack = escSeq ''90''"
| "ansiCode_String FgHiRed = escSeq ''91''"
| "ansiCode_String FgHiGreen = escSeq ''92''"
| "ansiCode_String FgHiYellow = escSeq ''93''"
| "ansiCode_String FgHiBlue = escSeq ''94''"
| "ansiCode_String FgHiMagenta = escSeq ''95''"
| "ansiCode_String FgHiCyan = escSeq ''96''"
| "ansiCode_String FgHiWhite = escSeq ''97''"
| "ansiCode_String BgHiBlack = escSeq ''100''"
| "ansiCode_String BgHiRed = escSeq ''101''"
| "ansiCode_String BgHiGreen = escSeq ''102''"
| "ansiCode_String BgHiYellow = escSeq ''103''"
| "ansiCode_String BgHiBlue = escSeq ''104''"
| "ansiCode_String BgHiMagenta = escSeq ''105''"
| "ansiCode_String BgHiCyan = escSeq ''106''"
| "ansiCode_String BgHiWhite = escSeq ''107''"

text \<open>A level that is not in the map has the zero value, which prints nothing.\<close>

definition levelColor :: "Level \<Rightarrow> ansiCode" where
  "levelColor level =
     (if level = Notice then FgGreen else if level = Warning then FgYellow
      else if level = Error then FgRed else if level = Nothing then FgGreen else UnknownAnsi)"

section \<open>The overview of a finding\<close>

type_synonym props = "(string \<times> string) list option"

definition propString :: "(string \<Rightarrow> string) \<Rightarrow> string \<times> string \<Rightarrow> string" where
  "propString quote kv = quote (fst kv) @ '':'' @ snd kv"

definition overviewString ::
    "(string \<Rightarrow> string) \<Rightarrow> bool \<Rightarrow> ansiCode \<Rightarrow> string \<Rightarrow> Level \<Rightarrow> string \<Rightarrow> string \<Rightarrow> Span \<Rightarrow> props \<Rightarrow> string" where
  "overviewString quote withColor color check level message file s ps =
     (if withColor
      then ansiCode_String AReset @ ''['' @ ansiCode_String FgHiCyan @ check @ ansiCode_String AReset @ ''/'' @
        ansiCode_String color @ level @ ansiCode_String AReset @ ''] ''
      else ''['' @ check @ ''/'' @ level @ ''] '') @
     (if file \<noteq> []
      then file @ (if Line (Start s) > 0 then ''('' @ Itoa (Line (Start s)) @ '')'' else []) @ '': ''
      else []) @
     message @
     (case ps of None \<Rightarrow> []
      | Some m \<Rightarrow> '' properties: {'' @ Join (sort (map (propString quote) m)) '', '' @ ''}'')"

text \<open>"Commit <hash>" stands for the file of a finding on a commit message.\<close>

definition shortHash :: "string \<Rightarrow> string" where
  "shortHash h = take (min (length h) 8) h"

section \<open>Writing\<close>

text \<open>The answer of the writer to a text; the result of Fprintln and Fprint is its error.\<close>

type_synonym writer = "string \<Rightarrow> err option"

definition fromErr :: "err option \<Rightarrow> unit outcome" where
  "fromErr e = (case e of None \<Rightarrow> Ok () | Some x \<Rightarrow> Err x)"

abbreviation newline :: string where "newline \<equiv> [CHR 0x0A]"

section \<open>The basic report\<close>

definition basic_EmitFinding :: "(string \<Rightarrow> string) \<Rightarrow> writer \<Rightarrow> finding \<Rightarrow> string list \<times> unit outcome" where
  "basic_EmitFinding quote w f =
     (let t = overviewString quote False UnknownAnsi (fdCheck f) (fdLevel f) (fdMessage f) (fdFile f)
            (fdSpan f) (fdProps f) @ newline
      in ([t], fromErr (w t)))"

definition basic_EmitCommitMessageFinding ::
    "(string \<Rightarrow> string) \<Rightarrow> writer \<Rightarrow> commitFinding \<Rightarrow> string list \<times> unit outcome" where
  "basic_EmitCommitMessageFinding quote w f =
     (let t = overviewString quote False UnknownAnsi (cfCheck f) (cfLevel f) (cfMessage f)
            (''Commit '' @ shortHash (cfHash f)) (cfSpan f) None @ newline
      in ([t], fromErr (w t)))"

definition notImplemented :: "unit outcome" where
  "notImplemented = Err (New ''not implemented'')"

text \<open>The level shown for a completed check: an error of the check outranks its findings.\<close>

definition shownLevel :: "Level \<Rightarrow> err option \<Rightarrow> Level" where
  "shownLevel level e = (if e \<noteq> None then Error else level)"

definition levelLabel :: "Level \<Rightarrow> string" where
  "levelLabel level = (if level = Nothing \<or> level = Notice then ''success'' else level)"

definition completedTail :: "Level \<Rightarrow> string \<Rightarrow> err option \<Rightarrow> string" where
  "completedTail level dur e =
     '' ('' @ levelLabel level @ '' in '' @ dur @ '')'' @
     (case e of None \<Rightarrow> [] | Some x \<Rightarrow> '': '' @ errText x) @ newline"

definition basic_CheckCompleted :: "string \<Rightarrow> string \<Rightarrow> Level \<Rightarrow> err option \<Rightarrow> string list" where
  "basic_CheckCompleted check dur level e =
     [''- '' @ check @ completedTail (shownLevel level e) dur e]"

definition basic_Print :: "string \<Rightarrow> string \<Rightarrow> int \<Rightarrow> string \<Rightarrow> string list" where
  "basic_Print check file line message =
     (let place = ''['' @ file @ '':'' @ Itoa line @ ''] '' @ message @ newline
      in if check \<noteq> [] then [''- '' @ check @ '' '' @ place] else [place])"

section \<open>The report for GitHub Actions\<close>

definition github_EmitFinding :: "writer \<Rightarrow> finding \<Rightarrow> string list \<times> unit outcome" where
  "github_EmitFinding w f =
     (let s = fdSpan f;
          place =
            (if fdFile f = [] then []
             else ''::file='' @ fdFile f @
               (if Line (Start s) > 0
                then '',line='' @ Itoa (Line (Start s)) @
                  (if Col (Start s) > 0 then '',col='' @ Itoa (Col (Start s)) else []) @
                  (if Line (End s) > 0
                   then '',endLine='' @ Itoa (Line (End s)) @
                     (if Col (End s) > 0 then '',endCol='' @ Itoa (Col (End s)) else [])
                   else [])
                else []));
          titlePrefix = (if fdFile f = [] then ''::'' else '','');
          t = ''::'' @ fdLevel f @ '' '' @ place @ titlePrefix @ ''title='' @ fdCheck f @ ''::'' @ fdMessage f @ newline
      in ([t], fromErr (w t)))"

definition github_EmitCommitMessageFinding :: "writer \<Rightarrow> commitFinding \<Rightarrow> string list \<times> unit outcome" where
  "github_EmitCommitMessageFinding w f =
     (let msg = ''Commit '' @ shortHash (cfHash f) @
            (if Line (Start (cfSpan f)) > 0 then ''('' @ Itoa (Line (Start (cfSpan f))) @ '')'' else []) @
            '': '' @ cfMessage f;
          t = ''::'' @ cfLevel f @ '' ::title='' @ cfCheck f @ ''::'' @ msg @ newline
      in ([t], fromErr (w t)))"

definition github_Print :: "string \<Rightarrow> string \<Rightarrow> int \<Rightarrow> string \<Rightarrow> string list" where
  "github_Print check file line message =
     (let place = ''['' @ file @ '':'' @ Itoa line @ ''] '' @ message @ newline
      in if check \<noteq> [] then [''::debug::'' @ check @ '' '' @ place] else [''::debug::'' @ place])"

section \<open>The interactive report\<close>

text \<open>
  bytes.Split caps every part but the last at its own end, so slicing a line beyond its length
  panics. The last line is only sliced up to an end column that was cut to its length.
\<close>

definition highlightedLine :: "string list \<Rightarrow> Span \<Rightarrow> int \<Rightarrow> ansiCode \<Rightarrow> int \<Rightarrow> string outcome" where
  "highlightedLine ls s end c l =
     bindO (goIndex ls l) (\<lambda>line.
       let color = ansiCode_String c;
           off = ansiCode_String AReset;
           ec = min (Col (End s)) (int (length line) + 1);
           whole = ''  '' @ color @ line @ off @ newline
       in if l = Line (Start s) - 1
          then (if Col (Start s) > 0
                then (if Line (End s) = Line (Start s) \<and> Col (End s) > 0
                      then bindO (goTo line (Col (Start s) - 1)) (\<lambda>a.
                           bindO (goSlice line (Col (Start s) - 1) (ec - 1)) (\<lambda>b.
                           bindO (goFrom line (ec - 1)) (\<lambda>d.
                             Ok (''  '' @ a @ color @ b @ off @ d @ newline))))
                      else bindO (goTo line (Col (Start s) - 1)) (\<lambda>a.
                           bindO (goFrom line (Col (Start s) - 1)) (\<lambda>b.
                             Ok (''  '' @ a @ color @ b @ off @ newline))))
                else Ok whole)
          else if l > Line (Start s) - 1 \<and> l < end - 1 then Ok whole
          else if l \<ge> Line (Start s) \<and> l = end - 1
          then (if Col (End s) > 0
                then bindO (goTo line (ec - 1)) (\<lambda>a.
                     bindO (goFrom line (ec - 1)) (\<lambda>b.
                       Ok (''  '' @ color @ a @ off @ b @ newline)))
                else Ok whole)
          else Ok (''  '' @ line @ newline))"

text \<open>The loop from l to the end of the span or of the lines; n bounds the lines that are left.\<close>

fun highlightLoop :: "nat \<Rightarrow> string list \<Rightarrow> Span \<Rightarrow> int \<Rightarrow> ansiCode \<Rightarrow> int \<Rightarrow> string list outcome" where
  "highlightLoop 0 ls s end c l = Ok []"
| "highlightLoop (Suc n) ls s end c l =
     (if l \<le> end \<and> l < int (length ls)
      then if l < 0 then highlightLoop n ls s end c (l + 1)
           else bindO (highlightedLine ls s end c l) (\<lambda>t.
                bindO (highlightLoop n ls s end c (l + 1)) (\<lambda>ts. Ok (t # ts)))
      else Ok [])"

definition printHighlightedLines :: "writer \<Rightarrow> string list \<Rightarrow> Span \<Rightarrow> ansiCode \<Rightarrow> (string list \<times> unit outcome) outcome" where
  "printHighlightedLines w ls s c =
     (let end = (if Line (End s) = 0 then Line (Start s) else Line (End s));
          l0 = Line (Start s) - 2
      in if Line (Start s) \<ge> int (length ls) then Ok ([], Ok ())
         else bindO (highlightLoop (nat (int (length ls) - l0)) ls s end c l0) (\<lambda>ts.
                Ok (newline # ts @ [newline], fromErr (w newline))))"

definition interactive_EmitFinding ::
    "(string \<Rightarrow> string) \<Rightarrow> (string \<Rightarrow> string outcome) \<Rightarrow> writer \<Rightarrow> finding \<Rightarrow> (string list \<times> unit outcome) outcome" where
  "interactive_EmitFinding quote readFile w f =
     (let c = levelColor (fdLevel f);
          t = overviewString quote True c (fdCheck f) (fdLevel f) (fdMessage f) (fdFile f) (fdSpan f) (fdProps f) @ newline
      in case w t of
           Some e \<Rightarrow> Ok ([t], Err e)
         | None \<Rightarrow>
             if fdFile f = [] \<or> Line (Start (fdSpan f)) \<le> 0 then Ok ([t], Ok ())
             else case readFile (PathJoin [fdRoot f, fdFile f]) of
                 Err e \<Rightarrow> Ok ([t], Err e)
               | Panic m \<Rightarrow> Panic m
               | Ok b \<Rightarrow>
                   bindO (printHighlightedLines w (Split b (CHR 0x0A)) (fdSpan f) c) (\<lambda>(ts, r). Ok (t # ts, r)))"

definition interactive_EmitCommitMessageFinding ::
    "(string \<Rightarrow> string) \<Rightarrow> writer \<Rightarrow> commitFinding \<Rightarrow> (string list \<times> unit outcome) outcome" where
  "interactive_EmitCommitMessageFinding quote w f =
     (let c = levelColor (cfLevel f);
          t = overviewString quote True c (cfCheck f) (cfLevel f) (cfMessage f)
            (''Commit '' @ shortHash (cfHash f)) (cfSpan f) None @ newline
      in case w t of
           Some e \<Rightarrow> Ok ([t], Err e)
         | None \<Rightarrow>
             if Line (Start (cfSpan f)) \<le> 0 then Ok ([t], Ok ())
             else bindO (printHighlightedLines w (Split (cfCommitMessage f) (CHR 0x0A)) (cfSpan f) c)
                    (\<lambda>(ts, r). Ok (t # ts, r)))"

definition interactive_CheckCompleted :: "string \<Rightarrow> string \<Rightarrow> Level \<Rightarrow> err option \<Rightarrow> string list" where
  "interactive_CheckCompleted check dur level e =
     (let l = shownLevel level e
      in [ansiCode_String AReset @ ''- '' @ ansiCode_String (levelColor l) @ check @ ansiCode_String AReset @
          completedTail l dur e])"

definition interactive_Print :: "string \<Rightarrow> string \<Rightarrow> int \<Rightarrow> string \<Rightarrow> string list" where
  "interactive_Print check file line message =
     (let place = ''['' @ ansiCode_String FgHiBlue @ file @ '':'' @ Itoa line @ ansiCode_String AReset @ ''] '' @
            ansiCode_String Bold @ message @ ansiCode_String AReset @ newline
      in if check \<noteq> []
         then [ansiCode_String AReset @ ''- '' @ ansiCode_String FgYellow @ check @ '' '' @ ansiCode_String AReset @ place]
         else [ansiCode_String AReset @ place])"

section \<open>Several reports and the choice of reports\<close>

text \<open>
  MultiReport.do calls every report, each in its own goroutine; errgroup returns the error of the
  first that failed, which of them is a parameter. A report's method may change the report.
\<close>

definition multi_do ::
    "(err list \<Rightarrow> err) \<Rightarrow> ('r \<Rightarrow> 'r \<times> unit outcome) \<Rightarrow> 'r list \<Rightarrow> 'r list \<times> unit outcome" where
  "multi_do first f rs =
     (let res = map f rs;
          errs = concat (map (\<lambda>(r, x). case x of Err e \<Rightarrow> [e] | _ \<Rightarrow> []) res);
          panics = concat (map (\<lambda>(r, x). case x of Panic m \<Rightarrow> [m] | _ \<Rightarrow> []) res)
      in (map fst res,
          if panics \<noteq> [] then Panic (hd panics) else if errs = [] then Ok () else Err (first errs)))"

datatype reporter = LuciReport | GithubReport | InteractiveReport | BasicReport

record reportEnv =
  rpGetenv :: "string \<Rightarrow> string"
  rpTerminal :: bool
  rpLuciInit :: "unit outcome"

definition Get :: "reportEnv \<Rightarrow> reporter list outcome" where
  "Get env =
     bindO (if rpGetenv env ''LUCI_CONTEXT'' \<noteq> [] then bindO (rpLuciInit env) (\<lambda>_. Ok [LuciReport]) else Ok [])
       (\<lambda>rs. Ok (rs @
         (if rpGetenv env ''GITHUB_RUN_ID'' \<noteq> [] then [GithubReport]
          else if rpGetenv env ''TERM'' \<noteq> ''dumb'' \<and> rpTerminal env then [InteractiveReport]
          else if rpGetenv env ''VSCODE_GIT_IPC_HANDLE'' \<noteq> [] then [BasicReport]
          else [BasicReport])))"

lemma isOk_no_fault:
  "isOk x \<longleftrightarrow> (case x of Err e \<Rightarrow> [e] | _ \<Rightarrow> []) = [] \<and> (case x of Panic m \<Rightarrow> [m] | _ \<Rightarrow> []) = []"
  by (cases x) simp_all

lemma multi_do_all:
  "fst (multi_do first f rs) = map (fst \<circ> f) rs \<and>
   (snd (multi_do first f rs) = Ok () \<longleftrightarrow> (\<forall>r \<in> set rs. isOk (snd (f r))))"
proof -
  have "(\<forall>r \<in> set rs. isOk (snd (f r))) \<longleftrightarrow>
      concat (map (\<lambda>(r, x). case x of Err e \<Rightarrow> [e] | _ \<Rightarrow> []) (map f rs)) = [] \<and>
      concat (map (\<lambda>(r, x). case x of Panic m \<Rightarrow> [m] | _ \<Rightarrow> []) (map f rs)) = []"
    by (simp only: isOk_no_fault concat_eq_Nil_conv set_map ball_simps case_prod_beta) blast
  then show ?thesis unfolding multi_do_def Let_def by simp
qed

section \<open>What the interactive report shows\<close>

text \<open>The text of line n of the file (from 1): marked from the first column of the span on its first
  line to before the last column on its last line, plain outside the span.\<close>

definition markFrom :: "Span \<Rightarrow> int \<Rightarrow> nat" where
  "markFrom s n = (if n = Line (Start s) \<and> Col (Start s) > 0 then nat (Col (Start s) - 1) else 0)"

definition spanEnd :: "Span \<Rightarrow> int" where
  "spanEnd s = (if Line (End s) = 0 then Line (Start s) else Line (End s))"

definition markTo :: "Span \<Rightarrow> int \<Rightarrow> string \<Rightarrow> nat" where
  "markTo s n line =
     (if n = spanEnd s \<and> Col (End s) > 0 then min (nat (Col (End s) - 1)) (length line) else length line)"

definition markedLine :: "Span \<Rightarrow> ansiCode \<Rightarrow> int \<Rightarrow> string \<Rightarrow> string" where
  "markedLine s c n line =
     (if Line (Start s) \<le> n \<and> n \<le> spanEnd s
      then ''  '' @ take (markFrom s n) line @ ansiCode_String c @
        drop (markFrom s n) (take (markTo s n line) line) @ ansiCode_String AReset @
        drop (markTo s n line) line @ newline
      else ''  '' @ line @ newline)"

lemma wfSpan_fields:
  assumes "wfSpan s"
  shows "0 \<le> Col (Start s)" "0 \<le> Col (End s)" "0 \<le> Line (End s)"
    "Col (Start s) = 0 \<longrightarrow> Col (End s) = 0" "Line (End s) \<noteq> 0 \<longrightarrow> Line (Start s) \<le> Line (End s)"
    "Col (End s) \<noteq> 0 \<longrightarrow> Line (End s) \<noteq> 0" and wfSpan_ends: "spanEnd s \<ge> Line (Start s)"
  using assms by (auto simp: wfSpan_def spanEnd_def)

lemma highlightedLine_start:
  assumes wf: "wfSpan s" "ordered_span s" "Line (Start s) > 0"
    and l: "0 \<le> l" "l < int (length ls)" and first: "l = Line (Start s) - 1"
    and col: "Col (Start s) \<le> int (length (ls ! nat l)) + 1"
  shows "highlightedLine ls s (spanEnd s) c l = Ok (markedLine s c (l + 1) (ls ! nat l))"
proof -
  define line where "line = ls ! nat l"
  have line: "goIndex ls l = Ok line" using l by (simp add: goIndex_def line_def)
  define ec where "ec = min (Col (End s)) (int (length line) + 1)"
  note w = wfSpan_fields[OF wf(1)] and e = wfSpan_ends[OF wf(1)]
  have cut: "nat (ec - 1) = min (nat (Col (End s) - 1)) (length line)" by (auto simp: ec_def)
  have to: "goTo line (ec - 1) = Ok (take (nat (ec - 1)) line)" "goFrom line (ec - 1) = Ok (drop (nat (ec - 1)) line)"
    if "Col (End s) > 0" using that by (auto simp: go_out ec_def)
  have first': "Line (Start s) = l + 1" using first by simp
  have sc: "goTo line (Col (Start s) - 1) = Ok (take (nat (Col (Start s) - 1)) line)"
    "goFrom line (Col (Start s) - 1) = Ok (drop (nat (Col (Start s) - 1)) line)" if "Col (Start s) > 0"
    using that col by (auto simp: go_out line_def)
  show ?thesis
  proof (cases "Col (Start s) > 0")
    case False
    then have "Col (Start s) = 0" "Col (End s) = 0" using w by auto
    then show ?thesis using e
      by (simp add: highlightedLine_def line Let_def markedLine_def markFrom_def markTo_def first' line_def[symmetric])
  next
    case pos: True
    show ?thesis
    proof (cases "Line (End s) = Line (Start s) \<and> Col (End s) > 0")
      case True
      have "Col (Start s) \<le> Col (End s)" using wf(2) True by (simp add: ordered_span_def)
      then have "Col (Start s) - 1 \<le> ec - 1" "ec - 1 \<le> int (length line)"
        using col by (auto simp: ec_def line_def)
      then have mid: "goSlice line (Col (Start s) - 1) (ec - 1) =
          Ok (drop (nat (Col (Start s) - 1)) (take (nat (ec - 1)) line))"
        using pos by (simp add: goSlice_def take_drop nat_diff_distrib')
      have "spanEnd s = l + 1" "Line (End s) = l + 1" "Col (End s) > 0"
        using True first' by (auto simp: spanEnd_def)
      then show ?thesis using pos
        by (simp add: highlightedLine_def line Let_def ec_def[symmetric] sc to mid[unfolded first'] markedLine_def markFrom_def
            markTo_def line_def[symmetric] cut[symmetric] first')
    next
      case False
      then have "\<not> (l + 1 = spanEnd s \<and> Col (End s) > 0)" using first w by (auto simp: spanEnd_def)
      then have "markTo s (l + 1) line = length line" by (auto simp: markTo_def)
      moreover have "(Line (End s) = l + 1 \<and> Col (End s) > 0) = False" using False first' by auto
      ultimately show ?thesis using pos e
        by (simp only: highlightedLine_def line bindO.simps Let_def first' add_diff_cancel_right' refl if_True if_False) (simp add: highlightedLine_def line Let_def sc markedLine_def markFrom_def first' line_def[symmetric])
    qed
  qed
qed

lemma highlightedLine_marked:
  assumes wf: "wfSpan s" "ordered_span s" "Line (Start s) > 0"
    and l: "0 \<le> l" "l < int (length ls)"
    and col: "l = Line (Start s) - 1 \<Longrightarrow> Col (Start s) \<le> int (length (ls ! nat l)) + 1"
  shows "highlightedLine ls s (spanEnd s) c l = Ok (markedLine s c (l + 1) (ls ! nat l))"
proof -
  define line where "line = ls ! nat l"
  have line: "goIndex ls l = Ok line" using l by (simp add: goIndex_def line_def)
  define ec where "ec = min (Col (End s)) (int (length line) + 1)"
  note w = wfSpan_fields[OF wf(1)] and e = wfSpan_ends[OF wf(1)]
  have cut: "nat (ec - 1) = min (nat (Col (End s) - 1)) (length line)" by (auto simp: ec_def)
  have to: "goTo line (ec - 1) = Ok (take (nat (ec - 1)) line)" "goFrom line (ec - 1) = Ok (drop (nat (ec - 1)) line)"
    if "Col (End s) > 0" using that by (auto simp: go_out ec_def)
  consider (first) "l = Line (Start s) - 1" | (middle) "l > Line (Start s) - 1" "l < spanEnd s - 1"
    | (last) "l \<ge> Line (Start s)" "l = spanEnd s - 1" | (out) "l < Line (Start s) - 1 \<or> l \<ge> spanEnd s"
    by linarith
  then show ?thesis
  proof cases
    case first
    then show ?thesis using highlightedLine_start[OF wf l _ col] by blast
  next
    case middle
    then show ?thesis
      by (simp add: highlightedLine_def line Let_def markedLine_def markFrom_def markTo_def line_def[symmetric])
  next
    case last
    then have "spanEnd s = l + 1" by simp
    then show ?thesis using to last(1)
      by (simp add: highlightedLine_def line Let_def markedLine_def markFrom_def markTo_def line_def[symmetric]
          ec_def[symmetric] cut[symmetric])
  next
    case out
    then show ?thesis using e
      by (auto simp: highlightedLine_def line Let_def markedLine_def line_def[symmetric])
  qed
qed

lemma highlightLoop_marked:
  assumes wf: "wfSpan s" "ordered_span s" "Line (Start s) > 0"
    and col: "Line (Start s) \<le> int (length ls) \<Longrightarrow>
      Col (Start s) \<le> int (length (ls ! nat (Line (Start s) - 1))) + 1"
    and n: "int (length ls) - l \<le> int n"
  shows "highlightLoop n ls s (spanEnd s) c l =
    Ok (map (\<lambda>k. markedLine s c (k + 1) (ls ! nat k)) [max 0 l..min (spanEnd s) (int (length ls) - 1)])"
  using n
proof (induction n arbitrary: l)
  case 0
  then show ?case by simp
next
  case (Suc n)
  let ?hi = "min (spanEnd s) (int (length ls) - 1)"
  have IH: "highlightLoop n ls s (spanEnd s) c (l + 1) =
      Ok (map (\<lambda>k. markedLine s c (k + 1) (ls ! nat k)) [max 0 (l + 1)..?hi])"
    using Suc.prems by (intro Suc.IH) simp
  show ?case
  proof (cases "l \<le> spanEnd s \<and> l < int (length ls)")
    case False
    then have "?hi < max 0 l" by auto
    moreover have "(l \<le> spanEnd s \<and> l < int (length ls)) = False" using False by blast
    ultimately show ?thesis by (simp only: highlightLoop.simps if_False) simp
  next
    case True
    show ?thesis
    proof (cases "l < 0")
      case neg: True
      then have "max 0 (l + 1) = max 0 l" by simp
      then show ?thesis using True neg IH by simp
    next
      case False
      then have l: "max 0 l = l" "max 0 (l + 1) = l + 1" by auto
      have "[l..?hi] = l # [l + 1..?hi]" using True by (intro upto_rec1) simp
      moreover have "highlightedLine ls s (spanEnd s) c l = Ok (markedLine s c (l + 1) (ls ! nat l))"
        using wf False True col by (intro highlightedLine_marked) auto
      ultimately show ?thesis using True False IH by (simp add: l)
    qed
  qed
qed

text \<open>C26. For a span that ctx.emit accepts and whose end column does not precede its column, the interactive
  report shows the lines of the span with one line of context on each side, every line in full, with
  the colour exactly around the columns of the span (to the end of the line where the end column is
  too large). A column beyond the end of its line makes it panic, in the middle of a run.\<close>

theorem highlight_marks_span:
  assumes wf: "wfSpan s" "ordered_span s" "Line (Start s) > 0" "Line (Start s) < int (length ls)"
  shows "printHighlightedLines w ls s c =
    (if Col (Start s) \<le> int (length (ls ! nat (Line (Start s) - 1))) + 1
     then Ok (newline # map (\<lambda>n. markedLine s c n (ls ! nat (n - 1)))
            [max 1 (Line (Start s) - 1)..min (spanEnd s + 1) (int (length ls))] @ [newline], fromErr (w newline))
     else Panic ''slice bounds out of range'')"
proof (cases "Col (Start s) \<le> int (length (ls ! nat (Line (Start s) - 1))) + 1")
  case True
  let ?l = "Line (Start s) - 2"
  have "highlightLoop (nat (int (length ls) - ?l)) ls s (spanEnd s) c ?l =
      Ok (map (\<lambda>k. markedLine s c (k + 1) (ls ! nat k)) [max 0 ?l..min (spanEnd s) (int (length ls) - 1)])"
    using True by (intro highlightLoop_marked wf) simp_all
  moreover have "map (\<lambda>k. markedLine s c (k + 1) (ls ! nat k)) [max 0 ?l..min (spanEnd s) (int (length ls) - 1)] =
      map (\<lambda>n. markedLine s c n (ls ! nat (n - 1))) [max 1 (?l + 1)..min (spanEnd s + 1) (int (length ls))]"
  proof -
    have "[max 1 (?l + 1)..min (spanEnd s + 1) (int (length ls))] =
        map (\<lambda>k. k + 1) [max 0 ?l..min (spanEnd s) (int (length ls) - 1)]"
    proof -
      have shift: "[i + 1..j + 1] = map (\<lambda>k. k + 1) [i..j]" for i j :: int
        by (induction i j rule: upto.induct) (simp add: upto.simps)
      have "max 1 (?l + 1) = max 0 ?l + 1" by simp
      moreover have "min (spanEnd s + 1) (int (length ls)) = min (spanEnd s) (int (length ls) - 1) + 1" by simp
      ultimately show ?thesis by (simp only: shift)
    qed
    then show ?thesis by (simp add: o_def)
  qed
  ultimately show ?thesis using True wf(4)
    by (simp add: printHighlightedLines_def Let_def spanEnd_def[symmetric])
next
  case False
  let ?k = "Line (Start s) - 1"
  have pos: "Col (Start s) > 0" using False by simp
  have sp: "?k \<le> spanEnd s" "?k < int (length ls)" "0 \<le> ?k" "?k - 1 \<le> spanEnd s" "?k - 1 < int (length ls)"
    using wf by (auto simp: wfSpan_def spanEnd_def)
  have "goTo (ls ! nat ?k) k' = Panic ''slice bounds out of range''" if "k' = Col (Start s) - 1" for k'
    using False that by (simp add: goSlice_def)
  then have bad: "highlightedLine ls s (spanEnd s) c ?k = Panic ''slice bounds out of range''"
    using sp pos by (simp add: highlightedLine_def goIndex_def Let_def)
  have before: "highlightedLine ls s (spanEnd s) c (?k - 1) = Ok (markedLine s c ?k (ls ! nat (?k - 1)))"
    if "0 \<le> ?k - 1" using highlightedLine_marked[OF wf(1-3) that sp(5), of c] by simp
  define n where "n = nat (int (length ls) - ?k - 1)"
  have n: "nat (int (length ls) - (Line (Start s) - 2)) = Suc (Suc n)"
    using sp(2) unfolding n_def by linarith
  have "highlightLoop (Suc (Suc n)) ls s (spanEnd s) c (Line (Start s) - 2) = Panic ''slice bounds out of range''"
    using sp bad before by simp
  then show ?thesis using False wf(4) n
    by (simp add: printHighlightedLines_def Let_def spanEnd_def[symmetric])
qed

text \<open>The test for the end of the file is off by one: a finding on the last line of a file that does
  not end in a newline is not shown.\<close>

lemma unterminated_last_line_not_shown:
  "Line (Start s) = int (length (Split b (CHR 0x0A))) \<Longrightarrow>
    printHighlightedLines w (Split b (CHR 0x0A)) s c = Ok ([], Ok ())"
  by (simp add: printHighlightedLines_def)

text \<open>A span that is inverted on one line, which ctx.emit accepts when end_line is not given, makes the
  interactive report panic.\<close>

lemma inverted_span_panics:
  assumes ls: "1 < length ls" and col: "0 < ec" "ec < col" "col \<le> maxInt" "col \<le> int (length (ls ! 0)) + 1"
  shows "\<exists>s. parseSpan 1 col 0 ec = Ok s \<and>
    printHighlightedLines w ls s c = Panic ''slice bounds out of range''"
proof -
  define n where "n = length ls - 1"
  have n: "nat (int (length ls) + 1) = Suc (Suc n)" using ls unfolding n_def by linarith
  have ne: "ls \<noteq> []" using ls by auto
  have "highlightedLine ls (mkSpan 1 col 1 ec) 1 c 0 = Panic ''slice bounds out of range''"
    using col ne by (simp add: highlightedLine_def mkSpan_def Let_def goSlice_def goIndex_def)
  then have "printHighlightedLines w ls (mkSpan 1 col 1 ec) c = Panic ''slice bounds out of range''"
    using ls n ne by (simp add: printHighlightedLines_def mkSpan_def Let_def)
  moreover have "parseSpan 1 col 0 ec = Ok (mkSpan 1 col 1 ec)"
    using col by (simp add: parseSpan_def intToInt_def Let_def)
  ultimately show ?thesis by blast
qed

section \<open>The interactive report is the basic one in colour\<close>

text \<open>The text without its escape sequences.\<close>

fun stripAnsi :: "bool \<Rightarrow> string \<Rightarrow> string" where
  "stripAnsi inside [] = []"
| "stripAnsi inside (c # s) =
     (if inside then stripAnsi (c \<noteq> CHR ''m'') s
      else if c = CHR 0x1B then stripAnsi True s else c # stripAnsi False s)"

abbreviation plainText :: "string \<Rightarrow> bool" where
  "plainText s \<equiv> CHR 0x1B \<notin> set s"

lemma strip_plain: "plainText t \<Longrightarrow> stripAnsi False (t @ u) = t @ stripAnsi False u"
  by (induction t) auto

lemma strip_plain_id: "plainText t \<Longrightarrow> stripAnsi False t = t"
  using strip_plain[of t "[]"] by simp

lemma strip_code: "stripAnsi False (ansiCode_String c @ u) = stripAnsi False u"
  by (cases c) (simp_all add: escSeq_def)

lemma plain_Itoa: "plainText (Itoa n)"
proof
  assume "CHR 0x1B \<in> set (Itoa n)"
  then have "CHR 0x1B \<in> set (natDigits (nat n)) \<or> CHR 0x1B \<in> set (natDigits (nat (- n)))"
    by (auto simp: Itoa_def split: if_splits)
  then have "isDigit (CHR 0x1B)" using natDigits_isDigit by blast
  then show False by (simp add: isDigit_def)
qed

lemma plain_Join: "(\<And>x. x \<in> set xs \<Longrightarrow> plainText x) \<Longrightarrow> plainText sep \<Longrightarrow> plainText (Join xs sep)"
  by (induction xs sep rule: Join.induct) auto

definition plainProps :: "(string \<Rightarrow> string) \<Rightarrow> props \<Rightarrow> bool" where
  "plainProps quote ps \<longleftrightarrow> list_all (\<lambda>kv. plainText (propString quote kv)) (case ps of None \<Rightarrow> [] | Some m \<Rightarrow> m)"

lemma strip_overview:
  assumes "plainText check" "plainText level" "plainText file" "plainText message" "plainProps quote ps"
  shows "stripAnsi False (overviewString quote True c check level message file s ps @ u) =
    overviewString quote False UnknownAnsi check level message file s ps @ stripAnsi False u"
proof -
  let ?rest = "(if file \<noteq> []
      then file @ (if Line (Start s) > 0 then ''('' @ Itoa (Line (Start s)) @ '')'' else []) @ '': '' else []) @
     message @
     (case ps of None \<Rightarrow> []
      | Some m \<Rightarrow> '' properties: {'' @ Join (sort (map (propString quote) m)) '', '' @ ''}'')"
  have "plainText (case ps of None \<Rightarrow> [] | Some m \<Rightarrow> '' properties: {'' @ Join (sort (map (propString quote) m)) '', '' @ ''}'')"
  proof (cases ps)
    case (Some m)
    then have "plainText (Join (sort (map (propString quote) m)) '', '')"
      using assms(5) by (intro plain_Join) (auto simp: plainProps_def list_all_iff)
    then show ?thesis using Some by simp
  qed simp
  then have "plainText ?rest" using assms(3,4) plain_Itoa by auto
  then have rest: "stripAnsi False (?rest @ u) = ?rest @ stripAnsi False u" by (rule strip_plain)
  have lits: "plainText ''[''" "plainText ''/''" "plainText ''] ''" by simp_all
  have head: "stripAnsi False (ansiCode_String AReset @ ''['' @ ansiCode_String FgHiCyan @ check @
      ansiCode_String AReset @ ''/'' @ ansiCode_String c @ level @ ansiCode_String AReset @ ''] '' @ v) =
      ''['' @ check @ ''/'' @ level @ ''] '' @ stripAnsi False v" for v
    by (simp only: strip_code strip_plain[OF lits(1)] strip_plain[OF lits(2)] strip_plain[OF lits(3)]
        strip_plain[OF assms(1)] strip_plain[OF assms(2)])
  show ?thesis
    unfolding overviewString_def using head[of "?rest @ u"] rest by (simp only: append_assoc if_True if_False)
qed

lemma strip_markedLine:
  assumes "plainText line" and "markFrom s n \<le> markTo s n line"
  shows "stripAnsi False (markedLine s c n line @ u) = ''  '' @ line @ newline @ stripAnsi False u"
proof -
  have p: "plainText ''  ''" "plainText newline" by simp_all
  have parts: "plainText (take (markFrom s n) line)" "plainText (drop (markTo s n line) line)"
    "plainText (drop (markFrom s n) (take (markTo s n line) line))"
    using assms(1) by (meson in_set_takeD in_set_dropD)+
  have "take (markFrom s n) line @ drop (markFrom s n) (take (markTo s n line) line) @ drop (markTo s n line) line = line"
    using assms(2) by (metis append.assoc append_take_drop_id min.absorb1 take_take)
  note whole = this
  show ?thesis
  proof (cases "Line (Start s) \<le> n \<and> n \<le> spanEnd s")
    case True
    have "stripAnsi False (markedLine s c n line @ u) = ''  '' @ take (markFrom s n) line @
        drop (markFrom s n) (take (markTo s n line) line) @ drop (markTo s n line) line @ newline @ stripAnsi False u"
      unfolding markedLine_def using True parts p by (simp only: append_assoc strip_plain strip_code simp_thms if_True)
    then show ?thesis by (subst whole[symmetric]) simp
  next
    case False
    then show ?thesis
      unfolding markedLine_def using assms(1) p by (simp only: append_assoc strip_plain simp_thms if_False)
  qed
qed

lemma marks_ordered:
  assumes "wfSpan s" "ordered_span s" and "n = Line (Start s) \<Longrightarrow> Col (Start s) \<le> int (length line) + 1"
    and "Line (Start s) > 0"
  shows "markFrom s n \<le> markTo s n line"
proof (cases "n = Line (Start s) \<and> n = spanEnd s \<and> Col (End s) > 0")
  case True
  then have "Line (End s) = Line (Start s)" using assms(1) by (auto simp: wfSpan_def spanEnd_def split: if_splits)
  then have "Col (Start s) \<le> Col (End s)" using assms(2) True by (simp add: ordered_span_def)
  then show ?thesis using True assms(3) by (auto simp: markFrom_def markTo_def)
next
  case False
  then show ?thesis using assms(3) by (auto simp: markFrom_def markTo_def)
qed

lemma set_Join: "x \<in> set xs \<Longrightarrow> set x \<subseteq> set (Join xs sep)"
  by (induction xs sep rule: Join.induct) auto

lemma strip_concat_marked:
  assumes "\<And>n. n \<in> set ns \<Longrightarrow> plainText (f n) \<and> markFrom s n \<le> markTo s n (f n)"
  shows "stripAnsi False (concat (map (\<lambda>n. markedLine s c n (f n)) ns) @ u) =
    concat (map (\<lambda>n. ''  '' @ f n @ newline) ns) @ stripAnsi False u"
  using assms by (induction ns) (simp_all add: strip_markedLine)

text \<open>C33. Colours change nothing but the colour: without its escape sequences, what the interactive report
  writes for a finding is the line of the basic report, followed by an empty line, the lines of the
  span with one line of context before and after it, indented, and an empty line. The text of the
  check must not have escape characters itself.\<close>

theorem interactive_is_basic:
  assumes "plainText (fdCheck f)" "plainText (fdLevel f)" "plainText (fdFile f)" "plainText (fdMessage f)"
      "plainProps quote (fdProps f)"
    and content: "fdFile f \<noteq> []" "readFile (PathJoin [fdRoot f, fdFile f]) = Ok b" "plainText b"
    and s: "s = fdSpan f" "wfSpan s" "ordered_span s" "Line (Start s) > 0"
    and ls: "ls = Split b (CHR 0x0A)" "Line (Start s) < int (length ls)"
      "Col (Start s) \<le> int (length (ls ! nat (Line (Start s) - 1))) + 1"
  shows "\<exists>ts. interactive_EmitFinding quote readFile (\<lambda>_. None) f = Ok (ts, Ok ()) \<and>
    stripAnsi False (concat ts) = concat (fst (basic_EmitFinding quote (\<lambda>_. None) f)) @ newline @
      concat (map (\<lambda>n. ''  '' @ ls ! nat (n - 1) @ newline)
        [max 1 (Line (Start s) - 1)..min (spanEnd s + 1) (int (length ls))]) @ newline"
proof -
  let ?c = "levelColor (fdLevel f)"
  let ?ns = "[max 1 (Line (Start s) - 1)..min (spanEnd s + 1) (int (length ls))]"
  let ?head = "overviewString quote True ?c (fdCheck f) (fdLevel f) (fdMessage f) (fdFile f) (fdSpan f) (fdProps f)"
  let ?body = "map (\<lambda>n. markedLine s ?c n (ls ! nat (n - 1))) ?ns"
  have "printHighlightedLines (\<lambda>_. None) ls s ?c = Ok (newline # ?body @ [newline], Ok ())"
    using highlight_marks_span[OF s(2-4) ls(2)] ls(3) by (simp add: fromErr_def)
  then have run: "interactive_EmitFinding quote readFile (\<lambda>_. None) f =
      Ok ((?head @ newline) # newline # ?body @ [newline], Ok ())"
    using content s ls by (simp add: interactive_EmitFinding_def Let_def)
  have "plainText (ls ! nat (n - 1))" if "n \<in> set ?ns" for n
  proof -
    have "ls ! nat (n - 1) \<in> set ls" using that by (intro nth_mem) auto
    then have "set (ls ! nat (n - 1)) \<subseteq> set (Join ls newline)" by (rule set_Join)
    then show ?thesis using content(3) unfolding ls(1) by auto
  qed
  moreover have "markFrom s n \<le> markTo s n (ls ! nat (n - 1))" for n
    using ls(3) by (intro marks_ordered s) simp_all
  ultimately have body: "stripAnsi False (concat ?body @ newline) =
      concat (map (\<lambda>n. ''  '' @ ls ! nat (n - 1) @ newline) ?ns) @ newline"
    using strip_concat_marked[of ?ns "\<lambda>n. ls ! nat (n - 1)" s ?c newline] by simp
  have nl: "plainText (newline @ newline)" by simp
  have "stripAnsi False (concat ((?head @ newline) # newline # ?body @ [newline])) =
      stripAnsi False (?head @ newline @ newline @ concat ?body @ newline)" by simp
  also have "\<dots> = overviewString quote False UnknownAnsi (fdCheck f) (fdLevel f) (fdMessage f) (fdFile f) (fdSpan f) (fdProps f) @
      newline @ newline @ concat (map (\<lambda>n. ''  '' @ ls ! nat (n - 1) @ newline) ?ns) @ newline"
    unfolding strip_overview[OF assms(1,2,3,4,5)] strip_plain[OF nl, unfolded append_assoc] body by simp
  finally show ?thesis using run by (auto simp: basic_EmitFinding_def Let_def)
qed

text \<open>The text of a finding does not depend on the order in which Go happens to range over its map of
  properties: every listing of the same properties gives the same overview.\<close>

theorem overview_deterministic:
  assumes "distinct (map fst m)" "distinct (map fst m')" "map_of m = map_of m'"
  shows "overviewString quote withColor c check level message fl s (Some m) =
    overviewString quote withColor c check level message fl s (Some m')"
proof -
  have "set m = set m'" using assms by (metis map_of_eqI map_of_inject_set)
  then have "mset m = mset m'"
    using assms(1,2) by (metis distinct_map set_eq_iff_mset_eq_distinct)
  then have "mset (map (propString quote) m) = mset (map (propString quote) m')" by simp
  then have "sort (map (propString quote) m) = sort (map (propString quote) m')"
    by (metis properties_for_sort mset_sort sorted_sort)
  then show ?thesis by (simp add: overviewString_def)
qed

section \<open>What GitHub reads\<close>

text \<open>
  The documented form of a workflow command is ::name parameters::message, the parameters separated
  from the name by a space: the name, the parameters and the message that are read from a line.
\<close>

definition workflowCommand :: "string \<Rightarrow> (string \<times> string \<times> string) option" where
  "workflowCommand t =
     (if \<not> HasPrefix t ''::'' then None
      else case CutStr ''::'' (drop 2 t) of
          None \<Rightarrow> None
        | Some (info, msg) \<Rightarrow>
            (case CutByte (CHR '' '') info of
               None \<Rightarrow> Some (info, [], msg)
             | Some (name, parameters) \<Rightarrow> Some (name, parameters, msg)))"

text \<open>
  A second pair of colons follows the level, so GitHub reads no parameters: the place and the title of
  a finding become a part of its message.
\<close>

lemma github_place_is_not_read:
  assumes "isValid (fdLevel f)" and "fdFile f \<noteq> []"
  shows "\<exists>t r rest. github_EmitFinding w f = ([t], r) \<and>
    workflowCommand t = Some (fdLevel f, [], ''file='' @ fdFile f @ rest)"
proof -
  have cut: "workflowCommand (''::'' @ fdLevel f @ '' ::file='' @ x) = Some (fdLevel f, [], ''file='' @ x)" for x
    using assms(1) by (auto simp: isValid_def workflowCommand_def HasPrefix_def Notice_def Warning_def Error_def)
  obtain y where "fst (github_EmitFinding w f) = [''::'' @ fdLevel f @ '' ::file='' @ fdFile f @ y]"
    using assms(2) by (simp add: github_EmitFinding_def Let_def)
  then show ?thesis using cut[of "fdFile f @ y"] by (cases "github_EmitFinding w f") (simp only: fst_conv, blast)
qed

section \<open>The properties on concrete findings\<close>

definition demoSpan :: Span where
  "demoSpan = mkSpan 2 2 2 3"

definition demoFinding :: finding where
  "demoFinding = \<lparr>fdCheck = ''c'', fdLevel = Error, fdMessage = ''m'', fdRoot = ''/r'', fdFile = ''f'',
     fdSpan = demoSpan, fdReplacements = [], fdProps = Some [(''k'', ''v''), (''a'', ''b'')]\<rparr>"

definition demoText :: string where
  "demoText = ''ab'' @ newline @ ''cde'' @ newline @ ''fg'' @ newline"

lemma demoText_lines: "Split demoText (CHR 0x0A) = [''ab'', ''cde'', ''fg'', '''']"
  by (simp add: demoText_def)

lemma demoSpan_wf: "wfSpan demoSpan" "ordered_span demoSpan" "Line (Start demoSpan) = 2" "Col (Start demoSpan) = 2"
    "spanEnd demoSpan = 2"
  by (simp_all add: demoSpan_def mkSpan_def wfSpan_def ordered_span_def spanEnd_def)

lemma Itoa_two: "Itoa 2 = ''2''"
  by code_simp

theorem highlight_marks_span_witness:
  "printHighlightedLines (\<lambda>_. None) (Split demoText (CHR 0x0A)) demoSpan FgRed =
    Ok ([newline, ''  ab'' @ newline, ''  c'' @ escSeq ''31'' @ ''d'' @ escSeq ''0'' @ ''e'' @ newline,
      ''  fg'' @ newline, newline], Ok ())"
proof -
  let ?ls = "Split demoText (CHR 0x0A)"
  have "Line (Start demoSpan) > 0" "Line (Start demoSpan) < int (length ?ls)"
    by (simp_all add: demoSpan_wf demoText_lines)
  note rule = highlight_marks_span[OF demoSpan_wf(1,2) this, of "\<lambda>_. None" FgRed]
  have "[1..3] = [1, 2, 3 :: int]" by (simp add: upto.simps)
  then show ?thesis unfolding rule
    by (simp add: demoSpan_wf demoText_lines fromErr_def markedLine_def markFrom_def markTo_def demoSpan_def mkSpan_def
        spanEnd_def upto.simps numeral_2_eq_2)
qed

theorem interactive_is_basic_witness:
  "\<exists>ts. interactive_EmitFinding (\<lambda>x. x) (\<lambda>_. Ok demoText) (\<lambda>_. None) demoFinding = Ok (ts, Ok ()) \<and>
    stripAnsi False (concat ts) = ''[c/error] f(2): m properties: {a:b, k:v}'' @ newline @ newline @
      ''  ab'' @ newline @ ''  cde'' @ newline @ ''  fg'' @ newline @ newline"
proof -
  have f: "fdCheck demoFinding = ''c''" "fdLevel demoFinding = ''error''" "fdFile demoFinding = ''f''"
    "fdMessage demoFinding = ''m''" "fdSpan demoFinding = demoSpan" "fdProps demoFinding = Some [(''k'', ''v''), (''a'', ''b'')]"
    by (simp_all add: demoFinding_def Error_def)
  have "plainProps (\<lambda>x. x) (fdProps demoFinding)" by (simp add: f plainProps_def propString_def)
  moreover have "plainText demoText" by (simp add: demoText_def)
  ultimately have "\<exists>ts. interactive_EmitFinding (\<lambda>x. x) (\<lambda>_. Ok demoText) (\<lambda>_. None) demoFinding = Ok (ts, Ok ()) \<and>
    stripAnsi False (concat ts) = concat (fst (basic_EmitFinding (\<lambda>x. x) (\<lambda>_. None) demoFinding)) @ newline @
      concat (map (\<lambda>n. ''  '' @ Split demoText (CHR 0x0A) ! nat (n - 1) @ newline)
        [max 1 (Line (Start demoSpan) - 1)..min (spanEnd demoSpan + 1) (int (length (Split demoText (CHR 0x0A))))]) @ newline"
    using interactive_is_basic[of demoFinding "\<lambda>x. x" "\<lambda>_. Ok demoText" demoText demoSpan "Split demoText (CHR 0x0A)"]
    by (simp add: f demoSpan_wf demoText_lines)
  moreover have "concat (fst (basic_EmitFinding (\<lambda>x. x) (\<lambda>_. None) demoFinding)) =
      ''[c/error] f(2): m properties: {a:b, k:v}'' @ newline"
    by (simp add: basic_EmitFinding_def Let_def overviewString_def f demoSpan_wf propString_def Itoa_two)
  ultimately show ?thesis by (simp add: demoSpan_wf demoText_lines upto.simps)
qed

theorem overview_deterministic_witness:
  "overviewString (\<lambda>x. x) False UnknownAnsi ''c'' Error ''m'' '''' demoSpan (Some [(''a'', ''1''), (''b'', ''2'')]) =
   overviewString (\<lambda>x. x) False UnknownAnsi ''c'' Error ''m'' '''' demoSpan (Some [(''b'', ''2''), (''a'', ''1'')])"
  by (rule overview_deterministic) auto

end
