(* ===== verification/Cli.thy ===== *)
theory Cli
  imports Runner Fix Reporting
begin

text \<open>
  The command line (internal/cli and main.go): the flags of the subcommands and the options they make
  for the engine, the dispatch, and the exit code. What pflag reads off the arguments is a
  parameter, as are the engine's answers, which the root theory instantiates with its model.
\<close>

section \<open>Flags\<close>

text \<open>stringMapFlag.Set adds one key=value to the map.\<close>

definition stringMapFlag_Set :: "(string \<times> string) list \<Rightarrow> string \<Rightarrow> (string \<times> string) list outcome" where
  "stringMapFlag_Set v s =
     (case CutByte (CHR ''='') s of
        None \<Rightarrow> Err (New ''must be of the form key=value'')
      | Some (name, val) \<Rightarrow>
          if name = [] then Err (New ''must be of the form key=value'')
          else if map_of v name \<noteq> None then Err (New ''duplicate key'')
          else Ok (v @ [(name, val)]))"

text \<open>pflag calls Set for every --var, in order, and stops at an error.\<close>

fun setVars :: "(string \<times> string) list \<Rightarrow> string list \<Rightarrow> (string \<times> string) list outcome" where
  "setVars v [] = Ok v"
| "setVars v (s # ss) = bindO (stringMapFlag_Set v s) (\<lambda>v'. setVars v' ss)"

text \<open>The values of the flags of all subcommands; a subcommand that does not declare one leaves it at
  its default.\<close>

record cliFlags =
  flHelp :: bool
  flVerbose :: bool
  flCwd :: string
  flAllFiles :: bool
  flNoRecurse :: bool
  flEntryPoint :: string
  flOnly :: "string list"
  flSkip :: "string list"
  flVars :: "(string \<times> string) list"
  flJsonOutput :: string
  flQuiet :: bool
  flEmit :: bool

definition cliOptions :: "cliFlags \<Rightarrow> string list \<Rightarrow> Options outcome" where
  "cliOptions c files =
     (if flAllFiles c \<and> length files > 0
      then Err (New ''--all cannot be set together with positional file arguments'')
      else Ok \<lparr>oDir = flCwd c, oFiles = files, oAllFiles = flAllFiles c, oRecurse = \<not> flNoRecurse c,
        oFilter = \<lparr>formatterFiltering = AllChecks, AllowList = flOnly c, DenyList = flSkip c\<rparr>,
        oVars = flVars c, oEntryPoint = flEntryPoint c, oStdin = [], oConfig = []\<rparr>)"

section \<open>The subcommands\<close>

text \<open>
  The world of a subcommand: the reports (their choice, the error of closing them and the SARIF text
  that closing leaves in the buffer), the engine, standard input and the files written.
\<close>

record cliEnv =
  ceGet :: "reporter list outcome"
  ceRun :: "Options \<Rightarrow> unit outcome"
  ceCloseErr :: "err option"
  ceSarif :: string
  ceWriteFile :: "string \<Rightarrow> string \<Rightarrow> err option"
  ceFix :: "Options \<Rightarrow> bool \<Rightarrow> bool \<Rightarrow> unit outcome"
  ceStdin :: "string outcome"
  ceDoc :: "string \<Rightarrow> string outcome"
  ceWriteStdout :: "string \<Rightarrow> err option"

definition orElse :: "unit outcome \<Rightarrow> err option \<Rightarrow> unit outcome" where
  "orElse r e = (case r of Ok u \<Rightarrow> fromErr e | other \<Rightarrow> other)"

text \<open>The files written, with the result.\<close>

definition checkCmd_Execute :: "cliEnv \<Rightarrow> cliFlags \<Rightarrow> string list \<Rightarrow> (string \<times> string) list \<times> unit outcome" where
  "checkCmd_Execute env c files =
     (case ceGet env of
        Err e \<Rightarrow> ([], Err e)
      | Panic m \<Rightarrow> ([], Panic m)
      | Ok reporters \<Rightarrow>
          (case cliOptions c files of
             Err e \<Rightarrow> ([], Err e)
           | Panic m \<Rightarrow> ([], Panic m)
           | Ok opts \<Rightarrow>
               (case ceRun env opts of
                  Panic m \<Rightarrow> ([], Panic m)
                | r \<Rightarrow>
                    (let r1 = orElse r (ceCloseErr env)
                     in if flJsonOutput c \<noteq> []
                        then ([(flJsonOutput c, ceSarif env)],
                          orElse r1 (ceWriteFile env (flJsonOutput c) (ceSarif env)))
                        else ([], r1)))))"

definition fixCmd_Execute :: "cliEnv \<Rightarrow> cliFlags \<Rightarrow> string list \<Rightarrow> unit outcome" where
  "fixCmd_Execute env c files =
     bindO (cliOptions c files) (\<lambda>opts.
       ceFix env (opts\<lparr>oFilter := (oFilter opts)\<lparr>formatterFiltering := OnlyNonFormatters\<rparr>\<rparr>) (flQuiet c) False)"

definition fmtCmd_Execute :: "cliEnv \<Rightarrow> cliFlags \<Rightarrow> string list \<Rightarrow> unit outcome" where
  "fmtCmd_Execute env c files =
     bindO (cliOptions c files) (\<lambda>opts.
       if flEmit c \<and> length files > 1
       then Err (New ''--emit is only available if you are formatting one file'')
       else bindO (if flEmit c then ceStdin env else Ok []) (\<lambda>s.
              ceFix env (opts\<lparr>oFilter := (oFilter opts)\<lparr>formatterFiltering := OnlyFormatters\<rparr>, oStdin := s\<rparr>)
                (flQuiet c) (flEmit c)))"

definition docCmd_Execute :: "cliEnv \<Rightarrow> string list \<Rightarrow> string list \<times> unit outcome" where
  "docCmd_Execute env args =
     (if length args > 1 then ([], Err (New ''only specify one source''))
      else case ceDoc env (if length args = 1 then hd args else ''stdlib'') of
          Ok d \<Rightarrow> ([d], Ok ())
        | Err e \<Rightarrow> ([], Err e)
        | Panic m \<Rightarrow> ([], Panic m))"

definition versionCmd_Execute :: "cliEnv \<Rightarrow> string \<Rightarrow> string list \<times> unit outcome" where
  "versionCmd_Execute env version =
     (let t = ''shac v'' @ version @ [CHR 0x0A] in ([t], fromErr (ceWriteStdout env t)))"

definition ErrHelp :: err where
  "ErrHelp = ErrOther ''pflag: help requested''"

section \<open>The dispatch\<close>

datatype subcommand = CmdCheck | CmdFmt | CmdFix | CmdDoc | CmdVersion | CmdHelp

definition subcommands :: "subcommand list" where
  "subcommands = [CmdCheck, CmdFmt, CmdFix, CmdDoc, CmdVersion, CmdHelp]"

fun Name :: "subcommand \<Rightarrow> string" where
  "Name CmdCheck = ''check''"
| "Name CmdFmt = ''fmt''"
| "Name CmdFix = ''fix''"
| "Name CmdDoc = ''doc''"
| "Name CmdVersion = ''version''"
| "Name CmdHelp = ''help''"

fun Description :: "subcommand \<Rightarrow> string" where
  "Description CmdCheck = ''Run checks in a file.''"
| "Description CmdFmt = ''Auto-format files.''"
| "Description CmdFix = ''Run non-formatter checks and make suggested fixes.''"
| "Description CmdDoc = ''Prints out documentation for a starlark file.'' @ [CHR 0x0A] @
     ''Use \"stdlib\" to print out the standard library documentation.''"
| "Description CmdVersion = ''Print shac version.''"
| "Description CmdHelp = ''Help page.''"

definition padRight :: "nat \<Rightarrow> string \<Rightarrow> string" where
  "padRight n s = s @ replicate (n - length s) CHR '' ''"

definition getDesc :: "subcommand list \<Rightarrow> string" where
  "getDesc cs =
     concat (map (\<lambda>c.
       let d = Split (Description c) (CHR 0x0A);
           d' = hd d # map (\<lambda>l. replicate 12 CHR '' '' @ l) (tl d)
       in ''  '' @ padRight 9 (Name c) @ '' '' @ Join d' [CHR 0x0A] @ [CHR 0x0A]) cs)"

text \<open>What a call of Main did: the usage it printed, the text and the files it wrote, and its result.\<close>

record mainResult =
  mrUsage :: "(string \<times> string) list"
  mrStdout :: "string list"
  mrFiles :: "(string \<times> string) list"
  mrResult :: "unit outcome"

abbreviation onlyResult :: "unit outcome \<Rightarrow> mainResult" where
  "onlyResult r \<equiv> \<lparr>mrUsage = [], mrStdout = [], mrFiles = [], mrResult = r\<rparr>"

definition executeCmd :: "cliEnv \<Rightarrow> string \<Rightarrow> subcommand \<Rightarrow> cliFlags \<Rightarrow> string list \<Rightarrow> mainResult" where
  "executeCmd env version cmd c args =
     (case cmd of
        CmdCheck \<Rightarrow> (let (fs, r) = checkCmd_Execute env c args in \<lparr>mrUsage = [], mrStdout = [], mrFiles = fs, mrResult = r\<rparr>)
      | CmdFmt \<Rightarrow> onlyResult (fmtCmd_Execute env c args)
      | CmdFix \<Rightarrow> onlyResult (fixCmd_Execute env c args)
      | CmdDoc \<Rightarrow> (let (t, r) = docCmd_Execute env args in \<lparr>mrUsage = [], mrStdout = t, mrFiles = [], mrResult = r\<rparr>)
      | CmdVersion \<Rightarrow>
          (let (t, r) = versionCmd_Execute env version in \<lparr>mrUsage = [], mrStdout = t, mrFiles = [], mrResult = r\<rparr>)
      | CmdHelp \<Rightarrow> onlyResult (Err ErrHelp))"

text \<open>The parser is given the flag set (the subcommand's, or None for the one of shac itself) and the
  arguments, and leaves the flags and the positional arguments.\<close>

definition Main ::
    "(subcommand option \<Rightarrow> string list \<Rightarrow> (cliFlags \<times> string list) outcome) \<Rightarrow> cliEnv \<Rightarrow> string \<Rightarrow>
      string list \<Rightarrow> mainResult" where
  "Main parse env version args =
     (let usage = \<lparr>mrUsage = [(''shac'', getDesc subcommands)], mrStdout = [], mrFiles = [], mrResult = Err ErrHelp\<rparr>
      in if length args < 2 then usage\<lparr>mrResult := Err (New ''subcommand required'')\<rparr>
         else if args ! 1 = ''help'' then usage
         else case find (\<lambda>s. Name s = args ! 1) subcommands of
             Some s \<Rightarrow>
               (case parse (Some s) (drop 2 args) of
                  Err e \<Rightarrow> onlyResult (Err e)
                | Panic m \<Rightarrow> onlyResult (Panic m)
                | Ok (c, rest) \<Rightarrow>
                    if flHelp c
                    then \<lparr>mrUsage = [(''shac '' @ Name s, Description s @ [CHR 0x0A])], mrStdout = [], mrFiles = [],
                      mrResult = Err ErrHelp\<rparr>
                    else executeCmd env version s c rest)
           | None \<Rightarrow>
               (case parse None (drop 1 args) of
                  Err e \<Rightarrow> onlyResult (Err e)
                | Panic m \<Rightarrow> onlyResult (Panic m)
                | Ok (c, rest) \<Rightarrow>
                    if flHelp c then usage
                    else onlyResult (Err (Errorf ''no such command %q'' [FStr (args ! 1)]))))"

section \<open>The exit code\<close>

text \<open>errors.Is looks through the errors wrapped with %w.\<close>

fun errIs :: "err \<Rightarrow> err \<Rightarrow> bool" and errIs_arg :: "err \<Rightarrow> fmt_arg \<Rightarrow> bool" where
  "errIs target (Errorf f args) = (Errorf f args = target \<or> list_ex (errIs_arg target) args)"
| "errIs target (ErrNotExist p) = (ErrNotExist p = target)"
| "errIs target (ErrNotFound p) = (ErrNotFound p = target)"
| "errIs target (ErrOther p) = (ErrOther p = target)"
| "errIs target ErrCheckFailed = (ErrCheckFailed = target)"
| "errIs target (Failure p) = (Failure p = target)"
| "errIs target (EvalError p) = (EvalError p = target)"
| "errIs_arg target (FErr e) = errIs target e"
| "errIs_arg target (FStr s) = False"
| "errIs_arg target (FInt n) = False"

definition Canceled :: err where
  "Canceled = ErrOther ''context canceled''"

text \<open>
  A failure of fail() and an error of the evaluation carry the call stack they come from; its text
  leaves out the frame of the builtin that failed. errors.AsType finds such an error below others.
\<close>

record callFrame =
  frName :: string
  frFile :: string
  frLine :: int
  frCol :: int

definition Position_String :: "callFrame \<Rightarrow> string" where
  "Position_String p =
     (if frLine p > 0
      then (if frCol p > 0 then frFile p @ '':'' @ Itoa (frLine p) @ '':'' @ Itoa (frCol p)
            else frFile p @ '':'' @ Itoa (frLine p))
      else frFile p)"

definition CallStack_String :: "callFrame list \<Rightarrow> string" where
  "CallStack_String stack =
     (if stack \<noteq> [] then ''Traceback (most recent call last):'' @ [CHR 0x0A] else []) @
     concat (map (\<lambda>fr. ''  '' @ Position_String fr @ '': in '' @ frName fr @ [CHR 0x0A]) stack)"

definition Backtrace :: "callFrame list \<Rightarrow> string" where
  "Backtrace c = CallStack_String (if length c > 0 \<and> frFile (last c) = ''<builtin>'' then butlast c else c)"

fun backtraceables :: "err \<Rightarrow> err list" and backtraceables_arg :: "fmt_arg \<Rightarrow> err list" where
  "backtraceables (Failure p) = [Failure p]"
| "backtraceables (EvalError p) = [EvalError p]"
| "backtraceables (Errorf f args) = concat (map backtraceables_arg args)"
| "backtraceables (ErrNotExist p) = []"
| "backtraceables (ErrNotFound p) = []"
| "backtraceables (ErrOther p) = []"
| "backtraceables ErrCheckFailed = []"
| "backtraceables_arg (FErr e) = backtraceables e"
| "backtraceables_arg (FStr s) = []"
| "backtraceables_arg (FInt n) = []"

definition backtraceOf :: "(err \<Rightarrow> callFrame list) \<Rightarrow> err \<Rightarrow> string option" where
  "backtraceOf stackOf e = (case backtraceables e of [] \<Rightarrow> None | x # xs \<Rightarrow> Some (Backtrace (stackOf x)))"

text \<open>The exit code and what is written to standard error: the backtrace of an error that has one, and
  the message unless a terminal has already shown why. A panic ends the process with code 2.\<close>

definition main :: "bool \<Rightarrow> (err \<Rightarrow> string option) \<Rightarrow> unit outcome \<Rightarrow> int \<times> string list" where
  "main terminal backtrace r =
     (case r of
        Ok u \<Rightarrow> (0, [])
      | Panic m \<Rightarrow> (2, [''panic: '' @ m])
      | Err e \<Rightarrow>
          if errIs ErrHelp e then (0, [])
          else (1,
            (case backtrace e of None \<Rightarrow> [] | Some b \<Rightarrow> [b]) @
            (if \<not> terminal \<or> (\<not> errIs ErrCheckFailed e \<and> \<not> errIs Canceled e)
             then [''shac: '' @ errText e @ [CHR 0x0A]] else [])))"

section \<open>Properties\<close>

definition varText :: "string \<times> string \<Rightarrow> string" where
  "varText kv = fst kv @ CHR ''='' # snd kv"

definition varKey :: "string \<Rightarrow> bool" where
  "varKey k \<longleftrightarrow> k \<noteq> [] \<and> CHR ''='' \<notin> set k"

lemma stringMapFlag_Set_Ok:
  "stringMapFlag_Set v s = Ok v' \<longleftrightarrow>
    (\<exists>k x. s = varText (k, x) \<and> varKey k \<and> k \<notin> fst ` set v \<and> v' = v @ [(k, x)])"
proof (cases "CutByte (CHR ''='') s")
  case None
  then have "CHR ''='' \<notin> set s" by (simp add: CutByte_None)
  then show ?thesis using None by (auto simp: stringMapFlag_Set_def varText_def)
next
  case (Some kx)
  obtain k x where kx: "kx = (k, x)" by fastforce
  then have s: "s = varText (k, x)" "CHR ''='' \<notin> set k"
    using Some by (auto simp: CutByte_Some varText_def)
  have one: "k' = k \<and> x' = x" if "s = varText (k', x')" "varKey k'" for k' x'
    using Some kx that by (simp add: varText_def varKey_def)
  have "stringMapFlag_Set v s = Ok v' \<longleftrightarrow> k \<noteq> [] \<and> k \<notin> fst ` set v \<and> v' = v @ [(k, x)]"
    using Some kx by (auto simp: stringMapFlag_Set_def map_of_eq_None_iff)
  then show ?thesis using s one unfolding varKey_def by blast
qed

lemma setVars_Ok:
  "setVars v ss = Ok v' \<longleftrightarrow>
    (\<exists>kvs. ss = map varText kvs \<and> list_all (varKey \<circ> fst) kvs \<and> distinct (map fst kvs) \<and>
      fst ` set kvs \<inter> fst ` set v = {} \<and> v' = v @ kvs)"
proof (induction ss arbitrary: v)
  case Nil
  then show ?case by auto
next
  case (Cons s ss)
  have "setVars v (s # ss) = Ok v' \<longleftrightarrow>
      (\<exists>k x. s = varText (k, x) \<and> varKey k \<and> k \<notin> fst ` set v \<and> setVars (v @ [(k, x)]) ss = Ok v')"
    by (auto simp: bindO_eq_Ok stringMapFlag_Set_Ok)
  also have "\<dots> \<longleftrightarrow> (\<exists>k x kvs. s = varText (k, x) \<and> varKey k \<and> k \<notin> fst ` set v \<and> ss = map varText kvs \<and>
      list_all (varKey \<circ> fst) kvs \<and> distinct (map fst kvs) \<and> fst ` set kvs \<inter> fst ` set (v @ [(k, x)]) = {} \<and>
      v' = (v @ [(k, x)]) @ kvs)"
    unfolding Cons.IH by blast
  also have "\<dots> \<longleftrightarrow> (\<exists>kvs. s # ss = map varText kvs \<and> list_all (varKey \<circ> fst) kvs \<and> distinct (map fst kvs) \<and>
      fst ` set kvs \<inter> fst ` set v = {} \<and> v' = v @ kvs)" (is "?l \<longleftrightarrow> ?r")
  proof
    assume ?l
    then obtain k x kvs where h: "s = varText (k, x)" "varKey k" "k \<notin> fst ` set v" "ss = map varText kvs"
      "list_all (varKey \<circ> fst) kvs" "distinct (map fst kvs)" "fst ` set kvs \<inter> fst ` set (v @ [(k, x)]) = {}"
      "v' = (v @ [(k, x)]) @ kvs" by blast
    then show ?r by (intro exI[of _ "(k, x) # kvs"]) auto
  next
    assume ?r
    then obtain kvs where h: "s # ss = map varText kvs" "list_all (varKey \<circ> fst) kvs" "distinct (map fst kvs)"
      "fst ` set kvs \<inter> fst ` set v = {}" "v' = v @ kvs" by (elim exE conjE)
    then have "kvs \<noteq> []" by auto
    then obtain kx kvs' where "kvs = kx # kvs'" by (cases kvs) simp_all
    then obtain k x where k: "kvs = (k, x) # kvs'" by (cases kx) simp
    have a: "s = varText (k, x)" "ss = map varText kvs'" using h(1) k by simp_all
    have b: "varKey k" "list_all (varKey \<circ> fst) kvs'" using h(2) k by simp_all
    have c: "distinct (map fst kvs')" using h(3) k by simp
    have d: "k \<notin> fst ` set v" using h(4) k by simp
    have e: "v' = (v @ [(k, x)]) @ kvs'" using h(5) k by simp
    have "fst ` set kvs' \<inter> fst ` set v = {}" "k \<notin> fst ` set kvs'" using h(3,4) k by auto
    then have "fst ` set kvs' \<inter> fst ` set (v @ [(k, x)]) = {}" by auto
    then show ?l using a b c d e by (intro exI conjI)
  qed
  finally show ?case .
qed

text \<open>The --var flags of a command line are accepted exactly when each is a non-empty key without "=", an
  "=" and any value, with no key given twice; the map then holds these keys and values, the value
  being everything after the first "=".\<close>

theorem vars_roundtrip:
  "setVars [] ss = Ok kvs \<longleftrightarrow>
    ss = map varText kvs \<and> list_all (varKey \<circ> fst) kvs \<and> distinct (map fst kvs)"
  by (auto simp: setVars_Ok)

lemma cliOptions_filter:
  "cliOptions c files = Ok opts \<Longrightarrow> formatterFiltering (oFilter opts) = AllChecks"
  by (auto simp: cliOptions_def split: if_splits)

text \<open>"shac fix" and "shac fmt" divide the work of "shac check": with the same flags the checks that fmt
  selects are formatters, those that fix selects are not, and together they are the checks that
  check selects, each once.\<close>

theorem fmt_fix_partition:
  assumes "cliOptions c files = Ok opts" and "\<not> flEmit c"
  shows "\<exists>fmtOpts fixOpts.
    fmtCmd_Execute env c files = ceFix env fmtOpts (flQuiet c) False \<and>
    fixCmd_Execute env c files = ceFix env fixOpts (flQuiet c) False \<and>
    (\<exists>allC fmtC fixC. CheckFilter_filter (oFilter opts) checks = Ok allC \<and>
      CheckFilter_filter (oFilter fmtOpts) checks = Ok fmtC \<and> CheckFilter_filter (oFilter fixOpts) checks = Ok fixC \<and>
      mset allC = mset fmtC + mset fixC \<and> list_all (\<lambda>r. formatter (checkOf r)) fmtC \<and>
      list_all (\<lambda>r. \<not> formatter (checkOf r)) fixC)"
proof -
  let ?fmt = "opts\<lparr>oFilter := (oFilter opts)\<lparr>formatterFiltering := OnlyFormatters\<rparr>, oStdin := []\<rparr>"
  let ?fix = "opts\<lparr>oFilter := (oFilter opts)\<lparr>formatterFiltering := OnlyNonFormatters\<rparr>\<rparr>"
  have sel: "selects (oFilter ?fmt) r \<longleftrightarrow> selects (oFilter opts) r \<and> formatter (checkOf r)"
    "selects (oFilter ?fix) r \<longleftrightarrow> selects (oFilter opts) r \<and> \<not> formatter (checkOf r)" for r
    using cliOptions_filter[OF assms(1)] by (auto simp: selects_def)
  have "mset (filter (selects (oFilter opts)) checks) =
      mset (filter (selects (oFilter ?fmt)) checks) + mset (filter (selects (oFilter ?fix)) checks)"
    unfolding sel by (induction checks) auto
  moreover have "CheckFilter_filter (oFilter opts) checks = Ok (filter (selects (oFilter opts)) checks)"
    "CheckFilter_filter (oFilter ?fmt) checks = Ok (filter (selects (oFilter ?fmt)) checks)"
    "CheckFilter_filter (oFilter ?fix) checks = Ok (filter (selects (oFilter ?fix)) checks)"
    using cliOptions_filter[OF assms(1)] by (intro CheckFilter_filter_spec; simp)+
  moreover have "list_all (\<lambda>r. formatter (checkOf r)) (filter (selects (oFilter ?fmt)) checks)"
    "list_all (\<lambda>r. \<not> formatter (checkOf r)) (filter (selects (oFilter ?fix)) checks)"
    unfolding sel by (simp_all add: list_all_iff)
  moreover have "fmtCmd_Execute env c files = ceFix env ?fmt (flQuiet c) False"
    "fixCmd_Execute env c files = ceFix env ?fix (flQuiet c) False"
    using assms by (simp_all add: fmtCmd_Execute_def fixCmd_Execute_def)
  ultimately show ?thesis by blast
qed

text \<open>The subcommand that "help" would run is never reached: Main answers it before it looks for it.\<close>

lemma help_command_unreachable:
  "length args \<ge> 2 \<Longrightarrow> args ! 1 = ''help'' \<Longrightarrow>
    Main parse env version args =
      \<lparr>mrUsage = [(''shac'', getDesc subcommands)], mrStdout = [], mrFiles = [], mrResult = Err ErrHelp\<rparr>"
  by (simp add: Main_def)

text \<open>The names of the subcommands are distinct, so the order in which Main looks for one is irrelevant.\<close>

lemma find_subcommand: "find (\<lambda>s. Name s = Name c) subcommands = Some c"
  by (cases c) (simp_all add: subcommands_def)

text \<open>The process exits with 0 exactly when Main succeeded or help was asked for.\<close>

lemma exit_zero:
  "fst (main terminal backtrace r) = 0 \<longleftrightarrow> r = Ok () \<or> (\<exists>e. r = Err e \<and> errIs ErrHelp e)"
  by (cases r) (auto simp: main_def)

section \<open>The properties on concrete flags\<close>

definition demoFlags :: cliFlags where
  "demoFlags = \<lparr>flHelp = False, flVerbose = False, flCwd = ''.'', flAllFiles = False, flNoRecurse = False,
     flEntryPoint = ''shac.star'', flOnly = [], flSkip = [], flVars = [], flJsonOutput = [], flQuiet = False,
     flEmit = False\<rparr>"

definition demoCliEnv :: cliEnv where
  "demoCliEnv = \<lparr>ceGet = Ok [BasicReport], ceRun = (\<lambda>_. Ok ()), ceCloseErr = None, ceSarif = ''{}'',
     ceWriteFile = (\<lambda>_ _. None), ceFix = (\<lambda>opt noisy toWriter. Err (New (Name (if formatterFiltering (oFilter opt) = OnlyFormatters
       then CmdFmt else CmdFix)))), ceStdin = Ok [], ceDoc = (\<lambda>_. Ok []), ceWriteStdout = (\<lambda>_. None)\<rparr>"

theorem fmt_fix_partition_witness:
  "\<exists>opts. cliOptions demoFlags [''f''] = Ok opts \<and>
    (\<exists>fmtOpts. fmtCmd_Execute demoCliEnv demoFlags [''f''] = ceFix demoCliEnv fmtOpts False False \<and>
      CheckFilter_filter (oFilter fmtOpts) [demoCheck] = Ok [])"
proof -
  obtain opts where opts: "cliOptions demoFlags [''f''] = Ok opts" by (simp add: cliOptions_def demoFlags_def)
  have f: "\<not> flEmit demoFlags" "\<not> flQuiet demoFlags" by (simp_all add: demoFlags_def)
  from fmt_fix_partition[OF opts f(1), of demoCliEnv "[demoCheck]"] obtain fmtOpts allC fmtC fixC where
    h: "fmtCmd_Execute demoCliEnv demoFlags [''f''] = ceFix demoCliEnv fmtOpts False False"
      "CheckFilter_filter (oFilter opts) [demoCheck] = Ok allC" "CheckFilter_filter (oFilter fmtOpts) [demoCheck] = Ok fmtC"
      "mset allC = mset fmtC + mset fixC" "list_all (\<lambda>r. formatter (checkOf r)) fmtC"
    using f by auto
  have all_C: "allC = [demoCheck]" "\<not> formatter (checkOf demoCheck)"
    using h(2) opts by (auto simp: cliOptions_def demoFlags_def CheckFilter_filter_def demoCheck_def newRegistered_def split: if_splits)
  have "fmtC = []"
  proof (cases fmtC)
    case (Cons r rs)
    then have "r \<in># mset allC" using h(4) by simp
    then show ?thesis using all_C h(5) Cons by simp
  qed
  then show ?thesis using opts h by auto
qed

end
