(* ===== verification/Load_Env.thy ===== *)
theory Load_Env
  imports Go_Path
begin

text \<open>
  References to Starlark sources (internal/engine/env.go): how load() reads them, relative to the
  file that loads, and the keys of the table of sources. The lemmas show that keys are normal forms
  of references and that a reference to another package stays inside it.
\<close>

section \<open>References\<close>

record sourceKey =
  orig :: string
  pkg :: string
  skRelpath :: string

definition keyString :: "sourceKey \<Rightarrow> string" where
  "keyString s =
     (if pkg s = ''__main__'' then ''//'' @ skRelpath s else ''@'' @ pkg s @ ''//'' @ skRelpath s)"

fun refElems :: "string \<Rightarrow> string list \<Rightarrow> unit outcome" where
  "refElems s [] = Ok ()"
| "refElems s (p # ps) =
     (if p = ''internal''
      then Err (Errorf ''illegal external reference path containing \"internal\": %s'' [FStr s])
      else if p = ''..'' then Err (Errorf ''illegal external reference path containing \"..\": %s'' [FStr s])
      else if p = [] then Err (Errorf ''illegal external reference path containing \"//\": %s'' [FStr s])
      else refElems s ps)"

definition parseSourceKey :: "sourceKey \<Rightarrow> string \<Rightarrow> sourceKey outcome" where
  "parseSourceKey parent s =
     (if s = [] then Err (New ''empty reference'')
      else if HasPrefix s ''@'' then
        (case CutStr ''//'' (tl s) of
           None \<Rightarrow>
             if HasSuffix (tl s) ''/''
             then Err (Errorf ''illegal external reference trailing \"/\": %s'' [FStr s])
             else Ok \<lparr>orig = s, pkg = tl s, skRelpath = ''api.star''\<rparr>
         | Some (p, rel) \<Rightarrow>
             if rel = [] then Err (Errorf ''illegal external reference path empty: %s'' [FStr s])
             else bindO (refElems s (Split rel CHR ''/'')) (\<lambda>_.
                    Ok \<lparr>orig = s, pkg = p, skRelpath = rel\<rparr>))
      else Ok \<lparr>orig = s, pkg = pkg parent,
                 skRelpath = (if HasPrefix s ''//'' then drop 2 s
                              else Clean (PathJoin [Dir (skRelpath parent), s]))\<rparr>)"

section \<open>Keys are normal forms\<close>

lemma CutStr_Some: "CutStr sep s = Some (a, b) \<Longrightarrow> s = a @ sep @ b"
proof (induction s arbitrary: a)
  case Nil
  then show ?case by (auto split: if_splits)
next
  case (Cons x s)
  show ?case
  proof (cases "HasPrefix (x # s) sep")
    case True
    then obtain t where t: "x # s = sep @ t" by (rule HasPrefixE)
    have "a = [] \<and> b = drop (length sep) (x # s)" using Cons.prems True by auto
    then show ?thesis by (simp add: t)
  next
    case False
    then obtain a' where "CutStr sep s = Some (a', b)" "a = x # a'" using Cons.prems by auto
    then show ?thesis using Cons.IH by simp
  qed
qed

lemma CutStr_self: "CutStr sep (sep @ c) = Some ([], c)"
proof (cases "sep @ c")
  case (Cons y ys)
  have "HasPrefix (sep @ c) sep" by simp
  then have "HasPrefix (y # ys) sep" unfolding Cons .
  moreover have "drop (length sep) (y # ys) = c" unfolding Cons[symmetric] by simp
  ultimately show ?thesis unfolding Cons by simp
qed simp

lemma HasSuffix_last: "HasSuffix s [c] \<longleftrightarrow> s \<noteq> [] \<and> last s = c"
  by (cases s rule: rev_cases) (auto simp: HasSuffix_def)

lemma CutStr_again: "CutStr sep s = Some (a, b) \<Longrightarrow> CutStr sep (a @ sep @ c) = Some (a, c)"
proof (induction s arbitrary: a)
  case Nil
  then show ?case using CutStr_self[of sep c] by (auto split: if_splits)
next
  case (Cons x s)
  show ?case
  proof (cases "HasPrefix (x # s) sep")
    case True
    then have "a = []" using Cons.prems by simp
    then show ?thesis using CutStr_self by simp
  next
    case False
    then obtain a' where a': "CutStr sep s = Some (a', b)" "a = x # a'" using Cons.prems by auto
    have s: "x # s = a @ sep @ b" using CutStr_Some[OF Cons.prems] .
    have "\<not> HasPrefix (a @ sep @ c) sep"
    proof
      assume "HasPrefix (a @ sep @ c) sep"
      then have "take (length sep) (a @ sep @ c) = sep" by (simp add: HasPrefix_def)
      then have "take (length sep) (a @ sep @ b) = sep" by simp
      then have "HasPrefix (x # s) sep" unfolding s by (simp add: HasPrefix_def)
      then show False using False by simp
    qed
    then show ?thesis using Cons.IH[OF a'(1)] a'(2) by simp
  qed
qed

lemma CutStr_None_append: "CutStr ''//'' s = None \<Longrightarrow> \<not> HasSuffix s ''/'' \<Longrightarrow> CutStr ''//'' (s @ ''//'' @ c) = Some (s, c)"
proof (induction s)
  case Nil
  then show ?case by (simp add: HasPrefix_def)
next
  case (Cons x s)
  have n: "\<not> HasPrefix (x # s) ''//''" "CutStr ''//'' s = None" using Cons.prems(1) by (auto split: if_splits)
  have "\<not> HasPrefix (x # s @ ''//'' @ c) ''//''"
  proof (cases s)
    case Nil
    then have "x \<noteq> CHR ''/''" using Cons.prems(2) by (simp add: HasSuffix_last)
    then show ?thesis by (simp add: HasPrefix_def)
  next
    case (Cons y ys)
    then show ?thesis using n(1) by (simp add: HasPrefix_def)
  qed
  moreover have "\<not> HasSuffix s ''/''"
    using Cons.prems(2) by (auto simp: HasSuffix_last)
  ultimately show ?case using Cons.IH[OF n(2)] by simp
qed

lemma refElems_Ok: "refElems s ps = Ok u \<longleftrightarrow> (\<forall>p \<in> set ps. p \<noteq> ''internal'' \<and> p \<noteq> ''..'' \<and> p \<noteq> [])"
  by (induction ps) auto

lemma refElems_any: "refElems s ps = Ok u \<Longrightarrow> refElems s' ps = Ok u"
  by (simp add: refElems_Ok)

section \<open>Properties\<close>

text \<open>C35. A reference to another package that is accepted names a file inside that package: no element
  of its path is empty, ".." or "internal"; and the key of a source is a normal form: parsing it
  from anywhere gives the same package and path again, so one source has one key.\<close>

theorem external_reference_safe:
  assumes "parseSourceKey parent s = Ok sk" and "HasPrefix s ''@''" and "pkg sk \<noteq> ''__main__''"
  shows "(\<forall>e \<in> set (Split (skRelpath sk) CHR ''/''). e \<noteq> [] \<and> e \<noteq> ''..'' \<and> e \<noteq> ''internal'') \<and>
    parseSourceKey parent' (keyString sk) = Ok (sk\<lparr>orig := keyString sk\<rparr>)"
proof (cases "CutStr ''//'' (tl s)")
  case None
  then have sk: "sk = \<lparr>orig = s, pkg = tl s, skRelpath = ''api.star''\<rparr>" "\<not> HasSuffix (tl s) ''/''"
    using assms(1,2) by (auto simp: parseSourceKey_def split: if_splits)
  then have key: "keyString sk = ''@'' @ tl s @ ''//'' @ ''api.star''" using assms(3) by (simp add: keyString_def)
  have "CutStr ''//'' (tl (keyString sk)) = Some (tl s, ''api.star'')"
    unfolding key using CutStr_None_append[OF None sk(2), of "''api.star''"] by simp
  moreover have "HasPrefix (keyString sk) ''@''" unfolding key by (simp add: HasPrefix_def)
  moreover have "keyString sk \<noteq> []" unfolding key by simp
  ultimately show ?thesis using sk by (simp add: parseSourceKey_def refElems_Ok[of _ _ "()"])
next
  case (Some pr)
  then obtain p rel where pr: "CutStr ''//'' (tl s) = Some (p, rel)" by (cases pr) auto
  then have sk: "sk = \<lparr>orig = s, pkg = p, skRelpath = rel\<rparr>" "rel \<noteq> []"
    and el: "refElems s (Split rel CHR ''/'') = Ok ()"
    using assms(1,2) by (auto simp: parseSourceKey_def go_out split: if_splits)
  then have key: "keyString sk = ''@'' @ p @ ''//'' @ rel" using assms(3) by (simp add: keyString_def)
  have "CutStr ''//'' (tl (keyString sk)) = Some (p, rel)"
    unfolding key using CutStr_again[OF pr, of rel] by simp
  moreover have "HasPrefix (keyString sk) ''@''" unfolding key by (simp add: HasPrefix_def)
  moreover have "keyString sk \<noteq> []" unfolding key by simp
  ultimately show ?thesis
    using sk el refElems_any[OF el, of "keyString sk"] by (simp add: parseSourceKey_def refElems_Ok[of s])
qed

text \<open>A file of the project, loaded by its root relative reference.\<close>

definition mainKey :: "string \<Rightarrow> sourceKey" where
  "mainKey p = \<lparr>orig = ''//'' @ p, pkg = ''__main__'', skRelpath = p\<rparr>"

lemma mainKey_eval [simp]:
  "keyString (mainKey p) = ''//'' @ p" "skRelpath (mainKey p) = p"
  "parseSourceKey (mainKey q) (''//'' @ p) = Ok (mainKey p)"
  by (simp_all add: mainKey_def keyString_def parseSourceKey_def HasPrefix_def)

section \<open>The properties on concrete references\<close>

theorem external_reference_safe_witness:
  "parseSourceKey (mainKey ''x'') ''@lib//d/f.star'' = Ok \<lparr>orig = ''@lib//d/f.star'', pkg = ''lib'', skRelpath = ''d/f.star''\<rparr>"
proof -
  let ?sk = "\<lparr>orig = ''@lib//d/f.star'', pkg = ''lib'', skRelpath = ''d/f.star''\<rparr>"
  have "parseSourceKey (mainKey ''x'') ''@lib//d/f.star'' = Ok ?sk"
    by (simp add: parseSourceKey_def HasPrefix_def)
  from external_reference_safe[OF this, of "mainKey ''x''"] show ?thesis
    by (simp add: HasPrefix_def keyString_def)
qed

end
