(* ===== verification/Docgen.thy ===== *)
theory Docgen
  imports Pkg Load_Env
begin

text \<open>
  The documentation generator (internal/engine/docgen.go): the choice of the source, its packages,
  the template it builds, and the two callbacks by which the renderer, a third-party library, finds
  other sources. The library that parses a module and the one that renders a template are
  parameters, as are the file system and strconv.Quote.
\<close>

section \<open>The callbacks of the renderer\<close>

definition docNormalize :: "sourceKey \<Rightarrow> string \<Rightarrow> string \<Rightarrow> string outcome" where
  "docNormalize parent p s =
     bindO (parseSourceKey parent p) (\<lambda>skp.
     bindO (parseSourceKey skp s) (\<lambda>sks. Ok (keyString sks)))"

text \<open>Opening and reading a file of a package, given by its directory.\<close>

type_synonym packageFiles = "string \<Rightarrow> string \<Rightarrow> string outcome"

definition getStarlark :: "packageFiles \<Rightarrow> packages \<Rightarrow> string \<Rightarrow> string outcome" where
  "getStarlark openFile pkgs m =
     bindO
       (if HasPrefix m ''@'' then
          (case CutStr ''//'' (tl m) of
             None \<Rightarrow> Panic ''index out of range''
           | Some (p, rel) \<Rightarrow> Ok (p, rel))
        else if HasPrefix m ''//'' then Ok (''__main__'', drop 2 m)
        else Ok (''__main__'', []))
       (\<lambda>(p, rel).
          case pkgs p of
            None \<Rightarrow> Err (Errorf ''package %s not found'' [FStr p])
          | Some fsys \<Rightarrow>
              (case openFile fsys rel of
                 Err e \<Rightarrow> if isNotExist e then Err (New ''file not found'') else Err e
               | other \<Rightarrow> other))"

section \<open>The template\<close>

definition symbolLoads :: "(string \<Rightarrow> string) \<Rightarrow> string \<Rightarrow> string list \<Rightarrow> string" where
  "symbolLoads quote src syms =
     concat (map (\<lambda>(i, n). ''{{- $sym'' @ Itoa (int i) @ '' := Symbol '' @ quote src @ '' '' @ quote n @ '' }}'')
       (enumerate 0 syms))"

definition tocEntry :: "bool \<Rightarrow> string \<Rightarrow> string" where
  "tocEntry isStdlib n =
     (let name = (if isStdlib then TrimSuffix n ''_'' else n)
      in ''- ['' @ name @ ''](#'' @ name @ '')'' @ [CHR 0x0A])"

definition docTemplate :: "(string \<Rightarrow> string) \<Rightarrow> string \<Rightarrow> string \<Rightarrow> string list \<Rightarrow> bool \<Rightarrow> string" where
  "docTemplate quote src d syms isStdlib =
     symbolLoads quote src syms @
     (if d \<noteq> [] then ''# '' @ TrimSpace d else ''# '' @ src) @
     (if syms \<noteq> []
      then [CHR 0x0A, CHR 0x0A] @ ''## Table of contents'' @ [CHR 0x0A, CHR 0x0A] @
        concat (map (tocEntry isStdlib) syms)
      else []) @
     concat (map (\<lambda>(i, n). [CHR 0x0A] @ ''{{ template \"gen-any\" $sym'' @ Itoa (int i) @ ''}}'' @ [CHR 0x0A])
       (enumerate 0 syms))"

section \<open>Generating\<close>

record docModule =
  dmNodes :: "string list"
  dmDoc :: string

record docEnv =
  dcStdlibSrc :: string
  dcTemplate :: string
  dcAbs :: "string \<Rightarrow> string outcome"
  dcReadFile :: "string \<Rightarrow> string outcome"
  dcMkdirTemp :: "string outcome"
  dcRemoveAll :: "err option"
  dcParseModule :: "string \<Rightarrow> string \<Rightarrow> docModule outcome"
  dcUnmarshal :: "string \<Rightarrow> Document outcome"
  dcPkg :: pkgEnv
  dcOpen :: packageFiles
  dcQuote :: "string \<Rightarrow> string"
  dcRender :: "(string \<Rightarrow> string \<Rightarrow> string outcome) \<Rightarrow> (string \<Rightarrow> string outcome) \<Rightarrow> string \<Rightarrow> string outcome"

definition docPackages :: "docEnv \<Rightarrow> string \<Rightarrow> string \<Rightarrow> bool \<Rightarrow> packages outcome" where
  "docPackages env tmpd root isStdlib =
     (if isStdlib then Ok Map.empty
      else case dcReadFile env (PathJoin [root, ''shac.textproto'']) of
          Ok b \<Rightarrow>
            bindO (dcUnmarshal env b) (\<lambda>doc.
            bindO (Document_Validate (pkUrls (dcPkg env)) doc) (\<lambda>_.
              fst (RetrievePackages (dcPkg env) tmpd root doc)))
        | Err e \<Rightarrow> if \<not> isNotExist e then Err e else Ok [''__main__'' \<mapsto> root]
        | Panic m \<Rightarrow> Panic m)"

definition docSyms :: "docModule \<Rightarrow> string list" where
  "docSyms m = filter (\<lambda>n. \<not> HasPrefix n ''_'') (dmNodes m)"

definition genDoc :: "docEnv \<Rightarrow> string \<Rightarrow> string \<Rightarrow> string \<Rightarrow> bool \<Rightarrow> string outcome" where
  "genDoc env tmpd src content isStdlib =
     bindO (dcParseModule env src content) (\<lambda>m.
     bindO (docPackages env tmpd (Dir src) isStdlib) (\<lambda>pkgs.
       dcRender env
         (docNormalize \<lparr>orig = [], pkg = ''__main__'', skRelpath = src\<rparr>)
         (\<lambda>k. if k = src then Ok content else getStarlark (dcOpen env) pkgs k)
         (dcTemplate env @ docTemplate (dcQuote env) src (dmDoc m) (docSyms m) isStdlib)))"

definition docSource :: "docEnv \<Rightarrow> string \<Rightarrow> (string \<times> string \<times> bool) outcome" where
  "docSource env src =
     (if src = ''stdlib'' then Ok (''stdlib.star'', dcStdlibSrc env, True)
      else if HasPrefix src ''@'' then Err (New ''todo: implement @module'')
      else if \<not> HasSuffix src ''.star'' then Err (New ''invalid source file name, expecting .star suffix'')
      else bindO (dcAbs env src) (\<lambda>p.
           case dcReadFile env p of
             Err e \<Rightarrow> if isNotExist e then Err (Errorf ''file %s not found'' [FStr p]) else Err e
           | Panic m \<Rightarrow> Panic m
           | Ok b \<Rightarrow> Ok (p, b, False)))"

text \<open>The directories it removed, with the text.\<close>

definition Doc :: "docEnv \<Rightarrow> string \<Rightarrow> string list \<times> string outcome" where
  "Doc env src0 =
     (case bindO (docSource env src0) (\<lambda>s. bindO (dcMkdirTemp env) (\<lambda>t. Ok (s, t))) of
        Err e \<Rightarrow> ([], Err e)
      | Panic m \<Rightarrow> ([], Panic m)
      | Ok ((src, content, isStdlib), tmpd) \<Rightarrow>
          (case genDoc env tmpd src content isStdlib of
             Panic m \<Rightarrow> ([], Panic m)
           | Err e \<Rightarrow> ([tmpd], Err e)
           | Ok d \<Rightarrow> ([tmpd], case dcRemoveAll env of None \<Rightarrow> Ok d | Some e \<Rightarrow> Err e)))"

section \<open>The callbacks agree\<close>

text \<open>The names of packages that references can give: they can be cut off again.\<close>

definition cutPkg :: "string \<Rightarrow> bool" where
  "cutPkg p \<longleftrightarrow> (\<forall>rel. CutStr ''//'' (p @ ''//'' @ rel) = Some (p, rel))"

lemma parseSourceKey_cutPkg:
  assumes "parseSourceKey parent s = Ok k" and "cutPkg (pkg parent)"
  shows "cutPkg (pkg k)"
proof (cases "HasPrefix s ''@''")
  case False
  then show ?thesis using assms by (auto simp: parseSourceKey_def split: if_splits)
next
  case True
  show ?thesis
  proof (cases "CutStr ''//'' (tl s)")
    case None
    then have "pkg k = tl s" "\<not> HasSuffix (tl s) ''/''" using assms(1) True by (auto simp: parseSourceKey_def split: if_splits)
    then show ?thesis using CutStr_None_append[OF None] by (simp add: cutPkg_def)
  next
    case (Some pr)
    obtain p rel where pr: "pr = (p, rel)" by fastforce
    then have "pkg k = p" using assms(1) True Some by (auto simp: parseSourceKey_def bindO_eq_Ok split: if_splits)
    then show ?thesis using CutStr_again[OF Some[unfolded pr]] by (simp add: cutPkg_def)
  qed
qed

lemma getStarlark_key:
  assumes "cutPkg (pkg k)"
  shows "getStarlark openFile pkgs (keyString k) =
    (case pkgs (pkg k) of
       None \<Rightarrow> Err (Errorf ''package %s not found'' [FStr (pkg k)])
     | Some fsys \<Rightarrow>
         (case openFile fsys (skRelpath k) of
            Err e \<Rightarrow> if isNotExist e then Err (New ''file not found'') else Err e
          | other \<Rightarrow> other))"
proof (cases "pkg k = ''__main__''")
  case True
  then show ?thesis by (simp add: getStarlark_def keyString_def HasPrefix_def split: option.split)
next
  case False
  have "CutStr ''//'' (tl (keyString k)) = Some (pkg k, skRelpath k)"
    using assms False unfolding cutPkg_def by (simp add: keyString_def)
  moreover have "HasPrefix (keyString k) ''@''" using False by (simp add: keyString_def HasPrefix_def)
  ultimately show ?thesis by (simp add: getStarlark_def)
qed

text \<open>The two callbacks agree: a reference that normalises is, in its normal form, looked up in the
  package it names and at the path it names in it, and never makes the lookup panic.\<close>

theorem doc_references_resolve:
  assumes "docNormalize \<lparr>orig = [], pkg = ''__main__'', skRelpath = src\<rparr> p s = Ok m"
  shows "\<exists>skp k. parseSourceKey \<lparr>orig = [], pkg = ''__main__'', skRelpath = src\<rparr> p = Ok skp \<and>
    parseSourceKey skp s = Ok k \<and> m = keyString k \<and>
    getStarlark openFile pkgs m =
      (case pkgs (pkg k) of
         None \<Rightarrow> Err (Errorf ''package %s not found'' [FStr (pkg k)])
       | Some fsys \<Rightarrow>
           (case openFile fsys (skRelpath k) of
              Err e \<Rightarrow> if isNotExist e then Err (New ''file not found'') else Err e
            | other \<Rightarrow> other))"
proof -
  let ?parent = "\<lparr>orig = [], pkg = ''__main__'', skRelpath = src\<rparr>"
  obtain skp k where k: "parseSourceKey ?parent p = Ok skp" "parseSourceKey skp s = Ok k" "m = keyString k"
    using assms by (auto simp: docNormalize_def bindO_eq_Ok)
  have none: "CutStr ''//'' ''__main__'' = None" "\<not> HasSuffix ''__main__'' ''/''" by (simp_all add: HasPrefix_def HasSuffix_def)
  have "cutPkg ''__main__''" unfolding cutPkg_def using CutStr_None_append[OF none] by blast
  then have "cutPkg (pkg ?parent)" by (simp only: sourceKey.simps)
  then have "cutPkg (pkg k)" using k(1,2) parseSourceKey_cutPkg by blast
  from getStarlark_key[OF this] show ?thesis using k by blast
qed

text \<open>Without the normal form it does panic: "@pkg" has no "//" to split at.\<close>

lemma getStarlark_panics: "getStarlark openFile pkgs ''@pkg'' = Panic ''index out of range''"
  by (simp add: getStarlark_def HasPrefix_def)

text \<open>Only names of .star files and "stdlib" are documented.\<close>

lemma docSource_named:
  "docSource env src = Ok r \<Longrightarrow> src = ''stdlib'' \<or> HasSuffix src ''.star''"
  by (auto simp: docSource_def split: if_splits)

theorem doc_references_resolve_witness:
  "docNormalize \<lparr>orig = [], pkg = ''__main__'', skRelpath = ''/r/a.star''\<rparr> ''@lib//d/f.star'' ''g.star'' = Ok ''@lib//d/g.star'' \<and>
   getStarlark (\<lambda>d r. Ok (d @ ''!'' @ r)) [''lib'' \<mapsto> ''/v''] ''@lib//d/g.star'' = Ok ''/v!d/g.star''"
proof -
  let ?parent = "\<lparr>orig = [], pkg = ''__main__'', skRelpath = ''/r/a.star''\<rparr>"
  have p: "parseSourceKey ?parent ''@lib//d/f.star'' = Ok \<lparr>orig = ''@lib//d/f.star'', pkg = ''lib'', skRelpath = ''d/f.star''\<rparr>"
    by (simp add: parseSourceKey_def HasPrefix_def)
  have j: "Clean (PathJoin [Dir ''d/f.star'', ''g.star'']) = ''d/g.star''" by code_simp
  have s: "parseSourceKey \<lparr>orig = ''@lib//d/f.star'', pkg = ''lib'', skRelpath = ''d/f.star''\<rparr> ''g.star'' =
      Ok \<lparr>orig = ''g.star'', pkg = ''lib'', skRelpath = ''d/g.star''\<rparr>"
    using j by (simp add: parseSourceKey_def HasPrefix_def)
  have n: "docNormalize ?parent ''@lib//d/f.star'' ''g.star'' = Ok ''@lib//d/g.star''"
    by (simp add: docNormalize_def p s keyString_def)
  from doc_references_resolve[OF n, of "\<lambda>d r. Ok (d @ ''!'' @ r)" "[''lib'' \<mapsto> ''/v'']"]
  have "getStarlark (\<lambda>d r. Ok (d @ ''!'' @ r)) [''lib'' \<mapsto> ''/v''] ''@lib//d/g.star'' = Ok ''/v!d/g.star''"
    unfolding p outcome.inject by (elim exE conjE) (use s in simp)
  then show ?thesis using n by blast
qed

end
