(* ===== verification/Execsupport.thy ===== *)
theory Execsupport
  imports Sandbox Step_System
begin

text \<open>
  The lock around the starting of processes (internal/execsupport) and its only writer, the
  constructor of the sandbox (sandbox.New), which writes the nsjail executable. A process that is
  forked while another goroutine has that file open for writing inherits the open handle until it
  calls exec, and as long as any process has the file open for writing, running it fails with
  ETXTBSY. The calls of Run and New are split into the steps between which other goroutines can run.
  The bytes of nsjail, the answers of the system and the commands are parameters.
\<close>

section \<open>The lock\<close>

text \<open>
  sync.RWMutex: the goroutines that hold it for reading, and the writer that has announced itself,
  which keeps new readers and other writers out and has the lock once the readers are gone.
\<close>

record rwMutex =
  rwReaders :: "nat set"
  rwWriter :: "nat option"

definition unlockedMu :: rwMutex where
  "unlockedMu = \<lparr>rwReaders = {}, rwWriter = None\<rparr>"

definition RLock :: "nat \<Rightarrow> rwMutex \<Rightarrow> rwMutex option" where
  "RLock t m = (if rwWriter m = None then Some (m\<lparr>rwReaders := insert t (rwReaders m)\<rparr>) else None)"

definition RUnlock :: "nat \<Rightarrow> rwMutex \<Rightarrow> rwMutex" where
  "RUnlock t m = m\<lparr>rwReaders := rwReaders m - {t}\<rparr>"

definition announceLock :: "nat \<Rightarrow> rwMutex \<Rightarrow> rwMutex option" where
  "announceLock t m = (if rwWriter m = None then Some (m\<lparr>rwWriter := Some t\<rparr>) else None)"

definition acquireLock :: "nat \<Rightarrow> rwMutex \<Rightarrow> rwMutex option" where
  "acquireLock t m = (if rwWriter m = Some t \<and> rwReaders m = {} then Some m else None)"

definition Unlock :: "rwMutex \<Rightarrow> rwMutex" where
  "Unlock m = m\<lparr>rwWriter := None\<rparr>"

section \<open>Run and New in steps\<close>

text \<open>The sandboxes that New chooses from, and the command each builds.\<close>

datatype sandbox = NsjailSandbox string | MacSandbox | GenericSandbox

fun sandbox_Command ::
    "nat \<Rightarrow> linkView \<Rightarrow> (Mount list \<Rightarrow> Mount list) \<Rightarrow> sandbox \<Rightarrow> sandboxConfig \<Rightarrow> command option" where
  "sandbox_Command n lv sortM (NsjailSandbox p) c = nsjailCommand n lv sortM p c"
| "sandbox_Command n lv sortM MacSandbox c = Some (macCommand c)"
| "sandbox_Command n lv sortM GenericSandbox c = Some (genericCommand c)"

text \<open>
  Where a goroutine is in its call. Of Run: before the lock, before the fork, in the child before
  exec, waiting for the child, and before the unlock with the error of cmd.Run. Of New: before the
  lock, waiting for the readers, and before OpenFile, Write, Close and the unlock.
\<close>

datatype goPc =
    RunEnter command | RunFork command | RunExec command | RunWait command | RunLeave "err option"
  | NewEnter string string string | NewLock string | NewOpen string | NewWrite string
  | NewClose string "err option" | NewLeave "err + sandbox"
  | RunDone "err option" | NewDone "err + sandbox"

text \<open>
  What the calls share: the lock, the files, the handles open for writing in this process, with
  the goroutine that opened them, and the copies of handles that children hold.
\<close>

record procState =
  psMu :: rwMutex
  psDisk :: "string \<Rightarrow> string option"
  psWriting :: "(nat \<times> string) list"
  psInherited :: "(nat \<times> string) list"

text \<open>
  The answers of the system in one step: the error of its call, how many bytes were written before
  it, and the context's error.
\<close>

record sysAnswer =
  saErr :: "err option"
  saWritten :: nat
  saCtx :: "err option"

definition textFileBusy :: err where
  "textFileBusy = New ''text file busy''"

definition openForWriting :: "procState \<Rightarrow> string \<Rightarrow> bool" where
  "openForWriting s p \<longleftrightarrow> p \<in> snd ` set (psWriting s) \<union> snd ` set (psInherited s)"

text \<open>Run prefers the error of the context to the error of the command.\<close>

definition runError :: "err option \<Rightarrow> err option \<Rightarrow> err option" where
  "runError e ctxErr = (if e \<noteq> None \<and> ctxErr \<noteq> None then ctxErr else e)"

fun runStep :: "sysAnswer \<Rightarrow> nat \<Rightarrow> goPc \<Rightarrow> procState \<Rightarrow> (goPc \<times> procState) option" where
  "runStep a t (RunEnter c) s = map_option (\<lambda>m. (RunFork c, s\<lparr>psMu := m\<rparr>)) (RLock t (psMu s))"
| "runStep a t (RunFork c) s =
     (case saErr a of
        Some e \<Rightarrow> Some (RunLeave (Some e), s)
      | None \<Rightarrow> Some (RunExec c, s\<lparr>psInherited := map (\<lambda>h. (t, snd h)) (psWriting s) @ psInherited s\<rparr>))"
| "runStep a t (RunExec c) s =
     (let e = (if openForWriting s (cmdPath c) then Some textFileBusy else saErr a);
          s' = s\<lparr>psInherited := filter (\<lambda>h. fst h \<noteq> t) (psInherited s)\<rparr>
      in case e of Some e \<Rightarrow> Some (RunLeave (Some e), s') | None \<Rightarrow> Some (RunWait c, s'))"
| "runStep a t (RunWait c) s = Some (RunLeave (saErr a), s)"
| "runStep a t (RunLeave e) s = Some (RunDone (runError e (saCtx a)), s\<lparr>psMu := RUnlock t (psMu s)\<rparr>)"
| "runStep a t pc s = None"

text \<open>Writing from the start of a file that is not truncated leaves what is behind.\<close>

definition overwrite :: "string \<Rightarrow> string \<Rightarrow> string" where
  "overwrite b old = b @ drop (length b) old"

fun newStep ::
    "string \<Rightarrow> sysAnswer \<Rightarrow> nat \<Rightarrow> goPc \<Rightarrow> procState \<Rightarrow> (goPc \<times> procState) option" where
  "newStep bytes a t (NewEnter goos arch tempDir) s =
     (if goos = ''linux'' \<and> (arch = ''amd64'' \<or> arch = ''arm64'') then
        map_option (\<lambda>m. (NewLock (PathJoin [tempDir, ''nsjail'']), s\<lparr>psMu := m\<rparr>)) (announceLock t (psMu s))
      else if goos = ''darwin'' then Some (NewDone (Inr MacSandbox), s)
      else Some (NewDone (Inr GenericSandbox), s))"
| "newStep bytes a t (NewLock p) s = map_option (\<lambda>m. (NewOpen p, s\<lparr>psMu := m\<rparr>)) (acquireLock t (psMu s))"
| "newStep bytes a t (NewOpen p) s =
     (case saErr a of
        Some e \<Rightarrow> Some (NewLeave (Inl e), s)
      | None \<Rightarrow> Some (NewWrite p,
          s\<lparr>psWriting := (t, p) # psWriting s,
            psDisk := (psDisk s)(p \<mapsto> (case psDisk s p of None \<Rightarrow> [] | Some old \<Rightarrow> old))\<rparr>))"
| "newStep bytes a t (NewWrite p) s =
     (let b = (if saErr a = None then bytes else take (saWritten a) bytes)
      in Some (NewClose p (saErr a), s\<lparr>psDisk := (psDisk s)(p \<mapsto> overwrite b (the (psDisk s p)))\<rparr>))"
| "newStep bytes a t (NewClose p err) s =
     (let err' = (if err = None then saErr a else err)
      in Some (NewLeave (case err' of Some e \<Rightarrow> Inl e | None \<Rightarrow> Inr (NsjailSandbox p)),
           s\<lparr>psWriting := filter (\<lambda>h. fst h \<noteq> t) (psWriting s)\<rparr>))"
| "newStep bytes a t (NewLeave r) s = Some (NewDone r, s\<lparr>psMu := Unlock (psMu s)\<rparr>)"
| "newStep bytes a t pc s = None"

section \<open>Goroutines side by side\<close>

record procWorld =
  pwPcs :: "goPc list"
  pwState :: procState

inductive pstep :: "string \<Rightarrow> procWorld \<Rightarrow> procWorld \<Rightarrow> bool" for bytes where
  run: "t < length (pwPcs w) \<Longrightarrow> runStep a t (pwPcs w ! t) (pwState w) = Some (pc, s) \<Longrightarrow>
    pstep bytes w \<lparr>pwPcs = (pwPcs w)[t := pc], pwState = s\<rparr>"
| new: "t < length (pwPcs w) \<Longrightarrow> newStep bytes a t (pwPcs w ! t) (pwState w) = Some (pc, s) \<Longrightarrow>
    pstep bytes w \<lparr>pwPcs = (pwPcs w)[t := pc], pwState = s\<rparr>"

text \<open>At the start every goroutine is about to call Run or New; the files are arbitrary.\<close>

fun isCall :: "goPc \<Rightarrow> bool" where
  "isCall (RunEnter c) = True"
| "isCall (NewEnter goos arch td) = True"
| "isCall pc = False"

fun hasReturned :: "goPc \<Rightarrow> bool" where
  "hasReturned (RunDone e) = True"
| "hasReturned (NewDone r) = True"
| "hasReturned pc = False"

definition startCalls :: "(string \<Rightarrow> string option) \<Rightarrow> goPc list \<Rightarrow> procWorld" where
  "startCalls disk calls =
     \<lparr>pwPcs = calls, pwState = \<lparr>psMu = unlockedMu, psDisk = disk, psWriting = [], psInherited = []\<rparr>\<rparr>"

section \<open>The invariant of the lock\<close>

fun holdsRead :: "goPc \<Rightarrow> bool" where
  "holdsRead (RunFork c) = True"
| "holdsRead (RunExec c) = True"
| "holdsRead (RunWait c) = True"
| "holdsRead (RunLeave e) = True"
| "holdsRead pc = False"

fun insideNew :: "goPc \<Rightarrow> bool" where
  "insideNew (NewOpen p) = True"
| "insideNew (NewWrite p) = True"
| "insideNew (NewClose p e) = True"
| "insideNew (NewLeave r) = True"
| "insideNew pc = False"

fun holdsWrite :: "goPc \<Rightarrow> bool" where
  "holdsWrite (NewLock p) = True"
| "holdsWrite pc = insideNew pc"

fun opened :: "goPc \<Rightarrow> string option" where
  "opened (NewWrite p) = Some p"
| "opened (NewClose p e) = Some p"
| "opened pc = None"

text \<open>The executables that a goroutine has written without an error.\<close>

fun promised :: "goPc \<Rightarrow> string option" where
  "promised (NewClose p None) = Some p"
| "promised (NewLeave (Inr (NsjailSandbox p))) = Some p"
| "promised (NewDone (Inr (NsjailSandbox p))) = Some p"
| "promised pc = None"

definition wholeFile :: "string \<Rightarrow> procState \<Rightarrow> string \<Rightarrow> bool" where
  "wholeFile bytes s p \<longleftrightarrow> (\<exists>rest. psDisk s p = Some (bytes @ rest))"

definition pcInv :: "string \<Rightarrow> nat \<Rightarrow> goPc \<Rightarrow> procState \<Rightarrow> bool" where
  "pcInv bytes t pc s \<longleftrightarrow>
     (holdsRead pc \<longleftrightarrow> t \<in> rwReaders (psMu s)) \<and> (holdsWrite pc \<longleftrightarrow> rwWriter (psMu s) = Some t) \<and>
     (insideNew pc \<longrightarrow> rwReaders (psMu s) = {}) \<and>
     (\<forall>p. opened pc = Some p \<longrightarrow> psDisk s p \<noteq> None) \<and> (\<forall>p. promised pc = Some p \<longrightarrow> wholeFile bytes s p)"

text \<open>What a step of one goroutine leaves to the others.\<close>

definition stepContract :: "string \<Rightarrow> nat \<Rightarrow> procState \<Rightarrow> procState \<Rightarrow> bool" where
  "stepContract bytes t s s' \<longleftrightarrow>
     (\<forall>u. u \<noteq> t \<longrightarrow> (u \<in> rwReaders (psMu s') \<longleftrightarrow> u \<in> rwReaders (psMu s)) \<and>
        (rwWriter (psMu s') = Some u \<longleftrightarrow> rwWriter (psMu s) = Some u)) \<and>
     (rwWriter (psMu s) \<noteq> None \<longrightarrow> rwReaders (psMu s') \<subseteq> rwReaders (psMu s)) \<and>
     (\<forall>p. psDisk s p \<noteq> None \<longrightarrow> psDisk s' p \<noteq> None) \<and> (\<forall>p. wholeFile bytes s p \<longrightarrow> wholeFile bytes s' p)"

lemma insideNew_writes: "insideNew pc \<Longrightarrow> holdsWrite pc"
  by (cases pc) auto

lemma contract_keeps_others:
  assumes "stepContract bytes t s s'" and "pcInv bytes u pc s" and "u \<noteq> t"
  shows "pcInv bytes u pc s'"
  using assms insideNew_writes[of pc] by (auto simp: stepContract_def pcInv_def)

text \<open>The handles after a step: those of the others as before, and the goroutine's own.\<close>

definition ownHandles :: "nat \<Rightarrow> goPc \<Rightarrow> procState \<Rightarrow> procState \<Rightarrow> bool" where
  "ownHandles t pc s s' \<longleftrightarrow>
     (\<forall>h \<in> set (psWriting s'). if fst h = t then opened pc = Some (snd h) else h \<in> set (psWriting s))"

lemmas runStep_out = RLock_def RUnlock_def stepContract_def ownHandles_def pcInv_def wholeFile_def Let_def

lemma runStep_contract:
  assumes "runStep a t pc s = Some (pc', s')" and "pcInv bytes t pc s" and "psInherited s = []"
    and "\<forall>h \<in> set (psWriting s). fst h = t \<longrightarrow> opened pc = Some (snd h)"
  shows "stepContract bytes t s s' \<and> pcInv bytes t pc' s' \<and> ownHandles t pc' s s' \<and>
    ((holdsRead pc \<longrightarrow> psWriting s = []) \<longrightarrow> psInherited s' = [])"
  using assms by (cases "(a, t, pc, s)" rule: runStep.cases) (auto simp: runStep_out split: if_splits option.splits)

text \<open>Writing the executable, or its beginning, over the whole executable changes nothing.\<close>

lemma overwrite_whole: "overwrite (take k bytes) (bytes @ rest) = bytes @ rest"
proof -
  have "take k bytes @ drop (length (take k bytes)) bytes = bytes"
    by (metis append_take_drop_id drop_all length_take linorder_le_cases min_def take_all)
  then show ?thesis by (simp add: overwrite_def)
qed

lemma promised_done [simp]: "promised (NewDone r) = promised (NewLeave r)"
  by (cases "NewLeave r" rule: promised.cases) auto

lemma write_keeps_whole:
  assumes "wholeFile bytes s p" and "s' = s\<lparr>psDisk := (psDisk s)(q \<mapsto> overwrite (take k bytes) (the (psDisk s q)))\<rparr>"
  shows "wholeFile bytes s' p"
  using assms by (auto simp: wholeFile_def overwrite_whole)

lemma newStep_contract:
  assumes "newStep bytes a t pc s = Some (pc', s')" and "pcInv bytes t pc s" and "psInherited s = []"
    and "\<forall>h \<in> set (psWriting s). fst h = t \<longrightarrow> opened pc = Some (snd h)"
  shows "stepContract bytes t s s' \<and> pcInv bytes t pc' s' \<and> ownHandles t pc' s s' \<and> psInherited s' = []"
proof (cases "\<exists>p. pc = NewWrite p")
  case True
  then obtain p where pc: "pc = NewWrite p" by blast
  have "s' = s\<lparr>psDisk := (psDisk s)(p \<mapsto> overwrite (take (if saErr a = None then length bytes else saWritten a) bytes)
      (the (psDisk s p)))\<rparr>" and pc': "pc' = NewClose p (saErr a)"
    using assms(1) by (auto simp: pc Let_def)
  note w = this(1)
  have "wholeFile bytes s' p" if "saErr a = None"
    using that by (simp add: w wholeFile_def overwrite_def)
  then have "promised pc' = Some q \<longrightarrow> wholeFile bytes s' q" for q
    by (cases "saErr a") (auto simp: pc')
  moreover have "wholeFile bytes s q \<longrightarrow> wholeFile bytes s' q" for q using write_keeps_whole[OF _ w] by blast
  ultimately show ?thesis using assms(2-4)
    by (auto simp: pc pc' w stepContract_def pcInv_def ownHandles_def)
next
  case False
  then show ?thesis using assms
    by (cases "(bytes, a, t, pc, s)" rule: newStep.cases)
      (auto simp: stepContract_def ownHandles_def pcInv_def wholeFile_def Let_def announceLock_def acquireLock_def
        Unlock_def split: if_splits option.splits)
qed

text \<open>The invariant of all goroutines.\<close>

definition procInv :: "string \<Rightarrow> procWorld \<Rightarrow> bool" where
  "procInv bytes w \<longleftrightarrow>
     (\<forall>t < length (pwPcs w). pcInv bytes t (pwPcs w ! t) (pwState w)) \<and>
     (\<forall>t \<in> rwReaders (psMu (pwState w)). t < length (pwPcs w)) \<and>
     (\<forall>t. rwWriter (psMu (pwState w)) = Some t \<longrightarrow> t < length (pwPcs w)) \<and>
     psInherited (pwState w) = [] \<and>
     (\<forall>h \<in> set (psWriting (pwState w)). fst h < length (pwPcs w) \<and> opened (pwPcs w ! fst h) = Some (snd h))"

lemma opened_inside: "opened pc = Some p \<Longrightarrow> insideNew pc"
  by (cases pc) auto

text \<open>While a goroutine may fork, no file is open for writing.\<close>

lemma reader_no_writing:
  assumes "procInv bytes w" and "t < length (pwPcs w)" and "holdsRead (pwPcs w ! t)"
  shows "psWriting (pwState w) = []"
proof (cases "psWriting (pwState w)")
  case (Cons h hs)
  then have "fst h < length (pwPcs w)" and "insideNew (pwPcs w ! fst h)"
    using assms(1) opened_inside by (auto simp: procInv_def)
  then have "rwReaders (psMu (pwState w)) = {}" using assms(1) by (auto simp: procInv_def pcInv_def)
  then show ?thesis using assms by (auto simp: procInv_def pcInv_def)
qed

lemma contract_inv:
  assumes inv: "procInv bytes w" and t: "t < length (pwPcs w)"
    and c: "stepContract bytes t (pwState w) s" "pcInv bytes t pc s" "ownHandles t pc (pwState w) s" "psInherited s = []"
  shows "procInv bytes \<lparr>pwPcs = (pwPcs w)[t := pc], pwState = s\<rparr>"
proof -
  have "pcInv bytes u ((pwPcs w)[t := pc] ! u) s" if "u < length (pwPcs w)" for u
    using that inv t c(2) contract_keeps_others[OF c(1)] by (cases "u = t") (auto simp: procInv_def)
  moreover have "u < length (pwPcs w)" if "u \<in> rwReaders (psMu s)" for u
    using that inv t c(1) by (cases "u = t") (auto simp: procInv_def stepContract_def)
  moreover have "u < length (pwPcs w)" if "rwWriter (psMu s) = Some u" for u
    using that inv t c(1) by (cases "u = t") (auto simp: procInv_def stepContract_def)
  moreover have "fst h < length (pwPcs w) \<and> opened ((pwPcs w)[t := pc] ! fst h) = Some (snd h)" if "h \<in> set (psWriting s)" for h
    using that inv t c(3) by (cases "fst h = t") (auto simp: procInv_def ownHandles_def)
  ultimately show ?thesis using c(4) by (simp add: procInv_def)
qed

lemma pstep_inv:
  assumes "pstep bytes w w'" and "procInv bytes w"
  shows "procInv bytes w'"
  using assms(1)
proof cases
  case (run t a pc s)
  have pre: "pcInv bytes t (pwPcs w ! t) (pwState w)" "psInherited (pwState w) = []"
    "\<forall>h \<in> set (psWriting (pwState w)). fst h = t \<longrightarrow> opened (pwPcs w ! t) = Some (snd h)"
    using assms(2) run(2) by (auto simp: procInv_def)
  show ?thesis unfolding run(1)
    using contract_inv[OF assms(2) run(2)] runStep_contract[OF run(3) pre] reader_no_writing[OF assms(2) run(2)] by blast
next
  case (new t a pc s)
  have pre: "pcInv bytes t (pwPcs w ! t) (pwState w)" "psInherited (pwState w) = []"
    "\<forall>h \<in> set (psWriting (pwState w)). fst h = t \<longrightarrow> opened (pwPcs w ! t) = Some (snd h)"
    using assms(2) new(2) by (auto simp: procInv_def)
  show ?thesis unfolding new(1)
    using contract_inv[OF assms(2) new(2)] newStep_contract[OF new(3) pre] by blast
qed

lemma startCalls_inv:
  assumes "list_all isCall calls"
  shows "procInv bytes (startCalls disk calls)"
proof -
  have "isCall pc \<Longrightarrow> \<not> holdsRead pc \<and> \<not> holdsWrite pc \<and> opened pc = None \<and> promised pc = None" for pc
    by (cases pc) auto
  then show ?thesis using assms insideNew_writes
    by (fastforce simp: procInv_def pcInv_def startCalls_def unlockedMu_def list_all_length)
qed

interpretation forks: step_invariant "pstep bytes" "procInv bytes" for bytes
  by unfold_locales (rule pstep_inv)

text \<open>A file that was not there before holds a beginning of the executable.\<close>

definition partialFile :: "string \<Rightarrow> procState \<Rightarrow> string \<Rightarrow> bool" where
  "partialFile bytes s p \<longleftrightarrow> (\<forall>x. psDisk s p = Some x \<longrightarrow> (\<exists>k. x = take k bytes))"

lemma overwrite_partial: "\<exists>m. overwrite (take j bytes) (take k bytes) = take m bytes"
proof (cases "j \<le> k")
  case True
  then have "take j bytes = take j (take k bytes)" by (simp add: min_absorb1)
  then have "overwrite (take j bytes) (take k bytes) = take k bytes" using overwrite_whole[of j "take k bytes" "[]"] by simp
  then show ?thesis by blast
next
  case False
  then have "overwrite (take j bytes) (take k bytes) = take j bytes" by (simp add: overwrite_def min_def)
  then show ?thesis by blast
qed

lemma runStep_disk: "runStep a t pc s = Some (pc', s') \<Longrightarrow> psDisk s' = psDisk s"
  by (cases "(a, t, pc, s)" rule: runStep.cases) (auto simp: Let_def split: option.splits if_splits)

lemma newStep_partial:
  assumes "newStep bytes a t pc s = Some (pc', s')" and "pcInv bytes t pc s" and "partialFile bytes s p"
  shows "partialFile bytes s' p"
proof (cases "pc = NewWrite p")
  case True
  obtain j where s': "s' = s\<lparr>psDisk := (psDisk s)(p \<mapsto> overwrite (take j bytes) (the (psDisk s p)))\<rparr>"
  proof
    show "s' = s\<lparr>psDisk := (psDisk s)(p \<mapsto> overwrite
        (take (if saErr a = None then length bytes else saWritten a) bytes) (the (psDisk s p)))\<rparr>"
      using assms(1) True by (auto simp: Let_def)
  qed
  obtain k where "the (psDisk s p) = take k bytes"
    using assms(2,3) True by (auto simp: pcInv_def partialFile_def)
  then show ?thesis using overwrite_partial[of j bytes k] by (simp add: s' partialFile_def)
next
  case False
  have "\<exists>k. [] = take k bytes" by (metis take0)
  then show ?thesis using assms False
    by (cases "(bytes, a, t, pc, s)" rule: newStep.cases)
      (auto simp: partialFile_def Let_def split: if_splits option.splits)
qed

lemma pstep_partial:
  assumes "pstep bytes w w'" and "procInv bytes w" and "partialFile bytes (pwState w) p"
  shows "partialFile bytes (pwState w') p"
  using assms(1)
proof cases
  case (run t a pc s)
  then show ?thesis using assms(3) by (simp add: partialFile_def runStep_disk)
next
  case (new t a pc s)
  have "pcInv bytes t (pwPcs w ! t) (pwState w)" using assms(2) new(2) by (simp add: procInv_def)
  then show ?thesis using newStep_partial[OF new(3)] assms(3) new(1) by simp
qed

interpretation partial: step_invariant "pstep bytes" "\<lambda>w. procInv bytes w \<and> partialFile bytes (pwState w) p" for bytes p
  by unfold_locales (blast intro: pstep_inv pstep_partial)

text \<open>Schedules: the goroutine that runs next, with the answers it gets.\<close>

fun schedule :: "string \<Rightarrow> (nat \<times> sysAnswer) list \<Rightarrow> procWorld \<Rightarrow> procWorld option" where
  "schedule bytes [] w = Some w"
| "schedule bytes ((t, a) # xs) w =
     (if t < length (pwPcs w) then
        (case runStep a t (pwPcs w ! t) (pwState w) of
           Some (pc, s) \<Rightarrow> schedule bytes xs \<lparr>pwPcs = (pwPcs w)[t := pc], pwState = s\<rparr>
         | None \<Rightarrow>
             (case newStep bytes a t (pwPcs w ! t) (pwState w) of
                Some (pc, s) \<Rightarrow> schedule bytes xs \<lparr>pwPcs = (pwPcs w)[t := pc], pwState = s\<rparr>
              | None \<Rightarrow> None))
      else None)"

lemma schedule_steps: "schedule bytes xs w = Some w' \<Longrightarrow> (pstep bytes ^^ length xs) w w'"
proof (induction bytes xs w rule: schedule.induct)
  case (2 bytes t a xs w)
  then have t: "t < length (pwPcs w)" by (auto split: if_splits)
  have "\<exists>v. pstep bytes w v \<and> (pstep bytes ^^ length xs) v w'"
  proof (cases "runStep a t (pwPcs w ! t) (pwState w)")
    case None
    then obtain pc s where n: "newStep bytes a t (pwPcs w ! t) (pwState w) = Some (pc, s)"
      using "2.prems" t by (auto split: option.splits)
    then show ?thesis using pstep.new[OF t n] "2.IH"(1)[OF t None n refl] "2.prems" t None by auto
  next
    case (Some r)
    then obtain pc s where r: "runStep a t (pwPcs w ! t) (pwState w) = Some (pc, s)" by (cases r) auto
    then show ?thesis using pstep.run[OF t r] "2.IH"(2)[OF t r refl] "2.prems" t by auto
  qed
  then show ?case using relpowp_Suc_I2[of "pstep bytes"] by auto
qed simp

text \<open>
  C30. However calls of Run and New interleave: no process is forked while the nsjail executable is
  open for writing, no command is run whose file is open for writing in any process, so none fails
  with "text file busy", and an nsjail sandbox that New returned has its whole executable on disk,
  and nothing else where the file was not there before.
\<close>

theorem forks_never_see_writers:
  assumes "list_all isCall calls" and "(pstep bytes)\<^sup>*\<^sup>* (startCalls disk calls) w" and "t < length (pwPcs w)"
  shows "(\<forall>c. pwPcs w ! t = RunFork c \<longrightarrow> psWriting (pwState w) = []) \<and>
    (\<forall>c. pwPcs w ! t = RunExec c \<longrightarrow> \<not> openForWriting (pwState w) (cmdPath c)) \<and>
    (\<forall>p. pwPcs w ! t = NewDone (Inr (NsjailSandbox p)) \<longrightarrow>
       (\<exists>rest. psDisk (pwState w) p = Some (bytes @ rest) \<and> (disk p = None \<longrightarrow> rest = [])))"
proof -
  note start = startCalls_inv[OF assms(1), of bytes disk]
  have inv: "procInv bytes w" using forks.reached[OF assms(2) start] .
  have quiet: "psWriting (pwState w) = []" if "holdsRead (pwPcs w ! t)" using reader_no_writing[OF inv assms(3) that] .
  have inherited: "psInherited (pwState w) = []" and mine: "pcInv bytes t (pwPcs w ! t) (pwState w)"
    using inv assms(3) by (simp_all add: procInv_def)
  have "\<not> openForWriting (pwState w) (cmdPath c)" if "pwPcs w ! t = RunExec c" for c
    using quiet inherited that by (simp add: openForWriting_def)
  moreover have "psWriting (pwState w) = []" if "pwPcs w ! t = RunFork c" for c using quiet that by simp
  moreover have "\<exists>rest. psDisk (pwState w) p = Some (bytes @ rest) \<and> (disk p = None \<longrightarrow> rest = [])"
    if returned: "pwPcs w ! t = NewDone (Inr (NsjailSandbox p))" for p
  proof -
    obtain rest where rest: "psDisk (pwState w) p = Some (bytes @ rest)"
      using mine returned by (auto simp: pcInv_def wholeFile_def)
    have "rest = []" if new: "disk p = None"
    proof -
      have "partialFile bytes (pwState w) p"
        using partial.reached[OF assms(2), of p] start new by (simp add: partialFile_def startCalls_def)
      then obtain k where "bytes @ rest = take k bytes" using rest by (auto simp: partialFile_def)
      then have "length (bytes @ rest) \<le> length bytes" by (metis length_take min.cobounded1)
      then show ?thesis by simp
    qed
    then show ?thesis using rest by (intro exI[of _ rest]) simp
  qed
  ultimately show ?thesis by blast
qed

text \<open>Answers without errors.\<close>

definition calmAnswer :: sysAnswer where
  "calmAnswer = \<lparr>saErr = None, saWritten = 0, saCtx = None\<rparr>"

text \<open>Two goroutines: one writes the executable, and the other runs it with a lock taken afterwards.\<close>

definition demoNsjail :: command where
  "demoNsjail = \<lparr>cmdPath = ''/t/nsjail'', cmdArgs = [], cmdDir = [], cmdEnv = []\<rparr>"

definition demoCalls :: "goPc list" where
  "demoCalls = [NewEnter ''linux'' ''amd64'' ''/t'', RunEnter demoNsjail]"

definition demoSchedule :: "(nat \<times> sysAnswer) list" where
  "demoSchedule = map (\<lambda>t. (t, calmAnswer)) [0, 0, 0, 0, 0, 0, 1, 1]"

section \<open>Every call returns\<close>

fun stepsLeft :: "goPc \<Rightarrow> nat" where
  "stepsLeft (RunEnter c) = 5"
| "stepsLeft (RunFork c) = 4"
| "stepsLeft (RunExec c) = 3"
| "stepsLeft (RunWait c) = 2"
| "stepsLeft (RunLeave e) = 1"
| "stepsLeft (NewEnter goos arch td) = 6"
| "stepsLeft (NewLock p) = 5"
| "stepsLeft (NewOpen p) = 4"
| "stepsLeft (NewWrite p) = 3"
| "stepsLeft (NewClose p e) = 2"
| "stepsLeft (NewLeave r) = 1"
| "stepsLeft (RunDone e) = 0"
| "stepsLeft (NewDone r) = 0"

lemma stepsLeft_done: "stepsLeft pc = 0 \<longleftrightarrow> hasReturned pc"
  by (cases pc) auto

lemma runStep_decreases: "runStep a t pc s = Some (pc', s') \<Longrightarrow> stepsLeft pc' < stepsLeft pc"
  by (cases "(a, t, pc, s)" rule: runStep.cases) (auto simp: Let_def split: option.splits if_splits)

lemma newStep_decreases: "newStep bytes a t pc s = Some (pc', s') \<Longrightarrow> stepsLeft pc' < stepsLeft pc"
  by (cases "(bytes, a, t, pc, s)" rule: newStep.cases) (auto simp: Let_def split: option.splits if_splits)

definition workLeft :: "procWorld \<Rightarrow> nat" where
  "workLeft w = sum_list (map stepsLeft (pwPcs w))"

lemma work_update: "t < length pcs \<Longrightarrow> stepsLeft pc < stepsLeft (pcs ! t) \<Longrightarrow>
    sum_list (map stepsLeft (pcs[t := pc])) < sum_list (map stepsLeft pcs)"
proof (induction pcs arbitrary: t)
  case (Cons q pcs)
  then show ?case by (cases t) auto
qed simp

lemma pstep_decreases: "pstep bytes w w' \<Longrightarrow> workLeft w' < workLeft w"
  by (erule pstep.cases) (auto simp: workLeft_def intro: work_update dest: runStep_decreases newStep_decreases)

interpretation progress: step_measure "pstep bytes" "procInv bytes" workLeft for bytes
  by unfold_locales (rule pstep_decreases)

text \<open>Only the start of a call and the wait for the readers can block.\<close>

lemma step_or_blocked:
  assumes "\<not> hasReturned pc"
  shows "runStep calmAnswer t pc s \<noteq> None \<or> newStep bytes calmAnswer t pc s \<noteq> None \<or>
    (isCall pc \<and> rwWriter (psMu s) \<noteq> None) \<or> (\<exists>p. pc = NewLock p \<and> acquireLock t (psMu s) = None)"
  using assms by (cases pc) (auto simp: RLock_def announceLock_def calmAnswer_def Let_def)

lemma pstep_if:
  assumes "t < length (pwPcs w)" and "runStep a t (pwPcs w ! t) (pwState w) \<noteq> None \<or> newStep bytes a t (pwPcs w ! t) (pwState w) \<noteq> None"
  shows "\<exists>w'. pstep bytes w w'"
  using assms pstep.intros by (metis option.exhaust surj_pair)

lemma reader_steps: "holdsRead pc \<Longrightarrow> runStep calmAnswer t pc s \<noteq> None"
  by (cases pc) (auto simp: calmAnswer_def Let_def)

lemma writer_steps:
  "holdsWrite pc \<Longrightarrow> newStep bytes calmAnswer t pc s \<noteq> None \<or> (\<exists>p. pc = NewLock p \<and> acquireLock t (psMu s) = None)"
  by (cases pc) (auto simp: calmAnswer_def Let_def)

lemma someone_steps:
  assumes inv: "procInv bytes w" and "\<exists>pc \<in> set (pwPcs w). \<not> hasReturned pc"
  shows "\<exists>w'. pstep bytes w w'"
proof -
  have reader: "\<exists>w'. pstep bytes w w'" if ne: "rwReaders (psMu (pwState w)) \<noteq> {}"
  proof -
    obtain r where r: "r \<in> rwReaders (psMu (pwState w))" using ne by blast
    then have "r < length (pwPcs w)" and "holdsRead (pwPcs w ! r)" using inv by (auto simp: procInv_def pcInv_def)
    then show ?thesis using pstep_if reader_steps by blast
  qed
  have writer: "\<exists>w'. pstep bytes w w'" if "rwWriter (psMu (pwState w)) = Some u" for u
  proof -
    have u: "u < length (pwPcs w)" and "holdsWrite (pwPcs w ! u)" using inv that by (auto simp: procInv_def pcInv_def)
    then have "newStep bytes calmAnswer u (pwPcs w ! u) (pwState w) \<noteq> None \<or> rwReaders (psMu (pwState w)) \<noteq> {}"
      using writer_steps[of "pwPcs w ! u" bytes u "pwState w"] that by (auto simp: acquireLock_def split: if_splits)
    then show ?thesis using reader pstep_if[OF u] by blast
  qed
  obtain t where t: "t < length (pwPcs w)" and "\<not> hasReturned (pwPcs w ! t)" using assms(2) by (auto simp: in_set_conv_nth)
  note step = step_or_blocked[OF this(2), of t "pwState w" bytes]
  show ?thesis
  proof (cases "rwWriter (psMu (pwState w))")
    case None
    have "\<not> holdsWrite (pwPcs w ! t)" using inv t None by (auto simp: procInv_def pcInv_def)
    then have "\<nexists>p. pwPcs w ! t = NewLock p" by auto
    then show ?thesis using step None pstep_if[OF t] by blast
  qed (use writer in blast)
qed

text \<open>
  C32. Every run of the calls is at most six steps per call long, and goes on until all have
  returned: the lock never keeps a call from returning.
\<close>

theorem lock_calls_return:
  assumes "list_all isCall calls" and "(pstep bytes ^^ k) (startCalls disk calls) w"
  shows "k \<le> 6 * length calls \<and> (list_all hasReturned (pwPcs w) \<or> (\<exists>w'. pstep bytes w w'))"
proof -
  have "isCall pc \<Longrightarrow> stepsLeft pc \<le> 6" for pc by (cases pc) auto
  then have "sum_list (map stepsLeft calls) \<le> 6 * length calls" using assms(1) by (induction calls) force+
  then have "k \<le> 6 * length calls" using progress.run_length[OF assms(2) startCalls_inv[OF assms(1)]] by (simp add: workLeft_def startCalls_def)
  moreover have "procInv bytes w" using forks.after[OF assms(2) startCalls_inv[OF assms(1)]] .
  ultimately show ?thesis using someone_steps by (auto simp: list_all_iff)
qed

lemma demo_schedule:
  "\<exists>w. schedule ''ELF'' demoSchedule (startCalls (\<lambda>p. None) demoCalls) = Some w \<and>
     pwPcs w = [NewDone (Inr (NsjailSandbox ''/t/nsjail'')), RunExec demoNsjail]"
proof -
  have "PathJoin [''/t'', ''nsjail''] = ''/t/nsjail''" by code_simp
  then show ?thesis
    by (simp add: demoSchedule_def demoCalls_def startCalls_def calmAnswer_def unlockedMu_def RLock_def announceLock_def
      acquireLock_def Unlock_def Let_def)
qed

lemma forks_never_see_writers_witness:
  "\<exists>w. (pstep ''ELF'')\<^sup>*\<^sup>* (startCalls (\<lambda>p. None) demoCalls) w \<and>
     pwPcs w = [NewDone (Inr (NsjailSandbox ''/t/nsjail'')), RunExec demoNsjail] \<and>
     \<not> openForWriting (pwState w) ''/t/nsjail'' \<and> psDisk (pwState w) ''/t/nsjail'' = Some ''ELF''"
proof -
  obtain w where w: "schedule ''ELF'' demoSchedule (startCalls (\<lambda>p. None) demoCalls) = Some w"
      "pwPcs w = [NewDone (Inr (NsjailSandbox ''/t/nsjail'')), RunExec demoNsjail]"
    using demo_schedule by blast
  have calls: "list_all isCall demoCalls" by (simp add: demoCalls_def)
  have reach: "(pstep ''ELF'')\<^sup>*\<^sup>* (startCalls (\<lambda>p. None) demoCalls) w"
    by (rule relpowp_imp_rtranclp[OF schedule_steps[OF w(1)]])
  have "psDisk (pwState w) ''/t/nsjail'' = Some ''ELF''"
    using forks_never_see_writers[OF calls reach, of 0] w(2) by simp
  moreover have "\<not> openForWriting (pwState w) ''/t/nsjail''"
    using forks_never_see_writers[OF calls reach, of 1] w(2) by (simp add: demoNsjail_def)
  ultimately show ?thesis using reach w(2) by blast
qed

lemma lock_calls_return_witness:
  "\<exists>w. (pstep ''ELF'' ^^ 8) (startCalls (\<lambda>p. None) demoCalls) w \<and> (\<exists>w'. pstep ''ELF'' w w')"
proof -
  obtain w where w: "schedule ''ELF'' demoSchedule (startCalls (\<lambda>p. None) demoCalls) = Some w"
      "pwPcs w = [NewDone (Inr (NsjailSandbox ''/t/nsjail'')), RunExec demoNsjail]"
    using demo_schedule by blast
  have "length demoSchedule = 8" by (simp add: demoSchedule_def)
  then have reach: "(pstep ''ELF'' ^^ 8) (startCalls (\<lambda>p. None) demoCalls) w" using schedule_steps[OF w(1)] by metis
  have "list_all isCall demoCalls" by (simp add: demoCalls_def)
  then have "\<exists>w'. pstep ''ELF'' w w'" using lock_calls_return[OF _ reach] w(2) by simp
  then show ?thesis using reach by blast
qed

text \<open>
  A file that was there before and is longer keeps its end behind the executable: the file is opened
  without O_TRUNC.
\<close>

lemma longer_file_keeps_its_end: "overwrite ''ELF'' ''ELF--old'' = ''ELF--old''"
  by (simp add: overwrite_def)

text \<open>While the executable is being written, Run waits for the lock.\<close>

lemma run_waits_for_new:
  "schedule ''ELF'' (map (\<lambda>t. (t, calmAnswer)) [0, 0, 0, 1]) (startCalls (\<lambda>p. None) demoCalls) = None"
proof -
  have "PathJoin [''/t'', ''nsjail''] = ''/t/nsjail''" by code_simp
  then show ?thesis
    by (simp add: demoCalls_def startCalls_def calmAnswer_def unlockedMu_def RLock_def announceLock_def acquireLock_def)
qed


end
