(* ===== verification/Fork_Check.thy ===== *)
theory Fork_Check
  imports Go_Prelude
begin

text \<open>
  The check of this repository on its own Go code (internal/go_checks/fork_check) that
  (*exec.Cmd).Start and (*exec.Cmd).Run are not called outside execsupport: a walk over the syntax
  tree of each file. The types of identifiers, which the type checker of Go found, are a parameter;
  an identifier without an object has none. A syntax tree has identifiers (told apart by their
  place), selectors, calls with their position, and other nodes with their children in the order
  ast.Inspect visits them.
\<close>

section \<open>The walk\<close>

record ident =
  idName :: string
  idPlace :: nat

datatype ast =
    Ident ident
  | SelectorExpr ast ident
  | CallExpr nat ast "ast list"
  | OtherNode "ast list"

text \<open>The object of x.Start() or x.Run(): the last identifier of x.\<close>

fun receiver :: "ast \<Rightarrow> ident option" where
  "receiver (Ident i) = Some i"
| "receiver (SelectorExpr x sel) = Some sel"
| "receiver n = None"

fun methodCall :: "ast \<Rightarrow> (nat \<times> ident \<times> string) option" where
  "methodCall (CallExpr pos (SelectorExpr x sel) args) =
     (if idName sel \<noteq> ''Start'' \<and> idName sel \<noteq> ''Run'' then None
      else map_option (\<lambda>obj. (pos, obj, idName sel)) (receiver x))"
| "methodCall n = None"

definition directText :: "ident \<Rightarrow> string \<Rightarrow> string" where
  "directText obj f = ''do not call '' @ idName obj @ ''.'' @ f @ ''() directly, use execsupport.'' @ f @
     ''('' @ idName obj @ '') instead''"

definition checkCall :: "(ident \<Rightarrow> string option) \<Rightarrow> nat \<times> ident \<times> string \<Rightarrow> (nat \<times> string) list outcome" where
  "checkCall typeOf c =
     (case c of (pos, obj, f) \<Rightarrow>
       (case typeOf obj of
          None \<Rightarrow> Panic ''invalid memory address or nil pointer dereference''
        | Some typ \<Rightarrow> Ok (if typ = ''*os/exec.Cmd'' then [(pos, directText obj f)] else [])))"

fun inspectNode :: "(ident \<Rightarrow> string option) \<Rightarrow> ast \<Rightarrow> (nat \<times> string) list outcome"
and inspectNodes :: "(ident \<Rightarrow> string option) \<Rightarrow> ast list \<Rightarrow> (nat \<times> string) list outcome" where
  "inspectNode typeOf (Ident i) = Ok []"
| "inspectNode typeOf (SelectorExpr x sel) = inspectNode typeOf x"
| "inspectNode typeOf (CallExpr pos callee args) =
     (case methodCall (CallExpr pos callee args) of
        Some c \<Rightarrow> checkCall typeOf c
      | None \<Rightarrow> bindO (inspectNode typeOf callee) (\<lambda>rs.
          bindO (inspectNodes typeOf args) (\<lambda>rs'. Ok (rs @ rs'))))"
| "inspectNode typeOf (OtherNode ns) = inspectNodes typeOf ns"
| "inspectNodes typeOf [] = Ok []"
| "inspectNodes typeOf (n # ns) =
     bindO (inspectNode typeOf n) (\<lambda>rs. bindO (inspectNodes typeOf ns) (\<lambda>rs'. Ok (rs @ rs')))"

definition forkCheck :: "(ident \<Rightarrow> string option) \<Rightarrow> ast list \<Rightarrow> (nat \<times> string) list outcome" where
  "forkCheck typeOf files = inspectNodes typeOf files"

section \<open>What it finds\<close>

text \<open>All nodes of a tree, in the order of a full walk, and the calls among them to report.\<close>

fun nodesOf :: "ast \<Rightarrow> ast list" and nodesOfAll :: "ast list \<Rightarrow> ast list" where
  "nodesOf (Ident i) = [Ident i]"
| "nodesOf (SelectorExpr x sel) = SelectorExpr x sel # nodesOf x"
| "nodesOf (CallExpr pos callee args) = CallExpr pos callee args # nodesOf callee @ nodesOfAll args"
| "nodesOf (OtherNode ns) = OtherNode ns # nodesOfAll ns"
| "nodesOfAll [] = []"
| "nodesOfAll (n # ns) = nodesOf n @ nodesOfAll ns"

definition violation :: "(ident \<Rightarrow> string option) \<Rightarrow> ast \<Rightarrow> (nat \<times> string) list" where
  "violation typeOf n =
     (case methodCall n of
        Some (pos, obj, f) \<Rightarrow> if typeOf obj = Some ''*os/exec.Cmd'' then [(pos, directText obj f)] else []
      | None \<Rightarrow> [])"

definition violations :: "(ident \<Rightarrow> string option) \<Rightarrow> ast list \<Rightarrow> (nat \<times> string) list" where
  "violations typeOf ns = concat (map (violation typeOf) ns)"

lemma violations_simps [simp]:
  "violations typeOf [] = []"
  "violations typeOf (n # ns) = violation typeOf n @ violations typeOf ns"
  "violations typeOf (ms @ ns) = violations typeOf ms @ violations typeOf ns"
  by (simp_all add: violations_def)

lemma violation_plain [simp]:
  "violation typeOf (Ident i) = []"
  "violation typeOf (SelectorExpr x sel) = []"
  "violation typeOf (OtherNode ns) = []"
  by (simp_all add: violation_def)

lemma checkCall_Ok: "methodCall n = Some c \<Longrightarrow> checkCall typeOf c = Ok rs \<Longrightarrow> rs = violation typeOf n"
  by (auto simp: checkCall_def violation_def split: prod.splits option.splits)

lemma inspect_sound:
  "inspectNode typeOf n = Ok rs \<Longrightarrow> set rs \<subseteq> set (violations typeOf (nodesOf n))"
  "inspectNodes typeOf ns = Ok rs \<Longrightarrow> set rs \<subseteq> set (violations typeOf (nodesOfAll ns))"
proof (induction typeOf n and typeOf ns arbitrary: rs and rs rule: inspectNode_inspectNodes.induct)
  case (3 typeOf pos callee args)
  show ?case
  proof (cases "methodCall (CallExpr pos callee args)")
    case None
    then obtain r1 r2 where "inspectNode typeOf callee = Ok r1" and "inspectNodes typeOf args = Ok r2" and "rs = r1 @ r2"
      using "3.prems" by (auto simp: bindO_eq_Ok)
    then show ?thesis using "3.IH"(1)[OF None] "3.IH"(2)[OF None] by auto
  next
    case (Some c)
    then show ?thesis using "3.prems" checkCall_Ok[OF Some] by auto
  qed
next
  case (6 typeOf n ns)
  then obtain r1 r2 where "inspectNode typeOf n = Ok r1" and "inspectNodes typeOf ns = Ok r2" and "rs = r1 @ r2"
    by (auto simp: bindO_eq_Ok)
  then show ?case using "6.IH" by auto
qed auto

text \<open>
  The walk reports exactly the violations where no call that it takes for a method call of Start or
  Run has a violation inside it: it does not look below such a call.
\<close>

definition nothingBelow :: "(ident \<Rightarrow> string option) \<Rightarrow> ast \<Rightarrow> bool" where
  "nothingBelow typeOf n \<longleftrightarrow>
     (case methodCall n of
        Some (pos, obj, f) \<Rightarrow> typeOf obj \<noteq> None \<and> violations typeOf (tl (nodesOf n)) = []
      | None \<Rightarrow> True)"

lemma checkCall_complete:
  assumes "methodCall n = Some c" and "nothingBelow typeOf n"
  shows "checkCall typeOf c = Ok (violation typeOf n)"
  using assms by (auto simp: nothingBelow_def checkCall_def violation_def)

lemma inspect_complete:
  "(\<forall>m \<in> set (nodesOf n). nothingBelow typeOf m) \<Longrightarrow> inspectNode typeOf n = Ok (violations typeOf (nodesOf n))"
  "(\<forall>m \<in> set (nodesOfAll ns). nothingBelow typeOf m) \<Longrightarrow>
     inspectNodes typeOf ns = Ok (violations typeOf (nodesOfAll ns))"
proof (induction typeOf n and typeOf ns rule: inspectNode_inspectNodes.induct)
  case (3 typeOf pos callee args)
  let ?n = "CallExpr pos callee args"
  have here: "nothingBelow typeOf ?n" using "3.prems" by simp
  show ?case
  proof (cases "methodCall ?n")
    case None
    then have "violation typeOf ?n = []" by (simp add: violation_def)
    then show ?thesis using None "3.IH"(1)[OF None] "3.IH"(2)[OF None] "3.prems" by simp
  next
    case (Some c)
    then have "violations typeOf (nodesOf callee @ nodesOfAll args) = []"
      using here by (auto simp: nothingBelow_def split: prod.splits)
    then show ?thesis using Some checkCall_complete[OF Some here] by simp
  qed
qed auto

text \<open>
  Whatever the check reports is a call of Start or Run on an *exec.Cmd, with its position and
  the function to use instead. It reports all of them, in the order of the source, where none is
  inside another call of a method named Start or Run.
\<close>

theorem fork_check_reports:
  "(\<forall>rs. forkCheck typeOf files = Ok rs \<longrightarrow> set rs \<subseteq> set (violations typeOf (nodesOfAll files))) \<and>
   ((\<forall>m \<in> set (nodesOfAll files). nothingBelow typeOf m) \<longrightarrow>
      forkCheck typeOf files = Ok (violations typeOf (nodesOfAll files)))"
  unfolding forkCheck_def using inspect_sound(2) inspect_complete(2) by blast

text \<open>exec.Command(...) bound to cmd, and cmd.Run() in a function.\<close>

definition demoIdent :: "string \<Rightarrow> ast" where
  "demoIdent x = Ident \<lparr>idName = x, idPlace = 0\<rparr>"

definition demoCallRun :: "nat \<Rightarrow> string \<Rightarrow> ast list \<Rightarrow> ast" where
  "demoCallRun pos x args = CallExpr pos (SelectorExpr (demoIdent x) \<lparr>idName = ''Run'', idPlace = 1\<rparr>) args"

definition demoTypes :: "ident \<Rightarrow> string option" where
  "demoTypes i = (if idName i = ''cmd'' then Some ''*os/exec.Cmd'' else Some ''*testing.T'')"

lemma fork_check_reports_witness:
  "forkCheck demoTypes [OtherNode [demoCallRun 7 ''cmd'' []]] =
     Ok [(7, ''do not call cmd.Run() directly, use execsupport.Run(cmd) instead'')]"
proof -
  have "\<forall>m \<in> set (nodesOfAll [OtherNode [demoCallRun 7 ''cmd'' []]]). nothingBelow demoTypes m"
    by (simp add: demoCallRun_def demoIdent_def demoTypes_def nothingBelow_def)
  then have "forkCheck demoTypes [OtherNode [demoCallRun 7 ''cmd'' []]] =
      Ok (violations demoTypes (nodesOfAll [OtherNode [demoCallRun 7 ''cmd'' []]]))"
    using fork_check_reports[of demoTypes "[OtherNode [demoCallRun 7 ''cmd'' []]]"] by blast
  then show ?thesis
    by (simp add: demoCallRun_def demoIdent_def demoTypes_def violation_def directText_def)
qed

text \<open>The body of a subtest, t.Run(name, func(t *testing.T) { cmd.Run() }), is never looked at.\<close>

lemma subtest_hides_direct_call:
  "forkCheck demoTypes [demoCallRun 1 ''t'' [demoIdent ''name'', OtherNode [demoCallRun 2 ''cmd'' []]]] = Ok []"
  "violations demoTypes
     (nodesOfAll [demoCallRun 1 ''t'' [demoIdent ''name'', OtherNode [demoCallRun 2 ''cmd'' []]]]) \<noteq> []"
  by (simp_all add: forkCheck_def demoCallRun_def demoIdent_def demoTypes_def checkCall_def violation_def)

end
