(* ===== verification/Loader.thy ===== *)
theory Loader
  imports Load_Env Step_System
begin

text \<open>
  Loading Starlark sources (internal/engine/env.go). First one source: its package, opening,
  reading, executing and closing its file, with the errors of each. Then loadInner() as a step
  relation of threads that share the table of sources, with the mutex of every source: a source in
  progress blocks another thread and is a cycle for its own, and whoever finds a source loaded
  holds its mutex while it takes the result. The Starlark interpreter is a parameter: which load()
  references a file executes and how its execution ends. Errors are kept without the wrapping that
  the interpreter adds at each load() statement.
\<close>

section \<open>One source\<close>

record openFile =
  ofRead :: "err + string"
  ofClose :: "err option"

type_synonym packageFS = "string \<Rightarrow> err + openFile"

text \<open>
  How an execution fails: with errors of the resolver, each with its position, of which there is a
  first one, or with another error. A resolver error becomes a failure with a synthesized stack.
\<close>

datatype execErr = ResolveErrs "string \<times> string" "(string \<times> string) list" | ExecErr err

fun sourceErr :: "execErr \<Rightarrow> err" where
  "sourceErr (ResolveErrs first others) = Failure (fst first)"
| "sourceErr (ExecErr e) = e"

fun sourceStack :: "execErr \<Rightarrow> (string \<times> string) list" where
  "sourceStack (ResolveErrs first others) = [(''<toplevel>'', snd first)]"
| "sourceStack (ExecErr e) = []"

text \<open>
  The interpreter on a source: the references it loads, in order, until the execution ends, and the
  error that ends it, if those loads succeed.
\<close>

type_synonym interp = "string \<Rightarrow> string \<Rightarrow> string list \<times> execErr option"

text \<open>A source that cannot be read fails at once; otherwise the error of closing the file comes last.\<close>

definition sourceOf :: "(string \<rightharpoonup> packageFS) \<Rightarrow> interp \<Rightarrow> sourceKey \<Rightarrow> err + string list \<times> err option" where
  "sourceOf packages exec sk =
     (case packages (pkg sk) of
        None \<Rightarrow> Inl (New ''package not found'')
      | Some fs \<Rightarrow>
          (case fs (skRelpath sk) of
             Inl e \<Rightarrow> Inl (if isNotExist e then Errorf ''%s not found'' [FStr (skRelpath sk)] else e)
           | Inr f \<Rightarrow>
               (case ofRead f of
                  Inl e \<Rightarrow> Inl e
                | Inr d \<Rightarrow>
                    (case exec (keyString sk) d of
                       (loads, Some e) \<Rightarrow> Inr (loads, Some (sourceErr e))
                     | (loads, None) \<Rightarrow> Inr (loads, ofClose f)))))"

section \<open>Threads that load\<close>

text \<open>
  A source is being loaded by a thread, or was loaded by it, well or with an error. A thread wants
  a source or runs the top frame of its stack: a source with the references it has still to load
  and the error that ends it then. \<open>reading\<close> says whose finished source a thread has locked to take
  its result; \<open>failed\<close> holds the error a thread ended with, and \<open>executed\<close> the keys of the sources
  whose execution was started.
\<close>

datatype srcStatus = Loading nat | Loaded nat "err option"

record frame =
  fKey :: sourceKey
  fLoads :: "string list"
  fEnd :: "err option"

type_synonym files = "sourceKey \<Rightarrow> err + string list \<times> err option"

record loaderState =
  sources :: "string \<rightharpoonup> srcStatus"
  want :: "nat \<Rightarrow> sourceKey option"
  reading :: "nat \<Rightarrow> string option"
  stacks :: "nat \<Rightarrow> frame list"
  failed :: "nat \<Rightarrow> err option"
  executed :: "string list"

definition initLoader :: "(nat \<Rightarrow> sourceKey option) \<Rightarrow> loaderState" where
  "initLoader roots = \<lparr>sources = Map.empty, want = roots, reading = (\<lambda>_. None), stacks = (\<lambda>_. []),
     failed = (\<lambda>_. None), executed = []\<rparr>"

definition frameKey :: "frame \<Rightarrow> string" where
  "frameKey f = keyString (fKey f)"

text \<open>
  An error unwinds the thread: every source on its stack ends with it, and is unlocked. The code
  unwinds one call after another; here it is one step. Panics while loading are not modelled.
\<close>

definition abort :: "nat \<Rightarrow> err \<Rightarrow> loaderState \<Rightarrow> loaderState" where
  "abort t e st = st\<lparr>
     sources := (\<lambda>k. if k \<in> frameKey ` set (stacks st t) then Some (Loaded t (Some e)) else sources st k),
     want := (want st)(t := None), reading := (reading st)(t := None), stacks := (stacks st)(t := []),
     failed := (failed st)(t \<mapsto> e)\<rparr>"

definition cycleErr :: "sourceKey \<Rightarrow> err" where
  "cycleErr sk = Errorf ''%s was loaded in a cycle dependency graph'' [FStr (keyString sk)]"

text \<open>The mutex of a source is held by the thread that loads it, or by one that takes its result.\<close>

definition lockedBy :: "loaderState \<Rightarrow> string \<Rightarrow> nat \<Rightarrow> bool" where
  "lockedBy st k t \<longleftrightarrow> sources st k = Some (Loading t) \<or> reading st t = Some k"

fun loaderOf :: "srcStatus \<Rightarrow> nat" where
  "loaderOf (Loading t) = t"
| "loaderOf (Loaded t r) = t"

text \<open>
  The steps of a thread t: it asks for the next reference of its top source; it becomes the master
  of a source that is not in the table; it locks a source of the table, with TryLock where it is
  the source's own master and Lock otherwise; it takes the result and unlocks; its top source ends.
\<close>

inductive lstep :: "files \<Rightarrow> loaderState \<Rightarrow> loaderState \<Rightarrow> bool" for prog :: files where
  Request: "want st t = None \<Longrightarrow> stacks st t = f # fs \<Longrightarrow> fLoads f = r # rs \<Longrightarrow> parseSourceKey (fKey f) r = Ok skn \<Longrightarrow>
    lstep prog st (st\<lparr>want := (want st)(t := Some skn), stacks := (stacks st)(t := f\<lparr>fLoads := rs\<rparr> # fs)\<rparr>)"
| BadRef: "want st t = None \<Longrightarrow> stacks st t = f # fs \<Longrightarrow> fLoads f = r # rs \<Longrightarrow> parseSourceKey (fKey f) r = Err e \<Longrightarrow>
    lstep prog st (abort t e st)"
| Enter: "want st t = Some sk \<Longrightarrow> sources st (keyString sk) = None \<Longrightarrow> prog sk = Inr (rs, e) \<Longrightarrow>
    lstep prog st (st\<lparr>sources := (sources st)(keyString sk \<mapsto> Loading t), want := (want st)(t := None),
      stacks := (stacks st)(t := \<lparr>fKey = sk, fLoads = rs, fEnd = e\<rparr> # stacks st t),
      executed := executed st @ [keyString sk]\<rparr>)"
| NoFile: "want st t = Some sk \<Longrightarrow> sources st (keyString sk) = None \<Longrightarrow> prog sk = Inl e \<Longrightarrow>
    lstep prog st (abort t e (st\<lparr>sources := (sources st)(keyString sk \<mapsto> Loaded t (Some e))\<rparr>))"
| Lock: "want st t = Some sk \<Longrightarrow> reading st t = None \<Longrightarrow> sources st (keyString sk) = Some (Loaded u r) \<Longrightarrow>
    (\<forall>v. \<not> lockedBy st (keyString sk) v) \<Longrightarrow>
    lstep prog st (st\<lparr>reading := (reading st)(t := Some (keyString sk))\<rparr>)"
| Cycle: "want st t = Some sk \<Longrightarrow> reading st t = None \<Longrightarrow> sources st (keyString sk) = Some s \<Longrightarrow>
    loaderOf s = t \<Longrightarrow> lockedBy st (keyString sk) v \<Longrightarrow>
    lstep prog st (abort t (cycleErr sk) st)"
| Hit: "want st t = Some sk \<Longrightarrow> reading st t = Some (keyString sk) \<Longrightarrow>
    sources st (keyString sk) = Some (Loaded u None) \<Longrightarrow>
    lstep prog st (st\<lparr>want := (want st)(t := None), reading := (reading st)(t := None)\<rparr>)"
| HitError: "want st t = Some sk \<Longrightarrow> reading st t = Some (keyString sk) \<Longrightarrow>
    sources st (keyString sk) = Some (Loaded u (Some e)) \<Longrightarrow> lstep prog st (abort t e st)"
| Return: "want st t = None \<Longrightarrow> stacks st t = f # fs \<Longrightarrow> fLoads f = [] \<Longrightarrow> fEnd f = None \<Longrightarrow>
    lstep prog st (st\<lparr>sources := (sources st)(frameKey f \<mapsto> Loaded t None), stacks := (stacks st)(t := fs)\<rparr>)"
| Fail: "want st t = None \<Longrightarrow> stacks st t = f # fs \<Longrightarrow> fLoads f = [] \<Longrightarrow> fEnd f = Some e \<Longrightarrow>
    lstep prog st (abort t e st)"

definition finished :: "loaderState \<Rightarrow> nat \<Rightarrow> bool" where
  "finished st t \<longleftrightarrow> want st t = None \<and> stacks st t = []"

text \<open>A thread that waits for the mutex of a source that another thread is the master of.\<close>

definition blocked :: "loaderState \<Rightarrow> nat \<Rightarrow> bool" where
  "blocked st t \<longleftrightarrow>
     (\<exists>sk s v. want st t = Some sk \<and> reading st t = None \<and> sources st (keyString sk) = Some s \<and> loaderOf s \<noteq> t \<and>
        lockedBy st (keyString sk) v)"

section \<open>The invariant of the table\<close>

text \<open>
  The sources in progress are those on the stacks, each once; a thread takes the result of a source
  that is loaded, one at a time; and no source is executed that is not in the table.
\<close>

definition tableInv :: "loaderState \<Rightarrow> bool" where
  "tableInv st \<longleftrightarrow>
     (\<forall>k t. sources st k = Some (Loading t) \<longleftrightarrow> k \<in> frameKey ` set (stacks st t)) \<and>
     (\<forall>t. distinct (map frameKey (stacks st t))) \<and>
     (\<forall>t k. reading st t = Some k \<longrightarrow> (\<exists>sk. want st t = Some sk \<and> keyString sk = k) \<and>
        (\<exists>u r. sources st k = Some (Loaded u r))) \<and>
     (\<forall>t u k. reading st t = Some k \<longrightarrow> reading st u = Some k \<longrightarrow> t = u) \<and>
     distinct (executed st) \<and> (\<forall>k \<in> set (executed st). sources st k \<noteq> None)"

lemma frameKey_loads [simp]: "frameKey (f\<lparr>fLoads := rs\<rparr>) = frameKey f"
  by (simp add: frameKey_def)

lemma frameKey_new [simp]: "frameKey \<lparr>fKey = sk, fLoads = rs, fEnd = e\<rparr> = keyString sk"
  by (simp add: frameKey_def)

lemma tableInv_init: "tableInv (initLoader roots)"
  by (simp add: tableInv_def initLoader_def)

lemma tableD:
  assumes "tableInv st"
  shows "sources st k = Some (Loading t) \<longleftrightarrow> k \<in> frameKey ` set (stacks st t)"
    and "distinct (map frameKey (stacks st t))"
    and "reading st t = Some k \<Longrightarrow> (\<exists>sk. want st t = Some sk \<and> keyString sk = k) \<and> (\<exists>u r. sources st k = Some (Loaded u r))"
    and "reading st t = Some k \<Longrightarrow> reading st u = Some k \<Longrightarrow> t = u"
    and "distinct (executed st)" and "k \<in> set (executed st) \<Longrightarrow> sources st k \<noteq> None"
  using assms unfolding tableInv_def by blast+

lemma tableI:
  assumes "\<And>k t. sources st k = Some (Loading t) \<longleftrightarrow> k \<in> frameKey ` set (stacks st t)"
    and "\<And>t. distinct (map frameKey (stacks st t))"
    and "\<And>t k. reading st t = Some k \<Longrightarrow> \<exists>sk. want st t = Some sk \<and> keyString sk = k"
    and "\<And>t k. reading st t = Some k \<Longrightarrow> \<exists>u r. sources st k = Some (Loaded u r)"
    and "\<And>t u k. reading st t = Some k \<Longrightarrow> reading st u = Some k \<Longrightarrow> t = u"
    and "distinct (executed st)" and "\<And>k. k \<in> set (executed st) \<Longrightarrow> sources st k \<noteq> None"
  shows "tableInv st"
  unfolding tableInv_def by (intro conjI allI impI ballI) (rule assms; assumption)+

lemma stack_loading: "tableInv st \<Longrightarrow> f \<in> set (stacks st t) \<Longrightarrow> sources st (frameKey f) = Some (Loading t)"
  by (simp add: tableD(1))

lemma one_stack: "tableInv st \<Longrightarrow> f \<in> set (stacks st t) \<Longrightarrow> g \<in> set (stacks st u) \<Longrightarrow> frameKey f = frameKey g \<Longrightarrow> t = u"
  by (metis option.inject srcStatus.inject(1) stack_loading)

lemma abort_inv:
  assumes "tableInv st"
  shows "tableInv (abort t e st)"
proof (rule tableI)
  fix k u
  have "k \<in> frameKey ` set (stacks st t) \<Longrightarrow> k \<in> frameKey ` set (stacks st u) \<Longrightarrow> t = u"
    using one_stack[OF assms] by blast
  then show "(sources (abort t e st) k = Some (Loading u)) = (k \<in> frameKey ` set (stacks (abort t e st) u))"
    using tableD(1)[OF assms] by (auto simp: abort_def)
next
  fix u k assume "reading (abort t e st) u = Some k"
  then have r: "reading st u = Some k" "u \<noteq> t" by (auto simp: abort_def split: if_splits)
  show "\<exists>sk. want (abort t e st) u = Some sk \<and> keyString sk = k"
    using tableD(3)[OF assms r(1)] r(2) by (simp add: abort_def)
  show "\<exists>v r. sources (abort t e st) k = Some (Loaded v r)"
    using tableD(3)[OF assms r(1)] by (simp add: abort_def)
next
  fix u v k assume "reading (abort t e st) u = Some k" and "reading (abort t e st) v = Some k"
  then show "u = v" using tableD(4)[OF assms] by (auto simp: abort_def split: if_splits)
qed (use tableD[OF assms] in \<open>auto simp: abort_def\<close>)

lemma noFile_inv:
  assumes "tableInv st" and "sources st k = None"
  shows "tableInv (st\<lparr>sources := (sources st)(k \<mapsto> Loaded t r)\<rparr>)"
proof -
  have "k \<notin> frameKey ` set (stacks st u)" for u using assms tableD(1)[OF assms(1), of k u] by simp
  moreover have "reading st u \<noteq> Some k" for u using assms tableD(3)[OF assms(1), of u k] by auto
  ultimately show ?thesis using tableD[OF assms(1)] by (intro tableI) (auto split: if_splits)
qed

lemma lstep_inv:
  assumes "lstep prog st st'" and inv: "tableInv st"
  shows "tableInv st'"
  using assms(1)
proof cases
  case (Request t f fs r rs skn)
  have "reading st t = None" using Request(2) tableD(3)[OF inv, of t] by (cases "reading st t") auto
  then have "reading st u = Some k \<Longrightarrow> u \<noteq> t" for u k by auto
  moreover have "sources st k = Some (Loading t) \<longleftrightarrow> k \<in> frameKey ` set (f # fs)" for k
    using tableD(1)[OF inv, of k t] Request(3) by simp
  moreover have "distinct (map frameKey (f # fs))" using tableD(2)[OF inv, of t] Request(3) by simp
  ultimately show ?thesis unfolding Request(1) using tableD[OF inv]
    by (intro tableI) (auto split: if_splits)
next
  case (Enter t sk rs e)
  have new: "keyString sk \<notin> frameKey ` set (stacks st u)" for u
    using Enter(3) tableD(1)[OF inv, of "keyString sk" u] by simp
  moreover have "reading st u \<noteq> Some (keyString sk)" for u using Enter(3) tableD(3)[OF inv, of u "keyString sk"] by auto
  moreover have "keyString sk \<notin> set (executed st)" using Enter(3) tableD(6)[OF inv] by blast
  moreover have "reading st t = None"
    using Enter(2) calculation(2)[of t] tableD(3)[OF inv, of t] by (cases "reading st t") auto
  then have "reading st u = Some k \<Longrightarrow> u \<noteq> t" for u k by auto
  ultimately show ?thesis unfolding Enter(1) using tableD[OF inv]
    by (intro tableI) (auto split: if_splits)
next
  case (NoFile t sk e)
  then show ?thesis using abort_inv noFile_inv inv by simp
next
  case (Lock t sk u r)
  then show ?thesis unfolding Lock(1) using tableD[OF inv]
    by (intro tableI) (auto simp: lockedBy_def split: if_splits)
next
  case (Hit t sk u)
  then show ?thesis unfolding Hit(1) using tableD[OF inv]
    by (intro tableI) (auto split: if_splits)
next
  case (Return t f fs)
  have "reading st t = None" using Return(2) tableD(3)[OF inv, of t] by (cases "reading st t") auto
  have keys: "frameKey f \<notin> frameKey ` set fs" "distinct (map frameKey fs)" using tableD(2)[OF inv, of t] Return(3) by auto
  have mine: "sources st (frameKey f) = Some (Loading t)" using stack_loading[OF inv, of f t] Return(3) by simp
  have others: "frameKey f \<notin> frameKey ` set (stacks st u)" if "u \<noteq> t" for u
    using tableD(1)[OF inv, of "frameKey f" u] mine that by simp
  have "sources st k = Some (Loading t) \<longleftrightarrow> k \<in> frameKey ` set (f # fs)" for k
    using tableD(1)[OF inv, of k t] Return(3) by simp
  then show ?thesis unfolding Return(1) using keys others tableD[OF inv]
    by (intro tableI) (auto split: if_splits)
qed (simp_all add: abort_inv inv)

interpretation table: step_invariant "lstep prog" tableInv for prog
  by unfold_locales (rule lstep_inv)

section \<open>Every source is loaded once\<close>



section \<open>Load graphs without cycles\<close>

text \<open>A rank of the keys that every load() lowers.\<close>

definition ranked :: "files \<Rightarrow> (string \<Rightarrow> nat) \<Rightarrow> bool" where
  "ranked prog rank \<longleftrightarrow>
     (\<forall>sk rs e r skn. prog sk = Inr (rs, e) \<longrightarrow> r \<in> set rs \<longrightarrow> parseSourceKey sk r = Ok skn \<longrightarrow>
        rank (keyString skn) < rank (keyString sk))"

definition keyRank :: "(string \<Rightarrow> nat) \<Rightarrow> frame \<Rightarrow> nat" where
  "keyRank rank f = rank (frameKey f)"

definition frameOk :: "files \<Rightarrow> frame \<Rightarrow> bool" where
  "frameOk prog f \<longleftrightarrow> (\<exists>rs. prog (fKey f) = Inr (rs, fEnd f) \<and> set (fLoads f) \<subseteq> set rs)"

definition threadOk :: "files \<Rightarrow> (string \<Rightarrow> nat) \<Rightarrow> sourceKey option \<Rightarrow> frame list \<Rightarrow> bool" where
  "threadOk prog rank w fs \<longleftrightarrow>
     list_all (frameOk prog) fs \<and> sorted_wrt (\<lambda>f g. keyRank rank f < keyRank rank g) fs \<and>
     (\<forall>sk. w = Some sk \<longrightarrow> fs \<noteq> [] \<longrightarrow> rank (keyString sk) < keyRank rank (hd fs))"

definition rankInv :: "files \<Rightarrow> (string \<Rightarrow> nat) \<Rightarrow> loaderState \<Rightarrow> bool" where
  "rankInv prog rank st \<longleftrightarrow> (\<forall>t. threadOk prog rank (want st t) (stacks st t))"

lemma threadOk_Nil [simp]: "threadOk prog rank w []"
  by (simp add: threadOk_def)

lemma threadOk_served: "threadOk prog rank w fs \<Longrightarrow> threadOk prog rank None fs"
  by (simp add: threadOk_def)

lemma threadOk_tl: "threadOk prog rank w (f # fs) \<Longrightarrow> threadOk prog rank None fs"
  by (simp add: threadOk_def)

lemma threadOk_request:
  assumes "ranked prog rank" and "threadOk prog rank None (f # fs)" and "fLoads f = r # rs"
    and "parseSourceKey (fKey f) r = Ok skn"
  shows "threadOk prog rank (Some skn) (f\<lparr>fLoads := rs\<rparr> # fs)"
proof -
  obtain rs0 where p: "prog (fKey f) = Inr (rs0, fEnd f)" "set (r # rs) \<subseteq> set rs0"
    using assms(2,3) by (auto simp: threadOk_def frameOk_def)
  then have "rank (keyString skn) < rank (keyString (fKey f))"
    using assms(1,4) unfolding ranked_def by (meson list.set_intros(1) subsetD)
  then show ?thesis using assms(2) p by (auto simp: threadOk_def frameOk_def keyRank_def frameKey_def)
qed

lemma threadOk_enter:
  assumes "threadOk prog rank (Some sk) fs" and "prog sk = Inr (rs, e)"
  shows "threadOk prog rank None (\<lparr>fKey = sk, fLoads = rs, fEnd = e\<rparr> # fs)"
proof -
  have "rank (keyString sk) < keyRank rank g" if "g \<in> set fs" for g
    using that assms(1) by (cases fs) (auto simp: threadOk_def)
  then show ?thesis using assms by (auto simp: threadOk_def frameOk_def keyRank_def)
qed

lemma rank_abort: "rankInv prog rank st \<Longrightarrow> rankInv prog rank (abort t e st)"
  by (simp add: rankInv_def abort_def)

lemma rank_upd:
  "rankInv prog rank st \<Longrightarrow> threadOk prog rank w fs \<Longrightarrow> want st' = (want st)(t := w) \<Longrightarrow> stacks st' = (stacks st)(t := fs) \<Longrightarrow>
   rankInv prog rank st'"
  by (simp add: rankInv_def)

lemma lstep_rank:
  assumes "lstep prog st st'" and "ranked prog rank" and inv: "rankInv prog rank st"
  shows "rankInv prog rank st'"
  using assms(1)
proof cases
  case (Request t f fs r rs skn)
  have "threadOk prog rank None (f # fs)" using inv Request(2,3) unfolding rankInv_def by metis
  from threadOk_request[OF assms(2) this Request(4,5)] show ?thesis
    by (rule rank_upd[OF inv, where t = t]) (simp_all add: Request(1))
next
  case (Enter t sk rs e)
  have "threadOk prog rank (Some sk) (stacks st t)" using inv Enter(2) unfolding rankInv_def by metis
  from threadOk_enter[OF this Enter(4)] show ?thesis by (rule rank_upd[OF inv, where t = t]) (simp_all add: Enter(1))
next
  case (NoFile t sk e)
  have "rankInv prog rank (st\<lparr>sources := s\<rparr>)" for s using inv by (simp add: rankInv_def)
  then show ?thesis using NoFile(1) rank_abort by blast
next
  case (Hit t sk u)
  have "threadOk prog rank None (stacks st t)" using inv threadOk_served unfolding rankInv_def by blast
  then show ?thesis by (rule rank_upd[OF inv, where t = t]) (simp_all add: Hit(1))
next
  case (Return t f fs)
  have "threadOk prog rank (want st t) (f # fs)" using inv Return(3) unfolding rankInv_def by metis
  then have "threadOk prog rank None fs" by (rule threadOk_tl)
  then show ?thesis by (rule rank_upd[OF inv, where t = t]) (simp_all add: Return(1,2) fun_eq_iff)
next
  case (Lock t sk u r)
  then show ?thesis using inv by (simp add: rankInv_def)
qed (simp_all add: rank_abort inv)

interpretation rank: step_invariant "lstep prog" "\<lambda>st. ranked prog rank \<and> rankInv prog rank st" for prog rank
  by unfold_locales (blast intro: lstep_rank)

lemma rank_init: "rankInv prog rank (initLoader roots)"
  by (simp add: rankInv_def initLoader_def)

section \<open>Steps and waiting\<close>

text \<open>parseSourceKey never panics, so a thread that is not finished waits or can go on.\<close>

lemma parseSourceKey_total: "(\<exists>sk. parseSourceKey parent s = Ok sk) \<or> (\<exists>e. parseSourceKey parent s = Err e)"
proof -
  have "refElems s ps \<noteq> Panic m" for ps m by (induction ps) auto
  then have "bindO (refElems s ps) (\<lambda>_. Ok (sk :: sourceKey)) \<noteq> Panic m" for ps sk m by (cases "refElems s ps") auto
  then show ?thesis
    by (cases "parseSourceKey parent s") (auto simp: parseSourceKey_def Let_def split: if_splits option.splits)
qed

lemma reading_steps:
  assumes "tableInv st" and "reading st t = Some k"
  shows "\<exists>st'. lstep prog st st'"
proof -
  obtain sk u r where w: "want st t = Some sk" "keyString sk = k" "sources st k = Some (Loaded u r)"
    using tableD(3)[OF assms] by blast
  show ?thesis
  proof (cases r)
    case None
    then show ?thesis using lstep.Hit[of st t sk u prog] w assms(2) by blast
  next
    case (Some e)
    then show ?thesis using lstep.HitError[of st t sk u e prog] w assms(2) by blast
  qed
qed

lemma wanting_steps:
  assumes "want st t = Some sk" and "reading st t = None"
  shows "blocked st t \<or> (\<exists>st'. lstep prog st st')"
proof (cases "sources st (keyString sk)")
  case None
  then show ?thesis using assms lstep.NoFile[OF assms(1) None] lstep.Enter[OF assms(1) None]
    by (cases "prog sk") (auto, blast+)
next
  case (Some s)
  show ?thesis
  proof (cases "\<exists>v. lockedBy st (keyString sk) v")
    case True
    then obtain v where v: "lockedBy st (keyString sk) v" by blast
    then show ?thesis using assms Some lstep.Cycle[OF assms Some _ v] by (cases "loaderOf s = t") (auto simp: blocked_def)
  next
    case False
    then obtain u r where "s = Loaded u r" using Some by (cases s) (auto simp: lockedBy_def)
    then show ?thesis using lstep.Lock[OF assms] Some False by blast
  qed
qed

lemma running_steps:
  assumes "want st t = None" and "stacks st t \<noteq> []"
  shows "\<exists>st'. lstep prog st st'"
proof -
  obtain f fs where top: "stacks st t = f # fs" using assms(2) by (cases "stacks st t") auto
  show ?thesis
  proof (cases "fLoads f")
    case Nil
    then show ?thesis using lstep.Return[OF assms(1) top Nil] lstep.Fail[OF assms(1) top Nil] by (cases "fEnd f") blast+
  next
    case (Cons r rs)
    then show ?thesis
      using parseSourceKey_total[of "fKey f" r] lstep.Request[OF assms(1) top Cons] lstep.BadRef[OF assms(1) top Cons] by blast
  qed
qed

lemma step_or_wait:
  assumes "tableInv st"
  shows "finished st t \<or> blocked st t \<or> (\<exists>st'. lstep prog st st')"
proof (cases "want st t")
  case None
  then show ?thesis using running_steps[OF None] by (auto simp: finished_def)
next
  case (Some sk)
  then show ?thesis using wanting_steps[OF Some] reading_steps[OF assms] by (cases "reading st t") auto
qed

lemma acyclic_steps_or_finished:
  assumes "ranked prog rank" and "(lstep prog)\<^sup>*\<^sup>* (initLoader roots) st"
  shows "(\<forall>t. finished st t) \<or> (\<exists>st'. lstep prog st st')"
proof (rule ccontr)
  assume stuck: "\<not> ?thesis"
  have inv: "tableInv st" using table.reached[OF assms(2) tableInv_init] .
  have rk: "rankInv prog rank st" using rank.reached[OF assms(2)] assms(1) rank_init by blast
  have wait: "finished st t \<or> blocked st t" for t using step_or_wait[OF inv] stuck by blast
  have idle: "reading st t = None" for t using reading_steps[OF inv] stuck by (cases "reading st t") auto
  have loading: "\<exists>v. sources st (keyString sk) = Some (Loading v)" if "want st t = Some sk" "blocked st t" for t sk
    using that idle by (auto simp: blocked_def lockedBy_def)
  define wants where "wants = {rank (keyString sk) | t sk. want st t = Some sk \<and> blocked st t}"
  obtain t0 where "\<not> finished st t0" using stuck by blast
  then have b0: "blocked st t0" using wait by blast
  then obtain sk0 where "want st t0 = Some sk0" by (auto simp: blocked_def)
  with b0 have ne: "wants \<noteq> {}" by (auto simp: wants_def)
  define m where "m = (LEAST n. n \<in> wants)"
  have "m \<in> wants" unfolding m_def using ne by (metis LeastI ex_in_conv)
  then obtain t sk where t: "want st t = Some sk" "blocked st t" "m = rank (keyString sk)" by (auto simp: wants_def)
  then obtain v where v: "sources st (keyString sk) = Some (Loading v)" using loading by blast
  then obtain f where f: "f \<in> set (stacks st v)" "keyString sk = frameKey f" using tableD(1)[OF inv, of "keyString sk" v] by auto
  then have "\<not> finished st v" by (auto simp: finished_def)
  then have bv: "blocked st v" using wait by blast
  then obtain sk' where sk': "want st v = Some sk'" by (auto simp: blocked_def)
  have th: "threadOk prog rank (Some sk') (stacks st v)" using rk sk' by (metis rankInv_def)
  have "rank (keyString sk') < keyRank rank (hd (stacks st v))" using th f(1) by (auto simp: threadOk_def)
  also have "\<dots> \<le> keyRank rank f" using th f(1) by (cases "stacks st v") (auto simp: threadOk_def)
  finally have "rank (keyString sk') < m" using f(2) t(3) by (simp add: keyRank_def)
  moreover have "m \<le> rank (keyString sk')" unfolding m_def using sk' bv by (intro Least_le) (auto simp: wants_def)
  ultimately show False by simp
qed

text \<open>
  C7. When the load graph has no cycle, threads that load sources concurrently never deadlock:
  whatever they have done so far, either all have finished or one of them can go on.
\<close>

theorem acyclic_loads_never_deadlock:
  assumes "ranked prog rank" and "(lstep prog)\<^sup>*\<^sup>* (initLoader roots) st"
  shows "(\<forall>t. finished st t) \<or> (\<exists>st'. lstep prog st st')"
  by (rule acyclic_steps_or_finished[OF assms])



section \<open>Loading ends\<close>

text \<open>What is left to do: for every thread, and for every source that is not in the table.\<close>

definition wantWork :: "loaderState \<Rightarrow> nat \<Rightarrow> nat" where
  "wantWork st t = (if want st t = None then 0 else if reading st t = None then 3 else 2)"

definition stackWork :: "frame list \<Rightarrow> nat" where
  "stackWork fs = sum_list (map (\<lambda>f. 4 * length (fLoads f) + 1) fs)"

definition threadWork :: "loaderState \<Rightarrow> nat \<Rightarrow> nat" where
  "threadWork st t = wantWork st t + stackWork (stacks st t)"

definition loadWork :: "nat set \<Rightarrow> string set \<Rightarrow> nat \<Rightarrow> loaderState \<Rightarrow> nat" where
  "loadWork T K L st = sum (threadWork st) T + (4 * L + 2) * card {k \<in> K. sources st k = None}"

definition threadsIn :: "nat set \<Rightarrow> loaderState \<Rightarrow> bool" where
  "threadsIn T st \<longleftrightarrow> (\<forall>t. t \<notin> T \<longrightarrow> want st t = None \<and> stacks st t = [])"

lemma threadWork_eq:
  "want st' u = want st u \<Longrightarrow> reading st' u = reading st u \<Longrightarrow> stacks st' u = stacks st u \<Longrightarrow> threadWork st' u = threadWork st u"
  by (simp add: threadWork_def wantWork_def)

lemma missing_mono:
  assumes "finite K" and "\<And>k. sources st' k = None \<Longrightarrow> sources st k = None"
  shows "card {k \<in> K. sources st' k = None} \<le> card {k \<in> K. sources st k = None}"
  using assms by (intro card_mono) auto

lemma work_thread:
  assumes "finite T" and "finite K" and "t \<in> T" and "threadWork st' t < threadWork st t"
    and "\<And>u. u \<noteq> t \<Longrightarrow> threadWork st' u = threadWork st u"
    and "\<And>k. sources st' k = None \<Longrightarrow> sources st k = None"
  shows "loadWork T K L st' < loadWork T K L st"
proof -
  have "sum (threadWork st') (T - {t}) = sum (threadWork st) (T - {t})" using assms(5) by (intro sum.cong) auto
  then have "sum (threadWork st') T < sum (threadWork st) T" using assms(1,3,4) by (simp add: sum.remove[of T t])
  moreover have "card {k \<in> K. sources st' k = None} \<le> card {k \<in> K. sources st k = None}"
    by (rule missing_mono[OF assms(2)]) (rule assms(6))
  then have "(4 * L + 2) * card {k \<in> K. sources st' k = None} \<le> (4 * L + 2) * card {k \<in> K. sources st k = None}"
    by (rule mult_le_mono2)
  ultimately show ?thesis unfolding loadWork_def by linarith
qed

lemma work_enter:
  assumes "finite T" and "finite K" and "t \<in> T" and "k \<in> K" and "sources st k = None" and "sources st' k \<noteq> None"
    and "threadWork st' t < threadWork st t + (4 * L + 2)"
    and "\<And>u. u \<noteq> t \<Longrightarrow> threadWork st' u = threadWork st u"
    and "\<And>k. sources st' k = None \<Longrightarrow> sources st k = None"
  shows "loadWork T K L st' < loadWork T K L st"
proof -
  have "sum (threadWork st') (T - {t}) = sum (threadWork st) (T - {t})" using assms(8) by (intro sum.cong) auto
  then have "sum (threadWork st') T < sum (threadWork st) T + (4 * L + 2)"
    using assms(1,3,7) by (simp add: sum.remove[of T t])
  moreover have "{k \<in> K. sources st' k = None} \<subset> {k \<in> K. sources st k = None}"
  proof
    show "{k \<in> K. sources st' k = None} \<subseteq> {k \<in> K. sources st k = None}" by (auto intro: assms(9))
    show "{k \<in> K. sources st' k = None} \<noteq> {k \<in> K. sources st k = None}" using assms(4,5,6) by (metis (mono_tags, lifting) mem_Collect_eq)
  qed
  then have "Suc (card {k \<in> K. sources st' k = None}) \<le> card {k \<in> K. sources st k = None}"
    using assms(2) by (simp add: psubset_card_mono Suc_leI)
  from mult_le_mono2[OF this, of "4 * L + 2"]
  have "(4 * L + 2) * card {k \<in> K. sources st' k = None} + (4 * L + 2) \<le> (4 * L + 2) * card {k \<in> K. sources st k = None}"
    by (simp only: mult_Suc_right add.commute)
  ultimately show ?thesis unfolding loadWork_def by linarith
qed

lemma work_abort:
  assumes "finite T" and "finite K" and "t \<in> T" and "threadWork st t > 0"
    and "\<And>k. sources st2 k = None \<Longrightarrow> sources st k = None"
    and "\<And>u. threadWork st2 u = threadWork st u"
  shows "loadWork T K L (abort t e st2) < loadWork T K L st"
proof (rule work_thread[OF assms(1-3)])
  show "threadWork (abort t e st2) t < threadWork st t"
    using assms(4) by (simp add: threadWork_def wantWork_def stackWork_def abort_def)
  show "threadWork (abort t e st2) u = threadWork st u" if "u \<noteq> t" for u
  proof -
    have "threadWork (abort t e st2) u = threadWork st2 u" by (rule threadWork_eq) (simp_all add: abort_def that)
    then show ?thesis using assms(6) by simp
  qed
qed (use assms(5) in \<open>auto simp: abort_def split: if_splits\<close>)

lemma lstep_threads:
  assumes "lstep prog st st'" and "threadsIn T st"
  shows "threadsIn T st'"
  using assms by cases (auto simp: threadsIn_def abort_def)

text \<open>Only threads of T load, sources of K, and no source loads more than L others.\<close>

definition boundedFiles :: "files \<Rightarrow> string set \<Rightarrow> nat \<Rightarrow> bool" where
  "boundedFiles prog K L \<longleftrightarrow> (\<forall>sk rs e. prog sk = Inr (rs, e) \<longrightarrow> keyString sk \<in> K \<and> length rs \<le> L)"

lemma lstep_work:
  assumes "lstep prog st st'" and fin: "finite T" "finite K" and T: "threadsIn T st" and P: "boundedFiles prog K L"
    and inv: "tableInv st"
  shows "loadWork T K L st' < loadWork T K L st"
proof -
  have wantT: "t \<in> T" if "want st t = Some sk" for t sk using T that by (auto simp: threadsIn_def)
  have topT: "t \<in> T" if "stacks st t = f # fs" for t f fs using T that by (auto simp: threadsIn_def)
  have busy: "threadWork st t > 0" if "stacks st t = f # fs" for t f fs
    using that by (simp add: threadWork_def stackWork_def)
  have wanted: "threadWork st t > 0" if "want st t = Some sk" for t sk
    using that by (simp add: threadWork_def wantWork_def)
  have idle: "reading st t = None" if "want st t = None" for t
    using that tableD(3)[OF inv, of t] by (cases "reading st t") auto
  show ?thesis using assms(1)
  proof cases
    case (Request t f fs r rs skn)
    show ?thesis
    proof (rule work_thread[OF fin topT[OF Request(3)]])
      show "threadWork st' t < threadWork st t"
        using Request idle[of t] by (simp add: threadWork_def wantWork_def stackWork_def)
    qed (auto simp: Request(1) intro: threadWork_eq)
  next
    case (BadRef t f fs r rs e)
    then show ?thesis using work_abort[OF fin topT busy] by blast
  next
    case (Enter t sk rs e)
    have b: "keyString sk \<in> K" "length rs \<le> L" using P Enter(4) by (auto simp: boundedFiles_def)
    have n: "reading st t = None" using tableD(3)[OF inv, of t] Enter(2,3) by (cases "reading st t") auto
    show ?thesis
    proof (rule work_enter[OF fin wantT[OF Enter(2)] b(1) Enter(3)])
      show "threadWork st' t < threadWork st t + (4 * L + 2)"
        using Enter(1,2) b(2) n by (simp add: threadWork_def wantWork_def stackWork_def)
    qed (auto simp: Enter(1) intro: threadWork_eq split: if_splits)
  next
    case (NoFile t sk e)
    show ?thesis unfolding NoFile(1)
      by (rule work_abort[OF fin wantT[OF NoFile(2)] wanted[OF NoFile(2)]]) (auto split: if_splits intro: threadWork_eq)
  next
    case (Lock t sk u r)
    show ?thesis
    proof (rule work_thread[OF fin wantT[OF Lock(2)]])
      show "threadWork st' t < threadWork st t" using Lock by (simp add: threadWork_def wantWork_def)
    qed (auto simp: Lock(1) intro: threadWork_eq)
  next
    case (Cycle t sk s v)
    then show ?thesis using work_abort[OF fin wantT wanted] by blast
  next
    case (Hit t sk u)
    show ?thesis
    proof (rule work_thread[OF fin wantT[OF Hit(2)]])
      show "threadWork st' t < threadWork st t" using Hit by (simp add: threadWork_def wantWork_def)
    qed (auto simp: Hit(1) intro: threadWork_eq)
  next
    case (HitError t sk u e)
    then show ?thesis using work_abort[OF fin wantT wanted] by blast
  next
    case (Return t f fs)
    show ?thesis
    proof (rule work_thread[OF fin topT[OF Return(3)]])
      show "threadWork st' t < threadWork st t" using Return by (simp add: threadWork_def wantWork_def stackWork_def)
    qed (auto simp: Return(1) intro: threadWork_eq split: if_splits)
  next
    case (Fail t f fs e)
    then show ?thesis using work_abort[OF fin topT busy] by blast
  qed
qed

text \<open>The finite situations in which the measure bounds the runs.\<close>

definition boundedLoads :: "nat set \<Rightarrow> string set \<Rightarrow> nat \<Rightarrow> files \<Rightarrow> loaderState \<Rightarrow> bool" where
  "boundedLoads T K L prog st \<longleftrightarrow> finite T \<and> finite K \<and> boundedFiles prog K L \<and> threadsIn T st \<and> tableInv st"

interpretation work: step_measure "lstep prog" "boundedLoads T K L prog" "loadWork T K L" for T K L prog
proof unfold_locales
  fix st st'
  assume inv: "boundedLoads T K L prog st" and step: "lstep prog st st'"
  show "boundedLoads T K L prog st'"
    using inv lstep_inv[OF step] lstep_threads[OF step] by (simp add: boundedLoads_def)
  show "loadWork T K L st' < loadWork T K L st"
    using inv unfolding boundedLoads_def by (blast intro: lstep_work[OF step])
qed

text \<open>
  C39. Loading always ends, with or without cycles: with finitely many threads, finitely many sources
  that can be opened and at most L load() statements in each, no run has more steps than three for
  each thread and 4 L + 2 for each source; and without cycles a run that ends has finished
  every thread.
\<close>

theorem loading_terminates:
  assumes "finite T" and "finite K" and "\<And>t. t \<notin> T \<Longrightarrow> roots t = None" and "boundedFiles prog K L"
    and "(lstep prog ^^ n) (initLoader roots) st"
  shows "n \<le> 3 * card T + (4 * L + 2) * card K \<and>
    (ranked prog rank \<longrightarrow> (\<forall>st'. \<not> lstep prog st st') \<longrightarrow> (\<forall>t. finished st t))"
proof -
  have "threadsIn T (initLoader roots)" using assms(3) by (auto simp: threadsIn_def initLoader_def)
  then have "n \<le> loadWork T K L (initLoader roots)"
    using work.run_length[OF assms(5)] assms(1,2,4) tableInv_init by (simp add: boundedLoads_def)
  also have "\<dots> \<le> 3 * card T + (4 * L + 2) * card K"
  proof -
    have "sum (threadWork (initLoader roots)) T \<le> (\<Sum>t \<in> T. 3)"
      by (rule sum_mono) (simp add: threadWork_def wantWork_def stackWork_def initLoader_def)
    moreover have "card {k \<in> K. sources (initLoader roots) k = None} = card K" by (simp add: initLoader_def)
    ultimately show ?thesis by (simp add: loadWork_def)
  qed
  finally show ?thesis using acyclic_steps_or_finished[OF _ relpowp_imp_rtranclp[OF assms(5)]] by blast
qed

section \<open>Schedules\<close>

text \<open>The step of a thread, computed; ts are the threads that may load.\<close>

definition runTop :: "nat \<Rightarrow> loaderState \<Rightarrow> frame \<Rightarrow> frame list \<Rightarrow> loaderState" where
  "runTop t st f fs =
     (case fLoads f of
        r # rs \<Rightarrow>
          (case parseSourceKey (fKey f) r of
             Ok skn \<Rightarrow> st\<lparr>want := (want st)(t := Some skn), stacks := (stacks st)(t := f\<lparr>fLoads := rs\<rparr> # fs)\<rparr>
           | Err e \<Rightarrow> abort t e st
           | Panic m \<Rightarrow> st)
      | [] \<Rightarrow>
          (case fEnd f of
             None \<Rightarrow> st\<lparr>sources := (sources st)(frameKey f \<mapsto> Loaded t None), stacks := (stacks st)(t := fs)\<rparr>
           | Some e \<Rightarrow> abort t e st))"

definition runWant :: "nat list \<Rightarrow> files \<Rightarrow> nat \<Rightarrow> loaderState \<Rightarrow> sourceKey \<Rightarrow> loaderState option" where
  "runWant ts prog t st sk =
     (case sources st (keyString sk) of
        None \<Rightarrow>
          (case prog sk of
             Inr (rs, e) \<Rightarrow> Some (st\<lparr>sources := (sources st)(keyString sk \<mapsto> Loading t), want := (want st)(t := None),
               stacks := (stacks st)(t := \<lparr>fKey = sk, fLoads = rs, fEnd = e\<rparr> # stacks st t),
               executed := executed st @ [keyString sk]\<rparr>)
           | Inl e \<Rightarrow> Some (abort t e (st\<lparr>sources := (sources st)(keyString sk \<mapsto> Loaded t (Some e))\<rparr>)))
      | Some s \<Rightarrow>
          if reading st t \<noteq> None then
            (case s of
               Loaded u None \<Rightarrow> Some (st\<lparr>want := (want st)(t := None), reading := (reading st)(t := None)\<rparr>)
             | Loaded u (Some e) \<Rightarrow> Some (abort t e st)
             | Loading u \<Rightarrow> None)
          else if list_ex (lockedBy st (keyString sk)) ts then
            (if loaderOf s = t then Some (abort t (cycleErr sk) st) else None)
          else Some (st\<lparr>reading := (reading st)(t := Some (keyString sk))\<rparr>))"

definition stepOf :: "nat list \<Rightarrow> files \<Rightarrow> nat \<Rightarrow> loaderState \<Rightarrow> loaderState option" where
  "stepOf ts prog t st =
     (case want st t of
        Some sk \<Rightarrow> runWant ts prog t st sk
      | None \<Rightarrow> (case stacks st t of [] \<Rightarrow> None | f # fs \<Rightarrow> Some (runTop t st f fs)))"

lemma runTop_sound:
  assumes "want st t = None" and "stacks st t = f # fs"
  shows "lstep prog st (runTop t st f fs)"
proof (cases "fLoads f")
  case Nil
  then show ?thesis using lstep.Return[OF assms Nil] lstep.Fail[OF assms Nil] by (cases "fEnd f") (auto simp: runTop_def)
next
  case (Cons r rs)
  then show ?thesis
    using parseSourceKey_total[of "fKey f" r] lstep.Request[OF assms Cons] lstep.BadRef[OF assms Cons]
    by (auto simp: runTop_def)
qed

lemma locked_threads:
  assumes "tableInv st" and "threadsIn T st" and "lockedBy st k v"
  shows "v \<in> T"
  using assms(3) tableD(1)[OF assms(1), of k v] tableD(3)[OF assms(1), of v k] assms(2)
  by (fastforce simp: lockedBy_def threadsIn_def)

lemma runWant_sound:
  assumes "tableInv st" and "threadsIn (set ts) st" and "want st t = Some sk" and "runWant ts prog t st sk = Some st'"
  shows "lstep prog st st'"
proof (cases "sources st (keyString sk)")
  case None
  then show ?thesis using assms(4) lstep.NoFile[OF assms(3) None] lstep.Enter[OF assms(3) None]
    by (auto simp: runWant_def split: sum.splits)
next
  case (Some s)
  show ?thesis
  proof (cases "reading st t")
    case (Some k)
    then have r: "reading st t = Some (keyString sk)" using tableD(3)[OF assms(1) Some] assms(3) by auto
    then show ?thesis
      using assms(4) \<open>sources st (keyString sk) = Some s\<close> lstep.Hit[OF assms(3) r] lstep.HitError[OF assms(3) r]
      by (auto simp: runWant_def split: srcStatus.splits option.splits)
  next
    case None
    show ?thesis
    proof (cases "\<exists>v. lockedBy st (keyString sk) v")
      case True
      then obtain v where v: "lockedBy st (keyString sk) v" "v \<in> set ts" using locked_threads[OF assms(1,2)] by blast
      then have "list_ex (lockedBy st (keyString sk)) ts" by (auto simp: list_ex_iff)
      then show ?thesis using assms(4) Some None lstep.Cycle[OF assms(3) None Some _ v(1)]
        by (auto simp: runWant_def split: if_splits)
    next
      case False
      then obtain u r where s: "s = Loaded u r" using Some by (cases s) (auto simp: lockedBy_def)
      have "\<not> list_ex (lockedBy st (keyString sk)) ts" using False by (auto simp: list_ex_iff)
      then show ?thesis using assms(4) Some None s False lstep.Lock[OF assms(3) None, of u r]
        by (auto simp: runWant_def)
    qed
  qed
qed

lemma stepOf_sound:
  assumes "tableInv st" and "threadsIn (set ts) st" and "stepOf ts prog t st = Some st'"
  shows "lstep prog st st'"
proof (cases "want st t")
  case None
  then show ?thesis using assms(3) runTop_sound[OF None] by (auto simp: stepOf_def split: list.splits)
next
  case (Some sk)
  then show ?thesis using assms runWant_sound[OF assms(1,2) Some] by (simp add: stepOf_def)
qed

fun runSchedule :: "nat list \<Rightarrow> files \<Rightarrow> nat list \<Rightarrow> loaderState \<Rightarrow> loaderState option" where
  "runSchedule ts prog [] st = Some st"
| "runSchedule ts prog (t # sched) st = Option.bind (stepOf ts prog t st) (runSchedule ts prog sched)"

lemma runSchedule_sound:
  "tableInv st \<Longrightarrow> threadsIn (set ts) st \<Longrightarrow> runSchedule ts prog sched st = Some st' \<Longrightarrow> (lstep prog ^^ length sched) st st'"
proof (induction sched arbitrary: st)
  case (Cons t sched)
  then obtain v where v: "stepOf ts prog t st = Some v" "runSchedule ts prog sched v = Some st'"
    by (auto simp: Option.bind_eq_Some_conv)
  then have step: "lstep prog st v" using stepOf_sound Cons.prems(1,2) by blast
  have "(lstep prog ^^ length sched) v st'"
    using Cons.IH[OF lstep_inv[OF step Cons.prems(1)] lstep_threads[OF step Cons.prems(2)] v(2)] .
  then show ?case using relpowp_Suc_I2[of "lstep prog", OF step] by simp
qed simp

definition twoRoots :: "string \<Rightarrow> string \<Rightarrow> nat \<Rightarrow> sourceKey option" where
  "twoRoots p q t = (if t = 0 then Some (mainKey p) else if t = 1 then Some (mainKey q) else None)"

lemma twoRoots_threads: "threadsIn (set [0, 1]) (initLoader (twoRoots p q))"
  by (simp add: threadsIn_def initLoader_def twoRoots_def)

lemmas duo_runs = runSchedule_sound[OF tableInv_init twoRoots_threads]

lemmas duo_reaches = relpowp_imp_rtranclp[OF duo_runs]

lemmas schedule_eval = initLoader_def twoRoots_def stepOf_def runWant_def runTop_def lockedBy_def abort_def frameKey_def

text \<open>
  The project file p loads the files that table says, in order, and nothing else exists. In fileTable
  every load() reference is root relative.
\<close>

definition fileTable :: "(string \<times> string list) list \<Rightarrow> files" where
  "fileTable tab sk =
     (if pkg sk = ''__main__'' then
        (case map_of tab (skRelpath sk) of
           Some rs \<Rightarrow> Inr (map (\<lambda>p. ''//'' @ p) rs, None)
         | None \<Rightarrow> Inl (Errorf ''%s not found'' [FStr (skRelpath sk)]))
      else Inl (New ''package not found''))"

lemma mainKey_pkg: "pkg (mainKey p) = ''__main__''"
  by (simp add: mainKey_def)

lemma fileTable_main:
  "fileTable tab (mainKey p) =
     (case map_of tab p of Some rs \<Rightarrow> Inr (map (\<lambda>p. ''//'' @ p) rs, None) | None \<Rightarrow> Inl (Errorf ''%s not found'' [FStr p]))"
  by (simp add: fileTable_def mainKey_pkg split: option.split)

lemma fileTable_ranked:
  assumes "\<And>p rs q. map_of tab p = Some rs \<Longrightarrow> q \<in> set rs \<Longrightarrow> h q < (h p :: nat)"
  shows "ranked (fileTable tab) (\<lambda>k. h (drop 2 k))"
  unfolding ranked_def
proof (intro allI impI)
  fix sk rs e r skn
  assume f: "fileTable tab sk = Inr (rs, e)" and r: "r \<in> set rs" and p: "parseSourceKey sk r = Ok skn"
  then obtain ps q where ps: "map_of tab (skRelpath sk) = Some ps" "q \<in> set ps" "r = ''//'' @ q" and main: "pkg sk = ''__main__''"
    by (auto simp: fileTable_def split: if_splits option.splits)
  have "pkg skn = ''__main__''" and "skRelpath skn = q"
    using p main by (auto simp: ps(3) parseSourceKey_def HasPrefix_def)
  then show "h (drop 2 (keyString skn)) < h (drop 2 (keyString sk))"
    using assms[OF ps(1,2)] main by (simp add: keyString_def)
qed

lemma fileTable_bounded:
  "boundedFiles (fileTable tab) ((\<lambda>p. ''//'' @ fst p) ` set tab) (Max (insert 0 (length ` snd ` set tab)))"
proof -
  have "''//'' @ p \<in> (\<lambda>p. ''//'' @ fst p) ` set tab \<and> length rs \<le> Max (insert 0 (length ` snd ` set tab))"
    if "map_of tab p = Some rs" for p rs
    using map_of_SomeD[OF that] by (force intro: Max_ge)
  then show ?thesis by (auto simp: boundedFiles_def fileTable_def keyString_def split: if_splits option.splits)
qed

text \<open>
  Files that load each other are reported as a cycle to a single thread, but two threads that enter
  the cycle from its two ends can reach a state in which each waits for the other's source and no
  step is possible any more: the run hangs.
\<close>

definition mutualFiles :: files where
  "mutualFiles = fileTable [(''a'', [''b'']), (''b'', [''a''])]"

definition deadlocked :: loaderState where
  "deadlocked = \<lparr>sources = [''//a'' \<mapsto> Loading 0, ''//b'' \<mapsto> Loading 1], want = twoRoots ''b'' ''a'', reading = (\<lambda>_. None),
     stacks = (\<lambda>t. if t = 0 then [\<lparr>fKey = mainKey ''a'', fLoads = [], fEnd = None\<rparr>]
       else if t = 1 then [\<lparr>fKey = mainKey ''b'', fLoads = [], fEnd = None\<rparr>] else []),
     failed = (\<lambda>_. None), executed = [''//a'', ''//b'']\<rparr>"

theorem mutual_loads_deadlock:
  "(lstep mutualFiles)\<^sup>*\<^sup>* (initLoader (twoRoots ''a'' ''b'')) deadlocked \<and>
   \<not> (\<exists>st. lstep mutualFiles deadlocked st) \<and> blocked deadlocked 0 \<and> blocked deadlocked 1"
proof -
  have key: "parseSourceKey (mainKey q) ''//a'' = Ok (mainKey ''a'')" "parseSourceKey (mainKey q) ''//b'' = Ok (mainKey ''b'')" for q
    using mainKey_eval(3)[of q "''a''"] mainKey_eval(3)[of q "''b''"] by simp_all
  have "runSchedule [0, 1] mutualFiles [0, 1, 0, 1] (initLoader (twoRoots ''a'' ''b'')) = Some deadlocked"
    by (simp add: schedule_eval mutualFiles_def fileTable_main key deadlocked_def fun_eq_iff)
  then have "(lstep mutualFiles)\<^sup>*\<^sup>* (initLoader (twoRoots ''a'' ''b'')) deadlocked"
    by (rule duo_reaches)
  moreover have "\<not> lstep mutualFiles deadlocked st" for st
  proof
    assume "lstep mutualFiles deadlocked st"
    then show False
      by cases (auto simp: deadlocked_def twoRoots_def lockedBy_def split: if_splits)
  qed
  ultimately show ?thesis by (auto simp: blocked_def deadlocked_def twoRoots_def lockedBy_def)
qed

text \<open>
  Without any cycle, a load can be reported as one: a loads c and b, b loads c, and d loads c. While
  the second thread, which loads d, holds the mutex of the finished source c to take its result, the
  first one, which is c's master, comes to load c again from b; its TryLock fails.
\<close>

definition diamondFiles :: files where
  "diamondFiles = fileTable [(''a'', [''c'', ''b'']), (''b'', [''c'']), (''c'', []), (''d'', [''c''])]"

lemma diamond_ranked: "ranked diamondFiles (\<lambda>k. (\<lambda>p. if p = ''a'' then 2 else if p = ''b'' \<or> p = ''d'' then 1 else 0) (drop 2 k))"
  unfolding diamondFiles_def by (rule fileTable_ranked) (auto split: if_splits)

theorem diamond_reported_as_cycle:
  "\<exists>rank st. ranked diamondFiles rank \<and> (lstep diamondFiles)\<^sup>*\<^sup>* (initLoader (twoRoots ''a'' ''d'')) st \<and>
     failed st 0 = Some (cycleErr (mainKey ''c''))"
proof -
  let ?r = "runSchedule [0, 1] diamondFiles [0, 0, 0, 0, 1, 1, 1, 0, 0, 0, 0] (initLoader (twoRoots ''a'' ''d''))"
  have "map_option (\<lambda>st. failed st 0) ?r = Some (Some (cycleErr (mainKey ''c'')))" by code_simp
  then obtain st where st: "?r = Some st" "failed st 0 = Some (cycleErr (mainKey ''c''))" by auto
  show ?thesis using diamond_ranked duo_reaches[OF st(1)] st(2) by blast
qed

section \<open>The properties on concrete files\<close>

text \<open>Two threads load a and d of the files above one after the other: c is executed by the first only.\<close>

definition demoSchedule :: "nat list" where
  "demoSchedule = [0, 0, 0, 0, 0, 0, 0, 0, 0, 0, 0, 1, 1, 1, 1, 1]"

definition demoEnd :: loaderState where
  "demoEnd = the (runSchedule [0, 1] diamondFiles demoSchedule (initLoader (twoRoots ''a'' ''d'')))"

lemma demoEnd_run:
  "runSchedule [0, 1] diamondFiles demoSchedule (initLoader (twoRoots ''a'' ''d'')) = Some demoEnd"
  "executed demoEnd = [''//a'', ''//c'', ''//b'', ''//d'']" "length demoSchedule = 16"
proof -
  have "map_option executed (runSchedule [0, 1] diamondFiles demoSchedule (initLoader (twoRoots ''a'' ''d''))) =
      Some [''//a'', ''//c'', ''//b'', ''//d'']" by code_simp
  then show "runSchedule [0, 1] diamondFiles demoSchedule (initLoader (twoRoots ''a'' ''d'')) = Some demoEnd"
    "executed demoEnd = [''//a'', ''//c'', ''//b'', ''//d'']"
    by (auto simp: demoEnd_def)
qed (simp add: demoSchedule_def)

theorem acyclic_loads_never_deadlock_witness:
  "\<exists>st. lstep diamondFiles (initLoader (twoRoots ''a'' ''d'')) st"
proof -
  have "\<not> finished (initLoader (twoRoots ''a'' ''d'')) 0" by (simp add: finished_def initLoader_def twoRoots_def)
  then show ?thesis using acyclic_loads_never_deadlock[OF diamond_ranked rtranclp.rtrancl_refl] by blast
qed


theorem loading_terminates_witness:
  "length demoSchedule \<le> 3 * card {0, 1 :: nat} + (4 * 2 + 2) * card {''//a'', ''//b'', ''//c'', ''//d''}"
proof -
  have "boundedFiles diamondFiles {''//a'', ''//b'', ''//c'', ''//d''} 2"
    using fileTable_bounded[of "[(''a'', [''c'', ''b'']), (''b'', [''c'']), (''c'', []), (''d'', [''c''])]"]
    by (simp add: diamondFiles_def numeral_2_eq_2)
  note b = this
  have roots: "twoRoots ''a'' ''d'' t = None" if "t \<notin> {0, 1}" for t using that by (simp add: twoRoots_def)
  show ?thesis using loading_terminates[of "{0, 1}", OF _ _ roots b duo_runs[OF demoEnd_run(1)]] by simp
qed

end
