(* ===== verification/Unpack.thy ===== *)
theory Unpack
  imports Checks
begin

text \<open>
  How a builtin gets its arguments: starlark.UnpackArgs, translated from the vendored interpreter
  (vendor/go.starlark.net/starlark/unpack.go), on any type of values, with the conversion of a value
  to the Go variable of a parameter as an argument. The set of defined parameters is a list of their
  indices; spell.Nearest and the quoting of a Starlark string are parameters. The lemmas reduce the
  two loops to a declarative binding of parameters to arguments.
\<close>

section \<open>UnpackArgs\<close>

text \<open>A parameter is written name, name? where it is optional, and name?? where None counts as absent.\<close>

definition paramName :: "string \<Rightarrow> string \<times> bool" where
  "paramName x =
     (if HasSuffix x ''??'' then (take (length x - 2) x, True)
      else if HasSuffix x ''?'' then (butlast x, False) else (x, False))"

abbreviation pname :: "string \<Rightarrow> string" where "pname x \<equiv> fst (paramName x)"

record ('a, 'b) unpacker =
  upIsNone :: "'a \<Rightarrow> bool"
  upConv :: "nat \<Rightarrow> 'a \<Rightarrow> 'b outcome"
  upQuote :: "string \<Rightarrow> string"
  upNearest :: "string \<Rightarrow> string list \<Rightarrow> string"

text \<open>The value that an argument gives a parameter; \<open>None\<close> leaves the default of the variable.\<close>

definition slotValue :: "('a, 'b) unpacker \<Rightarrow> string \<Rightarrow> string list \<Rightarrow> nat \<Rightarrow> string \<Rightarrow> 'a \<Rightarrow> 'b option outcome" where
  "slotValue up fn pairs i shown arg =
     (if snd (paramName (pairs ! i)) \<and> upIsNone up arg then Ok None
      else case upConv up i arg of
        Ok v \<Rightarrow> Ok (Some v)
      | Err e \<Rightarrow> Err (Errorf ''%s: for parameter %s: %s'' [FStr fn, FStr shown, FStr (errText e)])
      | Panic m \<Rightarrow> Panic m)"

definition store :: "nat \<Rightarrow> 'b option \<Rightarrow> (nat \<Rightarrow> 'b option) \<Rightarrow> nat \<Rightarrow> 'b option" where
  "store i v vals = (case v of None \<Rightarrow> vals | Some x \<Rightarrow> vals(i \<mapsto> x))"

fun unpackPositional ::
    "('a, 'b) unpacker \<Rightarrow> string \<Rightarrow> string list \<Rightarrow> nat \<Rightarrow> 'a list \<Rightarrow> (nat \<Rightarrow> 'b option) \<Rightarrow> (nat \<Rightarrow> 'b option) outcome" where
  "unpackPositional up fn pairs i [] vals = Ok vals"
| "unpackPositional up fn pairs i (arg # args) vals =
     bindO (slotValue up fn pairs i (pname (pairs ! i)) arg) (\<lambda>v.
       unpackPositional up fn pairs (Suc i) args (store i v vals))"

text \<open>The first parameter with a name; the suggestion looks at the first half of the parameters only.\<close>

fun indexOf :: "'k \<Rightarrow> 'k list \<Rightarrow> nat option" where
  "indexOf k [] = None"
| "indexOf k (x # xs) = (if k = x then Some 0 else map_option Suc (indexOf k xs))"

definition unexpected :: "('a, 'b) unpacker \<Rightarrow> string \<Rightarrow> string list \<Rightarrow> string \<Rightarrow> err" where
  "unexpected up fn pairs k =
     (let e = Errorf ''%s: unexpected keyword argument %s'' [FStr fn, FStr (upQuote up k)];
          n = upNearest up k (map pname (take ((length pairs + 1) div 2) pairs))
      in if n = [] then e else Errorf ''%s (did you mean %s?)'' [FStr (errText e), FStr n])"

fun unpackKeywords ::
    "('a, 'b) unpacker \<Rightarrow> string \<Rightarrow> string list \<Rightarrow> (string \<times> 'a) list \<Rightarrow> (nat \<Rightarrow> 'b option) \<Rightarrow> nat list \<Rightarrow>
      ((nat \<Rightarrow> 'b option) \<times> nat list) outcome" where
  "unpackKeywords up fn pairs [] vals defined = Ok (vals, defined)"
| "unpackKeywords up fn pairs ((k, arg) # kws) vals defined =
     (case indexOf k (map pname pairs) of
        None \<Rightarrow> Err (unexpected up fn pairs k)
      | Some i \<Rightarrow>
          if i \<in> set defined
          then Err (Errorf ''%s: got multiple values for keyword argument %s'' [FStr fn, FStr (upQuote up k)])
          else bindO (slotValue up fn pairs i (upQuote up k) arg) (\<lambda>v.
                 unpackKeywords up fn pairs kws (store i v vals) (i # defined)))"

text \<open>The required parameters come before the first optional one.\<close>

fun checkRequired :: "string \<Rightarrow> nat \<Rightarrow> nat list \<Rightarrow> nat \<Rightarrow> string list \<Rightarrow> unit outcome" where
  "checkRequired fn nargs defined i [] = Ok ()"
| "checkRequired fn nargs defined i (x # xs) =
     (if HasSuffix x ''?'' then Ok ()
      else if \<not> i < nargs \<and> i \<notin> set defined then Err (Errorf ''%s: missing argument for %s'' [FStr fn, FStr x])
      else checkRequired fn nargs defined (Suc i) xs)"

definition UnpackArgs ::
    "('a, 'b) unpacker \<Rightarrow> string \<Rightarrow> 'a list \<Rightarrow> (string \<times> 'a) list \<Rightarrow> string list \<Rightarrow> (nat \<Rightarrow> 'b option) outcome" where
  "UnpackArgs up fn args kws pairs =
     (if length args > length pairs
      then Err (Errorf ''%s: got %d arguments, want at most %d'' [FStr fn, FInt (int (length args)), FInt (int (length pairs))])
      else bindO (unpackPositional up fn pairs 0 args (\<lambda>_. None)) (\<lambda>vals.
           bindO (unpackKeywords up fn pairs kws vals [0..<length args]) (\<lambda>(vals', defined).
           bindO (checkRequired fn (length args) defined 0 pairs) (\<lambda>_. Ok vals'))))"

section \<open>The binding of parameters to arguments\<close>

text \<open>The argument of a parameter: by its position, or else by its name.\<close>

definition boundArg :: "string list \<Rightarrow> 'a list \<Rightarrow> (string \<times> 'a) list \<Rightarrow> nat \<Rightarrow> 'a option" where
  "boundArg pairs args kws i = (if i < length args then Some (args ! i) else map_of kws (pname (pairs ! i)))"

text \<open>An argument is acceptable for a parameter, and the value it leaves in the variable.\<close>

definition accepts :: "('a, 'b) unpacker \<Rightarrow> string list \<Rightarrow> nat \<Rightarrow> 'a \<Rightarrow> bool" where
  "accepts up pairs i a \<longleftrightarrow> (snd (paramName (pairs ! i)) \<and> upIsNone up a) \<or> isOk (upConv up i a)"

definition valueOf :: "('a, 'b) unpacker \<Rightarrow> string list \<Rightarrow> nat \<Rightarrow> 'a option \<Rightarrow> 'b option" where
  "valueOf up pairs i b =
     (case b of
        None \<Rightarrow> None
      | Some a \<Rightarrow>
          if snd (paramName (pairs ! i)) \<and> upIsNone up a then None
          else (case upConv up i a of Ok v \<Rightarrow> Some v | _ \<Rightarrow> None))"

lemma slotValue_Ok: "slotValue up fn pairs i shown a = Ok v \<longleftrightarrow> accepts up pairs i a \<and> v = valueOf up pairs i (Some a)"
  by (cases "upConv up i a") (auto simp: slotValue_def accepts_def valueOf_def)

text \<open>The variables after the positional arguments from the i-th parameter on.\<close>

definition afterPositional ::
    "('a, 'b) unpacker \<Rightarrow> string list \<Rightarrow> nat \<Rightarrow> 'a list \<Rightarrow> (nat \<Rightarrow> 'b option) \<Rightarrow> nat \<Rightarrow> 'b option" where
  "afterPositional up pairs i args vals k =
     (case if i \<le> k \<and> k < i + length args then valueOf up pairs k (Some (args ! (k - i))) else None of
        None \<Rightarrow> vals k
      | Some x \<Rightarrow> Some x)"

lemma afterPositional_Nil [simp]: "afterPositional up pairs i [] vals = vals"
  by (auto simp: afterPositional_def fun_eq_iff split: option.split)

lemma afterPositional_Cons:
  "afterPositional up pairs (Suc i) args (store i (valueOf up pairs i (Some a)) vals) = afterPositional up pairs i (a # args) vals"
proof
  fix k
  consider "k < i" | "k = i" | m where "k = Suc (i + m)" by (metis less_imp_Suc_add linorder_neqE_nat)
  then show "afterPositional up pairs (Suc i) args (store i (valueOf up pairs i (Some a)) vals) k =
      afterPositional up pairs i (a # args) vals k"
  proof cases
    case 1
    then show ?thesis by (simp add: afterPositional_def store_def split: option.split)
  next
    case 2
    then show ?thesis by (simp add: afterPositional_def store_def split: option.split)
  next
    case 3
    then have "store i (valueOf up pairs i (Some a)) vals k = vals k" by (simp add: store_def split: option.split)
    then show ?thesis using 3 by (simp add: afterPositional_def split: option.split)
  qed
qed

lemma positional_Ok:
  "unpackPositional up fn pairs i args vals = Ok vals' \<longleftrightarrow>
     (\<forall>j < length args. accepts up pairs (i + j) (args ! j)) \<and> vals' = afterPositional up pairs i args vals"
proof (induction args arbitrary: i vals)
  case Nil
  then show ?case by auto
next
  case (Cons a args)
  have all: "(\<forall>j < length (a # args). accepts up pairs (i + j) ((a # args) ! j)) \<longleftrightarrow>
      accepts up pairs i a \<and> (\<forall>j < length args. accepts up pairs (Suc i + j) (args ! j))"
    by (auto simp: less_Suc_eq_0_disj)
  have "unpackPositional up fn pairs i (a # args) vals = Ok vals' \<longleftrightarrow>
      accepts up pairs i a \<and>
      unpackPositional up fn pairs (Suc i) args (store i (valueOf up pairs i (Some a)) vals) = Ok vals'"
    by (auto simp: bindO_eq_Ok slotValue_Ok)
  then show ?case unfolding Cons.IH all afterPositional_Cons by blast
qed

lemma indexOf_Some: "indexOf k xs = Some i \<Longrightarrow> i < length xs \<and> xs ! i = k"
proof (induction xs arbitrary: i)
  case (Cons x xs)
  then show ?case by (cases i) (auto split: if_splits)
qed simp

lemma indexOf_None: "indexOf k xs = None \<longleftrightarrow> k \<notin> set xs"
  by (induction xs) auto

lemma indexOf_nth: "distinct xs \<Longrightarrow> i < length xs \<Longrightarrow> indexOf (xs ! i) xs = Some i"
proof (induction xs arbitrary: i)
  case (Cons x xs)
  then show ?case by (cases i) auto
qed simp

text \<open>The variables after the keyword arguments.\<close>

definition afterKeywords ::
    "('a, 'b) unpacker \<Rightarrow> string list \<Rightarrow> (string \<times> 'a) list \<Rightarrow> (nat \<Rightarrow> 'b option) \<Rightarrow> nat \<Rightarrow> 'b option" where
  "afterKeywords up pairs kws vals k =
     (case if k < length pairs then valueOf up pairs k (map_of kws (pname (pairs ! k))) else None of
        None \<Rightarrow> vals k
      | Some x \<Rightarrow> Some x)"

lemma afterKeywords_Nil [simp]: "afterKeywords up pairs [] vals = vals"
  by (simp add: afterKeywords_def valueOf_def fun_eq_iff)

lemma afterKeywords_Cons:
  assumes "distinct (map pname pairs)" and "i < length pairs" and "k = pname (pairs ! i)" and "k \<notin> fst ` set kws"
  shows "afterKeywords up pairs kws (store i (valueOf up pairs i (Some a)) vals) = afterKeywords up pairs ((k, a) # kws) vals"
proof
  fix j
  show "afterKeywords up pairs kws (store i (valueOf up pairs i (Some a)) vals) j = afterKeywords up pairs ((k, a) # kws) vals j"
  proof (cases "j = i")
    case True
    have "map_of kws k = None" using assms(4) by (simp add: map_of_eq_None_iff)
    then have "valueOf up pairs i (map_of kws (pname (pairs ! i))) = None" using assms(3) by (simp add: valueOf_def)
    then show ?thesis using True assms(2,3) by (simp add: afterKeywords_def store_def split: option.split)
  next
    case False
    then have "store i (valueOf up pairs i (Some a)) vals j = vals j" by (simp add: store_def split: option.split)
    moreover have "j < length pairs \<Longrightarrow> pname (pairs ! j) \<noteq> k"
      using False assms(1-3) by (metis length_map nth_eq_iff_index_eq nth_map)
    ultimately show ?thesis by (simp add: afterKeywords_def split: option.split)
  qed
qed

text \<open>The keywords of a call are new, distinct, and names of parameters whose values fit.\<close>

definition goodKeywords :: "('a, 'b) unpacker \<Rightarrow> string list \<Rightarrow> nat list \<Rightarrow> (string \<times> 'a) list \<Rightarrow> bool" where
  "goodKeywords up pairs defined kws \<longleftrightarrow>
     distinct (map fst kws) \<and>
     (\<forall>(k, a) \<in> set kws. \<exists>i < length pairs. i \<notin> set defined \<and> k = pname (pairs ! i) \<and> accepts up pairs i a)"

lemma param_unique:
  assumes "distinct (map pname pairs)" and "i < length pairs" and "j < length pairs" and "pname (pairs ! j) = pname (pairs ! i)"
  shows "j = i"
  using assms by (metis length_map nth_eq_iff_index_eq nth_map)

text \<open>One keyword more: its parameter is free before it and taken after it.\<close>

lemma goodKeywords_Cons:
  assumes "distinct (map pname pairs)" and i: "i < length pairs" "pname (pairs ! i) = k"
  shows "goodKeywords up pairs defined ((k, a) # kws) \<longleftrightarrow>
    i \<notin> set defined \<and> accepts up pairs i a \<and> k \<notin> fst ` set kws \<and> goodKeywords up pairs (i # defined) kws"
proof
  assume g: "goodKeywords up pairs defined ((k, a) # kws)"
  then obtain j where "j < length pairs" "j \<notin> set defined" "k = pname (pairs ! j)" "accepts up pairs j a"
    by (auto simp: goodKeywords_def)
  then have "i \<notin> set defined" "accepts up pairs i a" using param_unique[OF assms(1) i(1), of j] i by auto
  moreover have new: "k \<notin> fst ` set kws" using g by (simp add: goodKeywords_def)
  moreover have "goodKeywords up pairs (i # defined) kws"
    unfolding goodKeywords_def
  proof (intro conjI ballI)
    show "distinct (map fst kws)" using g by (simp add: goodKeywords_def)
    fix x assume x: "x \<in> set kws"
    obtain k' a' where ka': "x = (k', a')" by (cases x)
    then obtain j where "j < length pairs" "j \<notin> set defined" "k' = pname (pairs ! j)" "accepts up pairs j a'"
      using g x by (fastforce simp: goodKeywords_def)
    moreover have "k' \<noteq> k" using new x ka' by force
    ultimately show "case x of (k, a) \<Rightarrow> \<exists>j<length pairs. j \<notin> set (i # defined) \<and> k = pname (pairs ! j) \<and> accepts up pairs j a"
      using i(2) ka' by auto
  qed
  ultimately show "i \<notin> set defined \<and> accepts up pairs i a \<and> k \<notin> fst ` set kws \<and> goodKeywords up pairs (i # defined) kws"
    by blast
qed (use i in \<open>fastforce simp: goodKeywords_def\<close>)

lemma goodKeywords_taken:
  assumes "distinct (map pname pairs)" and "i < length pairs" and "pname (pairs ! i) \<in> fst ` set kws"
  shows "\<not> goodKeywords up pairs (i # defined) kws"
proof
  assume "goodKeywords up pairs (i # defined) kws"
  moreover obtain a where "(pname (pairs ! i), a) \<in> set kws" using assms(3) by force
  ultimately obtain j where "j < length pairs" "j \<notin> set (i # defined)" "pname (pairs ! i) = pname (pairs ! j)"
    by (fastforce simp: goodKeywords_def)
  then show False using param_unique[OF assms(1,2), of j] by simp
qed

lemma keywords_Ok:
  assumes "distinct (map pname pairs)"
  shows "unpackKeywords up fn pairs kws vals defined = Ok (vals', defined') \<longleftrightarrow>
     goodKeywords up pairs defined kws \<and> vals' = afterKeywords up pairs kws vals \<and>
     defined' = rev (map (\<lambda>(k, a). the (indexOf k (map pname pairs))) kws) @ defined"
proof (induction kws arbitrary: vals defined)
  case Nil
  then show ?case by (auto simp: goodKeywords_def)
next
  case (Cons ka kws)
  obtain k a where ka: "ka = (k, a)" by (cases ka)
  show ?case
  proof (cases "indexOf k (map pname pairs)")
    case None
    then have "k \<notin> set (map pname pairs)" by (simp add: indexOf_None)
    then have "\<not> goodKeywords up pairs defined (ka # kws)" by (auto simp: goodKeywords_def ka)
    then show ?thesis using None ka by simp
  next
    case (Some i)
    have i: "i < length pairs" "pname (pairs ! i) = k" using indexOf_Some[OF Some] by auto
    note good = goodKeywords_Cons[OF assms i, of up defined a kws, folded ka]
    have "unpackKeywords up fn pairs (ka # kws) vals defined = Ok (vals', defined') \<longleftrightarrow>
        i \<notin> set defined \<and> accepts up pairs i a \<and>
        unpackKeywords up fn pairs kws (store i (valueOf up pairs i (Some a)) vals) (i # defined) = Ok (vals', defined')"
      using Some ka by (auto simp: bindO_eq_Ok slotValue_Ok)
    also have "\<dots> \<longleftrightarrow> i \<notin> set defined \<and> accepts up pairs i a \<and> goodKeywords up pairs (i # defined) kws \<and>
        vals' = afterKeywords up pairs kws (store i (valueOf up pairs i (Some a)) vals) \<and>
        defined' = rev (map (\<lambda>(k, a). the (indexOf k (map pname pairs))) (ka # kws)) @ defined"
      unfolding Cons.IH using ka Some by auto
    also have "\<dots> \<longleftrightarrow> goodKeywords up pairs defined (ka # kws) \<and> vals' = afterKeywords up pairs (ka # kws) vals \<and>
        defined' = rev (map (\<lambda>(k, a). the (indexOf k (map pname pairs))) (ka # kws)) @ defined" (is "?l \<longleftrightarrow> ?r")
    proof (cases "k \<in> fst ` set kws")
      case True
      then show ?thesis using good goodKeywords_taken[OF assms i(1)] i(2) by blast
    next
      case False
      show ?thesis unfolding good using False afterKeywords_Cons[OF assms i(1) i(2)[symmetric] False, of up a vals] ka by simp
    qed
    finally show ?thesis .
  qed
qed

section \<open>Required parameters\<close>

definition requiredCount :: "string list \<Rightarrow> nat" where
  "requiredCount pairs = length (takeWhile (\<lambda>x. \<not> HasSuffix x ''?'') pairs)"

lemma checkRequired_Ok:
  "checkRequired fn nargs defined i pairs = Ok u \<longleftrightarrow>
     (\<forall>j < requiredCount pairs. i + j < nargs \<or> i + j \<in> set defined)"
proof (induction pairs arbitrary: i)
  case (Cons x xs)
  have "(\<forall>j < Suc (requiredCount xs). i + j < nargs \<or> i + j \<in> set defined) \<longleftrightarrow>
      (i < nargs \<or> i \<in> set defined) \<and> (\<forall>j < requiredCount xs. Suc i + j < nargs \<or> Suc i + j \<in> set defined)"
    by (auto simp: less_Suc_eq_0_disj)
  then show ?case using Cons.IH[of "Suc i"] by (auto simp: requiredCount_def)
qed (simp add: requiredCount_def)

lemma requiredCount_le: "requiredCount pairs \<le> length pairs"
  by (simp add: requiredCount_def length_takeWhile_le)

lemma defined_keywords:
  assumes "distinct (map pname pairs)" and "goodKeywords up pairs d kws" and "i < length pairs"
  shows "i \<in> set (map (\<lambda>(k, a). the (indexOf k (map pname pairs))) kws) \<longleftrightarrow> pname (pairs ! i) \<in> fst ` set kws"
proof -
  have idx: "indexOf (pname (pairs ! j)) (map pname pairs) = Some j" if "j < length pairs" for j
    using indexOf_nth[OF assms(1), of j] that by simp
  have "the (indexOf k (map pname pairs)) = i \<longleftrightarrow> k = pname (pairs ! i)" if mem: "(k, a) \<in> set kws" for k a
  proof -
    obtain j where "j < length pairs" "k = pname (pairs ! j)" using assms(2) mem by (fastforce simp: goodKeywords_def)
    then have j: "indexOf k (map pname pairs) = Some j" "k = pname (pairs ! j)" using idx by simp_all
    then show ?thesis using idx[OF assms(3)] by (metis option.inject option.sel)
  qed
  then show ?thesis by force
qed

lemma UnpackArgs_Ok:
  assumes d: "distinct (map pname pairs)"
  shows "UnpackArgs up fn args kws pairs = Ok vals \<longleftrightarrow>
     length args \<le> length pairs \<and> (\<forall>i < length args. accepts up pairs i (args ! i)) \<and>
     goodKeywords up pairs [0..<length args] kws \<and>
     (\<forall>i < requiredCount pairs. boundArg pairs args kws i \<noteq> None) \<and>
     vals = (\<lambda>i. if i < length pairs then valueOf up pairs i (boundArg pairs args kws i) else None)"
proof (cases "length args \<le> length pairs")
  case len: True
  define v1 where "v1 = afterPositional up pairs 0 args (\<lambda>_. None)"
  define d1 where "d1 = rev (map (\<lambda>(k, a). the (indexOf k (map pname pairs))) kws) @ [0..<length args]"
  have "UnpackArgs up fn args kws pairs = Ok vals \<longleftrightarrow>
      (\<forall>i < length args. accepts up pairs i (args ! i)) \<and> goodKeywords up pairs [0..<length args] kws \<and>
      checkRequired fn (length args) d1 0 pairs = Ok () \<and> vals = afterKeywords up pairs kws v1"
    using len by (auto simp: UnpackArgs_def bindO_eq_Ok positional_Ok keywords_Ok[OF d] v1_def d1_def)
  also have "\<dots> \<longleftrightarrow> (\<forall>i < length args. accepts up pairs i (args ! i)) \<and> goodKeywords up pairs [0..<length args] kws \<and>
      (\<forall>i < requiredCount pairs. boundArg pairs args kws i \<noteq> None) \<and>
      vals = (\<lambda>i. if i < length pairs then valueOf up pairs i (boundArg pairs args kws i) else None)"
  proof (cases "goodKeywords up pairs [0..<length args] kws")
    case good: True
    have "i < length args \<or> i \<in> set d1 \<longleftrightarrow> boundArg pairs args kws i \<noteq> None" if "i < requiredCount pairs" for i
    proof -
      have "i < length pairs" using that requiredCount_le[of pairs] by simp
      from defined_keywords[OF d good this] show ?thesis
        by (cases "i < length args") (simp_all add: d1_def boundArg_def map_of_eq_None_iff del: set_map not_None_eq)
    qed
    then have req: "checkRequired fn (length args) d1 0 pairs = Ok () \<longleftrightarrow> (\<forall>i < requiredCount pairs. boundArg pairs args kws i \<noteq> None)"
      by (auto simp: checkRequired_Ok)
    have "afterKeywords up pairs kws v1 i = (if i < length pairs then valueOf up pairs i (boundArg pairs args kws i) else None)" for i
    proof (cases "i < length args")
      case True
      have "pname (pairs ! i) \<notin> fst ` set kws"
      proof
        assume "pname (pairs ! i) \<in> fst ` set kws"
        then obtain a where "(pname (pairs ! i), a) \<in> set kws" by force
        then obtain j where "j < length pairs" "\<not> j < length args" "pname (pairs ! i) = pname (pairs ! j)"
          using good by (fastforce simp: goodKeywords_def)
        then show False using d True len by (metis length_map nth_eq_iff_index_eq nth_map order_less_le_trans)
      qed
      then have "map_of kws (pname (pairs ! i)) = None" by (simp add: map_of_eq_None_iff)
      then have "afterKeywords up pairs kws v1 i = v1 i" by (simp add: afterKeywords_def valueOf_def)
      also have "\<dots> = valueOf up pairs i (Some (args ! i))" using True by (simp add: v1_def afterPositional_def split: option.split)
      finally show ?thesis using True len by (simp add: boundArg_def)
    next
      case False
      then have "v1 i = None" by (simp add: v1_def afterPositional_def)
      then show ?thesis using False by (simp add: afterKeywords_def boundArg_def split: option.split)
    qed
    then show ?thesis using req good by (simp add: fun_eq_iff)
  qed simp
  finally show ?thesis using len by blast
qed (simp add: UnpackArgs_def)

text \<open>
  C24. A builtin accepts a call exactly when there are not too many positional arguments, every
  keyword is the name of a parameter that has no argument yet, every required parameter has an
  argument and every argument fits its parameter; and then every variable has the value of its own
  argument, or keeps its default. So it does not matter in which order keywords are given, nor
  whether an argument is given by position or by name.
\<close>

theorem unpack_args_binding:
  assumes "distinct (map pname pairs)"
  shows "UnpackArgs up fn args kws pairs = Ok vals \<longleftrightarrow>
     length args \<le> length pairs \<and> (\<forall>i < length args. accepts up pairs i (args ! i)) \<and>
     goodKeywords up pairs [0..<length args] kws \<and>
     (\<forall>i < requiredCount pairs. boundArg pairs args kws i \<noteq> None) \<and>
     vals = (\<lambda>i. if i < length pairs then valueOf up pairs i (boundArg pairs args kws i) else None)"
  by (rule UnpackArgs_Ok[OF assms])

section \<open>A concrete call\<close>

definition demoUnpacker :: "(nat, nat) unpacker" where
  "demoUnpacker = \<lparr>upIsNone = (\<lambda>n. n = 0), upConv = (\<lambda>i n. if n < 10 then Ok n else Err (New ''got big, want small'')),
     upQuote = id, upNearest = (\<lambda>_ _. [])\<rparr>"

lemma demo_binding:
  "UnpackArgs demoUnpacker ''f'' [1] [(''c'', 3)] [''a'', ''b?'', ''c??''] = Ok vals \<longleftrightarrow> vals = [0 \<mapsto> 1, 2 \<mapsto> 3]"
  by (auto simp: UnpackArgs_def slotValue_def demoUnpacker_def paramName_def HasSuffix_def store_def)

theorem unpack_args_binding_witness:
  "boundArg [''a'', ''b?'', ''c??''] [1] [(''c'', 3 :: nat)] 0 = Some 1 \<and>
   goodKeywords demoUnpacker [''a'', ''b?'', ''c??''] [0] [(''c'', 3)]"
proof -
  have d: "distinct (map pname [''a'', ''b?'', ''c??''])" by (simp add: paramName_def HasSuffix_def)
  from unpack_args_binding[OF d, of demoUnpacker "''f''" "[1]" "[(''c'', 3)]" "[0 \<mapsto> 1, 2 \<mapsto> 3]"]
  show ?thesis unfolding demo_binding by (simp add: boundArg_def)
qed

end
