(* ===== verification/Ctx_Calls.thy ===== *)
theory Ctx_Calls
  imports Subprocess Unpack
begin

text \<open>
  What a Starlark check can call: the object ctx (runtime_ctx.go) with its functions, each of which
  unpacks its arguments, runs and wraps its error (runtime.go, runtime_ctx_*.go), the methods of
  processes and of check objects, and the predeclared names (runtime.go, runtime_shac.go). Here the
  components that the functions work on meet in one state: the running check with its checkout and
  emissions, the processes, buffers and temporary directories, and the cache of regular
  expressions. A check is a sequence of calls, which the first error ends.
\<close>

section \<open>Arguments\<close>

text \<open>The Go types of the variables that arguments are unpacked into.\<close>

datatype goVar = GoString | GoInt | GoBool | GoValue | GoSequence | GoDict | GoProps

fun wantName :: "goVar \<Rightarrow> string" where
  "wantName GoString = ''string''"
| "wantName GoInt = ''int''"
| "wantName GoBool = ''bool''"
| "wantName GoValue = ''value''"
| "wantName GoSequence = ''starlark.Sequence''"
| "wantName GoDict = ''dict''"
| "wantName GoProps = ''dict''"

fun fits :: "goVar \<Rightarrow> starValue \<Rightarrow> bool" where
  "fits GoString v = (case v of VStr s \<Rightarrow> True | _ \<Rightarrow> False)"
| "fits GoInt v = (case v of VInt n \<Rightarrow> True | _ \<Rightarrow> False)"
| "fits GoBool v = (case v of VBool b \<Rightarrow> True | _ \<Rightarrow> False)"
| "fits GoValue v = True"
| "fits GoSequence v = (asSequence v \<noteq> None)"
| "fits GoDict v = (case v of VDict items \<Rightarrow> True | _ \<Rightarrow> False)"
| "fits GoProps v = True"

text \<open>UnpackArg: the property bag has its own Unpack, the other types test the value.\<close>

definition UnpackArg :: "string list \<Rightarrow> goVar \<Rightarrow> starValue \<Rightarrow> starValue outcome" where
  "UnpackArg allowed ty v =
     (if ty = GoProps then bindO (bag_Unpack allowed v) (\<lambda>_. Ok v)
      else if fits ty v then Ok v
      else Err (Errorf ''got %s, want %s'' [FStr (Type v), FStr (wantName ty)]))"

definition stringOr :: "string \<Rightarrow> starValue option \<Rightarrow> string" where
  "stringOr d v = (case v of Some (VStr s) \<Rightarrow> s | _ \<Rightarrow> d)"

definition intOr :: "starValue option \<Rightarrow> int" where
  "intOr v = (case v of Some (VInt n) \<Rightarrow> n | _ \<Rightarrow> 0)"

definition boolOr :: "bool \<Rightarrow> starValue option \<Rightarrow> bool" where
  "boolOr d v = (case v of Some (VBool b) \<Rightarrow> b | _ \<Rightarrow> d)"

definition valueOr :: "starValue option \<Rightarrow> starValue" where
  "valueOr v = (case v of Some x \<Rightarrow> x | None \<Rightarrow> VNone)"

definition itemsOr :: "starValue option \<Rightarrow> (starValue \<times> starValue) list" where
  "itemsOr v = (case v of Some (VDict items) \<Rightarrow> items | _ \<Rightarrow> [])"

definition sequenceOr :: "starValue option \<Rightarrow> (string \<times> starValue list) option" where
  "sequenceOr v = (case v of None \<Rightarrow> None | Some x \<Rightarrow> map_option (Pair (Type x)) (asSequence x))"

section \<open>The functions of ctx\<close>

datatype ctxFn = EmitFindingFn | EmitCommitFn | EmitArtifactFn | ReadFileFn | TempdirFn | TempfileFn | ExecFn
  | ReMatchFn | ReAllMatchesFn | AffectedFilesFn | AllFilesFn | CommitsFn | VarsGetFn

fun ctxFnName :: "ctxFn \<Rightarrow> string" where
  "ctxFnName EmitFindingFn = ''ctx.emit.finding''"
| "ctxFnName EmitCommitFn = ''ctx.emit.commit_message_finding''"
| "ctxFnName EmitArtifactFn = ''ctx.emit.artifact''"
| "ctxFnName ReadFileFn = ''ctx.io.read_file''"
| "ctxFnName TempdirFn = ''ctx.io.tempdir''"
| "ctxFnName TempfileFn = ''ctx.io.tempfile''"
| "ctxFnName ExecFn = ''ctx.os.exec''"
| "ctxFnName ReMatchFn = ''ctx.re.match''"
| "ctxFnName ReAllMatchesFn = ''ctx.re.allmatches''"
| "ctxFnName AffectedFilesFn = ''ctx.scm.affected_files''"
| "ctxFnName AllFilesFn = ''ctx.scm.all_files''"
| "ctxFnName CommitsFn = ''ctx.scm.commits''"
| "ctxFnName VarsGetFn = ''ctx.vars.get''"

text \<open>The parameters of each function, with the types of their variables.\<close>

definition findingParams :: "(string \<times> goVar) list" where
  "findingParams =
     [(''level'', GoString), (''message?'', GoString), (''filepath?'', GoString), (''line??'', GoInt), (''col??'', GoInt),
      (''end_line??'', GoInt), (''end_col??'', GoInt), (''replacements??'', GoSequence), (''properties??'', GoProps)]"

definition commitParams :: "(string \<times> goVar) list" where
  "commitParams =
     [(''level'', GoString), (''message'', GoString), (''commit'', GoValue), (''line??'', GoInt), (''col??'', GoInt),
      (''end_line??'', GoInt), (''end_col??'', GoInt), (''properties??'', GoProps)]"

definition artifactParams :: "(string \<times> goVar) list" where
  "artifactParams = [(''filepath'', GoString), (''content?'', GoValue)]"

definition readFileParams :: "(string \<times> goVar) list" where
  "readFileParams = [(''filepath'', GoString), (''size?'', GoInt)]"

definition tempfileParams :: "(string \<times> goVar) list" where
  "tempfileParams = [(''content'', GoValue), (''name?'', GoString)]"

definition execParams :: "(string \<times> goVar) list" where
  "execParams =
     [(''cmd'', GoSequence), (''cwd?'', GoString), (''env?'', GoDict), (''stdin?'', GoValue), (''allow_network?'', GoBool),
      (''ok_retcodes?'', GoValue), (''raise_on_failure?'', GoBool)]"

definition reParams :: "(string \<times> goVar) list" where
  "reParams = [(''pattern'', GoString), (''str'', GoString)]"

definition affectedFilesParams :: "(string \<times> goVar) list" where
  "affectedFilesParams = [(''include_deleted?'', GoBool), (''include_symlinks?'', GoBool), (''glob??'', GoValue)]"

definition allFilesParams :: "(string \<times> goVar) list" where
  "allFilesParams = [(''include_deleted?'', GoBool), (''include_symlinks?'', GoBool), (''glob??'', GoValue)]"

definition varsGetParams :: "(string \<times> goVar) list" where
  "varsGetParams = [(''name'', GoString)]"

fun ctxFnParams :: "ctxFn \<Rightarrow> (string \<times> goVar) list" where
  "ctxFnParams EmitFindingFn = findingParams"
| "ctxFnParams EmitCommitFn = commitParams"
| "ctxFnParams EmitArtifactFn = artifactParams"
| "ctxFnParams ReadFileFn = readFileParams"
| "ctxFnParams TempdirFn = []"
| "ctxFnParams TempfileFn = tempfileParams"
| "ctxFnParams ExecFn = execParams"
| "ctxFnParams ReMatchFn = reParams"
| "ctxFnParams ReAllMatchesFn = reParams"
| "ctxFnParams AffectedFilesFn = affectedFilesParams"
| "ctxFnParams AllFilesFn = allFilesParams"
| "ctxFnParams CommitsFn = []"
| "ctxFnParams VarsGetFn = varsGetParams"

section \<open>The state of a check and its surroundings\<close>

record 're ctxEnv =
  cxOs :: osView
  cxReport :: report
  cxShac :: shacEnv
  cxSys :: sysView
  cxExec :: execEnv
  cxPattern :: "string \<Rightarrow> string list \<Rightarrow> bool \<Rightarrow> matchResult"
  cxCompile :: "string \<Rightarrow> 're outcome"
  cxSubmatch :: "'re \<Rightarrow> string \<Rightarrow> int list option"
  cxSubmatches :: "'re \<Rightarrow> string \<Rightarrow> int list list"
  cxOpen :: "string \<Rightarrow> openRes"
  cxReads :: "nat list"
  cxStat :: "string \<Rightarrow> statRes"
  cxMkdirAll :: "string \<Rightarrow> err option"
  cxWritable :: "string \<Rightarrow> err option"
  cxQuote :: "string \<Rightarrow> string"
  cxNearest :: "string \<Rightarrow> string list \<Rightarrow> string"

record 're ctxState =
  csRun :: checkRun
  csExec :: execState
  csCache :: "string \<rightharpoonup> 're"
  csWritten :: "(string \<times> string) list"

text \<open>What a call returns: a value, a process by its number, or the dictionary of files.\<close>

datatype ctxRet = RetVal starValue | RetProc nat | RetFiles "(string \<times> scmFile) list"

fun mapO :: "('a \<Rightarrow> 'b) \<Rightarrow> 'a outcome \<Rightarrow> 'b outcome" where
  "mapO f (Ok x) = Ok (f x)"
| "mapO f (Err e) = Err e"
| "mapO f (Panic m) = Panic m"

definition fileFilterOf :: "(nat \<Rightarrow> starValue option) \<Rightarrow> fileFilter" where
  "fileFilterOf vals = \<lparr>includeDeleted = boolOr False (vals 0), includeSymlinks = boolOr False (vals 1)\<rparr>"

definition globOf :: "starValue option \<Rightarrow> globArg" where
  "globOf v =
     (case v of
        None \<Rightarrow> GlobNone
      | Some (VStr s) \<Rightarrow> GlobStr s
      | Some x \<Rightarrow> (case asSequence x of Some vs \<Rightarrow> GlobSeq vs | None \<Rightarrow> GlobOther))"

text \<open>
  Reading gets pieces of the sizes that the environment says, and then a byte at a time, so that it
  always ends.
\<close>

definition readPieces :: "'re ctxEnv \<Rightarrow> string \<Rightarrow> nat list" where
  "readPieces cx path =
     cxReads cx @ (case cxOpen cx path of OpenFile content \<Rightarrow> replicate (Suc (length content)) 1 | _ \<Rightarrow> [])"

definition readFileCall :: "'re ctxEnv \<Rightarrow> string \<Rightarrow> int \<Rightarrow> ctxRet outcome" where
  "readFileCall cx path lim =
     (let root = seRoot (cxShac cx); subdir = seSubdir (cxShac cx);
          dst = (if IsAbs path then Ok path else absPath path (PathJoin [root, subdir]));
          ks = (case dst of Ok p \<Rightarrow> readPieces cx p | _ \<Rightarrow> [])
      in mapO (\<lambda>b. RetVal (VBytes b)) (the (ctxIoReadFile (cxOpen cx) ks root subdir path lim)))"

definition ctxIoTempdir :: "'re ctxEnv \<Rightarrow> tempState \<Rightarrow> string outcome \<times> tempState" where
  "ctxIoTempdir cx = newTempDir (Mkdir (cxSys cx))"

text \<open>The body of a function, once its arguments are unpacked.\<close>

fun ctxBody ::
    "'re ctxEnv \<Rightarrow> ctxFn \<Rightarrow> (nat \<Rightarrow> starValue option) \<Rightarrow> 're ctxState \<Rightarrow> ctxRet outcome \<times> 're ctxState" where
  "ctxBody cx EmitFindingFn vals st =
     (let (r, run) = ctxEmitFinding (cxOs cx) (cxReport cx) (cxShac cx)
            \<lparr>faLevel = stringOr [] (vals 0), faMessage = stringOr [] (vals 1), faFile = stringOr [] (vals 2),
             faLine = intOr (vals 3), faCol = intOr (vals 4), faEndLine = intOr (vals 5), faEndCol = intOr (vals 6),
             faReplacements = sequenceOr (vals 7), faProps = vals 8\<rparr> (csRun st)
      in (mapO (\<lambda>_. RetVal VNone) r, st\<lparr>csRun := run\<rparr>))"
| "ctxBody cx EmitCommitFn vals st =
     (let (r, run) = ctxEmitCommitMessageFinding (cxReport cx) (cxShac cx)
            \<lparr>caLevel = stringOr [] (vals 0), caMessage = stringOr [] (vals 1), caCommit = valueOr (vals 2),
             caLine = intOr (vals 3), caCol = intOr (vals 4), caEndLine = intOr (vals 5), caEndCol = intOr (vals 6),
             caProps = vals 7\<rparr> (csRun st)
      in (mapO (\<lambda>_. RetVal VNone) r, st\<lparr>csRun := run\<rparr>))"
| "ctxBody cx EmitArtifactFn vals st =
     (let (r, run) = ctxEmitArtifact (cxStat cx) (cxReport cx) (cxShac cx) (stringOr [] (vals 0)) (valueOr (vals 1)) (csRun st)
      in (mapO (\<lambda>_. RetVal VNone) r, st\<lparr>csRun := run\<rparr>))"
| "ctxBody cx ReadFileFn vals st = (readFileCall cx (stringOr [] (vals 0)) (intOr (vals 1)), st)"
| "ctxBody cx TempdirFn vals st =
     (let (r, ts) = ctxIoTempdir cx (esTemp (csExec st))
      in (mapO (\<lambda>p. RetVal (VStr p)) r, st\<lparr>csExec := (csExec st)\<lparr>esTemp := ts\<rparr>\<rparr>))"
| "ctxBody cx TempfileFn vals st =
     (let (r, w, ts) = ctxIoTempfile (Mkdir (cxSys cx)) (cxMkdirAll cx) (cxWritable cx) (valueOr (vals 0))
            (stringOr ''00001'' (vals 1)) (esTemp (csExec st))
      in (mapO (\<lambda>p. RetVal (VStr p)) r,
          st\<lparr>csExec := (csExec st)\<lparr>esTemp := ts\<rparr>, csWritten := csWritten st @ (case w of None \<Rightarrow> [] | Some pb \<Rightarrow> [pb])\<rparr>))"
| "ctxBody cx ExecFn vals st =
     (let (r, chk, ex) = ctxOsExec (cxSys cx) (cxExec cx)
            \<lparr>eaCmd = the (sequenceOr (vals 0)), eaCwd = stringOr [] (vals 1), eaEnv = itemsOr (vals 2),
             eaStdin = valueOr (vals 3), eaAllowNetwork = boolOr False (vals 4), eaOkRetcodes = valueOr (vals 5),
             eaRaise = boolOr True (vals 6)\<rparr> (crCheck (csRun st)) (csExec st)
      in (mapO RetProc r, st\<lparr>csRun := (csRun st)\<lparr>crCheck := chk\<rparr>, csExec := ex\<rparr>))"
| "ctxBody cx ReMatchFn vals st =
     (let (r, c) = ctxReMatch (cxCompile cx) (cxSubmatch cx) (stringOr [] (vals 0)) (stringOr [] (vals 1)) (csCache st)
      in (mapO RetVal r, st\<lparr>csCache := c\<rparr>))"
| "ctxBody cx ReAllMatchesFn vals st =
     (let (r, c) = ctxReAllMatches (cxCompile cx) (cxSubmatches cx) (stringOr [] (vals 0)) (stringOr [] (vals 1)) (csCache st)
      in (mapO RetVal r, st\<lparr>csCache := c\<rparr>))"
| "ctxBody cx AffectedFilesFn vals st =
     (let (r, s) = ctxScmAffectedFiles (cxOs cx) (cxPattern cx) (fileFilterOf vals) (globOf (vals 2)) (crScm (csRun st))
      in (mapO RetFiles r, st\<lparr>csRun := (csRun st)\<lparr>crScm := s\<rparr>\<rparr>))"
| "ctxBody cx AllFilesFn vals st =
     (let (r, s) = ctxScmAllFiles (cxOs cx) (cxPattern cx) (fileFilterOf vals) (globOf (vals 2)) (crScm (csRun st))
      in (mapO RetFiles r, st\<lparr>csRun := (csRun st)\<lparr>crScm := s\<rparr>\<rparr>))"
| "ctxBody cx CommitsFn vals st =
     (let (r, s) = ctxScmCommits (cxOs cx) (crScm (csRun st))
      in (mapO RetVal r, st\<lparr>csRun := (csRun st)\<lparr>crScm := s\<rparr>\<rparr>))"
| "ctxBody cx VarsGetFn vals st = (mapO RetVal (ctxVarsGet (cxShac cx) (stringOr [] (vals 0))), st)"

section \<open>Calls\<close>

definition ctxUnpacker :: "'re ctxEnv \<Rightarrow> (string \<times> goVar) list \<Rightarrow> (starValue, starValue) unpacker" where
  "ctxUnpacker cx ps =
     \<lparr>upIsNone = (\<lambda>v. v = VNone), upConv = (\<lambda>i. UnpackArg (seAllowedProps (cxShac cx)) (snd (ps ! i))),
      upQuote = cxQuote cx, upNearest = cxNearest cx\<rparr>"

text \<open>newBuiltin and newBoundBuiltin: unpack, run, and name the builtin in an error.\<close>

definition callBuiltin ::
    "'re ctxEnv \<Rightarrow> string \<Rightarrow> (string \<times> goVar) list \<Rightarrow> starValue list \<Rightarrow> (string \<times> starValue) list \<Rightarrow>
      ((nat \<Rightarrow> starValue option) \<Rightarrow> 're ctxState \<Rightarrow> ctxRet outcome \<times> 're ctxState) \<Rightarrow>
      're ctxState \<Rightarrow> ctxRet outcome \<times> 're ctxState" where
  "callBuiltin cx name ps args kws body st =
     (case UnpackArgs (ctxUnpacker cx ps) name args kws (map fst ps) of
        Ok vals \<Rightarrow> (let (r, st') = body vals st in (builtinWrapper name r, st'))
      | Err e \<Rightarrow> (builtinWrapper name (Err e), st)
      | Panic m \<Rightarrow> (Panic m, st))"

datatype ctxCall =
    CallFn ctxFn "starValue list" "(string \<times> starValue) list"
  | CallWait nat "starValue list" "(string \<times> starValue) list"
  | CallFail string "string list" "err option"

text \<open>fail() is not wrapped: it names itself, and annotates the check.\<close>

definition failCall :: "string \<Rightarrow> string list \<Rightarrow> err option \<Rightarrow> 're ctxState \<Rightarrow> ctxRet outcome \<times> 're ctxState" where
  "failCall sep texts argErr st =
     (let (e, c, global) = fail_builtin sep texts argErr (Some (crCheck (csRun st)))
      in (Err e, st\<lparr>csRun := (csRun st)\<lparr>crCheck := the c\<rparr>\<rparr>))"

definition waitBody :: "'re ctxEnv \<Rightarrow> nat \<Rightarrow> 're ctxState \<Rightarrow> ctxRet outcome \<times> 're ctxState" where
  "waitBody cx i st =
     (let (r, ex) = subprocess_wait (cxSys cx) i (csExec st) in (mapO RetVal r, st\<lparr>csExec := ex\<rparr>))"

fun callCtx :: "'re ctxEnv \<Rightarrow> ctxCall \<Rightarrow> 're ctxState \<Rightarrow> ctxRet outcome \<times> 're ctxState" where
  "callCtx cx (CallFn f args kws) st = callBuiltin cx (ctxFnName f) (ctxFnParams f) args kws (ctxBody cx f) st"
| "callCtx cx (CallWait i args kws) st = callBuiltin cx ''wait'' [] args kws (\<lambda>_. waitBody cx i) st"
| "callCtx cx (CallFail sep texts argErr) st = failCall sep texts argErr st"

text \<open>The calls of a check in their order; the first error or panic ends it.\<close>

fun runCalls :: "'re ctxEnv \<Rightarrow> ctxCall list \<Rightarrow> 're ctxState \<Rightarrow> unit outcome \<times> 're ctxState" where
  "runCalls cx [] st = (Ok (), st)"
| "runCalls cx (c # cs) st =
     (case callCtx cx c st of
        (Ok v, st') \<Rightarrow> runCalls cx cs st'
      | (Err e, st') \<Rightarrow> (Err e, st')
      | (Panic m, st') \<Rightarrow> (Panic m, st'))"

text \<open>registeredCheck.call: the Starlark function with its calls, and what follows it.\<close>

definition runCheck :: "'re ctxEnv \<Rightarrow> ctxCall list \<Rightarrow> 're ctxState \<Rightarrow> unit outcome \<times> 're ctxState" where
  "runCheck cx calls st =
     (let (r, st1) = runCalls cx calls st;
          (r2, ex) = registeredCheck_call (cxSys cx) (crCheck (csRun st1)) (mapO (\<lambda>_. VNone) r) (csExec st1)
      in (r2, st1\<lparr>csExec := ex\<rparr>))"

section \<open>Errors name their function\<close>

fun callName :: "ctxCall \<Rightarrow> string" where
  "callName (CallFn f args kws) = ctxFnName f"
| "callName (CallWait i args kws) = ''wait''"
| "callName (CallFail sep texts argErr) = ''fail''"

lemma mapO_eq_Ok: "mapO f r = Ok y \<longleftrightarrow> (\<exists>x. r = Ok x \<and> y = f x)"
  by (cases r) auto

lemma builtinWrapper_Err: "builtinWrapper name r = Err e \<Longrightarrow> HasPrefix (errText e) (name @ '': '')"
proof (cases r)
  case (Err x)
  have "errText (Errorf ''%s: %w'' [FStr name, FErr x]) = (name @ '': '') @ errText x" by simp
  then have "HasPrefix (errText (Errorf ''%s: %w'' [FStr name, FErr x])) (name @ '': '')" by (simp only: HasPrefix_append)
  moreover assume "builtinWrapper name r = Err e"
  ultimately show ?thesis using Err by (auto simp: builtinWrapper_def split: if_splits)
qed (auto simp: builtinWrapper_def)

lemma builtinWrapper_same: "builtinWrapper name r = Ok v \<longleftrightarrow> r = Ok v" "builtinWrapper name r = Panic m \<longleftrightarrow> r = Panic m"
  by (auto simp: builtinWrapper_def split: outcome.split)

lemma callBuiltin_Err: "callBuiltin cx name ps args kws body st = (Err e, st') \<Longrightarrow> HasPrefix (errText e) (name @ '': '')"
  by (auto simp: callBuiltin_def Let_def split: outcome.splits prod.splits intro: builtinWrapper_Err)

lemma callCtx_Err: "callCtx cx c st = (Err e, st') \<Longrightarrow> HasPrefix (errText e) (callName c @ '': '')"
proof (cases c)
  case (CallFail sep texts argErr)
  have "errText (New (''fail: '' @ m)) = ''fail: '' @ m" for m by (induction m) auto
  moreover assume "callCtx cx c st = (Err e, st')"
  ultimately show ?thesis using CallFail by (auto simp: failCall_def fail_builtin_def Let_def HasPrefix_def)
next
  case (CallWait i args kws)
  then show "callCtx cx c st = (Err e, st') \<Longrightarrow> ?thesis" using callBuiltin_Err[of cx "''wait''"] by simp
qed (auto intro: callBuiltin_Err)

section \<open>Levels, processes and buffers over the calls of a check\<close>

text \<open>The levels of the findings among the emissions.\<close>

fun emLevel :: "emission \<Rightarrow> Level list" where
  "emLevel (EmFinding f) = [fdLevel f]"
| "emLevel (EmCommit f) = [cfLevel f]"
| "emLevel (EmArtifact a) = []"

definition emLevels :: "emission list \<Rightarrow> Level list" where
  "emLevels ems = concat (map emLevel ems)"

definition maxSeverity :: "Level list \<Rightarrow> severity" where
  "maxSeverity ls = foldl max SevNothing (map severityOf ls)"

text \<open>
  A call raises the level of the check by levels that it also emits, if it returns; a call that
  fails may have raised the level without emitting, or emitted what the report then refused.
\<close>

definition raises :: "bool \<Rightarrow> checkRun \<Rightarrow> checkRun \<Rightarrow> bool" where
  "raises ok run run' \<longleftrightarrow>
     (\<exists>es ls. list_all isValid (es @ ls) \<and> (ok \<longrightarrow> ls = []) \<and>
        highestLevel (crCheck run') = foldl raiseLevel (highestLevel (crCheck run)) (es @ ls) \<and>
        emLevels (crEmitted run') = emLevels (crEmitted run) @ es)"

definition emits :: "bool \<Rightarrow> checkRun \<Rightarrow> checkRun \<Rightarrow> bool" where
  "emits ok run run' \<longleftrightarrow> subprocesses (crCheck run') = subprocesses (crCheck run) \<and> raises ok run run'"

lemma emits_same:
  "subprocesses (crCheck run') = subprocesses (crCheck run) \<Longrightarrow> highestLevel (crCheck run') = highestLevel (crCheck run) \<Longrightarrow>
   emLevels (crEmitted run') = emLevels (crEmitted run) \<Longrightarrow> emits ok run run'"
  unfolding emits_def raises_def by (intro conjI exI[of _ "[]"]) simp_all

lemma raises_failed:
  "isValid l \<Longrightarrow> highestLevel (crCheck run') = raiseLevel (highestLevel (crCheck run)) l \<Longrightarrow>
   emLevels (crEmitted run') = emLevels (crEmitted run) \<Longrightarrow> raises False run run'"
  unfolding raises_def by (intro exI[of _ "[]"] exI[of _ "[l]"]) simp

lemma emits_raise:
  assumes "isValid l" and "emLevels [em] = [l]"
    and "crEmitted run' = crEmitted run @ [em] \<or> \<not> ok \<and> crEmitted run' = crEmitted run"
    and "subprocesses (crCheck run') = subprocesses (crCheck run)"
    and "highestLevel (crCheck run') = raiseLevel (highestLevel (crCheck run)) l"
  shows "emits ok run run'"
proof (cases "crEmitted run' = crEmitted run @ [em]")
  case True
  then show ?thesis
    unfolding emits_def raises_def using assms by (intro conjI exI[of _ "[l]"] exI[of _ "[]"]) (simp_all add: emLevels_def)
next
  case False
  then show ?thesis
    unfolding emits_def raises_def using assms by (intro conjI exI[of _ "[]"] exI[of _ "[l]"]) (simp_all add: emLevels_def)
qed

lemma raiseTo_simps [simp]:
  "crEmitted (raiseTo l run) = crEmitted run" "subprocesses (crCheck (raiseTo l run)) = subprocesses (crCheck run)"
  "highestLevel (crCheck (raiseTo l run)) = raiseLevel (highestLevel (crCheck run)) l"
  by (simp_all add: raiseTo_def)

lemma emitTo_run: "emitTo report em run = (r, run') \<Longrightarrow> run' = run\<lparr>crEmitted := crEmitted run @ [em]\<rparr>"
  by (simp add: emitTo_def)

lemma parseFinding_level: "parseFinding env c a = Ok x \<Longrightarrow> isValid (faLevel a)"
  by (auto simp: parseFinding_def bindO_eq_Ok split: if_splits)

lemma emitFinding_emits:
  assumes "ctxEmitFinding os report env a run = (r, run')"
  shows "emits (isOk r) run run'"
proof (cases "parseFinding env (checkOf (crCheck run)) a")
  case (Ok x)
  obtain span reps msg props where x: "x = (span, reps, msg, props)" by (cases x)
  obtain tr scm' where t: "(if faFile a = [] then (Ok (), crScm (raiseTo (faLevel a) run))
      else checkTracked os (faFile a) (crScm (raiseTo (faLevel a) run))) = (tr, scm')"
    by (metis surj_pair)
  let ?st2 = "(raiseTo (faLevel a) run)\<lparr>crScm := scm'\<rparr>"
  note run = assms[unfolded ctxEmitFinding_def Let_def Ok x outcome.case prod.case t]
  show ?thesis
  proof (cases tr)
    case (Ok u)
    let ?em = "EmFinding \<lparr>fdCheck = rname (crCheck ?st2), fdLevel = faLevel a, fdMessage = msg,
      fdRoot = (if faFile a = [] then [] else PathJoin [seRoot env, seSubdir env]), fdFile = faFile a, fdSpan = span,
      fdReplacements = reps, fdProps = props\<rparr>"
    have "run' = ?st2\<lparr>crEmitted := crEmitted ?st2 @ [?em]\<rparr>"
      using run unfolding Ok outcome.case by (rule emitTo_run)
    then show ?thesis
      using parseFinding_level[OF \<open>parseFinding _ _ a = _\<close>]
      by (intro emits_raise[of "faLevel a" ?em]) (simp_all add: emLevels_def)
  next
    case (Err e)
    then show ?thesis
      using run parseFinding_level[OF \<open>parseFinding _ _ a = _\<close>] by (auto simp: emits_def intro!: raises_failed[of "faLevel a"])
  next
    case (Panic m)
    then show ?thesis
      using run parseFinding_level[OF \<open>parseFinding _ _ a = _\<close>] by (auto simp: emits_def intro!: raises_failed[of "faLevel a"])
  qed
qed (use assms in \<open>simp_all add: ctxEmitFinding_def emits_same\<close>)

lemma emitCommit_emits:
  assumes "ctxEmitCommitMessageFinding report env a run = (r, run')"
  shows "emits (isOk r) run run'"
proof -
  define p where "p = bindO (unpackProps (seAllowedProps env) (caProps a)) (\<lambda>props.
      if \<not> isValid (caLevel a) then Err (levelErr (caLevel a))
      else bindO (commitFields (caCommit a)) (\<lambda>(h, m).
           bindO (parseSpan (caLine a) (caCol a) (caEndLine a) (caEndCol a)) (\<lambda>span.
             if caMessage a = [] then Err (New ''for parameter \"message\": must not be empty'')
             else Ok (h, m, span, props))))"
  note run = assms[unfolded ctxEmitCommitMessageFinding_def p_def[symmetric] Let_def]
  show ?thesis
  proof (cases p)
    case (Ok x)
    obtain h m span props where x: "x = (h, m, span, props)" by (cases x)
    have valid: "isValid (caLevel a)" using Ok by (auto simp: p_def bindO_eq_Ok split: if_splits)
    let ?em = "EmCommit \<lparr>cfCheck = rname (crCheck (raiseTo (caLevel a) run)), cfLevel = caLevel a,
      cfMessage = caMessage a, cfHash = h, cfCommitMessage = m, cfSpan = span, cfProps = props\<rparr>"
    have "run' = (raiseTo (caLevel a) run)\<lparr>crEmitted := crEmitted (raiseTo (caLevel a) run) @ [?em]\<rparr>"
      using run unfolding Ok x outcome.case prod.case by (rule emitTo_run)
    then show ?thesis using valid by (intro emits_raise[of "caLevel a" ?em]) (simp_all add: emLevels_def)
  qed (use run in \<open>simp_all add: emits_same\<close>)
qed

lemma emitArtifact_emits:
  assumes "ctxEmitArtifact stat report env f content run = (r, run')"
  shows "emits ok run run'"
proof (cases "artifactRoot stat env f content")
  case (Ok x)
  obtain root b where x: "x = (root, b)" by (cases x)
  note run = assms[unfolded ctxEmitArtifact_def Ok x outcome.case prod.case]
  show ?thesis using emitTo_run[OF run] by (simp add: emits_same emLevels_def)
qed (use assms in \<open>simp_all add: ctxEmitArtifact_def emits_same\<close>)

text \<open>The check owns its processes, and those it has not waited for hold their buffers.\<close>

definition ownProcs :: "nat list \<Rightarrow> subprocess list \<Rightarrow> bool" where
  "ownProcs is ps \<longleftrightarrow> distinct is \<and> (\<forall>i \<in> set is. i < length ps \<and> (waitCalled (ps ! i) \<or> holds (ps ! i)))"

definition ctxInv :: "'re ctxState \<Rightarrow> bool" where
  "ctxInv st \<longleftrightarrow> bufInv (csExec st) \<and> ownProcs (subprocesses (crCheck (csRun st))) (esProcs (csExec st))"

definition keeps :: "bool \<Rightarrow> 're ctxState \<Rightarrow> 're ctxState \<Rightarrow> bool" where
  "keeps ok st st' \<longleftrightarrow> ctxInv st' \<and> raises ok (csRun st) (csRun st')"

lemma ownProcs_D:
  "ownProcs is ps \<Longrightarrow> distinct is" "ownProcs is ps \<Longrightarrow> i \<in> set is \<Longrightarrow> i < length ps"
  "ownProcs is ps \<Longrightarrow> i \<in> set is \<Longrightarrow> \<not> waitCalled (ps ! i) \<Longrightarrow> holds (ps ! i)"
  by (auto simp: ownProcs_def)

lemma ownProcs_snoc: "ownProcs is ps \<Longrightarrow> holds p \<Longrightarrow> ownProcs (is @ [length ps]) (ps @ [p])"
  by (auto simp: ownProcs_def nth_append)

lemma keeps_emit:
  assumes "ctxInv st" and "emits ok (csRun st) run" and "csRun st' = run" and "csExec st' = csExec st"
  shows "keeps ok st st'"
  using assms by (simp add: keeps_def ctxInv_def emits_def)

lemma keeps_same:
  assumes "ctxInv st" and "esProcs (csExec st') = esProcs (csExec st)" and "esPool (csExec st') = esPool (csExec st)"
    and "crCheck (csRun st') = crCheck (csRun st)" and "crEmitted (csRun st') = crEmitted (csRun st)"
  shows "keeps ok st st'"
  using assms emits_same[of "csRun st'" "csRun st" ok] by (simp add: keeps_def ctxInv_def emits_def bufInv_def)

lemma exec_keeps:
  assumes "ctxInv st" and "picks (chooseBuf sys)" and "ctxOsExec sys x a (crCheck (csRun st)) (csExec st) = (r, chk, ex)"
  shows "keeps ok st (st\<lparr>csRun := (csRun st)\<lparr>crCheck := chk\<rparr>, csExec := ex\<rparr>)"
proof -
  have inv: "bufInv ex" "esProcs ex = esProcs (csExec st) \<and> chk = crCheck (csRun st) \<or>
     (\<exists>p. esProcs ex = esProcs (csExec st) @ [p] \<and> holds p \<and> \<not> waitCalled p \<and>
        subprocesses chk = subprocesses (crCheck (csRun st)) @ [length (esProcs (csExec st))])"
    using exec_inv[OF assms(3) _ assms(2)] assms(1) by (simp_all add: ctxInv_def)
  have "highestLevel chk = highestLevel (crCheck (csRun st))"
    using assms(3) by (cases rule: exec_cases) simp_all
  then have "raises ok (csRun st) ((csRun st)\<lparr>crCheck := chk\<rparr>)"
    unfolding raises_def by (intro exI[of _ "[]"]) simp
  moreover have "ownProcs (subprocesses chk) (esProcs ex)"
    using inv(2)
  proof (elim disjE exE conjE)
    fix p assume "esProcs ex = esProcs (csExec st) @ [p]" "holds p"
      "subprocesses chk = subprocesses (crCheck (csRun st)) @ [length (esProcs (csExec st))]"
    then show ?thesis using assms(1) by (simp add: ctxInv_def ownProcs_snoc)
  qed (use assms(1) in \<open>simp add: ctxInv_def\<close>)
  ultimately show ?thesis using inv(1) by (simp add: keeps_def ctxInv_def)
qed

lemma wait_keeps:
  assumes "ctxInv st" and "i \<in> set (subprocesses (crCheck (csRun st)))" and "waitBody cx i st = (r, st')"
  shows "keeps ok st st'"
proof -
  have own: "ownProcs (subprocesses (crCheck (csRun st))) (esProcs (csExec st))" and buf: "bufInv (csExec st)"
    using assms(1) by (simp_all add: ctxInv_def)
  obtain r' ex where w: "subprocess_wait (cxSys cx) i (csExec st) = (r', ex)" "bufInv ex"
      "length (esProcs ex) = length (esProcs (csExec st))" "waitCalled (esProcs ex ! i)"
      "\<forall>j. j \<noteq> i \<longrightarrow> esProcs ex ! j = esProcs (csExec st) ! j"
    using wait_inv[OF buf ownProcs_D(2)[OF own assms(2)] ownProcs_D(3)[OF own assms(2)], of "cxSys cx"] by blast
  have "ownProcs (subprocesses (crCheck (csRun st))) (esProcs ex)"
    using own w(3-5) unfolding ownProcs_def by metis
  moreover have "st' = st\<lparr>csExec := ex\<rparr>" using assms(3) w(1) by (simp add: waitBody_def)
  ultimately show ?thesis using w(2) emits_same[of "csRun st" "csRun st" ok] by (simp add: keeps_def ctxInv_def emits_def)
qed

lemma ctxBody_keeps:
  assumes "ctxInv st" and "picks (chooseBuf (cxSys cx))" and "ctxBody cx f vals st = (r, st')"
  shows "keeps (isOk r) st st'"
proof -
  have ok: "isOk (mapO g q) = isOk q" for g :: "'b \<Rightarrow> 'c" and q by (cases q) simp_all
  show ?thesis
  proof (cases f)
    case EmitFindingFn
    then show ?thesis
      using assms by (auto simp: ok split: prod.splits intro!: keeps_emit dest: emitFinding_emits)
  next
    case EmitCommitFn
    then show ?thesis
      using assms by (auto simp: ok split: prod.splits intro!: keeps_emit dest: emitCommit_emits)
  next
    case EmitArtifactFn
    then show ?thesis
      using assms by (auto simp: ok split: prod.splits intro!: keeps_emit dest: emitArtifact_emits)
  next
    case ExecFn
    then show ?thesis
      using assms(3) exec_keeps[OF assms(1,2)] by (auto split: prod.splits)
  qed (use assms(1,3) in \<open>auto split: prod.splits intro!: keeps_same\<close>)
qed

lemma mapO_Panic: "mapO f r = Panic m \<longleftrightarrow> r = Panic m"
  by (cases r) auto

lemma isOk_builtinWrapper: "isOk (builtinWrapper name r) = isOk r"
  by (cases r) (simp_all add: builtinWrapper_def)

lemma keeps_refl: "ctxInv st \<Longrightarrow> keeps ok st st"
  by (rule keeps_same) simp_all

lemma callBuiltin_keeps:
  assumes "ctxInv st" and "callBuiltin cx name ps args kws body st = (r, st')"
    and "\<And>vals q. body vals st = (q, st') \<Longrightarrow> keeps (isOk q) st st'"
  shows "keeps (isOk r) st st'"
proof (cases "UnpackArgs (ctxUnpacker cx ps) name args kws (map fst ps)")
  case (Ok vals)
  obtain q s where b: "body vals st = (q, s)" by fastforce
  then have "s = st'" "r = builtinWrapper name q" using assms(2) Ok by (simp_all add: callBuiltin_def)
  then show ?thesis using assms(3) b by (simp add: isOk_builtinWrapper)
qed (use assms(1,2) in \<open>simp_all add: callBuiltin_def keeps_refl\<close>)

text \<open>A check can only wait for processes that it started itself.\<close>

fun canCall :: "ctxCall \<Rightarrow> 're ctxState \<Rightarrow> bool" where
  "canCall (CallWait i args kws) st = (i \<in> set (subprocesses (crCheck (csRun st))))"
| "canCall c st = True"

fun ownWaits :: "'re ctxEnv \<Rightarrow> ctxCall list \<Rightarrow> 're ctxState \<Rightarrow> bool" where
  "ownWaits cx [] st = True"
| "ownWaits cx (c # cs) st = (canCall c st \<and> ownWaits cx cs (snd (callCtx cx c st)))"

lemma callCtx_keeps:
  assumes "ctxInv st" and "picks (chooseBuf (cxSys cx))" and "canCall c st" and "callCtx cx c st = (r, st')"
  shows "keeps (isOk r) st st'"
proof (cases c)
  case (CallFn f args kws)
  then show ?thesis using callBuiltin_keeps[OF assms(1)] assms(4) ctxBody_keeps[OF assms(1,2)] by simp
next
  case (CallWait i args kws)
  then show ?thesis
    using callBuiltin_keeps[OF assms(1), of cx "''wait''" "[]" args kws] assms(3,4) wait_keeps[OF assms(1)] by simp
next
  case (CallFail sep texts argErr)
  define run where "run = (csRun st)\<lparr>crCheck := (crCheck (csRun st))\<lparr>failErr := Some (Failure (failMessage sep texts argErr))\<rparr>\<rparr>"
  have "st' = st\<lparr>csRun := run\<rparr>" using CallFail assms(4) by (auto simp: failCall_def fail_builtin_def Let_def run_def)
  moreover have "emits (isOk r) (csRun st) run" by (rule emits_same) (simp_all add: run_def)
  ultimately show ?thesis using keeps_emit[OF assms(1)] by simp
qed

lemma raises_trans:
  assumes "raises True a b" and "raises ok b c"
  shows "raises ok a c"
proof -
  obtain es where 1: "list_all isValid es" "highestLevel (crCheck b) = foldl raiseLevel (highestLevel (crCheck a)) es"
      "emLevels (crEmitted b) = emLevels (crEmitted a) @ es"
    using assms(1) by (auto simp: raises_def)
  obtain es' ls where 2: "list_all isValid (es' @ ls)" "ok \<longrightarrow> ls = []"
      "highestLevel (crCheck c) = foldl raiseLevel (highestLevel (crCheck b)) (es' @ ls)"
      "emLevels (crEmitted c) = emLevels (crEmitted b) @ es'"
    using assms(2) unfolding raises_def by blast
  show ?thesis
    unfolding raises_def using 1 2 by (intro exI[of _ "es @ es'"] exI[of _ ls]) simp
qed

lemma runCalls_keeps:
  assumes "ctxInv st" and "picks (chooseBuf (cxSys cx))" and "ownWaits cx cs st" and "runCalls cx cs st = (r, st')"
  shows "keeps (isOk r) st st'"
  using assms(1,3,4)
proof (induction cs arbitrary: st)
  case (Cons c cs)
  obtain q st1 where c: "callCtx cx c st = (q, st1)" by fastforce
  have k: "keeps (isOk q) st st1" using callCtx_keeps[OF Cons.prems(1) assms(2) _ c] Cons.prems(2) by simp
  show ?case
  proof (cases q)
    case (Ok v)
    then have "keeps (isOk r) st1 st'" using Cons.IH[of st1] Cons.prems(2,3) k c by (simp add: keeps_def)
    then show ?thesis using k Ok raises_trans[of "csRun st" "csRun st1"] by (simp add: keeps_def)
  qed (use Cons.prems(3) k c in auto)
qed (simp add: keeps_refl)

lemma raises_fresh:
  assumes "raises ok run run'" and "crEmitted run = []" and "highestLevel (crCheck run) = Nothing"
  shows "maxSeverity (emLevels (crEmitted run')) \<le> severityOf (highestLevel (crCheck run'))"
    and "ok \<Longrightarrow> severityOf (highestLevel (crCheck run')) = maxSeverity (emLevels (crEmitted run'))"
    and "ok \<Longrightarrow> highestLevel (crCheck run') = Error \<longleftrightarrow> Error \<in> set (emLevels (crEmitted run'))"
proof -
  obtain es ls where r: "list_all isValid (es @ ls)" "ok \<longrightarrow> ls = []"
      "highestLevel (crCheck run') = foldl raiseLevel Nothing (es @ ls)" "emLevels (crEmitted run') = es"
    using assms by (auto simp: raises_def emLevels_def)
  have h: "isValid (foldl raiseLevel Nothing (es @ ls)) \<or> foldl raiseLevel Nothing (es @ ls) = Nothing"
      "severityOf (foldl raiseLevel Nothing (es @ ls)) = maxSeverity (es @ ls)"
    using raiseLevel_fold[OF r(1), of Nothing] by (simp_all add: maxSeverity_def severityOf_def level_defs)
  have grow: "s \<le> foldl max s ss" for s :: severity and ss
  proof (induction ss arbitrary: s)
    case (Cons x xs)
    have "s \<le> max s x" by simp
    also have "\<dots> \<le> foldl max (max s x) xs" by (rule Cons.IH)
    finally show ?case by simp
  qed simp
  show "maxSeverity (emLevels (crEmitted run')) \<le> severityOf (highestLevel (crCheck run'))"
    unfolding r(3,4) h(2) by (simp add: maxSeverity_def grow)
  assume ok
  with r(2) have ls: "ls = []" by simp
  show "severityOf (highestLevel (crCheck run')) = maxSeverity (emLevels (crEmitted run'))"
    unfolding r(3,4) h(2) by (simp add: ls)
  have "highestLevel (crCheck run') = Error \<longleftrightarrow> maxSeverity es = SevError"
    using severityOf_Error[OF h(1)] h(2) by (simp add: r(3) ls)
  also have "\<dots> \<longleftrightarrow> SevError \<in> severityOf ` set es" by (simp add: maxSeverity_def foldl_max_SevError)
  also have "\<dots> \<longleftrightarrow> Error \<in> set es"
  proof -
    have "severityOf l = SevError \<longleftrightarrow> l = Error" if "l \<in> set es" for l
      using severityOf_Error[of l] r(1) that by (simp add: list_all_iff)
    then show ?thesis by (metis image_iff)
  qed
  finally show "highestLevel (crCheck run') = Error \<longleftrightarrow> Error \<in> set (emLevels (crEmitted run'))" unfolding r(4) .
qed

section \<open>Properties\<close>

text \<open>
  C38. Every error that a function of ctx, wait() or fail() raises starts with the name of the
  function, whether the error came from its arguments or from its work.
\<close>

theorem builtin_errors_named:
  assumes "callCtx cx c st = (Err e, st')"
  shows "HasPrefix (errText e) (callName c @ '': '')"
  using assms by (rule callCtx_Err)

lemma runCheck_inv:
  assumes "picks (chooseBuf (cxSys cx))" and "ctxInv st" and "ownWaits cx calls st"
    and "crEmitted (csRun st) = []" and "highestLevel (crCheck (csRun st)) = Nothing"
    and "runCheck cx calls st = (r, st')"
  shows "maxSeverity (emLevels (crEmitted (csRun st'))) \<le> severityOf (highestLevel (crCheck (csRun st'))) \<and>
    bufInv (csExec st') \<and>
    (r = Ok () \<longrightarrow>
       severityOf (highestLevel (crCheck (csRun st'))) = maxSeverity (emLevels (crEmitted (csRun st'))) \<and>
       (highestLevel (crCheck (csRun st')) = Error \<longleftrightarrow> Error \<in> set (emLevels (crEmitted (csRun st')))) \<and>
       (\<forall>i \<in> set (subprocesses (crCheck (csRun st'))). waitCalled (esProcs (csExec st') ! i))) \<and>
    (\<forall>m. r = Panic m \<longrightarrow> fst (runCalls cx calls st) = Panic m)"
proof -
  obtain q st1 where run: "runCalls cx calls st = (q, st1)" by fastforce
  have k: "ctxInv st1" "raises (isOk q) (csRun st) (csRun st1)"
    using runCalls_keeps[OF assms(2,1,3) run] by (simp_all add: keeps_def)
  obtain r2 ex where call: "registeredCheck_call (cxSys cx) (crCheck (csRun st1)) (mapO (\<lambda>_. VNone) q) (csExec st1) = (r2, ex)"
    by fastforce
  have st': "csRun st' = csRun st1" "csExec st' = ex" "r = r2"
    using assms(6) run call by (auto simp: runCheck_def)
  note level = raises_fresh[OF k(2) assms(4,5)]
  show ?thesis
  proof (cases q)
    case (Ok u)
    let ?is = "subprocesses (crCheck (csRun st1))"
    have own: "ownProcs ?is (esProcs (csExec st1))" and buf: "bufInv (csExec st1)" using k(1) by (simp_all add: ctxInv_def)
    have "cleanupUnwaited (cxSys cx) ?is None (csExec st1) = (r2, ex)"
      using call Ok by (simp add: registeredCheck_call_def)
    then have c: "\<forall>m. r2 \<noteq> Panic m" "bufInv ex"
        "\<forall>i \<in> set ?is. waitCalled (esProcs (csExec st1) ! i) \<longrightarrow> esProcs ex ! i = esProcs (csExec st1) ! i"
        "(r2 = Ok ()) = (\<forall>i \<in> set ?is. waitCalled (esProcs (csExec st1) ! i))"
      using cleanupUnwaited_inv[OF buf ownProcs_D(1)[OF own] ownProcs_D(2)[OF own] ownProcs_D(3)[OF own], of "cxSys cx" None]
      by auto
    then show ?thesis using level Ok by (simp add: st')
  next
    case (Err e)
    then show ?thesis using level(1) k(1) call by (auto simp: st' registeredCheck_call_def ctxInv_def)
  next
    case (Panic m)
    then show ?thesis using level(1) k(1) call run by (auto simp: st' registeredCheck_call_def ctxInv_def)
  qed
qed

text \<open>
  C8. Whatever a check calls, in any order and with any arguments, its level is never below what
  it emitted and the buffers stay unshared. If its end is not an error then its level is exactly
  the most severe of the findings that were emitted, error only if one of them is an error, and it
  has waited for every process that it started. What follows the function never panics by itself.
\<close>

theorem check_calls_verdict:
  assumes "picks (chooseBuf (cxSys cx))" and "ctxInv st" and "ownWaits cx calls st"
    and "crEmitted (csRun st) = []" and "highestLevel (crCheck (csRun st)) = Nothing"
    and "runCheck cx calls st = (r, st')"
  shows "maxSeverity (emLevels (crEmitted (csRun st'))) \<le> severityOf (highestLevel (crCheck (csRun st'))) \<and>
    bufInv (csExec st') \<and>
    (r = Ok () \<longrightarrow>
       severityOf (highestLevel (crCheck (csRun st'))) = maxSeverity (emLevels (crEmitted (csRun st'))) \<and>
       (highestLevel (crCheck (csRun st')) = Error \<longleftrightarrow> Error \<in> set (emLevels (crEmitted (csRun st')))) \<and>
       (\<forall>i \<in> set (subprocesses (crCheck (csRun st'))). waitCalled (esProcs (csExec st') ! i))) \<and>
    (\<forall>m. r = Panic m \<longrightarrow> fst (runCalls cx calls st) = Panic m)"
  using assms by (rule runCheck_inv)

section \<open>The properties on a concrete check\<close>

text \<open>A check that emits a warning and starts a command; and one that calls with a wrong argument.\<close>

definition demoCtx :: "string ctxEnv" where
  "demoCtx = \<lparr>cxOs = demoOs (\<lambda>_ _. ExecOk []), cxReport = (\<lambda>_. None), cxShac = demoEnv, cxSys = demoSys, cxExec = demoX,
     cxPattern = (\<lambda>_ _ _. NoMatch), cxCompile = Ok, cxSubmatch = (\<lambda>_ _. None), cxSubmatches = (\<lambda>_ _. []),
     cxOpen = (\<lambda>_. OpenFile ''hi''), cxReads = [], cxStat = (\<lambda>_. StatFile), cxMkdirAll = (\<lambda>_. None), cxWritable = (\<lambda>_. None),
     cxQuote = id, cxNearest = (\<lambda>_ _. [])\<rparr>"

definition demoState :: "string ctxState" where
  "demoState = \<lparr>csRun = demoRun, csExec = \<lparr>esTemp = demoTemp, esPool = initialPool, esProcs = [], esRemoved = []\<rparr>,
     csCache = Map.empty, csWritten = []\<rparr>"

definition demoFinding :: "string \<Rightarrow> ctxCall" where
  "demoFinding level = CallFn EmitFindingFn [VStr level] [(''message'', VStr ''m'')]"

definition demoCommand :: ctxCall where
  "demoCommand = CallFn ExecFn [VList [VStr ''/bin/sh'']] []"

lemma demo_ctxInv: "ctxInv demoState"
  by (simp add: ctxInv_def demoState_def bufInv_def heldAll_def wfPool_def initialPool_def ownProcs_def demoRun_def
      demoCheck_def newRegistered_def)

lemma demo_fresh: "crEmitted (csRun demoState) = []" "highestLevel (crCheck (csRun demoState)) = Nothing"
  by (simp_all add: demoState_def demoRun_def demoCheck_def newRegistered_def)

lemma demo_pickable: "picks (chooseBuf (cxSys demoCtx))"
  using demo_picks by (simp add: demoCtx_def)

lemma demo_notice:
  "map emLevel (crEmitted (csRun (snd (runCheck demoCtx [demoFinding Notice] demoState)))) = [[Notice]]"
  "fst (runCheck demoCtx [demoFinding Notice] demoState) = Ok ()"
  "highestLevel (crCheck (csRun (snd (runCheck demoCtx [demoFinding Notice] demoState)))) = Notice"
  by code_simp+

lemma demo_runs:
  "map emLevel (crEmitted (csRun (snd (runCheck demoCtx [demoFinding Warning] demoState)))) = [[Warning]]"
  "fst (runCheck demoCtx [demoFinding Warning] demoState) = Ok ()"
  "fst (runCheck demoCtx [demoFinding Warning, demoCommand] demoState) \<noteq> Ok ()"
  by code_simp+

theorem builtin_errors_named_witness:
  "HasPrefix (errText (Errorf ''%s: for parameter %s: %s'' [FStr ''ctx.vars.get'', FStr ''name'', FStr ''got int, want string'']))
     ''ctx.vars.get: ''"
proof -
  have "callCtx demoCtx (CallFn VarsGetFn [VInt 1] []) demoState =
      (Err (Errorf ''%s: for parameter %s: %s'' [FStr ''ctx.vars.get'', FStr ''name'', FStr ''got int, want string'']), demoState)"
    by (simp add: callBuiltin_def UnpackArgs_def slotValue_def ctxUnpacker_def demoCtx_def paramName_def HasSuffix_def
        UnpackArg_def builtinWrapper_def HasPrefix_def varsGetParams_def)
  from builtin_errors_named[OF this] show ?thesis by simp
qed

theorem check_calls_verdict_witness:
  "severityOf (highestLevel (crCheck (csRun (snd (runCheck demoCtx [demoFinding Warning] demoState))))) = SevWarning \<and>
   bufInv (csExec (snd (runCheck demoCtx [demoFinding Warning, demoCommand] demoState)))"
proof -
  have own: "ownWaits demoCtx [demoFinding Warning] demoState" "ownWaits demoCtx [demoFinding Warning, demoCommand] demoState"
    by (simp_all add: demoFinding_def demoCommand_def)
  obtain r st' where one: "runCheck demoCtx [demoFinding Warning] demoState = (r, st')" by fastforce
  have em: "r = Ok ()" "emLevels (crEmitted (csRun st')) = [Warning]" using demo_runs(1,2) one by (simp_all add: emLevels_def)
  have sev: "maxSeverity [Warning] = SevWarning" by code_simp
  obtain q st2 where two: "runCheck demoCtx [demoFinding Warning, demoCommand] demoState = (q, st2)" by fastforce
  have "severityOf (highestLevel (crCheck (csRun st'))) = SevWarning"
    using check_calls_verdict[OF demo_pickable demo_ctxInv own(1) demo_fresh one] em sev by simp
  moreover have "bufInv (csExec st2)"
    using check_calls_verdict[OF demo_pickable demo_ctxInv own(2) demo_fresh two] by simp
  ultimately show ?thesis by (simp add: one two)
qed

end
