(* ===== verification/Shac_Api.thy ===== *)
theory Shac_Api
  imports Ctx_Calls
begin

text \<open>
  What a Starlark file can call while it is loaded: shac.check(), shac.register_check() and the
  methods of check objects (runtime_shac.go, runtime_shac_check.go), as one script that creates and
  registers checks; and what it takes to call a registered check later: the parameters of a Starlark
  function as the resolver leaves them and setArgs() of the vendored interpreter, which binds the
  arguments of the call in registeredCheck.call (run.go). The property is which of the checks that
  a script can register can be called at all.
\<close>

section \<open>The parameters of a Starlark function\<close>

text \<open>
  Parameters as they are written: name, name = default, a bare *, *args and **kwargs. The resolver
  counts the keyword-only ones, which follow a star, and puts *args and **kwargs at the end.
\<close>

datatype starParam = Required string | Optional string starValue | BareStar | StarArgs string | StarStar string

record paramScan =
  psOptional :: bool
  psStar :: "string option option"
  psStarStar :: "string option"
  psKwonly :: nat
  psBound :: "(string \<times> starValue option) list"
  psErrs :: "string list"

definition scanErr :: "string list \<Rightarrow> paramScan \<Rightarrow> paramScan" where
  "scanErr es s = s\<lparr>psErrs := psErrs s @ es\<rparr>"

definition bindParam :: "string \<Rightarrow> starValue option \<Rightarrow> paramScan \<Rightarrow> paramScan" where
  "bindParam n d s =
     (if n \<in> fst ` set (psBound s) then scanErr [''duplicate parameter: '' @ n] s
      else s\<lparr>psBound := psBound s @ [(n, d)]\<rparr>)"

definition scanStar :: "string option \<Rightarrow> paramScan \<Rightarrow> paramScan" where
  "scanStar n s =
     (case psStarStar s of
        Some k \<Rightarrow> scanErr [''* parameter may not follow **'' @ k] s
      | None \<Rightarrow> if psStar s \<noteq> None then scanErr [''multiple * parameters not allowed''] s else s\<lparr>psStar := Some n\<rparr>)"

fun scanParam :: "starParam \<Rightarrow> paramScan \<Rightarrow> paramScan" where
  "scanParam (Required n) s =
     bindParam n None
       (case psStarStar s of
          Some k \<Rightarrow> scanErr [''required parameter may not follow **'' @ k] s
        | None \<Rightarrow>
            if psStar s \<noteq> None then s\<lparr>psKwonly := psKwonly s + 1\<rparr>
            else if psOptional s then scanErr [''required parameter may not follow optional''] s else s)"
| "scanParam (Optional n d) s =
     (bindParam n (Some d)
       (case psStarStar s of
          Some k \<Rightarrow> scanErr [''optional parameter may not follow **'' @ k] s
        | None \<Rightarrow> if psStar s \<noteq> None then s\<lparr>psKwonly := psKwonly s + 1\<rparr> else s))\<lparr>psOptional := True\<rparr>"
| "scanParam BareStar s = scanStar None s"
| "scanParam (StarArgs n) s = scanStar (Some n) s"
| "scanParam (StarStar n) s =
     (if psStarStar s \<noteq> None then scanErr [''multiple ** parameters not allowed''] s else s)\<lparr>psStarStar := Some n\<rparr>"

text \<open>
  After the last parameter *args and **kwargs are bound. A function exists only if none of its
  parameters is in error; the first error is the one that is kept.
\<close>

definition endStar :: "paramScan \<Rightarrow> paramScan" where
  "endStar s =
     (case psStar s of
        None \<Rightarrow> s
      | Some (Some n) \<Rightarrow> bindParam n None s
      | Some None \<Rightarrow> if psKwonly s = 0 then scanErr [''bare * must be followed by keyword-only parameters''] s else s)"

definition endStarStar :: "paramScan \<Rightarrow> paramScan" where
  "endStarStar s = (case psStarStar s of None \<Rightarrow> s | Some n \<Rightarrow> bindParam n None s)"

definition emptyScan :: paramScan where
  "emptyScan = \<lparr>psOptional = False, psStar = None, psStarStar = None, psKwonly = 0, psBound = [], psErrs = []\<rparr>"

definition resolveFunction :: "string \<Rightarrow> starParam list \<Rightarrow> starFunction outcome" where
  "resolveFunction name ps =
     (let s = endStarStar (endStar (fold scanParam ps emptyScan))
      in case psErrs s of
           e # es \<Rightarrow> Err (New e)
         | [] \<Rightarrow> Ok \<lparr>fnName = name, params = psBound s, NumKwonly = psKwonly s,
                   HasVarargs = (case psStar s of Some (Some n) \<Rightarrow> True | _ \<Rightarrow> False), HasKwargs = (psStarStar s \<noteq> None)\<rparr>)"

section \<open>Binding the arguments of a call\<close>

text \<open>The parameters without *args and **kwargs, and those among them that take positional arguments.\<close>

definition ordinaryParams :: "starFunction \<Rightarrow> nat" where
  "ordinaryParams f = length (params f) - (if HasKwargs f then 1 else 0) - (if HasVarargs f then 1 else 0)"

definition positionalParams :: "starFunction \<Rightarrow> nat" where
  "positionalParams f = ordinaryParams f - NumKwonly f"

type_synonym locals = "nat \<Rightarrow> starValue option"

definition multipleErr :: "starFunction \<Rightarrow> string \<Rightarrow> err" where
  "multipleErr f k = Errorf ''function %s got multiple values for parameter %s'' [FStr (fnName f), FStr k]"

fun bindKwargs :: "starFunction \<Rightarrow> string list \<Rightarrow> (string \<times> starValue) list \<Rightarrow> locals \<Rightarrow> (string \<times> starValue) list \<Rightarrow>
    (locals \<times> (string \<times> starValue) list) outcome" where
  "bindKwargs f ids [] ls dict = Ok (ls, dict)"
| "bindKwargs f ids ((k, v) # kws) ls dict =
     (case indexOf k ids of
        Some i \<Rightarrow> if ls i \<noteq> None then Err (multipleErr f k) else bindKwargs f ids kws (ls(i \<mapsto> v)) dict
      | None \<Rightarrow>
          if \<not> HasKwargs f then Err (Errorf ''function %s got an unexpected keyword argument %s'' [FStr (fnName f), FStr k])
          else if k \<in> fst ` set dict then Err (multipleErr f k)
          else bindKwargs f ids kws ls (dict @ [(k, v)]))"

definition missingParams :: "starFunction \<Rightarrow> nat \<Rightarrow> locals \<Rightarrow> nat list" where
  "missingParams f n ls = filter (\<lambda>i. ls i = None \<and> snd (params f ! i) = None) [n..<ordinaryParams f]"

definition withDefaults :: "starFunction \<Rightarrow> nat \<Rightarrow> locals \<Rightarrow> locals" where
  "withDefaults f n ls i = (if n \<le> i \<and> i < ordinaryParams f \<and> ls i = None then snd (params f ! i) else ls i)"

definition plural :: "nat \<Rightarrow> string" where
  "plural n = (if n = 1 then [] else ''s'')"

definition tooManyErr :: "starFunction \<Rightarrow> nat \<Rightarrow> err" where
  "tooManyErr f given =
     Errorf ''function %s accepts %s%d positional argument%s (%d given)'' [FStr (fnName f),
       FStr (if list_ex (\<lambda>p. snd p \<noteq> None) (take (positionalParams f) (params f)) then ''at most '' else []),
       FInt (int (positionalParams f)), FStr (plural (positionalParams f)), FInt (int given)]"

definition missingErr :: "starFunction \<Rightarrow> nat list \<Rightarrow> err" where
  "missingErr f is =
     Errorf ''function %s missing %d argument%s (%s)'' [FStr (fnName f), FInt (int (length is)),
       FStr (if length is > 1 then ''s'' else []), FStr (Join (map (\<lambda>i. fst (params f ! i)) is) '', '')]"

definition setArgs :: "starFunction \<Rightarrow> starValue list \<Rightarrow> (string \<times> starValue) list \<Rightarrow> locals outcome" where
  "setArgs f args kws =
     (if params f = [] then
        (if length args + length kws > 0
         then Err (Errorf ''function %s accepts no arguments (%d given)'' [FStr (fnName f), FInt (int (length args + length kws))])
         else Ok (\<lambda>_. None))
      else if length args > positionalParams f \<and> \<not> HasVarargs f then Err (tooManyErr f (length args))
      else
        let n = min (length args) (positionalParams f);
            ls0 = (\<lambda>i. if i < n then Some (args ! i) else None);
            ls1 = (if HasVarargs f then ls0(ordinaryParams f \<mapsto> VTuple (drop n args)) else ls0)
        in bindO (bindKwargs f (map fst (take (ordinaryParams f) (params f))) kws ls1 []) (\<lambda>(ls2, dict).
             let ls3 = (if HasKwargs f then ls2(length (params f) - 1 \<mapsto> VDict (map (\<lambda>(k, v). (VStr k, v)) dict)) else ls2)
             in if (n < ordinaryParams f \<or> NumKwonly f > 0) \<and> missingParams f n ls3 \<noteq> []
                then Err (missingErr f (missingParams f n ls3))
                else Ok (withDefaults f n ls3)))"

section \<open>The functions of shac and the methods of checks\<close>

text \<open>The values that a script passes around: plain ones, functions and check objects.\<close>

datatype apiValue = AVal starValue | AFn callable | ACheck check

fun apiType :: "apiValue \<Rightarrow> string" where
  "apiType (AVal v) = Type v"
| "apiType (AFn (Function f)) = ''function''"
| "apiType (AFn c) = ''builtin_function_or_method''"
| "apiType (ACheck c) = ''shac.check''"

fun starOf :: "apiValue \<Rightarrow> starValue" where
  "starOf (AVal v) = v"
| "starOf a = VOther (apiType a)"

datatype apiVar = VarFunction | VarString | VarBool | VarValue

fun apiWant :: "apiVar \<Rightarrow> string" where
  "apiWant VarFunction = ''function''"
| "apiWant VarString = ''string''"
| "apiWant VarBool = ''bool''"
| "apiWant VarValue = ''value''"

fun apiFits :: "apiVar \<Rightarrow> apiValue \<Rightarrow> bool" where
  "apiFits VarFunction a = (case a of AFn (Function f) \<Rightarrow> True | _ \<Rightarrow> False)"
| "apiFits VarString a = (case a of AVal (VStr s) \<Rightarrow> True | _ \<Rightarrow> False)"
| "apiFits VarBool a = (case a of AVal (VBool b) \<Rightarrow> True | _ \<Rightarrow> False)"
| "apiFits VarValue a = True"

record apiEnv =
  aeQuote :: "string \<Rightarrow> string"
  aeNearest :: "string \<Rightarrow> string list \<Rightarrow> string"

definition apiUnpack ::
    "apiEnv \<Rightarrow> string \<Rightarrow> (string \<times> apiVar) list \<Rightarrow> apiValue list \<Rightarrow> (string \<times> apiValue) list \<Rightarrow>
      (nat \<Rightarrow> apiValue option) outcome" where
  "apiUnpack env name ps args kws =
     UnpackArgs \<lparr>upIsNone = (\<lambda>a. a = AVal VNone),
         upConv = (\<lambda>i a. if apiFits (snd (ps ! i)) a then Ok a
           else Err (Errorf ''got %s, want %s'' [FStr (apiType a), FStr (apiWant (snd (ps ! i)))])),
         upQuote = aeQuote env, upNearest = aeNearest env\<rparr> name args kws (map fst ps)"

definition stringArg :: "apiValue option \<Rightarrow> string" where
  "stringArg a = (case a of Some (AVal (VStr s)) \<Rightarrow> s | _ \<Rightarrow> [])"

definition boolArg :: "apiValue option \<Rightarrow> bool" where
  "boolArg a = (case a of Some (AVal (VBool b)) \<Rightarrow> b | _ \<Rightarrow> False)"

definition shacCheck :: "apiEnv \<Rightarrow> apiValue list \<Rightarrow> (string \<times> apiValue) list \<Rightarrow> check outcome" where
  "shacCheck env args kws =
     bindO (apiUnpack env ''shac.check'' [(''impl'', VarFunction), (''name?'', VarString), (''formatter?'', VarBool)] args kws)
       (\<lambda>vals. newCheck (case vals 0 of Some (AFn f) \<Rightarrow> f | _ \<Rightarrow> OtherCallable) (stringArg (vals 1)) (boolArg (vals 2)))"

fun registerArgOf :: "apiValue option \<Rightarrow> registerArg" where
  "registerArgOf (Some (AFn f)) = ArgCallable f"
| "registerArgOf (Some (ACheck c)) = ArgCheck c"
| "registerArgOf (Some (AVal v)) = ArgOther (Type v)"
| "registerArgOf None = ArgOther (Type VNone)"

definition registerCheck ::
    "apiEnv \<Rightarrow> apiValue list \<Rightarrow> (string \<times> apiValue) list \<Rightarrow> bool \<Rightarrow> registeredCheck list \<Rightarrow> registeredCheck list outcome" where
  "registerCheck env args kws doneLoading checks =
     bindO (apiUnpack env ''shac.register_check'' [(''check'', VarValue)] args kws)
       (\<lambda>vals. shacRegisterCheck doneLoading checks (registerArgOf (vals 0)))"

definition checkWithArgs :: "check \<Rightarrow> apiValue list \<Rightarrow> (string \<times> apiValue) list \<Rightarrow> check outcome" where
  "checkWithArgs c args kws =
     (if length args \<noteq> 0 then Err (New ''only keyword arguments are allowed'')
      else withArgs c (map (\<lambda>(k, v). (k, starOf v)) kws))"

definition checkWithName :: "apiEnv \<Rightarrow> check \<Rightarrow> apiValue list \<Rightarrow> (string \<times> apiValue) list \<Rightarrow> check outcome" where
  "checkWithName env c args kws =
     bindO (apiUnpack env ''with_name'' [(''name?'', VarString)] args kws) (\<lambda>vals. Ok (withName c (stringArg (vals 0))))"

text \<open>The other methods of a check as a Starlark value; hashing is the one of its name.\<close>

definition check_String :: "check \<Rightarrow> string" where
  "check_String c = ''<check '' @ cname c @ ''>''"

definition check_Hash :: "(string \<Rightarrow> nat) \<Rightarrow> check \<Rightarrow> nat" where
  "check_Hash hashOf c = hashOf (cname c)"

definition check_AttrNames :: "string list" where
  "check_AttrNames = [''with_args'', ''with_name'']"

section \<open>A script\<close>

text \<open>
  The calls of one file with the files it loads, until the first error: the check objects they
  have created and the checks they have registered.
\<close>

datatype apiCall =
    MakeCheck "apiValue list" "(string \<times> apiValue) list"
  | Register "apiValue list" "(string \<times> apiValue) list"
  | WithArgs check "apiValue list" "(string \<times> apiValue) list"
  | WithName check "apiValue list" "(string \<times> apiValue) list"
  | FailScript string "string list" "err option"

record scriptState =
  scKnown :: "check list"
  scRegistered :: "registeredCheck list"
  scDone :: bool
  scFail :: "err option"

definition initScript :: scriptState where
  "initScript = \<lparr>scKnown = [], scRegistered = [], scDone = False, scFail = None\<rparr>"

definition created :: "string \<Rightarrow> check outcome \<Rightarrow> scriptState \<Rightarrow> unit outcome \<times> scriptState" where
  "created name r st =
     (case builtinWrapper name r of
        Ok c \<Rightarrow> (Ok (), st\<lparr>scKnown := scKnown st @ [c]\<rparr>)
      | Err e \<Rightarrow> (Err e, st)
      | Panic m \<Rightarrow> (Panic m, st))"

fun scriptCall :: "apiEnv \<Rightarrow> apiCall \<Rightarrow> scriptState \<Rightarrow> unit outcome \<times> scriptState" where
  "scriptCall env (MakeCheck args kws) st = created ''shac.check'' (shacCheck env args kws) st"
| "scriptCall env (WithArgs c args kws) st = created ''with_args'' (checkWithArgs c args kws) st"
| "scriptCall env (WithName c args kws) st = created ''with_name'' (checkWithName env c args kws) st"
| "scriptCall env (Register args kws) st =
     (case builtinWrapper ''shac.register_check'' (registerCheck env args kws (scDone st) (scRegistered st)) of
        Ok cs \<Rightarrow> (Ok (), st\<lparr>scRegistered := cs\<rparr>)
      | Err e \<Rightarrow> (Err e, st)
      | Panic m \<Rightarrow> (Panic m, st))"
| "scriptCall env (FailScript sep texts argErr) st =
     (let (e, c, global) = fail_builtin sep texts argErr None in (Err e, st\<lparr>scFail := global\<rparr>))"

fun runScript :: "apiEnv \<Rightarrow> apiCall list \<Rightarrow> scriptState \<Rightarrow> unit outcome \<times> scriptState" where
  "runScript env [] st = (Ok (), st)"
| "runScript env (c # cs) st =
     (case scriptCall env c st of (Ok u, st') \<Rightarrow> runScript env cs st' | (other, st') \<Rightarrow> (other, st'))"

section \<open>What the resolver guarantees\<close>

text \<open>
  The names are distinct, the parameters at the end are there, and no required parameter follows an
  optional one, but for the keyword-only ones.
\<close>

definition optionalLast :: "(string \<times> starValue option) list \<Rightarrow> bool" where
  "optionalLast ps \<longleftrightarrow> sorted_wrt (\<lambda>p q. snd p \<noteq> None \<longrightarrow> snd q \<noteq> None) ps"

definition wfFunction :: "starFunction \<Rightarrow> bool" where
  "wfFunction f \<longleftrightarrow>
     distinct (map fst (params f)) \<and>
     NumKwonly f + (if HasKwargs f then 1 else 0) + (if HasVarargs f then 1 else 0) \<le> length (params f) \<and>
     optionalLast (take (positionalParams f) (params f))"

definition scanInv :: "paramScan \<Rightarrow> bool" where
  "scanInv s \<longleftrightarrow>
     psErrs s = [] \<longrightarrow>
       distinct (map fst (psBound s)) \<and> psKwonly s \<le> length (psBound s) \<and>
       optionalLast (take (length (psBound s) - psKwonly s) (psBound s)) \<and>
       (psStar s = None \<longrightarrow> psKwonly s = 0 \<and> (\<not> psOptional s \<longrightarrow> (\<forall>p \<in> set (psBound s). snd p = None)))"

lemma scanErr_simps [simp]:
  "psErrs (scanErr es s) = psErrs s @ es" "psBound (scanErr es s) = psBound s" "psKwonly (scanErr es s) = psKwonly s"
  "psStar (scanErr es s) = psStar s" "psStarStar (scanErr es s) = psStarStar s" "psOptional (scanErr es s) = psOptional s"
  by (simp_all add: scanErr_def)

lemma bindParam_same [simp]:
  "psKwonly (bindParam n d s) = psKwonly s" "psStar (bindParam n d s) = psStar s"
  "psStarStar (bindParam n d s) = psStarStar s" "psOptional (bindParam n d s) = psOptional s"
  by (simp_all add: bindParam_def)

lemma bindParam_ok:
  "psErrs (bindParam n d s) = [] \<longleftrightarrow> psErrs s = [] \<and> n \<notin> fst ` set (psBound s)"
  "psErrs (bindParam n d s) = [] \<Longrightarrow> psBound (bindParam n d s) = psBound s @ [(n, d)]"
  by (auto simp: bindParam_def split: if_splits)

lemma optionalLast_snoc: "optionalLast (ps @ [p]) \<longleftrightarrow> optionalLast ps \<and> ((\<exists>q \<in> set ps. snd q \<noteq> None) \<longrightarrow> snd p \<noteq> None)"
  by (auto simp: optionalLast_def sorted_wrt_append)

text \<open>Binding an ordinary parameter keeps the invariant, as does counting a keyword-only one.\<close>

lemma bind_inv:
  assumes "scanInv s" and "psStar s = None" and "d = None \<Longrightarrow> \<not> psOptional s"
  shows "scanInv ((bindParam n d s)\<lparr>psOptional := psOptional s \<or> d \<noteq> None\<rparr>)"
  unfolding scanInv_def
proof (rule impI)
  let ?s = "(bindParam n d s)\<lparr>psOptional := psOptional s \<or> d \<noteq> None\<rparr>"
  assume "psErrs ?s = []"
  then have e: "psErrs (bindParam n d s) = []" by simp
  then have ok: "psErrs s = []" "n \<notin> fst ` set (psBound s)" "psBound (bindParam n d s) = psBound s @ [(n, d)]"
    using bindParam_ok by blast+
  then show "distinct (map fst (psBound ?s)) \<and> psKwonly ?s \<le> length (psBound ?s) \<and>
      optionalLast (take (length (psBound ?s) - psKwonly ?s) (psBound ?s)) \<and>
      (psStar ?s = None \<longrightarrow> psKwonly ?s = 0 \<and> (\<not> psOptional ?s \<longrightarrow> (\<forall>p \<in> set (psBound ?s). snd p = None)))"
    using assms by (auto simp: scanInv_def optionalLast_snoc)
qed

lemma kwonly_inv:
  assumes "scanInv s" and "psStar s \<noteq> None"
  shows "scanInv ((bindParam n d (s\<lparr>psKwonly := psKwonly s + 1\<rparr>))\<lparr>psOptional := b\<rparr>)"
  unfolding scanInv_def
proof (rule impI)
  let ?t = "s\<lparr>psKwonly := psKwonly s + 1\<rparr>"
  let ?s = "(bindParam n d ?t)\<lparr>psOptional := b\<rparr>"
  assume "psErrs ?s = []"
  then have e: "psErrs (bindParam n d ?t) = []" by simp
  then have "psErrs ?t = []" "n \<notin> fst ` set (psBound ?t)" "psBound (bindParam n d ?t) = psBound ?t @ [(n, d)]"
    using bindParam_ok by blast+
  then have ok: "psErrs s = []" "n \<notin> fst ` set (psBound s)" "psBound ?s = psBound s @ [(n, d)]" by simp_all
  then show "distinct (map fst (psBound ?s)) \<and> psKwonly ?s \<le> length (psBound ?s) \<and>
      optionalLast (take (length (psBound ?s) - psKwonly ?s) (psBound ?s)) \<and>
      (psStar ?s = None \<longrightarrow> psKwonly ?s = 0 \<and> (\<not> psOptional ?s \<longrightarrow> (\<forall>p \<in> set (psBound ?s). snd p = None)))"
    using assms by (auto simp: scanInv_def)
qed

lemma same_optional: "psOptional s = b \<Longrightarrow> s\<lparr>psOptional := b\<rparr> = s"
  by auto

lemma scanInv_err: "psErrs s \<noteq> [] \<Longrightarrow> scanInv s"
  by (simp add: scanInv_def)

lemma scan_inv: "scanInv s \<Longrightarrow> scanInv (scanParam p s)"
proof (cases p)
  case (Required n)
  assume inv: "scanInv s"
  consider k where "psStarStar s = Some k" | "psStarStar s = None" "psStar s \<noteq> None"
    | "psStarStar s = None" "psStar s = None" "psOptional s" | "psStarStar s = None" "psStar s = None" "\<not> psOptional s"
    by fastforce
  then show ?thesis
  proof cases
    case 2
    then show ?thesis using kwonly_inv[OF inv 2(2), where n = n and d = None and b = "psOptional s"] Required
      by (auto simp: same_optional)
  next
    case 4
    then show ?thesis using bind_inv[OF inv 4(2), where n = n and d = None] Required by (auto simp: same_optional)
  qed (auto intro!: scanInv_err simp: Required bindParam_def)
next
  case (Optional n d)
  assume inv: "scanInv s"
  consider k where "psStarStar s = Some k" | "psStarStar s = None" "psStar s \<noteq> None" | "psStarStar s = None" "psStar s = None"
    by fastforce
  then show ?thesis
  proof cases
    case 2
    then show ?thesis using kwonly_inv[OF inv 2(2), where n = n and d = "Some d" and b = True] Optional by auto
  next
    case 3
    then show ?thesis using bind_inv[OF inv 3(2), where n = n and d = "Some d"] Optional by auto
  qed (auto intro!: scanInv_err simp: Optional bindParam_def)
qed (auto simp: scanStar_def scanInv_def split: option.split)

lemma fold_scan_inv: "scanInv s \<Longrightarrow> scanInv (fold scanParam ps s)"
  by (induction ps arbitrary: s) (simp_all add: scan_inv)

lemma bind_distinct:
  "psErrs (bindParam n d s) = [] \<Longrightarrow> distinct (map fst (psBound s)) \<Longrightarrow> distinct (map fst (psBound (bindParam n d s)))"
  by (auto simp: bindParam_ok)

text \<open>The parameters of a function that the resolver accepts.\<close>

lemma endStar_ok:
  assumes "psErrs (endStar s) = []"
  shows "psErrs s = []" "psBound (endStar s) = psBound s @ (case psStar s of Some (Some n) \<Rightarrow> [(n, None)] | _ \<Rightarrow> [])"
    and "distinct (map fst (psBound s)) \<Longrightarrow> distinct (map fst (psBound (endStar s)))"
  using assms by (auto simp: endStar_def bindParam_ok split: option.splits if_splits)

lemma endStarStar_ok:
  assumes "psErrs (endStarStar s) = []"
  shows "psErrs s = []" "psBound (endStarStar s) = psBound s @ (case psStarStar s of Some n \<Rightarrow> [(n, None)] | None \<Rightarrow> [])"
    and "distinct (map fst (psBound s)) \<Longrightarrow> distinct (map fst (psBound (endStarStar s)))"
  using assms by (auto simp: endStarStar_def bindParam_ok split: option.splits)

lemma end_same [simp]:
  "psKwonly (endStar s) = psKwonly s" "psStar (endStar s) = psStar s" "psStarStar (endStar s) = psStarStar s"
  "psKwonly (endStarStar s) = psKwonly s" "psStar (endStarStar s) = psStar s" "psStarStar (endStarStar s) = psStarStar s"
  by (simp_all add: endStar_def endStarStar_def split: option.split)

lemma resolveFunction_wf:
  assumes "resolveFunction name ps = Ok f"
  shows "wfFunction f"
proof -
  define s1 where "s1 = fold scanParam ps emptyScan"
  define s3 where "s3 = endStarStar (endStar s1)"
  have f: "psErrs s3 = []" "f = \<lparr>fnName = name, params = psBound s3, NumKwonly = psKwonly s3,
      HasVarargs = (case psStar s3 of Some (Some n) \<Rightarrow> True | _ \<Rightarrow> False), HasKwargs = (psStarStar s3 \<noteq> None)\<rparr>"
    using assms by (simp_all add: resolveFunction_def Let_def s3_def s1_def split: list.splits)
  have inv: "scanInv s1"
    unfolding s1_def by (rule fold_scan_inv) (simp add: scanInv_def optionalLast_def emptyScan_def)
  have e2: "psErrs (endStar s1) = []" by (rule endStarStar_ok(1)[OF f(1)[unfolded s3_def]])
  have e1: "psErrs s1 = []" using endStar_ok(1)[OF e2] .
  have b: "distinct (map fst (psBound s1))" "psKwonly s1 \<le> length (psBound s1)"
      "optionalLast (take (length (psBound s1) - psKwonly s1) (psBound s1))"
    using inv e1 by (simp_all add: scanInv_def)
  have ps: "psBound s3 = psBound s1 @ (case psStar s1 of Some (Some n) \<Rightarrow> [(n, None)] | _ \<Rightarrow> []) @
      (case psStarStar s1 of Some n \<Rightarrow> [(n, None)] | None \<Rightarrow> [])"
    using endStar_ok(2)[OF e2] endStarStar_ok(2)[OF f(1)[unfolded s3_def]] by (simp add: s3_def)
  have "distinct (map fst (psBound (endStar s1)))" using endStar_ok(3)[OF e2] b(1) .
  then have d: "distinct (map fst (psBound s3))" unfolding s3_def by (rule endStarStar_ok(3)[OF f(1)[unfolded s3_def]])
  have same: "psKwonly s3 = psKwonly s1" "psStar s3 = psStar s1" "psStarStar s3 = psStarStar s1" by (simp_all add: s3_def)
  have len: "length (psBound s3) = length (psBound s1) + (if HasVarargs f then 1 else 0) + (if HasKwargs f then 1 else 0)"
    by (simp add: ps f(2) same split: option.split)
  have f': "params f = psBound s3" "NumKwonly f = psKwonly s1" by (simp_all add: f(2) same)
  have ord: "ordinaryParams f = length (psBound s1)" unfolding ordinaryParams_def f'(1) len by simp
  have "take (positionalParams f) (params f) = take (length (psBound s1) - psKwonly s1) (psBound s1)"
    unfolding positionalParams_def ord f' ps by simp
  then show ?thesis
    unfolding wfFunction_def f' len using b d by simp
qed

section \<open>Checks that a script makes\<close>

definition validCheck :: "check \<Rightarrow> bool" where
  "validCheck c \<longleftrightarrow>
     params (impl c) \<noteq> [] \<and> fst (params (impl c) ! 0) = ''ctx'' \<and> snd (params (impl c) ! 0) = None \<and>
     \<not> HasVarargs (impl c) \<and> \<not> HasKwargs (impl c) \<and>
     (length (params (impl c)) > 1 \<longrightarrow> snd (params (impl c) ! 1) \<noteq> None) \<and>
     wfFunction (impl c) \<and> distinct (map fst (kwargs c)) \<and> fst ` set (kwargs c) \<subseteq> set (validParams c)"

lemma newCheck_valid:
  assumes "newCheck imp name b = Ok c" and "\<And>f. imp = Function f \<Longrightarrow> wfFunction f"
  shows "validCheck c"
  using assms by (auto simp: newCheck_def validCheck_def split: callable.splits if_splits)

lemma withArgs_valid:
  assumes "validCheck c" and "withArgs c kws = Ok c'"
  shows "validCheck c'"
proof -
  obtain m where m: "mergeKwargs (validParams c) (kwargsMap kws) (kwargsMap (kwargs c)) = Ok m" "c' = c\<lparr>kwargs := m\<rparr>"
    using assms(2) by (auto simp: withArgs_def bindO_eq_Ok)
  have "distinct (map fst (kwargsMap (kwargs c)))" "fst ` set (kwargsMap (kwargs c)) = fst ` set (kwargs c)"
    using kwargsMap_spec by blast+
  then have "distinct (map fst m)" "fst ` set m \<subseteq> set (validParams c)"
    using mergeKwargs_Ok[OF m(1)] assms(1) by (auto simp: validCheck_def)
  then show ?thesis using assms(1) by (simp add: m(2) validCheck_def validParams_def)
qed

lemma withName_valid: "validCheck c \<Longrightarrow> validCheck (withName c n)"
  by (simp add: validCheck_def withName_def validParams_def)

section \<open>Calling a check\<close>

lemma bindKwargs_Ok:
  assumes "distinct ids" and "distinct (map fst kws)" and "\<And>k. k \<in> fst ` set kws \<Longrightarrow> \<exists>i < length ids. ids ! i = k \<and> ls i = None"
  shows "bindKwargs f ids kws ls d =
     Ok (\<lambda>i. if i < length ids \<and> map_of kws (ids ! i) \<noteq> None then map_of kws (ids ! i) else ls i, d)"
  using assms(2,3)
proof (induction kws arbitrary: ls)
  case (Cons ka kws)
  obtain k v where ka: "ka = (k, v)" by (cases ka)
  obtain j where j: "j < length ids" "ids ! j = k" "ls j = None" using Cons.prems(2)[of k] ka by auto
  have idx: "indexOf k ids = Some j" using indexOf_nth[OF assms(1) j(1)] j(2) by simp
  have new: "k \<notin> fst ` set kws" using Cons.prems(1) ka by simp
  then have none: "map_of kws k = None" by (simp add: map_of_eq_None_iff)
  have at: "i < length ids \<Longrightarrow> ids ! i = k \<longleftrightarrow> i = j" for i using assms(1) j nth_eq_iff_index_eq by blast
  have ex: "\<exists>i < length ids. ids ! i = k' \<and> (ls(j \<mapsto> v)) i = None" if k': "k' \<in> fst ` set kws" for k'
  proof -
    obtain i where i: "i < length ids" "ids ! i = k'" "ls i = None" using Cons.prems(2)[of k'] k' ka by auto
    moreover have "i \<noteq> j" using i(2) j(2) k' new by blast
    ultimately show ?thesis by auto
  qed
  have "bindKwargs f ids kws (ls(j \<mapsto> v)) d =
      Ok (\<lambda>i. if i < length ids \<and> map_of kws (ids ! i) \<noteq> None then map_of kws (ids ! i) else (ls(j \<mapsto> v)) i, d)"
    by (intro Cons.IH ex) (use Cons.prems(1) ka in simp)
  moreover have "(if i < length ids \<and> map_of kws (ids ! i) \<noteq> None then map_of kws (ids ! i) else (ls(j \<mapsto> v)) i) =
      (if i < length ids \<and> map_of (ka # kws) (ids ! i) \<noteq> None then map_of (ka # kws) (ids ! i) else ls i)" for i
    using at[of i] none j(1,2) by (cases "i = j") (auto simp: ka)
  ultimately show ?case using idx j(3) by (simp add: ka)
qed simp

lemma list_all_drop: "list_all P (drop m xs) \<longleftrightarrow> (\<forall>i. m \<le> i \<and> i < length xs \<longrightarrow> P (xs ! i))"
proof
  assume all: "list_all P (drop m xs)"
  show "\<forall>i. m \<le> i \<and> i < length xs \<longrightarrow> P (xs ! i)"
  proof (intro allI impI)
    fix i assume i: "m \<le> i \<and> i < length xs"
    then have "i - m < length (drop m xs)" by (simp add: diff_less_mono)
    then have "P (drop m xs ! (i - m))" using all unfolding list_all_length by blast
    then show "P (xs ! i)" using i by simp
  qed
qed (simp add: list_all_length)

text \<open>
  A check can be called when ctx takes a positional argument and every keyword-only parameter
  without a default has a value from with_args().
\<close>

definition callable_check :: "check \<Rightarrow> bool" where
  "callable_check c \<longleftrightarrow>
     NumKwonly (impl c) < length (params (impl c)) \<and>
     list_all (\<lambda>p. snd p \<noteq> None \<or> fst p \<in> fst ` set (kwargs c))
       (drop (length (params (impl c)) - NumKwonly (impl c)) (params (impl c)))"

text \<open>The parameters in a call of a check: ctx, the arguments of with_args(), and the defaults.\<close>

definition checkLocals :: "check \<Rightarrow> starValue \<Rightarrow> locals" where
  "checkLocals c ctx i =
     (if i = 0 then Some ctx
      else if i < length (params (impl c)) then
        (case map_of (kwargs c) (fst (params (impl c) ! i)) of Some v \<Rightarrow> Some v | None \<Rightarrow> snd (params (impl c) ! i))
      else None)"

lemma positional_defaults:
  assumes "validCheck c" and "0 < i" and "i < positionalParams (impl c)"
  shows "snd (params (impl c) ! i) \<noteq> None"
proof (cases "i = 1")
  case True
  have "i < length (params (impl c))" using assms(3) by (auto simp: positionalParams_def ordinaryParams_def)
  then show ?thesis using assms(1) True by (simp add: validCheck_def)
next
  case False
  let ?ps = "take (positionalParams (impl c)) (params (impl c))"
  have i: "1 < i" "i < length ?ps" using False assms(2,3) by (auto simp: positionalParams_def ordinaryParams_def)
  have "sorted_wrt (\<lambda>p q. snd p \<noteq> None \<longrightarrow> snd q \<noteq> None) ?ps"
    using assms(1) by (simp add: validCheck_def wfFunction_def optionalLast_def)
  from sorted_wrt_nth_less[OF this i] have "snd (?ps ! 1) \<noteq> None \<longrightarrow> snd (?ps ! i) \<noteq> None" by simp
  moreover have "1 < length (params (impl c))" using i by simp
  then have "snd (params (impl c) ! 1) \<noteq> None" using assms(1) by (simp add: validCheck_def)
  ultimately show ?thesis using i by simp
qed

text \<open>The locals before the defaults: ctx, and the values of with_args().\<close>

definition boundLocals :: "check \<Rightarrow> starValue \<Rightarrow> locals" where
  "boundLocals c ctx i =
     (if i < length (params (impl c)) \<and> map_of (kwargs c) (fst (params (impl c) ! i)) \<noteq> None
      then map_of (kwargs c) (fst (params (impl c) ! i)) else if i < 1 then Some ([ctx] ! i) else None)"

lemma validCheck_fields:
  assumes "validCheck c"
  shows "params (impl c) \<noteq> []" "\<not> HasVarargs (impl c)" "\<not> HasKwargs (impl c)" "fst (params (impl c) ! 0) = ''ctx''"
    "distinct (map fst (params (impl c)))" "NumKwonly (impl c) \<le> length (params (impl c))"
    "distinct (map fst (kwargs c))" "fst ` set (kwargs c) \<subseteq> fst ` set (tl (params (impl c)))"
    "ordinaryParams (impl c) = length (params (impl c))"
    "positionalParams (impl c) = length (params (impl c)) - NumKwonly (impl c)"
  using assms by (simp_all add: validCheck_def wfFunction_def validParams_def ordinaryParams_def positionalParams_def)

lemma bind_check:
  assumes "validCheck c"
  shows "bindKwargs (impl c) (map fst (params (impl c))) (kwargs c) (\<lambda>i. if i < 1 then Some ([ctx] ! i) else None) [] =
    Ok (boundLocals c ctx, [])"
proof -
  let ?ps = "params (impl c)"
  note v = validCheck_fields[OF assms]
  have idx: "\<exists>i < length (map fst ?ps). map fst ?ps ! i = k \<and> (if i < 1 then Some ([ctx] ! i) else None) = None"
    if k: "k \<in> fst ` set (kwargs c)" for k
  proof -
    have "k \<in> fst ` set (tl ?ps)" using v(8) k by blast
    then obtain i where "i < length (tl ?ps)" "fst (tl ?ps ! i) = k" by (auto simp: in_set_conv_nth)
    then show ?thesis using v(1) by (intro exI[of _ "Suc i"]) (simp add: nth_tl)
  qed
  show ?thesis using bindKwargs_Ok[OF v(5,7) idx] by (simp add: boundLocals_def fun_eq_iff cong: conj_cong if_cong)
qed

lemma boundLocals_eq:
  assumes "validCheck c"
  shows "boundLocals c ctx 0 = Some ctx" and "withDefaults (impl c) 1 (boundLocals c ctx) = checkLocals c ctx"
proof -
  note v = validCheck_fields[OF assms]
  have "''ctx'' \<notin> fst ` set (tl (params (impl c)))" using v(1,4,5) by (cases "params (impl c)") auto
  then have "map_of (kwargs c) ''ctx'' = None" using v(8) by (auto simp: map_of_eq_None_iff)
  then show "boundLocals c ctx 0 = Some ctx" using v(4) by (simp add: boundLocals_def)
  then show "withDefaults (impl c) 1 (boundLocals c ctx) = checkLocals c ctx"
    by (auto simp: withDefaults_def checkLocals_def v(9) boundLocals_def fun_eq_iff split: option.split)
qed

lemma missing_callable:
  assumes "validCheck c" and "NumKwonly (impl c) < length (params (impl c))"
  shows "missingParams (impl c) 1 (boundLocals c ctx) = [] \<longleftrightarrow> callable_check c"
proof -
  let ?f = "impl c" and ?ps = "params (impl c)"
  note v = validCheck_fields[OF assms(1)]
  have given: "boundLocals c ctx i \<noteq> None \<longleftrightarrow> fst (?ps ! i) \<in> fst ` set (kwargs c)"
    if "0 < i \<and> i < length ?ps" for i
    using that map_of_eq_None_iff[of "kwargs c" "fst (?ps ! i)"]
    by (cases "map_of (kwargs c) (fst (?ps ! i))") (simp_all add: boundLocals_def)
  have "missingParams ?f 1 (boundLocals c ctx) = [] \<longleftrightarrow>
      (\<forall>i. 0 < i \<and> i < length ?ps \<longrightarrow> boundLocals c ctx i \<noteq> None \<or> snd (?ps ! i) \<noteq> None)"
    by (auto simp: missingParams_def v(9) filter_empty_conv Suc_le_eq)
  also have "\<dots> \<longleftrightarrow> (\<forall>i. 0 < i \<and> i < length ?ps \<longrightarrow> fst (?ps ! i) \<in> fst ` set (kwargs c) \<or> snd (?ps ! i) \<noteq> None)"
    using given by blast
  also have "\<dots> \<longleftrightarrow> (\<forall>i. length ?ps - NumKwonly ?f \<le> i \<and> i < length ?ps \<longrightarrow>
      fst (?ps ! i) \<in> fst ` set (kwargs c) \<or> snd (?ps ! i) \<noteq> None)"
    using positional_defaults[OF assms(1)] assms(2) unfolding v(10) by (meson leI order_less_le_trans zero_less_diff)
  also have "\<dots> \<longleftrightarrow> list_all (\<lambda>p. snd p \<noteq> None \<or> fst p \<in> fst ` set (kwargs c)) (drop (length ?ps - NumKwonly ?f) ?ps)"
    by (auto simp: list_all_drop)
  finally show ?thesis using assms(2) by (simp add: callable_check_def)
qed

lemma setArgs_check:
  assumes "validCheck c"
  shows "setArgs (impl c) [ctx] (kwargs c) = Ok ls \<longleftrightarrow> callable_check c \<and> ls = checkLocals c ctx"
proof -
  let ?f = "impl c" and ?ps = "params (impl c)" and ?ls = "boundLocals c ctx"
  note v = validCheck_fields[OF assms]
  show ?thesis
  proof (cases "NumKwonly ?f < length ?ps")
    case False
    then show ?thesis using v(1,2) by (simp add: setArgs_def v(10) callable_check_def)
  next
    case True
    have n: "min (length [ctx]) (positionalParams ?f) = 1" using True by (simp add: v(10))
    have "setArgs ?f [ctx] (kwargs c) =
        (if missingParams ?f 1 ?ls \<noteq> [] then Err (missingErr ?f (missingParams ?f 1 ?ls)) else Ok (withDefaults ?f 1 ?ls))"
      using v(1-3) True n bind_check[OF assms] by (auto simp: setArgs_def v(9,10) Let_def missingParams_def)
    then show ?thesis using missing_callable[OF assms True] boundLocals_eq(2)[OF assms] by auto
  qed
qed

section \<open>The checks that a script registers\<close>

text \<open>A script passes check objects that it created, and functions that the resolver accepted.\<close>

fun okArg :: "check list \<Rightarrow> apiValue \<Rightarrow> bool" where
  "okArg known (ACheck c) = (c \<in> set known)"
| "okArg known (AFn (Function f)) = wfFunction f"
| "okArg known a = True"

definition okArgs :: "check list \<Rightarrow> apiValue list \<Rightarrow> (string \<times> apiValue) list \<Rightarrow> bool" where
  "okArgs known args kws \<longleftrightarrow> list_all (okArg known) args \<and> list_all (\<lambda>(k, a). okArg known a) kws"

fun okCall :: "check list \<Rightarrow> apiCall \<Rightarrow> bool" where
  "okCall known (MakeCheck args kws) = okArgs known args kws"
| "okCall known (Register args kws) = okArgs known args kws"
| "okCall known (WithArgs c args kws) = (c \<in> set known)"
| "okCall known (WithName c args kws) = (c \<in> set known)"
| "okCall known (FailScript sep texts argErr) = True"

fun okScript :: "apiEnv \<Rightarrow> apiCall list \<Rightarrow> scriptState \<Rightarrow> bool" where
  "okScript env [] st = True"
| "okScript env (c # cs) st = (okCall (scKnown st) c \<and> okScript env cs (snd (scriptCall env c st)))"

definition scriptInv :: "scriptState \<Rightarrow> bool" where
  "scriptInv st \<longleftrightarrow>
     (\<forall>c \<in> set (scKnown st). validCheck c) \<and> (\<forall>r \<in> set (scRegistered st). validCheck (checkOf r)) \<and>
     distinct (map rname (scRegistered st))"

lemma apiUnpack_from:
  assumes "apiUnpack env name ps args kws = Ok vals" and "distinct (map pname (map fst ps))" and "vals i = Some a"
  shows "a \<in> set args \<union> snd ` set kws"
proof -
  let ?up = "\<lparr>upIsNone = (\<lambda>a. a = AVal VNone),
      upConv = (\<lambda>i a. if apiFits (snd (ps ! i)) a then Ok a
        else Err (Errorf ''got %s, want %s'' [FStr (apiType a), FStr (apiWant (snd (ps ! i)))])),
      upQuote = aeQuote env, upNearest = aeNearest env\<rparr>"
  have vals: "vals = (\<lambda>i. if i < length (map fst ps) then valueOf ?up (map fst ps) i (boundArg (map fst ps) args kws i) else None)"
    using UnpackArgs_Ok[OF assms(2), of ?up name args kws vals] assms(1) unfolding apiUnpack_def by blast
  then have "valueOf ?up (map fst ps) i (boundArg (map fst ps) args kws i) = Some a"
    using assms(3) by (simp split: if_splits)
  then have "boundArg (map fst ps) args kws i = Some a"
    by (auto simp: valueOf_def split: option.splits if_splits)
  then show ?thesis
    by (auto simp: boundArg_def split: if_splits dest!: map_of_SomeD intro: rev_image_eqI)
qed

lemma okArgs_from: "okArgs known args kws \<Longrightarrow> a \<in> set args \<union> snd ` set kws \<Longrightarrow> okArg known a"
  by (auto simp: okArgs_def list_all_iff)

lemma shacCheck_valid:
  assumes "shacCheck env args kws = Ok c" and "okArgs known args kws"
  shows "validCheck c"
proof -
  obtain vals where u: "apiUnpack env ''shac.check'' [(''impl'', VarFunction), (''name?'', VarString), (''formatter?'', VarBool)] args kws = Ok vals"
      "newCheck (case vals 0 of Some (AFn f) \<Rightarrow> f | _ \<Rightarrow> OtherCallable) (stringArg (vals 1)) (boolArg (vals 2)) = Ok c"
    using assms(1) by (auto simp: shacCheck_def bindO_eq_Ok)
  have d: "distinct (map pname (map fst [(''impl'', VarFunction), (''name?'', VarString), (''formatter?'', VarBool)]))"
    by (simp add: paramName_def HasSuffix_def)
  show ?thesis
  proof (rule newCheck_valid[OF u(2)])
    fix f assume "(case vals 0 of Some (AFn f) \<Rightarrow> f | _ \<Rightarrow> OtherCallable) = Function f"
    then have "vals 0 = Some (AFn (Function f))" by (auto split: option.splits apiValue.splits)
    then show "wfFunction f" using okArgs_from[OF assms(2) apiUnpack_from[OF u(1) d, of 0]] by simp
  qed
qed

lemma registerCheck_valid:
  assumes "registerCheck env args kws d rs = Ok rs'" and "okArgs known args kws" and "\<And>c. c \<in> set known \<Longrightarrow> validCheck c"
  shows "\<exists>c. validCheck c \<and> cname c \<notin> rname ` set rs \<and> rs' = rs @ [newRegistered c]"
proof -
  obtain vals where u: "apiUnpack env ''shac.register_check'' [(''check'', VarValue)] args kws = Ok vals"
      "shacRegisterCheck d rs (registerArgOf (vals 0)) = Ok rs'"
    using assms(1) by (auto simp: registerCheck_def bindO_eq_Ok)
  obtain c where c: "registerArgCheck (registerArgOf (vals 0)) = Ok c" "cname c \<notin> rname ` set rs" "rs' = rs @ [newRegistered c]"
    using u(2) by (auto simp: shacRegisterCheck_Ok)
  have "distinct (map pname (map fst [(''check'', VarValue)]))" by simp
  note origin = apiUnpack_from[OF u(1) this]
  have "validCheck c"
  proof (cases "vals 0")
    case (Some a)
    have ok: "okArg known a" using okArgs_from[OF assms(2) origin[OF Some]] .
    show ?thesis
    proof (cases a)
      case (AFn f)
      then show ?thesis using c(1) Some ok by (auto simp: registerArgCheck_def intro: newCheck_valid)
    next
      case (ACheck k)
      then show ?thesis using c(1) Some ok assms(3) by (simp add: registerArgCheck_def)
    qed (use c(1) Some in \<open>simp add: registerArgCheck_def\<close>)
  qed (use c(1) in \<open>simp add: registerArgCheck_def\<close>)
  then show ?thesis using c(2,3) by blast
qed

lemma created_inv:
  assumes "scriptInv st" and "\<And>c. r = Ok c \<Longrightarrow> validCheck c" and "created name r st = (q, st')"
  shows "scriptInv st'"
  using assms by (cases r) (auto simp: created_def builtinWrapper_def scriptInv_def split: outcome.splits if_splits)

lemma scriptCall_inv:
  assumes "scriptInv st" and "okCall (scKnown st) c" and "scriptCall env c st = (q, st')"
  shows "scriptInv st'"
proof (cases c)
  case (MakeCheck args kws)
  then have "shacCheck env args kws = Ok c' \<Longrightarrow> validCheck c'" for c'
    using shacCheck_valid[of env args kws c' "scKnown st"] assms(2) by simp
  then show ?thesis by (rule created_inv[OF assms(1) _ assms(3)[unfolded MakeCheck scriptCall.simps]])
next
  case (WithArgs k args kws)
  have "validCheck k" using assms(1,2) WithArgs by (simp add: scriptInv_def)
  then have "checkWithArgs k args kws = Ok c' \<Longrightarrow> validCheck c'" for c'
    by (auto simp: checkWithArgs_def intro: withArgs_valid split: if_splits)
  then show ?thesis by (rule created_inv[OF assms(1) _ assms(3)[unfolded WithArgs scriptCall.simps]])
next
  case (WithName k args kws)
  have "validCheck k" using assms(1,2) WithName by (simp add: scriptInv_def)
  then have "checkWithName env k args kws = Ok c' \<Longrightarrow> validCheck c'" for c'
    by (auto simp: checkWithName_def bindO_eq_Ok withName_valid)
  then show ?thesis by (rule created_inv[OF assms(1) _ assms(3)[unfolded WithName scriptCall.simps]])
next
  case (Register args kws)
  show ?thesis
  proof (cases "registerCheck env args kws (scDone st) (scRegistered st)")
    case (Ok rs)
    obtain k where "validCheck k" "cname k \<notin> rname ` set (scRegistered st)" "rs = scRegistered st @ [newRegistered k]"
      using registerCheck_valid[OF Ok, of "scKnown st"] assms(1,2) Register by (auto simp: scriptInv_def)
    then show ?thesis
      using Ok assms(1,3) Register by (auto simp: scriptInv_def builtinWrapper_def newRegistered_def)
  qed (use assms(1,3) Register in \<open>auto simp: builtinWrapper_def split: if_splits\<close>)
qed (use assms in \<open>auto simp: fail_builtin_def Let_def scriptInv_def\<close>)

lemma runScript_inv:
  assumes "scriptInv st" and "okScript env cs st" and "runScript env cs st = (r, st')"
  shows "scriptInv st'"
  using assms
proof (induction cs arbitrary: st)
  case (Cons c cs)
  obtain q st1 where c: "scriptCall env c st = (q, st1)" by fastforce
  have "scriptInv st1" using scriptCall_inv[OF Cons.prems(1) _ c] Cons.prems(2) by simp
  then show ?case using Cons.IH[of st1] Cons.prems(2,3) c by (cases q) auto
qed simp

text \<open>
  Whatever a script creates and registers, in any order, the registered checks have distinct
  names, and each of them can be called with ctx exactly when ctx is not keyword-only and every
  keyword-only parameter has a default or a value from with_args(); the call then binds ctx to its
  own parameter, which no argument can override, and every other parameter to the value that
  the check keeps for it or to its default. Shac_Parse says which value that is.
\<close>

theorem registered_checks_callable:
  assumes "okScript env calls initScript" and "runScript env calls initScript = (r, st)"
    and "c \<in> checkOf ` set (scRegistered st)"
  shows "distinct (map rname (scRegistered st)) \<and>
    (setArgs (impl c) [ctx] (kwargs c) = Ok ls \<longleftrightarrow> callable_check c \<and> ls = checkLocals c ctx) \<and>
    checkLocals c ctx 0 = Some ctx"
proof -
  have inv: "scriptInv st" using runScript_inv[OF _ assms(1,2)] by (simp add: scriptInv_def initScript_def)
  then have "validCheck c" using assms(3) by (auto simp: scriptInv_def)
  then show ?thesis using inv setArgs_check[of c ctx ls] by (simp add: scriptInv_def checkLocals_def)
qed

text \<open>
  Two functions that shac.check() accepts and that can never be called: a required keyword-only
  parameter may follow an optional one, and ctx itself may be keyword-only, where not even
  with_args() helps.
\<close>

theorem keyword_only_check_fails:
  "\<exists>f c. resolveFunction ''f'' [Required ''ctx'', BareStar, Optional ''a'' (VInt 1), Required ''b''] = Ok f \<and>
     newCheck (Function f) [] False = Ok c \<and> \<not> isOk (setArgs (impl c) [ctx] (kwargs c))"
  "\<exists>f c. resolveFunction ''f'' [BareStar, Required ''ctx''] = Ok f \<and> newCheck (Function f) [] False = Ok c \<and>
     (\<forall>kws c'. withArgs c kws = Ok c' \<longrightarrow> \<not> isOk (setArgs (impl c') [ctx] (kwargs c')))"
proof -
  let ?f = "\<lparr>fnName = ''f'', params = [(''ctx'', None), (''a'', Some (VInt 1)), (''b'', None)], NumKwonly = 2,
    HasVarargs = False, HasKwargs = False\<rparr>"
  let ?c = "\<lparr>impl = ?f, cname = ''f'', formatter = False, kwargs = []\<rparr>"
  have r: "resolveFunction ''f'' [Required ''ctx'', BareStar, Optional ''a'' (VInt 1), Required ''b''] = Ok ?f"
    by (simp add: resolveFunction_def emptyScan_def bindParam_def scanStar_def endStar_def endStarStar_def)
  have n: "newCheck (Function ?f) [] False = Ok ?c" by (simp add: newCheck_def TrimPrefix_def HasPrefix_def)
  have "validCheck ?c" using newCheck_valid[OF n] resolveFunction_wf[OF r] by blast
  moreover have "\<not> callable_check ?c" by (simp add: callable_check_def)
  ultimately have "setArgs ?f [ctx] [] \<noteq> Ok x" for x using setArgs_check[of ?c ctx x] by simp
  then have "\<not> isOk (setArgs ?f [ctx] [])" by (cases "setArgs ?f [ctx] []") (simp_all, blast)
  then show "\<exists>f c. resolveFunction ''f'' [Required ''ctx'', BareStar, Optional ''a'' (VInt 1), Required ''b''] = Ok f \<and>
     newCheck (Function f) [] False = Ok c \<and> \<not> isOk (setArgs (impl c) [ctx] (kwargs c))"
    using r n by (intro exI[of _ ?f] exI[of _ ?c]) simp
  let ?g = "\<lparr>fnName = ''f'', params = [(''ctx'', None)], NumKwonly = 1, HasVarargs = False, HasKwargs = False\<rparr>"
  let ?d = "\<lparr>impl = ?g, cname = ''f'', formatter = False, kwargs = []\<rparr>"
  have r: "resolveFunction ''f'' [BareStar, Required ''ctx''] = Ok ?g"
    by (simp add: resolveFunction_def emptyScan_def bindParam_def scanStar_def endStar_def endStarStar_def)
  have n: "newCheck (Function ?g) [] False = Ok ?d" by (simp add: newCheck_def TrimPrefix_def HasPrefix_def)
  have "\<not> isOk (setArgs (impl c') [ctx] (kwargs c'))" if w: "withArgs ?d kws = Ok c'" for kws c'
  proof -
    have "impl c' = ?g" using w by (auto simp: withArgs_def bindO_eq_Ok)
    then show ?thesis by (simp add: setArgs_def positionalParams_def ordinaryParams_def)
  qed
  then show "\<exists>f c. resolveFunction ''f'' [BareStar, Required ''ctx''] = Ok f \<and> newCheck (Function f) [] False = Ok c \<and>
     (\<forall>kws c'. withArgs c kws = Ok c' \<longrightarrow> \<not> isOk (setArgs (impl c') [ctx] (kwargs c')))"
    using r n by (intro exI[of _ ?g] exI[of _ ?d]) blast
qed

section \<open>A concrete script\<close>

definition demoApi :: apiEnv where
  "demoApi = \<lparr>aeQuote = id, aeNearest = (\<lambda>_ _. [])\<rparr>"

definition demoFunction :: starFunction where
  "demoFunction = \<lparr>fnName = ''_cb'', params = [(''ctx'', None), (''a'', Some (VInt 1)), (''b'', None)], NumKwonly = 1,
     HasVarargs = False, HasKwargs = False\<rparr>"

definition madeCheck :: "(string \<times> starValue) list \<Rightarrow> check" where
  "madeCheck kws = \<lparr>impl = demoFunction, cname = ''cb'', formatter = False, kwargs = kws\<rparr>"

definition demoScript :: "apiCall list" where
  "demoScript = [MakeCheck [AFn (Function demoFunction)] [], WithArgs (madeCheck []) [] [(''b'', AVal (VInt 2))],
     Register [ACheck (madeCheck [(''b'', VInt 2)])] [], Register [AFn (Function demoFunction)] []]"

lemma demo_resolved:
  "resolveFunction ''_cb'' [Required ''ctx'', Optional ''a'' (VInt 1), BareStar, Required ''b''] = Ok demoFunction"
  by (simp add: resolveFunction_def emptyScan_def bindParam_def scanStar_def endStar_def endStarStar_def demoFunction_def)

lemma demo_script_ok: "okScript demoApi demoScript initScript"
  by code_simp

lemma demo_registered: "map checkOf (scRegistered (snd (runScript demoApi demoScript initScript))) = [madeCheck [(''b'', VInt 2)]]"
  by code_simp

theorem registered_checks_callable_witness:
  "setArgs demoFunction [VOther ''ctx''] [(''b'', VInt 2)] = Ok (checkLocals (madeCheck [(''b'', VInt 2)]) (VOther ''ctx''))"
proof -
  obtain r st where run: "runScript demoApi demoScript initScript = (r, st)" by fastforce
  have "map checkOf (scRegistered st) = [madeCheck [(''b'', VInt 2)]]" using demo_registered run by simp
  then have "set (map checkOf (scRegistered st)) = {madeCheck [(''b'', VInt 2)]}" by simp
  then have "madeCheck [(''b'', VInt 2)] \<in> checkOf ` set (scRegistered st)" by simp
  moreover have "callable_check (madeCheck [(''b'', VInt 2)])" by (simp add: callable_check_def madeCheck_def demoFunction_def)
  ultimately show ?thesis
    using registered_checks_callable[OF demo_script_ok run, of "madeCheck [(''b'', VInt 2)]" "VOther ''ctx''"
        "checkLocals (madeCheck [(''b'', VInt 2)]) (VOther ''ctx'')"]
    by (simp add: madeCheck_def)
qed

end
