(* ===== verification/Shac_Parse.thy ===== *)
theory Shac_Parse
  imports Runner Shac_Api
begin

text \<open>
  Loading one shac file (shacState.parse() of internal/engine/run.go) on what its script does, the
  theories Runner and Shac_Api together: a run takes what a load registers from outside, a script
  registers checks call by call. The first is shown to be an abstraction of the second, and the checks
  of a run are those that the scripts have registered.
\<close>

section \<open>What a script does\<close>

text \<open>
  A script, with the files it loads, prints, calls the functions of shac and the methods of checks,
  and may stop with an error: one of the evaluation, or one of reading or parsing a file.
\<close>

datatype scriptEvent =
    EvPrint string int string
  | EvCall apiCall
  | EvStop err

text \<open>The calls of Print() of the report: the check, the file, the line and the message.\<close>

type_synonym printCall = "string \<times> string \<times> int \<times> string"

record parsing =
  pgScript :: scriptState
  pgPrintCalled :: bool
  pgPrints :: "printCall list"

text \<open>The callback for print(): printing makes a shac file valid even where it registers nothing.\<close>

definition parsePrint :: "string \<Rightarrow> int \<Rightarrow> string \<Rightarrow> parsing \<Rightarrow> parsing" where
  "parsePrint posFile posLine msg pg =
     pg\<lparr>pgPrintCalled := True, pgPrints := pgPrints pg @ [([], posFile, posLine, msg)]\<rparr>"

fun loadScript :: "apiEnv \<Rightarrow> scriptEvent list \<Rightarrow> parsing \<Rightarrow> unit outcome \<times> parsing" where
  "loadScript env [] pg = (Ok (), pg)"
| "loadScript env (EvPrint posFile posLine msg # evs) pg = loadScript env evs (parsePrint posFile posLine msg pg)"
| "loadScript env (EvCall c # evs) pg =
     (case scriptCall env c (pgScript pg) of
        (Ok u, st) \<Rightarrow> loadScript env evs (pg\<lparr>pgScript := st\<rparr>)
      | (other, st) \<Rightarrow> (other, pg\<lparr>pgScript := st\<rparr>))"
| "loadScript env (EvStop e # evs) pg = (Err e, pg)"

definition initParsing :: parsing where
  "initParsing = \<lparr>pgScript = initScript, pgPrintCalled = False, pgPrints = []\<rparr>"

text \<open>
  The error of the evaluation is returned with another text for its backtrace, every other error as it
  is; only after a load without errors no more checks can be registered.
\<close>

definition shacState_parse :: "apiEnv \<Rightarrow> scriptEvent list \<Rightarrow> unit outcome \<times> parsing" where
  "shacState_parse env evs =
     (case loadScript env evs initParsing of
        (Ok u, pg) \<Rightarrow> (Ok (), pg\<lparr>pgScript := (pgScript pg)\<lparr>scDone := True\<rparr>\<rparr>)
      | (other, pg) \<Rightarrow> (other, pg))"

text \<open>What the goroutine that loads the file makes of it.\<close>

definition loadState :: "apiEnv \<Rightarrow> scriptEvent list \<Rightarrow> shacState \<Rightarrow> shacState outcome" where
  "loadState env evs s =
     (let (r, pg) = shacState_parse env evs
      in bindO r (\<lambda>u.
           if length (scRegistered (pgScript pg)) = 0 \<and> \<not> pgPrintCalled pg
           then Err (New ''did you forget to call shac.register_check?'')
           else Ok (s\<lparr>stChecks := scRegistered (pgScript pg), stPrintCalled := pgPrintCalled pg\<rparr>)))"

section \<open>The load as the run sees it\<close>

text \<open>The checks a script registers before it ends, and how it ends.\<close>

fun registeredArg :: "apiEnv \<Rightarrow> apiCall \<Rightarrow> registerArg list" where
  "registeredArg env (Register args kws) =
     (case apiUnpack env ''shac.register_check'' [(''check'', VarValue)] args kws of
        Ok vals \<Rightarrow> [registerArgOf (vals 0)] | _ \<Rightarrow> [])"
| "registeredArg env c = []"

fun registersOf :: "apiEnv \<Rightarrow> scriptEvent list \<Rightarrow> scriptState \<Rightarrow> registerArg list" where
  "registersOf env [] st = []"
| "registersOf env (EvPrint posFile posLine msg # evs) st = registersOf env evs st"
| "registersOf env (EvCall c # evs) st =
     (case scriptCall env c st of
        (Ok u, st') \<Rightarrow> registeredArg env c @ registersOf env evs st'
      | other \<Rightarrow> [])"
| "registersOf env (EvStop e # evs) st = []"

definition loadOf :: "apiEnv \<Rightarrow> scriptEvent list \<Rightarrow> loadResult" where
  "loadOf env evs =
     \<lparr>lrRegisters = registersOf env evs initScript,
      lrPrints = pgPrintCalled (snd (loadScript env evs initParsing)),
      lrErr = (case fst (loadScript env evs initParsing) of Err e \<Rightarrow> Some e | _ \<Rightarrow> None)\<rparr>"

lemma created_registered: "created name r st = (q, st') \<Longrightarrow> scRegistered st' = scRegistered st \<and> scDone st' = scDone st"
  by (cases r) (auto simp: created_def builtinWrapper_def split: if_splits)

lemma scriptCall_registers:
  assumes "scriptCall env c st = (Ok u, st')" and "\<not> scDone st"
  shows "registerAll (scRegistered st) (registeredArg env c) = Ok (scRegistered st') \<and> \<not> scDone st'"
proof (cases c)
  case (Register args kws)
  then show ?thesis using assms
    by (auto simp: builtinWrapper_def registerCheck_def bindO_eq_Ok split: outcome.splits if_splits)
next
  case (FailScript sep texts argErr)
  then show ?thesis using assms by (simp split: prod.splits)
next
  case (MakeCheck args kws)
  with created_registered[of _ "shacCheck env args kws" st "Ok u" st'] assms show ?thesis by simp
next
  case (WithArgs ch args kws)
  with created_registered[of _ "checkWithArgs ch args kws" st "Ok u" st'] assms show ?thesis by simp
next
  case (WithName ch args kws)
  with created_registered[of _ "checkWithName env ch args kws" st "Ok u" st'] assms show ?thesis by simp
qed

lemma registerAll_append: "registerAll cs (as @ bs) = bindO (registerAll cs as) (\<lambda>cs'. registerAll cs' bs)"
  by (induction as arbitrary: cs) (simp_all add: bindO_assoc)

lemma scriptCall_fails:
  "scriptCall env c st = (r, st') \<Longrightarrow> r \<noteq> Ok () \<Longrightarrow> scRegistered st' = scRegistered st"
  by (cases c) (auto dest: created_registered split: outcome.splits prod.splits)

lemma loadScript_registers:
  assumes "loadScript env evs pg = (r, pg')" and "\<not> scDone (pgScript pg)"
  shows "registerAll (scRegistered (pgScript pg)) (registersOf env evs (pgScript pg)) = Ok (scRegistered (pgScript pg'))"
  using assms
proof (induction env evs pg rule: loadScript.induct)
  case (3 env c evs pg)
  obtain q st where c: "scriptCall env c (pgScript pg) = (q, st)" by fastforce
  show ?case
  proof (cases q)
    case (Ok u)
    have "\<not> scDone st" "registerAll (scRegistered (pgScript pg)) (registeredArg env c) = Ok (scRegistered st)"
      using scriptCall_registers[OF c[unfolded Ok] "3.prems"(2)] by simp_all
    then show ?thesis using "3.IH" "3.prems" c Ok by (simp add: registerAll_append)
  next
    case (Err e)
    then show ?thesis using "3.prems" c scriptCall_fails[OF c] by auto
  next
    case (Panic m)
    then show ?thesis using "3.prems" c scriptCall_fails[OF c] by auto
  qed
qed (auto simp: parsePrint_def)

text \<open>The calls a script makes before it stops.\<close>

fun callsOf :: "scriptEvent list \<Rightarrow> apiCall list" where
  "callsOf [] = []"
| "callsOf (EvPrint posFile posLine msg # evs) = callsOf evs"
| "callsOf (EvCall c # evs) = c # callsOf evs"
| "callsOf (EvStop e # evs) = []"

lemma loadScript_calls: "pgScript (snd (loadScript env evs pg)) = snd (runScript env (callsOf evs) (pgScript pg))"
  by (induction env evs pg rule: loadScript.induct) (auto simp: parsePrint_def split: prod.splits outcome.splits)

lemma initParsing_script [simp]: "pgScript initParsing = initScript"
  by (simp add: initParsing_def)

lemma initScript_fields [simp]: "scRegistered initScript = []" "\<not> scDone initScript"
  by (simp_all add: initScript_def)

lemma loaded_registers:
  "registerAll [] (lrRegisters (loadOf env evs)) = Ok (scRegistered (snd (runScript env (callsOf evs) initScript)))"
proof -
  obtain r pg where l: "loadScript env evs initParsing = (r, pg)" by fastforce
  have "pgScript pg = snd (runScript env (callsOf evs) initScript)"
    using loadScript_calls[of env evs initParsing] by (simp add: l)
  then show ?thesis using loadScript_registers[OF l] by (simp add: loadOf_def)
qed

text \<open>
  The load of a run, which takes the registrations and the error of the script from outside, gives
  what the calls of the script give one by one.
\<close>

theorem parse_is_load:
  assumes "reLoad re s = loadOf env evs" and "stChecks s = []" and "\<And>m. fst (shacState_parse env evs) \<noteq> Panic m"
  shows "parseState re s = loadState env evs s"
proof -
  obtain r pg where l: "loadScript env evs initParsing = (r, pg)" by fastforce
  have regs: "registerAll [] (lrRegisters (loadOf env evs)) = Ok (scRegistered (pgScript pg))"
    using loaded_registers loadScript_calls[of env evs initParsing] by (simp add: l)
  have other: "lrPrints (loadOf env evs) = pgPrintCalled pg" "lrErr (loadOf env evs) = (case r of Err e \<Rightarrow> Some e | _ \<Rightarrow> None)"
    by (simp_all add: loadOf_def l)
  show ?thesis
  proof (cases r)
    case (Panic m)
    then show ?thesis using assms(3)[of m] by (simp add: shacState_parse_def l)
  qed (use regs other assms(1,2) in \<open>simp_all add: parseState_def loadState_def shacState_parse_def l\<close>)
qed

lemma parsed_checks:
  assumes "parseState re s = Ok s'" and "reLoad re s = loadOf env evs" and "stChecks s = []"
  shows "s' = s\<lparr>stChecks := scRegistered (snd (runScript env (callsOf evs) initScript)), stPrintCalled := stPrintCalled s'\<rparr>"
  using assms loaded_registers[of env evs] by (auto simp: parseState_def Let_def split: option.splits if_splits)

lemma filterLoop_selects: "filterLoop f rs = Ok rs' \<Longrightarrow> rs' = filter (selects f) rs"
  by (induction rs arbitrary: rs')
    (auto simp: selects_def bindO_eq_Ok split: FormatterFiltering.splits if_splits)

lemma filterStates_sub:
  assumes "filterStates states = Ok sel" and "st \<in> set sel"
  shows "\<exists>s \<in> set states. st = s\<lparr>stChecks := filter (selects (stFilter s)) (stChecks s)\<rparr>"
  using assms
proof (induction states arbitrary: sel)
  case (Cons s states)
  obtain checks rest where f: "CheckFilter_filter (stFilter s) (stChecks s) = Ok checks" "filterStates states = Ok rest"
    "sel = s\<lparr>stChecks := checks\<rparr> # rest"
    using Cons.prems(1) by (auto simp: bindO_eq_Ok)
  have "checks = filter (selects (stFilter s)) (stChecks s)"
    using f(1) filterLoop_selects by (auto simp: CheckFilter_filter_def split: if_splits)
  then show ?case using Cons.IH[OF f(2)] Cons.prems(2) f(3) by auto
qed simp

lemma loadAll_states:
  assumes "loadAll re states = Ok loaded" and "s' \<in> set loaded"
  shows "\<exists>s \<in> set states. parseState re s = Ok s'"
proof -
  have "x \<in> set (okValues rs) \<Longrightarrow> Ok x \<in> set rs" for x and rs :: "'b outcome list"
    by (auto simp: okValues_def split: outcome.splits)
  then have "Ok s' \<in> set (map (parseState re) states)"
    using assms by (auto simp: loadAll_def Let_def simp del: set_map split: if_splits)
  then show ?thesis by (metis imageE set_map)
qed

section \<open>How a check was made\<close>

text \<open>
  A check is made from a function, by shac.check() or by registering the function itself, and from
  another check by with_args() and with_name(). \<open>given\<close> holds the keyword arguments of all the calls of
  with_args() on the way, in their order: what the script wrote, not what the check keeps of it.
\<close>

inductive madeBy :: "apiEnv \<Rightarrow> apiCall list \<Rightarrow> check \<Rightarrow> starFunction \<Rightarrow> (string \<times> starValue) list \<Rightarrow> bool"
  for env calls where
  made_check: "MakeCheck args kws \<in> set calls \<Longrightarrow> AFn (Function f) \<in> set args \<union> snd ` set kws \<Longrightarrow>
    shacCheck env args kws = Ok c \<Longrightarrow> impl c = f \<Longrightarrow> madeBy env calls c f []"
| made_function: "Register args kws \<in> set calls \<Longrightarrow> AFn (Function f) \<in> set args \<union> snd ` set kws \<Longrightarrow>
    newCheck (Function f) [] False = Ok c \<Longrightarrow> madeBy env calls c f []"
| made_with_args: "madeBy env calls c f given \<Longrightarrow> WithArgs c args kws \<in> set calls \<Longrightarrow>
    checkWithArgs c args kws = Ok c' \<Longrightarrow> madeBy env calls c' f (given @ map (\<lambda>(k, a). (k, starOf a)) kws)"
| made_with_name: "madeBy env calls c f given \<Longrightarrow> WithName c args kws \<in> set calls \<Longrightarrow>
    checkWithName env c args kws = Ok c' \<Longrightarrow> madeBy env calls c' f given"

text \<open>The parameters in a call with ctx: the last value given for a parameter, otherwise its default.\<close>

definition lastLocals :: "starFunction \<Rightarrow> (string \<times> starValue) list \<Rightarrow> starValue \<Rightarrow> locals" where
  "lastLocals f given ctx i =
     (if i = 0 then Some ctx
      else if i < length (params f) then
        (case map_of (rev given) (fst (params f ! i)) of Some v \<Rightarrow> Some v | None \<Rightarrow> snd (params f ! i))
      else None)"

text \<open>ctx is not keyword-only, and every keyword-only parameter has a default or is given a value.\<close>

definition callableWith :: "starFunction \<Rightarrow> (string \<times> starValue) list \<Rightarrow> bool" where
  "callableWith f given \<longleftrightarrow>
     NumKwonly f < length (params f) \<and>
     list_all (\<lambda>p. snd p \<noteq> None \<or> fst p \<in> fst ` set given) (drop (length (params f) - NumKwonly f) (params f))"

lemma newCheck_fields: "newCheck imp name b = Ok c \<Longrightarrow> imp = Function (impl c) \<and> kwargs c = []"
  by (auto simp: newCheck_def split: callable.splits if_splits)

lemma withArgs_last:
  assumes "withArgs c kws = Ok c'" and "distinct (map fst (kwargs c))"
  shows "impl c' = impl c \<and> distinct (map fst (kwargs c')) \<and>
    map_of (kwargs c') = map_of (kwargs c) ++ map_of (rev kws)"
proof -
  obtain m where m: "mergeKwargs (validParams c) (kwargsMap kws) (kwargsMap (kwargs c)) = Ok m" "c' = c\<lparr>kwargs := m\<rparr>"
    using assms(1) by (auto simp: withArgs_def bindO_eq_Ok)
  have rev_same: "distinct (map fst xs) \<Longrightarrow> map_of (rev xs) = map_of xs" for xs :: "(string \<times> starValue) list"
    using map_of_inject_set[of "rev xs" xs] by (simp add: rev_map[symmetric])
  show ?thesis
    using mergeKwargs_Ok[OF m(1)] kwargsMap_spec[of kws] kwargsMap_spec[of "kwargs c"] m(2)
      rev_same[of "kwargsMap kws"] rev_same[OF assms(2)] by simp
qed

lemma madeBy_given:
  "madeBy env calls c f given \<Longrightarrow>
   impl c = f \<and> distinct (map fst (kwargs c)) \<and> map_of (kwargs c) = map_of (rev given)"
proof (induction rule: madeBy.induct)
  case (made_check args kws f c)
  then show ?case using newCheck_fields by (fastforce simp: shacCheck_def bindO_eq_Ok)
next
  case (made_function args kws f c)
  then show ?case using newCheck_fields by fastforce
next
  case (made_with_args c f given args kws c')
  then have "withArgs c (map (\<lambda>(k, a). (k, starOf a)) kws) = Ok c'"
    by (simp add: checkWithArgs_def split: if_splits)
  from withArgs_last[OF this] show ?case using made_with_args.IH by simp
next
  case (made_with_name c f given args kws c')
  then show ?case by (auto simp: checkWithName_def bindO_eq_Ok withName_def)
qed

definition isMade :: "apiEnv \<Rightarrow> apiCall list \<Rightarrow> check \<Rightarrow> bool" where
  "isMade env calls c \<longleftrightarrow> (\<exists>f given. madeBy env calls c f given)"

lemma isMadeI: "madeBy env calls c f given \<Longrightarrow> isMade env calls c"
  by (auto simp: isMade_def)

definition allMade :: "apiEnv \<Rightarrow> apiCall list \<Rightarrow> scriptState \<Rightarrow> bool" where
  "allMade env calls st \<longleftrightarrow>
     (\<forall>c \<in> set (scKnown st) \<union> checkOf ` set (scRegistered st). isMade env calls c)"

lemma allMade_created:
  assumes "allMade env calls st" and "created name r st = (q, st')" and "\<And>c. r = Ok c \<Longrightarrow> isMade env calls c"
  shows "allMade env calls st'"
  using assms by (cases r) (auto simp: created_def builtinWrapper_def allMade_def split: if_splits)

lemma shacCheck_made:
  assumes "shacCheck env args kws = Ok c" and "MakeCheck args kws \<in> set calls"
  shows "madeBy env calls c (impl c) []"
proof -
  let ?ps = "[(''impl'', VarFunction), (''name?'', VarString), (''formatter?'', VarBool)]"
  obtain vals where u: "apiUnpack env ''shac.check'' ?ps args kws = Ok vals"
      "newCheck (case vals 0 of Some (AFn f) \<Rightarrow> f | _ \<Rightarrow> OtherCallable) (stringArg (vals 1)) (boolArg (vals 2)) = Ok c"
    using assms(1) by (auto simp: shacCheck_def bindO_eq_Ok)
  have d: "distinct (map pname (map fst ?ps))" by (simp add: paramName_def HasSuffix_def)
  have "(case vals 0 of Some (AFn f) \<Rightarrow> f | _ \<Rightarrow> OtherCallable) = Function (impl c)"
    using newCheck_fields[OF u(2)] by blast
  then have "vals 0 = Some (AFn (Function (impl c)))" by (auto split: option.splits apiValue.splits)
  then have "AFn (Function (impl c)) \<in> set args \<union> snd ` set kws" by (rule apiUnpack_from[OF u(1) d])
  then show ?thesis by (rule made_check[OF assms(2) _ assms(1) refl])
qed

lemma registerCheck_made:
  assumes "registerCheck env args kws d rs = Ok rs'" and "Register args kws \<in> set calls" and "okArgs known args kws"
  shows "\<exists>c. rs' = rs @ [newRegistered c] \<and> (c \<in> set known \<or> madeBy env calls c (impl c) [])"
proof -
  obtain vals where u: "apiUnpack env ''shac.register_check'' [(''check'', VarValue)] args kws = Ok vals"
      "shacRegisterCheck d rs (registerArgOf (vals 0)) = Ok rs'"
    using assms(1) by (auto simp: registerCheck_def bindO_eq_Ok)
  obtain c where c: "registerArgCheck (registerArgOf (vals 0)) = Ok c" "rs' = rs @ [newRegistered c]"
    using u(2) by (auto simp: shacRegisterCheck_Ok)
  have "distinct (map pname (map fst [(''check'', VarValue)]))" by simp
  note origin = apiUnpack_from[OF u(1) this]
  have "c \<in> set known \<or> madeBy env calls c (impl c) []"
  proof (cases "vals 0")
    case (Some a)
    note o = origin[OF Some]
    show ?thesis
    proof (cases a)
      case (AFn f)
      then have n: "newCheck f [] False = Ok c" using c(1) Some by (simp add: registerArgCheck_def)
      then have "f = Function (impl c)" using newCheck_fields by blast
      then show ?thesis using made_function[OF assms(2), of "impl c"] o AFn n by simp
    next
      case (ACheck k)
      then show ?thesis using c(1) Some okArgs_from[OF assms(3) o] by (simp add: registerArgCheck_def)
    qed (use c(1) Some in \<open>simp add: registerArgCheck_def\<close>)
  qed (use c(1) in \<open>simp add: registerArgCheck_def\<close>)
  then show ?thesis using c(2) by blast
qed

lemma scriptCall_made:
  assumes "allMade env calls st" and "okCall (scKnown st) c" and "c \<in> set calls" and "scriptCall env c st = (q, st')"
  shows "allMade env calls st'"
proof (cases c)
  case (MakeCheck args kws)
  show ?thesis
    by (rule allMade_created[OF assms(1) assms(4)[unfolded MakeCheck scriptCall.simps]])
      (use shacCheck_made assms(3) MakeCheck in \<open>blast intro: isMadeI\<close>)
next
  case (WithArgs k args kws)
  have "k \<in> set (scKnown st)" using assms(2) WithArgs by simp
  then obtain f given where "madeBy env calls k f given" using assms(1) unfolding allMade_def isMade_def by blast
  note made = made_with_args[OF this]
  show ?thesis
    by (rule allMade_created[OF assms(1) assms(4)[unfolded WithArgs scriptCall.simps]])
      (use made assms(3) WithArgs in \<open>blast intro: isMadeI\<close>)
next
  case (WithName k args kws)
  have "k \<in> set (scKnown st)" using assms(2) WithName by simp
  then obtain f given where "madeBy env calls k f given" using assms(1) unfolding allMade_def isMade_def by blast
  note made = made_with_name[OF this]
  show ?thesis
    by (rule allMade_created[OF assms(1) assms(4)[unfolded WithName scriptCall.simps]])
      (use made assms(3) WithName in \<open>blast intro: isMadeI\<close>)
next
  case (Register args kws)
  show ?thesis
  proof (cases "registerCheck env args kws (scDone st) (scRegistered st)")
    case (Ok rs)
    obtain k where k: "rs = scRegistered st @ [newRegistered k]" "k \<in> set (scKnown st) \<or> madeBy env calls k (impl k) []"
      using registerCheck_made[OF Ok, of calls "scKnown st"] assms(2,3) Register by auto
    then have "isMade env calls k" using assms(1) isMadeI unfolding allMade_def by blast
    then show ?thesis
      using Ok k(1) assms(1,4) Register by (auto simp: allMade_def builtinWrapper_def newRegistered_def)
  qed (use assms(1,4) Register in \<open>auto simp: builtinWrapper_def split: if_splits\<close>)
qed (use assms in \<open>auto simp: fail_builtin_def Let_def allMade_def\<close>)

lemma runScript_made:
  assumes "allMade env calls st" and "okScript env cs st" and "set cs \<subseteq> set calls"
  shows "allMade env calls (snd (runScript env cs st))"
  using assms
proof (induction cs arbitrary: st)
  case (Cons c cs)
  obtain q st1 where c: "scriptCall env c st = (q, st1)" by fastforce
  have "allMade env calls st1" using scriptCall_made[OF Cons.prems(1) _ _ c] Cons.prems(2,3) by simp
  then show ?case using Cons.IH[of st1] Cons.prems(2,3) c by (cases q) auto
qed simp

lemma callable_given:
  assumes "map_of (kwargs c) = map_of (rev given)"
  shows "callable_check c \<longleftrightarrow> callableWith (impl c) given" "checkLocals c ctx = lastLocals (impl c) given ctx"
proof -
  have "fst ` set (kwargs c) = fst ` set given"
    using arg_cong[OF assms, of dom] by (simp add: dom_map_of_conv_image_fst)
  then show "callable_check c \<longleftrightarrow> callableWith (impl c) given" by (simp add: callable_check_def callableWith_def)
  show "checkLocals c ctx = lastLocals (impl c) given ctx"
    by (simp add: checkLocals_def lastLocals_def assms fun_eq_iff)
qed

text \<open>The states left after loading and filtering are the states of the run with the checks of their own scripts.\<close>

lemma selected_states:
  assumes "\<And>s. s \<in> set states \<Longrightarrow> stChecks s = [] \<and> reLoad re s = loadOf env (script s)"
    and "loadAll re states = Ok loaded" and "selectChecks f loaded = Ok sel" and "st \<in> set sel"
  shows "\<exists>s \<in> set states. st = s\<lparr>stChecks := filter (selects (stFilter s))
      (scRegistered (snd (runScript env (callsOf (script s)) initScript))), stPrintCalled := stPrintCalled st\<rparr>"
proof -
  have "filterStates loaded = Ok sel" using assms(3) by (auto simp: selectChecks_def bindO_eq_Ok split: if_splits)
  then obtain s' where s': "s' \<in> set loaded" "st = s'\<lparr>stChecks := filter (selects (stFilter s')) (stChecks s')\<rparr>"
    using filterStates_sub assms(4) by blast
  obtain s where s: "s \<in> set states" "parseState re s = Ok s'" using loadAll_states[OF assms(2) s'(1)] by blast
  obtain p where p: "s' = s\<lparr>stChecks := scRegistered (snd (runScript env (callsOf (script s)) initScript)), stPrintCalled := p\<rparr>"
    using parsed_checks[OF s(2)] assms(1)[OF s(1)] by blast
  show ?thesis by (rule bexI[OF _ s(1)]) (simp add: s'(2) p)
qed

text \<open>
  C20. The checks that a run calls, from the scripts on: every state that is left after loading and
  filtering is a state of the run, with those checks that the script of this state's own shac file
  has registered and its filter selects; their names are distinct. Each of them was made from a
  function by the calls of that script, and it can be called with ctx exactly when ctx is not
  keyword-only and every keyword-only parameter has a default or a value from with_args(); the call
  then binds ctx to the first parameter, and every other parameter to the value that the calls of
  with_args() on the way to the check gave last, or to its default.
\<close>

theorem run_calls_registered_checks:
  assumes "\<And>s. s \<in> set states \<Longrightarrow> stChecks s = [] \<and> reLoad re s = loadOf env (script s) \<and>
      okScript env (callsOf (script s)) initScript"
    and "loadAll re states = Ok loaded" and "selectChecks f loaded = Ok sel" and "st \<in> set sel"
  shows "\<exists>s \<in> set states.
    st = s\<lparr>stChecks := filter (selects (stFilter s))
      (scRegistered (snd (runScript env (callsOf (script s)) initScript))), stPrintCalled := stPrintCalled st\<rparr> \<and>
    distinct (map rname (stChecks st)) \<and>
    (\<forall>c \<in> checkOf ` set (stChecks st). \<exists>fn given. madeBy env (callsOf (script s)) c fn given \<and> impl c = fn \<and>
       (\<forall>ls. setArgs fn [ctx] (kwargs c) = Ok ls \<longleftrightarrow> callableWith fn given \<and> ls = lastLocals fn given ctx))"
proof -
  have own: "stChecks s = [] \<and> reLoad re s = loadOf env (script s)" if "s \<in> set states" for s
    using assms(1)[OF that] by blast
  obtain s where s: "s \<in> set states" "st = s\<lparr>stChecks := filter (selects (stFilter s))
      (scRegistered (snd (runScript env (callsOf (script s)) initScript))), stPrintCalled := stPrintCalled st\<rparr>"
    using selected_states[OF own assms(2-4)] by blast
  let ?calls = "callsOf (script s)" and ?final = "snd (runScript env (callsOf (script s)) initScript)"
  have ok: "okScript env ?calls initScript" using assms(1)[OF s(1)] by blast
  have "scriptInv initScript" by (simp add: scriptInv_def initScript_def)
  then have inv: "scriptInv ?final" using ok runScript_inv[of initScript env ?calls] by (metis prod.collapse)
  have "allMade env ?calls initScript" by (simp add: allMade_def initScript_def)
  then have made: "allMade env ?calls ?final" using ok by (rule runScript_made) simp
  have checks: "stChecks st = filter (selects (stFilter s)) (scRegistered ?final)"
    by (subst s(2)) simp
  have "distinct (map rname (stChecks st))" using inv by (simp add: checks scriptInv_def distinct_map_filter)
  moreover have "\<exists>fn given. madeBy env ?calls c fn given \<and> impl c = fn \<and>
      (\<forall>ls. setArgs fn [ctx] (kwargs c) = Ok ls \<longleftrightarrow> callableWith fn given \<and> ls = lastLocals fn given ctx)"
    if c: "c \<in> checkOf ` set (stChecks st)" for c
  proof -
    have "c \<in> checkOf ` set (scRegistered ?final)" using c by (auto simp: checks)
    then obtain fn given where m: "madeBy env ?calls c fn given" using made unfolding allMade_def isMade_def by blast
    note g = madeBy_given[OF m]
    have "validCheck c" using c inv by (auto simp: checks scriptInv_def)
    from setArgs_check[OF this] show ?thesis
      using m g callable_given[of c given] by (intro exI[of _ fn] exI[of _ given]) auto
  qed
  ultimately show ?thesis using s by blast
qed

definition demoEvents :: "scriptEvent list" where
  "demoEvents = EvPrint ''shac.star'' 3 ''hello'' # map EvCall
     [MakeCheck [AFn (Function demoFunction)] [], WithArgs (madeCheck []) [] [(''b'', AVal (VInt 2))],
      WithArgs (madeCheck [(''b'', VInt 2)]) [] [(''b'', AVal (VInt 3))],
      Register [ACheck (madeCheck [(''b'', VInt 3)])] []]"

definition demoLoading :: runEnv where
  "demoLoading = demoRe\<lparr>reLoad := (\<lambda>_. loadOf demoApi demoEvents)\<rparr>"

definition demoParsed :: "shacState list" where
  "demoParsed = (case loadAll demoLoading demoSetup of Ok ss \<Rightarrow> ss | _ \<Rightarrow> [])"

definition demoKept :: "shacState list" where
  "demoKept = (case selectChecks (oFilter plainOptions) demoParsed of Ok ss \<Rightarrow> ss | _ \<Rightarrow> [])"

lemma demo_parsed:
  "list_all (\<lambda>s. stChecks s = []) demoSetup" "okScript demoApi (callsOf demoEvents) initScript"
  "loadAll demoLoading demoSetup = Ok demoParsed" "selectChecks (oFilter plainOptions) demoParsed = Ok demoKept"
  "map (\<lambda>s. map checkOf (stChecks s)) demoKept = [[madeCheck [(''b'', VInt 3)]]]"
proof -
  have "list_all (\<lambda>s. case stChecks s of [] \<Rightarrow> True | _ \<Rightarrow> False) demoSetup" by code_simp
  then show "list_all (\<lambda>s. stChecks s = []) demoSetup" by (rule list.pred_mono_strong) (simp split: list.splits)
  show "okScript demoApi (callsOf demoEvents) initScript" by code_simp
  have "case loadAll demoLoading demoSetup of Ok ss \<Rightarrow> True | _ \<Rightarrow> False" by code_simp
  then show "loadAll demoLoading demoSetup = Ok demoParsed" by (auto simp: demoParsed_def split: outcome.splits)
  have "case selectChecks (oFilter plainOptions) demoParsed of Ok ss \<Rightarrow> True | _ \<Rightarrow> False" by code_simp
  then show "selectChecks (oFilter plainOptions) demoParsed = Ok demoKept"
    by (auto simp: demoKept_def split: outcome.splits)
  show "map (\<lambda>s. map checkOf (stChecks s)) demoKept = [[madeCheck [(''b'', VInt 3)]]]" by code_simp
qed

text \<open>Two calls of with_args() give the same parameter; the check is called with the second value.\<close>

theorem run_calls_registered_checks_witness:
  "\<exists>given. madeBy demoApi (callsOf demoEvents) (madeCheck [(''b'', VInt 3)]) demoFunction given \<and>
     setArgs demoFunction [VOther ''ctx''] [(''b'', VInt 3)] = Ok (lastLocals demoFunction given (VOther ''ctx''))"
proof -
  have pre: "stChecks s = [] \<and> reLoad demoLoading s = loadOf demoApi demoEvents \<and>
      okScript demoApi (callsOf demoEvents) initScript" if "s \<in> set demoSetup" for s
    using that demo_parsed(1,2) by (simp add: demoLoading_def list_all_iff)
  let ?c = "madeCheck [(''b'', VInt 3)]"
  obtain st where st: "demoKept = [st]" "map checkOf (stChecks st) = [?c]"
    using demo_parsed(5) by auto
  from st(2) have "set (map checkOf (stChecks st)) = {?c}" by simp
  then have c: "?c \<in> checkOf ` set (stChecks st)" by simp
  have "st \<in> set demoKept" by (simp add: st(1))
  from run_calls_registered_checks[OF pre demo_parsed(3,4) this, of "VOther ''ctx''"] c
  obtain fn given where m: "madeBy demoApi (callsOf demoEvents) ?c fn given" "impl ?c = fn"
    "\<forall>ls. setArgs fn [VOther ''ctx''] (kwargs ?c) = Ok ls \<longleftrightarrow> callableWith fn given \<and> ls = lastLocals fn given (VOther ''ctx'')"
    by blast
  have "callable_check ?c" by (simp add: callable_check_def madeCheck_def demoFunction_def)
  then have "callableWith fn given" using callable_given(1)[of ?c given] madeBy_given[OF m(1)] by simp
  then show ?thesis using m by (intro exI[of _ given]) (simp add: madeCheck_def)
qed

theorem parse_is_load_witness:
  "parseState demoLoading (hd demoSetup) = loadState demoApi demoEvents (hd demoSetup)"
proof (rule parse_is_load)
  show "reLoad demoLoading (hd demoSetup) = loadOf demoApi demoEvents" by (simp add: demoLoading_def)
  have "case stChecks (hd demoSetup) of [] \<Rightarrow> True | _ \<Rightarrow> False" by code_simp
  then show "stChecks (hd demoSetup) = []" by (simp split: list.splits)
  have "case fst (shacState_parse demoApi demoEvents) of Panic m \<Rightarrow> False | _ \<Rightarrow> True" by code_simp
  then show "fst (shacState_parse demoApi demoEvents) \<noteq> Panic m" for m by (auto split: outcome.splits)
qed

end
