(* ===== verification/Scm_Cache.thy ===== *)
theory Scm_Cache
  imports Scm
begin

text \<open>
  The cache around a checkout (cachingSCM of internal/engine/runtime_ctx_scm.go) against the checkout
  without it. While the files and git stay as they are, a checkout that answers without errors gives
  the same answers for ever, and the cache cannot be told from what it wraps.
\<close>

section \<open>Operations and their answers\<close>

datatype scmOp = OpAll fileFilter | OpAffected fileFilter | OpNewLines scmFile | OpCommits

datatype scmAns =
    AnsFiles listing
  | AnsLines "(int \<times> string) list outcome"
  | AnsCommits "scmCommit list \<times> err option"

fun scmDo :: "osView \<Rightarrow> scmOp \<Rightarrow> scm \<Rightarrow> scmAns \<times> scm" where
  "scmDo os (OpAll flt) s = (let (r, s') = scm_allFiles os flt s in (AnsFiles r, s'))"
| "scmDo os (OpAffected flt) s = (let (r, s') = scm_affectedFiles os flt s in (AnsFiles r, s'))"
| "scmDo os (OpNewLines f) s = (let (r, s') = scm_newLines os f s in (AnsLines r, s'))"
| "scmDo os OpCommits s = (let (r, s') = scm_commits os s in (AnsCommits r, s'))"

fun goodAns :: "scmAns \<Rightarrow> bool" where
  "goodAns (AnsFiles l) = (\<exists>fs. l = Files fs None)"
| "goodAns (AnsLines r) = isOk r"
| "goodAns (AnsCommits r) = (snd r = None)"

definition answer :: "osView \<Rightarrow> scmOp \<Rightarrow> scm \<Rightarrow> scmAns" where
  "answer os op s = fst (scmDo os op s)"

definition afterOp :: "osView \<Rightarrow> scmOp \<Rightarrow> scm \<Rightarrow> scm" where
  "afterOp os op s = snd (scmDo os op s)"

text \<open>The answers to a sequence of operations.\<close>

fun scmRun :: "osView \<Rightarrow> scmOp list \<Rightarrow> scm \<Rightarrow> scmAns list" where
  "scmRun os [] s = []"
| "scmRun os (op # ops) s = answer os op s # scmRun os ops (afterOp os op s)"

section \<open>Checkouts without errors do not change their answers\<close>

lemma g_run_same: "g_run exec args g = (r, g') \<Longrightarrow> gerr g' = None \<Longrightarrow> g' = g"
  by (auto simp: g_run_def split: outcome.splits if_splits)

lemma g_run_err: "g_run exec args g = (r, g') \<Longrightarrow> r \<noteq> [] \<Longrightarrow> g' = g"
  by (auto simp: g_run_def split: outcome.splits if_splits)

lemma tracked_same: "affectedTrackedFiles os flt g = (fs, g') \<Longrightarrow> gerr g' = None \<Longrightarrow> g' = g"
  by (auto simp: affectedTrackedFiles_def split: prod.splits if_splits dest: g_run_same)

lemma untracked_same: "untrackedFiles os flt g = (r, g') \<Longrightarrow> gerr g' = None \<Longrightarrow> g' = g"
  by (auto simp: untrackedFiles_def split: prod.splits dest: g_run_same)

lemma git_allFiles_same: "git_allFiles os flt g = (Files fs None, g') \<Longrightarrow> g' = g"
  by (auto simp: git_allFiles_def Let_def split: prod.splits if_splits dest!: tracked_same dest: g_run_same)

lemma git_affectedFiles_same: "git_affectedFiles os flt g = (Files fs None, g') \<Longrightarrow> g' = g"
  by (auto simp: git_affectedFiles_def Let_def split: prod.splits if_splits outcome.splits
      dest!: untracked_same dest: tracked_same git_allFiles_same)

lemma git_newLines_same: "git_newLines os f g = (Ok ls, g') \<Longrightarrow> g' = g"
  by (auto simp: git_newLines_def Let_def split: prod.splits if_splits option.splits dest: g_run_same g_run_err)

lemma git_commits_same: "git_commits os g = (Ok cs, g') \<Longrightarrow> g' = g"
  by (auto simp: git_commits_def Let_def split: prod.splits option.splits dest: g_run_same)

lemma raw_again:
  assumes "raw_allFiles os flt root all = (Files fs None, all')"
  shows "fst (raw_allFiles os flt' root all') = fst (raw_allFiles os flt' root all)"
proof -
  have load: "rawLoad os root all = Ok all'" using assms by (auto simp: raw_allFiles_def split: outcome.splits)
  then have "rawLoad os root all' = Ok all'" by (cases "all' = []") (auto simp: rawLoad_def split: if_splits)
  then show ?thesis using load by (simp add: raw_allFiles_def)
qed

lemma mapListing_good: "(\<exists>fs. mapListing h l = Files fs None) \<longleftrightarrow> (\<exists>fs. l = Files fs None)"
  by (cases l) auto

lemma cached_good:
  assumes "fst (cached cache flt (l, s') s) = Files fs None"
  shows "fst (snd (cached cache flt (l, s') s)) = s \<and> snd (snd (cached cache flt (l, s') s)) = cache \<or>
    l = Files fs None \<and> map_of cache flt = None \<and> cached cache flt (l, s') s = (Files fs None, s', (flt, fs) # cache)"
  using assms by (cases l; cases "map_of cache flt") (auto simp: cached_def)


text \<open>How the wrappers pass an operation on.\<close>

fun mapAns :: "(scmFile list \<Rightarrow> scmFile list) \<Rightarrow> scmAns \<Rightarrow> scmAns" where
  "mapAns h (AnsFiles l) = AnsFiles (mapListing h l)"
| "mapAns h a = a"

lemma mapAns_good [simp]: "goodAns (mapAns h a) = goodAns a"
  by (cases a) (simp_all add: mapListing_good)

lemma subdir_do:
  "answer os op (Subdir s d) = mapAns (filterFilesLoop d) (answer os op s)"
  "afterOp os op (Subdir s d) = Subdir (afterOp os op s) d"
  by (cases op; simp add: answer_def afterOp_def split: prod.split)+

lemma filtered_do:
  "answer os op (Filtered m s) = mapAns (filteredSCM_filter m) (answer os op s)"
  "afterOp os op (Filtered m s) = Filtered m (afterOp os op s)"
  by (cases op; simp add: answer_def afterOp_def split: prod.split)+

lemma specified_do:
  "answer os op (Specified fs root s) = (case op of OpAffected flt \<Rightarrow> AnsFiles (Files fs None) | _ \<Rightarrow> answer os op s)"
  "afterOp os op (Specified fs root s) =
    (case op of OpAffected flt \<Rightarrow> Specified fs root s | _ \<Rightarrow> Specified fs root (afterOp os op s))"
  by (cases op; simp add: answer_def afterOp_def split: prod.split)+

lemma cached_fst: "fst (cached cache flt miss s) = (case map_of cache flt of Some fs \<Rightarrow> Files fs None | None \<Rightarrow> fst miss)"
  by (cases miss) (auto simp: cached_def split: option.split listing.split)

lemma cached_miss:
  "map_of cache flt = None \<Longrightarrow> cached cache flt (Files fs e, s') s = (Files fs e, s', (flt, fs) # cache)"
  by (simp add: cached_def)

lemma cached_hit: "map_of cache flt = Some fs \<Longrightarrow> cached cache flt miss s = (Files fs None, s, cache)"
  by (simp add: cached_def)

lemma caching_answer:
  "answer os op (Caching s affected all cs) =
    (case op of
       OpAll flt \<Rightarrow> (case map_of all flt of Some fs \<Rightarrow> AnsFiles (Files fs None) | None \<Rightarrow> answer os op s)
     | OpAffected flt \<Rightarrow> (case map_of affected flt of Some fs \<Rightarrow> AnsFiles (Files fs None) | None \<Rightarrow> answer os op s)
     | OpNewLines f \<Rightarrow> answer os op s
     | OpCommits \<Rightarrow> (case cs of Some r \<Rightarrow> AnsCommits r | None \<Rightarrow> answer os op s))"
proof (cases op)
  case (OpAll flt)
  then show ?thesis using cached_fst[of all flt "scm_allFiles os flt s" s]
    by (auto simp: answer_def split: prod.splits option.splits)
next
  case (OpAffected flt)
  then show ?thesis using cached_fst[of affected flt "scm_affectedFiles os flt s" s]
    by (auto simp: answer_def split: prod.splits option.splits)
qed (auto simp: answer_def split: prod.splits option.splits)

text \<open>A good answer leaves the cache as it was, or adds what the wrapped checkout answered.\<close>

lemma caching_after_all:
  assumes "goodAns (answer os (OpAll flt) (Caching s affected all cs))"
  shows "afterOp os (OpAll flt) (Caching s affected all cs) = Caching s affected all cs \<or>
    (\<exists>fs. map_of all flt = None \<and> answer os (OpAll flt) s = AnsFiles (Files fs None) \<and>
       afterOp os (OpAll flt) (Caching s affected all cs) = Caching (afterOp os (OpAll flt) s) affected ((flt, fs) # all) cs)"
proof (cases "map_of all flt")
  case None
  then have "goodAns (answer os (OpAll flt) s)" using assms by (simp add: caching_answer)
  then obtain fs where "answer os (OpAll flt) s = AnsFiles (Files fs None)"
    by (auto simp: answer_def split: prod.splits)
  then show ?thesis using None by (auto simp: answer_def afterOp_def cached_miss split: prod.splits)
qed (simp add: afterOp_def cached_hit)

lemma caching_after_affected:
  assumes "goodAns (answer os (OpAffected flt) (Caching s affected all cs))"
  shows "afterOp os (OpAffected flt) (Caching s affected all cs) = Caching s affected all cs \<or>
    (\<exists>fs. map_of affected flt = None \<and> answer os (OpAffected flt) s = AnsFiles (Files fs None) \<and>
       afterOp os (OpAffected flt) (Caching s affected all cs) = Caching (afterOp os (OpAffected flt) s) ((flt, fs) # affected) all cs)"
proof (cases "map_of affected flt")
  case None
  then have "goodAns (answer os (OpAffected flt) s)" using assms by (simp add: caching_answer)
  then obtain fs where "answer os (OpAffected flt) s = AnsFiles (Files fs None)"
    by (auto simp: answer_def split: prod.splits)
  then show ?thesis using None by (auto simp: answer_def afterOp_def cached_miss split: prod.splits)
qed (simp add: afterOp_def cached_hit)

lemma good_caching:
  assumes IH: "\<And>op op'. goodAns (answer os op s) \<Longrightarrow> answer os op' (afterOp os op s) = answer os op' s"
    and good: "goodAns (answer os op (Caching s affected all cs))"
  shows "answer os op' (afterOp os op (Caching s affected all cs)) = answer os op' (Caching s affected all cs)"
proof (cases op)
  case (OpAll flt)
  show ?thesis
    using caching_after_all[OF good[unfolded OpAll]] IH[of "OpAll flt"] OpAll
    by (auto simp: caching_answer split: scmOp.splits option.splits)
next
  case (OpAffected flt)
  show ?thesis
    using caching_after_affected[OF good[unfolded OpAffected]] IH[of "OpAffected flt"] OpAffected
    by (auto simp: caching_answer split: scmOp.splits option.splits)
next
  case (OpNewLines f)
  have "afterOp os op (Caching s affected all cs) = Caching (afterOp os op s) affected all cs"
    by (simp add: OpNewLines afterOp_def split: prod.split)
  moreover have "goodAns (answer os op s)" using good OpNewLines by (simp add: caching_answer)
  ultimately show ?thesis using IH[of op] by (simp add: caching_answer split: scmOp.split option.split)
next
  case OpCommits
  show ?thesis
  proof (cases cs)
    case None
    obtain r where r: "answer os OpCommits s = AnsCommits r"
      by (cases "scm_commits os s") (simp add: answer_def)
    then have "afterOp os op (Caching s affected all cs) = Caching (afterOp os op s) affected all (Some r)"
      by (simp add: OpCommits None answer_def afterOp_def split: prod.splits)
    moreover have "goodAns (answer os op s)" using good OpCommits None by (simp add: caching_answer)
    ultimately show ?thesis using IH[of op] r None by (simp add: caching_answer split: scmOp.split option.split)
  qed (simp add: OpCommits afterOp_def)
qed


lemma good_git:
  assumes "goodAns (answer os op (Git g))"
  shows "afterOp os op (Git g) = Git g"
proof (cases op)
  case (OpAll flt)
  then show ?thesis using assms by (auto simp: answer_def afterOp_def split: prod.splits dest: git_allFiles_same)
next
  case (OpAffected flt)
  then show ?thesis using assms by (auto simp: answer_def afterOp_def split: prod.splits dest: git_affectedFiles_same)
next
  case (OpNewLines f)
  obtain r g' where r: "git_newLines os f g = (r, g')" by fastforce
  then show ?thesis using assms OpNewLines git_newLines_same[of os f g] by (cases r) (auto simp: answer_def afterOp_def)
next
  case OpCommits
  obtain r g' where r: "git_commits os g = (r, g')" by fastforce
  then show ?thesis using assms OpCommits git_commits_same[of os g] by (cases r) (auto simp: answer_def afterOp_def)
qed

lemma good_raw:
  assumes good: "goodAns (answer os op (RawTree root all))"
  shows "answer os op' (afterOp os op (RawTree root all)) = answer os op' (RawTree root all)"
proof -
  have again: "answer os op' (RawTree root all') = answer os op' (RawTree root all)"
    if load: "raw_allFiles os flt root all = (Files fs None, all')" for flt fs all'
  proof -
    have "fst (raw_allFiles os flt' root all') = fst (raw_allFiles os flt' root all)" for flt'
      by (rule raw_again[OF load])
    then show ?thesis by (cases op') (simp_all add: answer_def split_def Let_def)
  qed
  have load: "raw_allFiles os flt root all = (Files fs None, snd (raw_allFiles os flt root all))"
    if "fst (raw_allFiles os flt root all) = Files fs None" for flt fs
    using that by (cases "raw_allFiles os flt root all") simp
  show ?thesis
  proof (cases op)
    case (OpAll flt)
    then obtain fs where "fst (raw_allFiles os flt root all) = Files fs None"
      using good by (auto simp: answer_def split_def Let_def)
    from again[OF load[OF this]] show ?thesis by (simp add: OpAll afterOp_def split_def Let_def)
  next
    case (OpAffected flt)
    then obtain fs where "fst (raw_allFiles os flt root all) = Files fs None"
      using good by (auto simp: answer_def split_def Let_def)
    from again[OF load[OF this]] show ?thesis by (simp add: OpAffected afterOp_def split_def Let_def)
  qed (simp_all add: afterOp_def split_def Let_def)
qed

lemma good_keeps: "goodAns (answer os op s) \<Longrightarrow> answer os op' (afterOp os op s) = answer os op' s"
proof (induction s arbitrary: op op')
  case (Git g)
  then show ?case by (simp add: good_git)
next
  case (RawTree root all)
  then show ?case by (rule good_raw)
next
  case (InMemory content target)
  then show ?case by (cases op) (simp_all add: afterOp_def)
next
  case (Specified fs root base)
  show ?case
  proof (cases "\<exists>flt. op = OpAffected flt")
    case False
    then have "answer os op (Specified fs root base) = answer os op base"
      "afterOp os op (Specified fs root base) = Specified fs root (afterOp os op base)"
      by (cases op; simp add: specified_do)+
    then show ?thesis using Specified.IH[of op] Specified.prems by (simp add: specified_do split: scmOp.split)
  qed (auto simp: specified_do)
next
  case (Subdir s d)
  then show ?case by (simp add: subdir_do)
next
  case (Filtered m s)
  then show ?case by (simp add: filtered_do)
next
  case (Caching s affected all cs)
  show ?case by (rule good_caching[OF Caching.IH Caching.prems])
qed

lemma stable_run:
  assumes "\<And>op. op \<in> set ops \<Longrightarrow> goodAns (answer os op s)"
  shows "scmRun os ops s = map (\<lambda>op. answer os op s) ops"
  using assms
proof (induction ops arbitrary: s)
  case (Cons op ops)
  have same: "answer os op' (afterOp os op s) = answer os op' s" for op'
    by (rule good_keeps) (simp add: Cons.prems)
  then have "scmRun os ops (afterOp os op s) = map (\<lambda>op. answer os op (afterOp os op' s)) ops" if "op' = op" for op'
    using Cons.IH[of "afterOp os op s"] Cons.prems that by simp
  then show ?case using same by simp
qed simp

lemma fresh_cache: "answer os op (Caching s [] [] None) = answer os op s"
  by (simp add: caching_answer split: scmOp.split)

text \<open>
  C16. The cache cannot be told from the checkout it wraps, however this is itself wrapped: as long as
  the files and git stay as they are and none of the operations asked for fails, every sequence of
  listings, new lines and commits gets the same answers with the cache as without, and an operation
  that is asked for again gets the answer it got before.
\<close>

theorem cache_is_transparent:
  assumes "\<And>op. op \<in> set ops \<Longrightarrow> goodAns (answer os op s)"
  shows "scmRun os ops (Caching s [] [] None) = scmRun os ops s \<and>
    (\<forall>i < length ops. \<forall>j < length ops. ops ! i = ops ! j \<longrightarrow> scmRun os ops s ! i = scmRun os ops s ! j)"
proof -
  have "scmRun os ops (Caching s [] [] None) = map (\<lambda>op. answer os op (Caching s [] [] None)) ops"
    by (rule stable_run) (simp add: fresh_cache assms)
  moreover have "scmRun os ops s = map (\<lambda>op. answer os op s) ops" using assms by (rule stable_run)
  ultimately show ?thesis by (simp add: fresh_cache)
qed

theorem cache_is_transparent_witness:
  "scmRun (demoOs (\<lambda>_ _. ExecOk [])) [OpAffected demoFlt, OpCommits, OpAffected demoFlt]
      (Caching (Subdir demoScm ''d/'') [] [] None) =
    scmRun (demoOs (\<lambda>_ _. ExecOk [])) [OpAffected demoFlt, OpCommits, OpAffected demoFlt] (Subdir demoScm ''d/'')"
proof -
  have "goodAns (answer (demoOs (\<lambda>_ _. ExecOk [])) op (Subdir demoScm ''d/''))"
    if "op \<in> set [OpAffected demoFlt, OpCommits, OpAffected demoFlt]" for op
    using that by (auto simp: subdir_do answer_def demoScm_def)
  from cache_is_transparent[OF this] show ?thesis by blast
qed

end
