(* ===== verification/Scm_Slices.thy ===== *)
theory Scm_Slices
  imports Scm_Cache Runner
begin

text \<open>
  The listings of internal/engine/runtime_ctx_scm.go with the arrays they live in. A slice of files
  shares its array with everybody it was handed to, and filteredSCM.filter() "modifies the input slice
  of files in-place". Here a store holds the arrays, a listing is a slice of one of them, and the
  checkouts work on slices the way the code does. The theories that list files work on lists of
  files; this one shows that the checkouts run.go puts together make no difference, as the arrays that
  are filtered in place have just been made and nobody else has them.
\<close>

section \<open>Arrays and slices\<close>

text \<open>
  A slice is the number of its array with its length; every slice of files starts where its array
  does. Arrays are made at the end of the store and never freed. A nil slice is a slice of an array
  without elements, as no code compares a slice of files with nil.
\<close>

type_synonym arrays = "scmFile list list"

type_synonym slice = "nat \<times> nat"

definition readSlice :: "arrays \<Rightarrow> slice \<Rightarrow> scmFile list" where
  "readSlice h sl = take (snd sl) (h ! fst sl)"

definition newSlice :: "scmFile list \<Rightarrow> arrays \<Rightarrow> slice \<times> arrays" where
  "newSlice fs h = ((length h, length fs), h @ [fs])"

text \<open>
  The loop of filteredSCM.filter() on the elements of the slice: what it leaves in the array, and the
  length of the slice it returns.
\<close>

function ignoreInPlace :: "(scmFile \<Rightarrow> bool) \<Rightarrow> scmFile list \<Rightarrow> nat \<Rightarrow> nat \<Rightarrow> scmFile list \<times> nat" where
  "ignoreInPlace m fs i off =
     (if i + off < length fs then
        let fi = fs ! (i + off);
            off' = (if m fi then Suc off else off);
            i' = (if m fi then i else Suc i);
            fs' = (if i' + off' < length fs then fs[i' := fs ! (i' + off')] else fs)
        in ignoreInPlace m fs' i' off'
      else (fs, length fs - off))"
  by pat_completeness auto
termination
  by (relation "measure (\<lambda>(m, fs, i, off). length fs - (i + off))") (auto simp: Let_def)

declare ignoreInPlace.simps [simp del]

definition filterInPlace :: "(string list \<Rightarrow> bool \<Rightarrow> bool) \<Rightarrow> slice \<Rightarrow> arrays \<Rightarrow> slice \<times> arrays" where
  "filterInPlace matches sl h =
     (let (fs, n) = ignoreInPlace (\<lambda>fi. matches (Split (rootedpath fi) CHR ''/'') False) (readSlice h sl) 0 0
      in ((fst sl, n), h[fst sl := fs @ drop (snd sl) (h ! fst sl)]))"

section \<open>The checkouts on slices\<close>

text \<open>The checkouts of theory Scm, with slices where the code has them.\<close>

datatype sliceScm =
    SGit gitCheckout
  | SRawTree string "rawTreeFile list"
  | SInMemory string scmFile
  | SSpecified slice string sliceScm
  | SSubdir sliceScm string
  | SFiltered "string list \<Rightarrow> bool \<Rightarrow> bool" sliceScm
  | SCaching sliceScm "(fileFilter \<times> slice) list" "(fileFilter \<times> slice) list"
      "(scmCommit list \<times> err option) option"

datatype sliceListing = SFiles slice "err option" | SPanic string

text \<open>Listings that append to a slice of their own.\<close>

fun freshListing :: "listing \<Rightarrow> arrays \<Rightarrow> sliceListing \<times> arrays" where
  "freshListing (Files fs e) h = (let (sl, h') = newSlice fs h in (SFiles sl e, h'))"
| "freshListing (FilesPanic m) h = (SPanic m, h)"

text \<open>subdirSCM.filterFiles() allocates its result, filteredSCM.filter() does not.\<close>

fun subdirSlice :: "string \<Rightarrow> sliceListing \<Rightarrow> arrays \<Rightarrow> sliceListing \<times> arrays" where
  "subdirSlice d (SFiles sl e) h =
     (let (sl', h') = newSlice (filterFilesLoop d (readSlice h sl)) h in (SFiles sl' e, h'))"
| "subdirSlice d (SPanic m) h = (SPanic m, h)"

fun filteredSlice :: "(string list \<Rightarrow> bool \<Rightarrow> bool) \<Rightarrow> sliceListing \<Rightarrow> arrays \<Rightarrow> sliceListing \<times> arrays" where
  "filteredSlice m (SFiles sl e) h = (let (sl', h') = filterInPlace m sl h in (SFiles sl' e, h'))"
| "filteredSlice m (SPanic p) h = (SPanic p, h)"

fun storeSlice :: "fileFilter \<Rightarrow> sliceListing \<Rightarrow> (fileFilter \<times> slice) list \<Rightarrow> (fileFilter \<times> slice) list" where
  "storeSlice flt (SFiles sl e) cache = (flt, sl) # cache"
| "storeSlice flt (SPanic m) cache = cache"

primrec slice_allFiles :: "osView \<Rightarrow> fileFilter \<Rightarrow> sliceScm \<Rightarrow> arrays \<Rightarrow> sliceListing \<times> sliceScm \<times> arrays" where
  "slice_allFiles os flt (SGit g) h =
     (let (r, g') = git_allFiles os flt g; (l, h') = freshListing r h in (l, SGit g', h'))"
| "slice_allFiles os flt (SRawTree root all) h =
     (let (r, all') = raw_allFiles os flt root all; (l, h') = freshListing r h in (l, SRawTree root all', h'))"
| "slice_allFiles os flt (SInMemory content target) h =
     (let (l, h') = freshListing (inMemory_files target) h in (l, SInMemory content target, h'))"
| "slice_allFiles os flt (SSpecified sl root base) h =
     (let (l, base', h') = slice_allFiles os flt base h in (l, SSpecified sl root base', h'))"
| "slice_allFiles os flt (SSubdir s d) h =
     (let (l, s', h1) = slice_allFiles os flt s h; (l', h') = subdirSlice d l h1 in (l', SSubdir s' d, h'))"
| "slice_allFiles os flt (SFiltered m s) h =
     (let (l, s', h1) = slice_allFiles os flt s h; (l', h') = filteredSlice m l h1 in (l', SFiltered m s', h'))"
| "slice_allFiles os flt (SCaching s affected all cs) h =
     (case map_of all flt of
        Some sl \<Rightarrow> (SFiles sl None, SCaching s affected all cs, h)
      | None \<Rightarrow>
          (let (l, s', h') = slice_allFiles os flt s h in (l, SCaching s' affected (storeSlice flt l all) cs, h')))"

primrec slice_affectedFiles ::
    "osView \<Rightarrow> fileFilter \<Rightarrow> sliceScm \<Rightarrow> arrays \<Rightarrow> sliceListing \<times> sliceScm \<times> arrays" where
  "slice_affectedFiles os flt (SGit g) h =
     (let (r, g') = git_affectedFiles os flt g; (l, h') = freshListing r h in (l, SGit g', h'))"
| "slice_affectedFiles os flt (SRawTree root all) h =
     (let (r, all') = raw_affectedFiles os flt root all; (l, h') = freshListing r h in (l, SRawTree root all', h'))"
| "slice_affectedFiles os flt (SInMemory content target) h =
     (let (l, h') = freshListing (inMemory_files target) h in (l, SInMemory content target, h'))"
| "slice_affectedFiles os flt (SSpecified sl root base) h = (SFiles sl None, SSpecified sl root base, h)"
| "slice_affectedFiles os flt (SSubdir s d) h =
     (let (l, s', h1) = slice_affectedFiles os flt s h; (l', h') = subdirSlice d l h1 in (l', SSubdir s' d, h'))"
| "slice_affectedFiles os flt (SFiltered m s) h =
     (let (l, s', h1) = slice_affectedFiles os flt s h; (l', h') = filteredSlice m l h1 in (l', SFiltered m s', h'))"
| "slice_affectedFiles os flt (SCaching s affected all cs) h =
     (case map_of affected flt of
        Some sl \<Rightarrow> (SFiles sl None, SCaching s affected all cs, h)
      | None \<Rightarrow>
          (let (l, s', h') = slice_affectedFiles os flt s h in (l, SCaching s' (storeSlice flt l affected) all cs, h')))"

text \<open>A sequence of listings, with the arrays as they are after the last one.\<close>

datatype listOp = ListAll fileFilter | ListAffected fileFilter

fun sliceDo :: "osView \<Rightarrow> listOp \<Rightarrow> sliceScm \<Rightarrow> arrays \<Rightarrow> sliceListing \<times> sliceScm \<times> arrays" where
  "sliceDo os (ListAll flt) s h = slice_allFiles os flt s h"
| "sliceDo os (ListAffected flt) s h = slice_affectedFiles os flt s h"

fun sliceRun :: "osView \<Rightarrow> listOp list \<Rightarrow> sliceScm \<Rightarrow> arrays \<Rightarrow> sliceListing list \<times> arrays" where
  "sliceRun os [] s h = ([], h)"
| "sliceRun os (op # ops) s h =
     (let (l, s', h') = sliceDo os op s h; (ls, h'') = sliceRun os ops s' h' in (l # ls, h''))"

section \<open>What the slices stand for\<close>

fun readListing :: "arrays \<Rightarrow> sliceListing \<Rightarrow> listing" where
  "readListing h (SFiles sl e) = Files (readSlice h sl) e"
| "readListing h (SPanic m) = FilesPanic m"

definition readCache :: "arrays \<Rightarrow> (fileFilter \<times> slice) list \<Rightarrow> (fileFilter \<times> scmFile list) list" where
  "readCache h = map (\<lambda>(flt, sl). (flt, readSlice h sl))"

primrec readScm :: "arrays \<Rightarrow> sliceScm \<Rightarrow> scm" where
  "readScm h (SGit g) = Git g"
| "readScm h (SRawTree root all) = RawTree root all"
| "readScm h (SInMemory content target) = InMemory content target"
| "readScm h (SSpecified sl root base) = Specified (readSlice h sl) root (readScm h base)"
| "readScm h (SSubdir s d) = Subdir (readScm h s) d"
| "readScm h (SFiltered m s) = Filtered m (readScm h s)"
| "readScm h (SCaching s affected all cs) = Caching (readScm h s) (readCache h affected) (readCache h all) cs"

fun opOf :: "listOp \<Rightarrow> scmOp" where
  "opOf (ListAll flt) = OpAll flt"
| "opOf (ListAffected flt) = OpAffected flt"

text \<open>The arrays a checkout has kept, and the checkouts that list files in arrays of their own.\<close>

primrec keptSlices :: "sliceScm \<Rightarrow> slice set" where
  "keptSlices (SGit g) = {}"
| "keptSlices (SRawTree root all) = {}"
| "keptSlices (SInMemory content target) = {}"
| "keptSlices (SSpecified sl root base) = insert sl (keptSlices base)"
| "keptSlices (SSubdir s d) = keptSlices s"
| "keptSlices (SFiltered m s) = keptSlices s"
| "keptSlices (SCaching s affected all cs) = keptSlices s \<union> snd ` set affected \<union> snd ` set all"

fun ownArrays :: "sliceScm \<Rightarrow> bool" where
  "ownArrays (SSpecified sl root base) \<longleftrightarrow> False"
| "ownArrays (SCaching s affected all cs) \<longleftrightarrow> False"
| "ownArrays (SFiltered m s) \<longleftrightarrow> ownArrays s"
| "ownArrays s \<longleftrightarrow> True"

primrec filtersOwn :: "sliceScm \<Rightarrow> bool" where
  "filtersOwn (SGit g) \<longleftrightarrow> True"
| "filtersOwn (SRawTree root all) \<longleftrightarrow> True"
| "filtersOwn (SInMemory content target) \<longleftrightarrow> True"
| "filtersOwn (SSpecified sl root base) \<longleftrightarrow> filtersOwn base"
| "filtersOwn (SSubdir s d) \<longleftrightarrow> filtersOwn s"
| "filtersOwn (SFiltered m s) \<longleftrightarrow> ownArrays s \<and> filtersOwn s"
| "filtersOwn (SCaching s affected all cs) \<longleftrightarrow> filtersOwn s"

text \<open>Putting the slices under a checkout of lists.\<close>

primrec toSlices :: "scm \<Rightarrow> arrays \<Rightarrow> sliceScm \<times> arrays" where
  "toSlices (Git g) h = (SGit g, h)"
| "toSlices (RawTree root all) h = (SRawTree root all, h)"
| "toSlices (InMemory content target) h = (SInMemory content target, h)"
| "toSlices (Specified fs root base) h =
     (let (sl, h1) = newSlice fs h; (base', h') = toSlices base h1 in (SSpecified sl root base', h'))"
| "toSlices (Subdir s d) h = (let (s', h') = toSlices s h in (SSubdir s' d, h'))"
| "toSlices (Filtered m s) h = (let (s', h') = toSlices s h in (SFiltered m s', h'))"
| "toSlices (Caching s affected all cs) h = (let (s', h') = toSlices s h in (SCaching s' [] [] cs, h'))"

section \<open>The loop in place\<close>

lemma ignoreInPlace_loop:
  "ignoreLoop m fs i off = take (snd (ignoreInPlace m fs i off)) (fst (ignoreInPlace m fs i off)) \<and>
   length (fst (ignoreInPlace m fs i off)) = length fs \<and> snd (ignoreInPlace m fs i off) \<le> length fs"
proof (induction m fs i off rule: ignoreInPlace.induct)
  case (1 m fs i off)
  show ?case
  proof (cases "i + off < length fs")
    case True
    define off' where "off' = (if m (fs ! (i + off)) then Suc off else off)"
    define i' where "i' = (if m (fs ! (i + off)) then i else Suc i)"
    define fs' where "fs' = (if i' + off' < length fs then fs[i' := fs ! (i' + off')] else fs)"
    note defs = off'_def i'_def fs'_def
    have "ignoreInPlace m fs i off = ignoreInPlace m fs' i' off'"
      using True by (subst ignoreInPlace.simps) (simp add: Let_def defs)
    moreover have "ignoreLoop m fs i off = ignoreLoop m fs' i' off'"
      using True by (subst ignoreLoop.simps) (simp add: Let_def defs)
    moreover have "length fs' = length fs" by (simp add: fs'_def)
    ultimately show ?thesis using "1.IH"[OF True refl off'_def i'_def fs'_def] by simp
  qed (simp add: ignoreInPlace.simps[of m fs] ignoreLoop.simps[of m fs])
qed

definition okSlice :: "arrays \<Rightarrow> slice \<Rightarrow> bool" where
  "okSlice h sl \<longleftrightarrow> fst sl < length h \<and> snd sl \<le> length (h ! fst sl)"

lemma readSlice_append [simp]: "okSlice h sl \<Longrightarrow> readSlice (h @ t) sl = readSlice h sl"
  by (simp add: okSlice_def readSlice_def nth_append)

lemma okSlice_append [simp]: "okSlice h sl \<Longrightarrow> okSlice (h @ t) sl"
  by (simp add: okSlice_def nth_append)

lemma readSlice_update [simp]: "fst sl \<noteq> a \<Longrightarrow> readSlice (h[a := x]) sl = readSlice h sl"
  by (simp add: readSlice_def)

lemma okSlice_update [simp]: "fst sl \<noteq> a \<Longrightarrow> okSlice (h[a := x]) sl = okSlice h sl"
  by (simp add: okSlice_def)

lemma filterInPlace_filters:
  assumes "filterInPlace m sl h = (sl', h')" and "okSlice h sl"
  shows "readSlice h' sl' = filteredSCM_filter m (readSlice h sl) \<and> okSlice h' sl' \<and> fst sl' = fst sl \<and>
    (\<exists>x. h' = h[fst sl := x])"
proof -
  obtain fs n where run: "ignoreInPlace (\<lambda>fi. m (Split (rootedpath fi) CHR ''/'') False) (readSlice h sl) 0 0 = (fs, n)"
    by fastforce
  then have h': "h' = h[fst sl := fs @ drop (snd sl) (h ! fst sl)]" "sl' = (fst sl, n)"
    using assms(1) by (simp_all add: filterInPlace_def)
  have "filteredSCM_filter m (readSlice h sl) = take n fs" "length fs = length (readSlice h sl)" "n \<le> length fs"
    using ignoreInPlace_loop[of "\<lambda>fi. m (Split (rootedpath fi) CHR ''/'') False" "readSlice h sl" 0 0] run
    by (simp_all add: filteredSCM_filter_def)
  then show ?thesis using h' assms(2) by (auto simp: readSlice_def okSlice_def)
qed

section \<open>A call on slices against the call on lists\<close>

text \<open>
  What is the same before and after an array grows the store or changes: everything that does not
  use the array.
\<close>

lemma readCache_cong: "(\<And>sl. sl \<in> snd ` set cache \<Longrightarrow> readSlice h' sl = readSlice h sl) \<Longrightarrow> readCache h' cache = readCache h cache"
  by (force simp: readCache_def)

lemma readScm_cong: "(\<And>sl. sl \<in> keptSlices s \<Longrightarrow> readSlice h' sl = readSlice h sl) \<Longrightarrow> readScm h' s = readScm h s"
proof (induction s)
  case (SCaching s affected all cs)
  then have "readCache h' affected = readCache h affected" "readCache h' all = readCache h all"
    by (auto intro!: readCache_cong simp del: split_paired_All)
  then show ?case using SCaching by simp
qed auto

lemma map_of_readCache: "map_of (readCache h cache) flt = map_option (readSlice h) (map_of cache flt)"
  by (induction cache) (auto simp: readCache_def)

definition keptOk :: "arrays \<Rightarrow> sliceScm \<Rightarrow> bool" where
  "keptOk h s \<longleftrightarrow> (\<forall>sl \<in> keptSlices s. okSlice h sl)"

lemma readScm_append [simp]: "keptOk h s \<Longrightarrow> readScm (h @ t) s = readScm h s"
  by (rule readScm_cong) (simp add: keptOk_def)

lemma keptOk_append [simp]: "keptOk h s \<Longrightarrow> keptOk (h @ t) s"
  by (simp add: keptOk_def)

fun okListing :: "arrays \<Rightarrow> sliceListing \<Rightarrow> bool" where
  "okListing h (SFiles sl e) \<longleftrightarrow> okSlice h sl"
| "okListing h (SPanic m) \<longleftrightarrow> True"

text \<open>The slice of a listing is a new array that the checkout has not kept.\<close>

fun ownListing :: "arrays \<Rightarrow> sliceScm \<Rightarrow> sliceListing \<Rightarrow> bool" where
  "ownListing h s (SFiles sl e) \<longleftrightarrow> length h \<le> fst sl \<and> fst sl \<notin> fst ` keptSlices s"
| "ownListing h s (SPanic m) \<longleftrightarrow> True"

text \<open>
  A call on slices gives what the call on lists gives, only adds arrays, and leaves a checkout of the
  same kind. A checkout with arrays of its own gives one that nobody else has.
\<close>

definition served :: "arrays \<Rightarrow> sliceScm \<Rightarrow> listing \<times> scm \<Rightarrow> sliceListing \<times> sliceScm \<times> arrays \<Rightarrow> bool" where
  "served h s v = (\<lambda>(l, s', h').
     (\<exists>t. h' = h @ t) \<and> v = (readListing h' l, readScm h' s') \<and> keptOk h' s' \<and> okListing h' l \<and>
     filtersOwn s' = filtersOwn s \<and> ownArrays s' = ownArrays s \<and> (ownArrays s \<longrightarrow> ownListing h s' l))"

lemma newSlice_spec:
  "newSlice fs h = (sl, h') \<Longrightarrow> h' = h @ [fs] \<and> sl = (length h, length fs) \<and> okSlice h' sl \<and> readSlice h' sl = fs"
  by (auto simp: newSlice_def okSlice_def readSlice_def)

lemma served_fresh:
  assumes "freshListing r h = (l, h')" and "keptSlices s' = {}" and "\<And>h. readScm h s' = c"
    and "filtersOwn s' = filtersOwn s" and "ownArrays s' = ownArrays s"
  shows "served h s (r, c) (l, s', h')"
  using assms by (cases r) (auto simp: served_def keptOk_def dest!: newSlice_spec split: prod.splits)

lemma kept_fst: "keptOk h s \<Longrightarrow> a \<in> fst ` keptSlices s \<Longrightarrow> a < length h"
  by (auto simp: keptOk_def okSlice_def)

lemma served_subdir:
  assumes "served h s (r, c) (l, s', h1)" and "subdirSlice d l h1 = (l', h')"
  shows "served h (SSubdir s d) (mapListing (filterFilesLoop d) r, Subdir c d) (l', SSubdir s' d, h')"
proof (cases l)
  case (SFiles sl e)
  then obtain t where h1: "h1 = h @ t" "r = Files (readSlice h1 sl) e" "c = readScm h1 s'" "keptOk h1 s'"
    "filtersOwn s' = filtersOwn s"
    using assms(1) by (auto simp: served_def)
  obtain sl' where "newSlice (filterFilesLoop d (readSlice h1 sl)) h1 = (sl', h')" and l': "l' = SFiles sl' e"
    using assms(2) SFiles by (auto split: prod.splits)
  from newSlice_spec[OF this(1)]
  obtain x where n: "h' = h1 @ [x]" "fst sl' = length h1" "okSlice h' sl'"
    "readSlice h' sl' = filterFilesLoop d (readSlice h1 sl)" by force
  have "length h1 \<notin> fst ` keptSlices s'" using kept_fst h1(4) by blast
  moreover have "readScm h' s' = readScm h1 s'" "keptOk h' s'" using h1(4) by (simp_all add: n(1))
  moreover have "\<exists>t. h' = h @ t" "length h \<le> length h1" using h1(1) n(1) by simp_all
  ultimately show ?thesis using h1(2,3,5) n(2-4) l' by (simp add: served_def keptOk_def)
qed (use assms in \<open>auto simp: served_def keptOk_def\<close>)

lemma served_filtered:
  assumes "served h s (r, c) (l, s', h1)" and "filteredSlice m l h1 = (l', h')" and "ownArrays s"
  shows "served h (SFiltered m s) (mapListing (filteredSCM_filter m) r, Filtered m c) (l', SFiltered m s', h')"
proof (cases l)
  case (SFiles sl e)
  then obtain t where h1: "h1 = h @ t" "r = Files (readSlice h1 sl) e" "c = readScm h1 s'" "keptOk h1 s'"
    "filtersOwn s' = filtersOwn s" "okSlice h1 sl" "length h \<le> fst sl" "fst sl \<notin> fst ` keptSlices s'" "ownArrays s'"
    using assms by (auto simp: served_def)
  obtain sl' where "filterInPlace m sl h1 = (sl', h')" and l': "l' = SFiles sl' e"
    using assms(2) SFiles by (auto split: prod.splits)
  from filterInPlace_filters[OF this(1) h1(6)]
  obtain x where f: "readSlice h' sl' = filteredSCM_filter m (readSlice h1 sl)" "okSlice h' sl'" "fst sl' = fst sl"
    "h' = h1[fst sl := x]" by blast
  have kept: "fst k \<noteq> fst sl" if "k \<in> keptSlices s'" for k using that h1(8) by (metis imageI)
  have "readScm h' s' = readScm h1 s'" by (rule readScm_cong) (simp add: f(4) kept)
  moreover have "keptOk h' (SFiltered m s')" using h1(4) kept by (simp add: keptOk_def f(4))
  moreover have "h' = h @ t[fst sl - length h := x]" using h1(1,7) f(4) by (simp add: list_update_append)
  ultimately show ?thesis using h1 f(1-3) l' assms(3) by (auto simp: served_def)
qed (use assms in \<open>auto simp: served_def keptOk_def\<close>)

lemma readCache_append: "\<forall>sl \<in> snd ` set cache. okSlice h sl \<Longrightarrow> readCache (h @ t) cache = readCache h cache"
  by (intro readCache_cong readSlice_append) blast

text \<open>A miss in a cache, whose other slices stay what they are.\<close>

lemma served_miss:
  assumes "served h s (r, c) (l, s', h')" and "map_of cache flt = None" and "\<forall>sl \<in> snd ` set cache. okSlice h sl"
  shows "cached (readCache h cache) flt (r, c) c0 = (readListing h' l, readScm h' s', readCache h' (storeSlice flt l cache)) \<and>
    (\<forall>sl \<in> snd ` set (storeSlice flt l cache). okSlice h' sl)"
proof -
  obtain t where h': "h' = h @ t" "okListing h' l" "r = readListing h' l" "c = readScm h' s'"
    using assms(1) by (auto simp: served_def)
  have "readCache h' cache = readCache h cache" unfolding h'(1) by (rule readCache_append[OF assms(3)])
  moreover have "\<forall>sl \<in> snd ` set cache. okSlice h' sl" using assms(3) by (auto simp: h'(1))
  moreover have "map_of (readCache h cache) flt = None" by (simp add: map_of_readCache assms(2))
  ultimately show ?thesis using h'(2-4) by (cases l) (simp_all add: cached_def readCache_def)
qed

lemma served_all_miss:
  assumes "served h s (r, c) (l, s', h')" and "keptOk h (SCaching s affected all cs)" and "map_of all flt = None"
  shows "served h (SCaching s affected all cs)
    (let (r', c', all') = cached (readCache h all) flt (r, c) (readScm h s) in (r', Caching c' (readCache h affected) all' cs))
    (l, SCaching s' affected (storeSlice flt l all) cs, h')"
proof -
  have ok: "\<forall>sl \<in> snd ` set all. okSlice h sl" "\<forall>sl \<in> snd ` set affected. okSlice h sl"
    using assms(2) by (auto simp: keptOk_def)
  obtain t where h': "h' = h @ t" using assms(1) by (auto simp: served_def)
  have "readCache h' affected = readCache h affected" unfolding h' by (rule readCache_append[OF ok(2)])
  moreover have "\<forall>sl \<in> snd ` set affected. okSlice h' sl" using ok(2) by (auto simp: h')
  ultimately show ?thesis using assms(1) served_miss[OF assms(1,3) ok(1)] by (simp add: served_def keptOk_def Ball_def)
qed

lemma served_affected_miss:
  assumes "served h s (r, c) (l, s', h')" and "keptOk h (SCaching s affected all cs)" and "map_of affected flt = None"
  shows "served h (SCaching s affected all cs)
    (let (r', c', affected') = cached (readCache h affected) flt (r, c) (readScm h s) in (r', Caching c' affected' (readCache h all) cs))
    (l, SCaching s' (storeSlice flt l affected) all cs, h')"
proof -
  have ok: "\<forall>sl \<in> snd ` set all. okSlice h sl" "\<forall>sl \<in> snd ` set affected. okSlice h sl"
    using assms(2) by (auto simp: keptOk_def)
  obtain t where h': "h' = h @ t" using assms(1) by (auto simp: served_def)
  have "readCache h' all = readCache h all" unfolding h' by (rule readCache_append[OF ok(1)])
  moreover have "\<forall>sl \<in> snd ` set all. okSlice h' sl" using ok(1) by (auto simp: h')
  ultimately show ?thesis using assms(1) served_miss[OF assms(1,3) ok(2)] by (simp add: served_def keptOk_def Ball_def)
qed

text \<open>A slice that has been kept already.\<close>

lemma served_kept:
  assumes "keptOk h s" and "sl \<in> keptSlices s" and "\<not> ownArrays s"
  shows "served h s (Files (readSlice h sl) None, readScm h s) (SFiles sl None, s, h)"
  using assms by (simp add: served_def keptOk_def)

lemma served_specified:
  assumes "served h base (r, c) (l, base', h')" and "okSlice h sl"
  shows "served h (SSpecified sl root base) (r, Specified (readSlice h sl) root c) (l, SSpecified sl root base', h')"
proof -
  obtain t where "h' = h @ t" using assms(1) by (auto simp: served_def)
  then have "readSlice h' sl = readSlice h sl" "okSlice h' sl" using assms(2) by simp_all
  then show ?thesis using assms(1) by (simp add: served_def keptOk_def)
qed

text \<open>The methods of the wrappers on what the wrapped checkout answers.\<close>

lemma fresh_call: 
  assumes "keptSlices s' = {}" and "\<And>h. readScm h s' = c" and "filtersOwn s' = filtersOwn s" and "ownArrays s' = ownArrays s"
  shows "served h s (r, c) (let (l, h') = freshListing r h in (l, s', h'))"
  using served_fresh[OF _ assms(1,2,3,4)] by (cases "freshListing r h") simp

lemma subdir_call:
  assumes "served h s v w"
  shows "served h (SSubdir s d) (subdir_list d v)
    (let (l, s', h1) = w; (l', h') = subdirSlice d l h1 in (l', SSubdir s' d, h'))"
proof -
  obtain l s' h1 where w: "w = (l, s', h1)" by (metis prod_cases3)
  then show ?thesis using assms served_subdir[of h s "fst v" "snd v" l s' h1]
    by (cases v; cases "subdirSlice d l h1") simp
qed

lemma filtered_call:
  assumes "served h s v w" and "ownArrays s"
  shows "served h (SFiltered m s) (filtered_list m v)
    (let (l, s', h1) = w; (l', h') = filteredSlice m l h1 in (l', SFiltered m s', h'))"
proof -
  obtain l s' h1 where w: "w = (l, s', h1)" by (metis prod_cases3)
  then show ?thesis using assms served_filtered[of h s "fst v" "snd v" l s' h1]
    by (cases v; cases "filteredSlice m l h1") simp
qed

lemma allFiles_served:
  "keptOk h s \<Longrightarrow> filtersOwn s \<Longrightarrow> served h s (scm_allFiles os flt (readScm h s)) (slice_allFiles os flt s h)"
proof (induction s arbitrary: h)
  case (SGit g)
  show ?case using fresh_call[of "SGit (snd (git_allFiles os flt g))"] by (simp add: split_def Let_def)
next
  case (SRawTree root all)
  show ?case using fresh_call[of "SRawTree root (snd (raw_allFiles os flt root all))"] by (simp add: split_def Let_def)
next
  case (SInMemory content target)
  show ?case using fresh_call[of "SInMemory content target"]
    by (simp del: freshListing.simps)
next
  case (SSpecified sl root base)
  obtain r c where v: "scm_allFiles os flt (readScm h base) = (r, c)" by fastforce
  obtain l s' h' where w: "slice_allFiles os flt base h = (l, s', h')" by (metis prod_cases3)
  have "served h base (r, c) (l, s', h')" using SSpecified.IH[of h] SSpecified.prems by (simp add: keptOk_def v w)
  then show ?case using SSpecified.prems by (simp add: v w keptOk_def served_specified)
next
  case (SSubdir s d)
  then have "served h s (scm_allFiles os flt (readScm h s)) (slice_allFiles os flt s h)" by (simp add: keptOk_def)
  from subdir_call[OF this] show ?case by (simp del: subdir_list_def)
next
  case (SFiltered m s)
  then have "served h s (scm_allFiles os flt (readScm h s)) (slice_allFiles os flt s h)" and own: "ownArrays s" by (simp_all add: keptOk_def)
  from filtered_call[OF this] show ?case by (simp del: filtered_list_def)
next
  case (SCaching s affected all cs)
  show ?case
  proof (cases "map_of all flt")
    case None
    obtain r c where v: "scm_allFiles os flt (readScm h s) = (r, c)" by fastforce
    obtain l s' h' where w: "slice_allFiles os flt s h = (l, s', h')" by (metis prod_cases3)
    have "served h s (r, c) (l, s', h')" using SCaching.IH[of h] SCaching.prems by (simp add: keptOk_def v w)
    from served_all_miss[OF this SCaching.prems(1) None] show ?thesis by (simp add: None v w)
  next
    case (Some sl)
    then have "sl \<in> keptSlices (SCaching s affected all cs)" by (force dest: map_of_SomeD)
    from served_kept[OF SCaching.prems(1) this] show ?thesis
      by (simp add: Some cached_hit map_of_readCache)
  qed
qed

lemma affectedFiles_served:
  "keptOk h s \<Longrightarrow> filtersOwn s \<Longrightarrow> served h s (scm_affectedFiles os flt (readScm h s)) (slice_affectedFiles os flt s h)"
proof (induction s arbitrary: h)
  case (SGit g)
  show ?case using fresh_call[of "SGit (snd (git_affectedFiles os flt g))"] by (simp add: split_def Let_def)
next
  case (SRawTree root all)
  show ?case using fresh_call[of "SRawTree root (snd (raw_allFiles os flt root all))"] by (simp add: split_def Let_def)
next
  case (SInMemory content target)
  show ?case using fresh_call[of "SInMemory content target"]
    by (simp del: freshListing.simps)
next
  case (SSpecified sl root base)
  show ?case using served_kept[OF SSpecified.prems(1), of sl] by simp
next
  case (SSubdir s d)
  then have "served h s (scm_affectedFiles os flt (readScm h s)) (slice_affectedFiles os flt s h)" by (simp add: keptOk_def)
  from subdir_call[OF this] show ?case by (simp del: subdir_list_def)
next
  case (SFiltered m s)
  then have "served h s (scm_affectedFiles os flt (readScm h s)) (slice_affectedFiles os flt s h)" and own: "ownArrays s" by (simp_all add: keptOk_def)
  from filtered_call[OF this] show ?case by (simp del: filtered_list_def)
next
  case (SCaching s affected all cs)
  show ?case
  proof (cases "map_of affected flt")
    case None
    obtain r c where v: "scm_affectedFiles os flt (readScm h s) = (r, c)" by fastforce
    obtain l s' h' where w: "slice_affectedFiles os flt s h = (l, s', h')" by (metis prod_cases3)
    have "served h s (r, c) (l, s', h')" using SCaching.IH[of h] SCaching.prems by (simp add: keptOk_def v w)
    from served_affected_miss[OF this SCaching.prems(1) None] show ?thesis by (simp add: None v w)
  next
    case (Some sl)
    then have "sl \<in> keptSlices (SCaching s affected all cs)" by (force dest: map_of_SomeD)
    from served_kept[OF SCaching.prems(1) this] show ?thesis
      by (simp add: Some cached_hit map_of_readCache)
  qed
qed

section \<open>Sequences of listings\<close>

lemma listing_served:
  assumes "keptOk h s" and "filtersOwn s"
  shows "\<exists>l s' t. sliceDo os op s h = (l, s', h @ t) \<and> okListing (h @ t) l \<and> keptOk (h @ t) s' \<and> filtersOwn s' \<and>
    answer os (opOf op) (readScm h s) = AnsFiles (readListing (h @ t) l) \<and>
    afterOp os (opOf op) (readScm h s) = readScm (h @ t) s'"
proof -
  obtain l s' h' where w: "sliceDo os op s h = (l, s', h')" by (metis prod_cases3)
  have "served h s (case op of ListAll flt \<Rightarrow> scm_allFiles os flt (readScm h s)
      | ListAffected flt \<Rightarrow> scm_affectedFiles os flt (readScm h s)) (l, s', h')"
    using allFiles_served[OF assms] affectedFiles_served[OF assms] w[symmetric] by (cases op) simp_all
  then show ?thesis using w assms by (cases op) (auto simp: served_def answer_def afterOp_def)
qed

lemma readListing_append [simp]: "okListing h l \<Longrightarrow> readListing (h @ t) l = readListing h l"
  by (cases l) simp_all

lemma slices_run:
  "keptOk h s \<Longrightarrow> filtersOwn s \<Longrightarrow>
   (\<exists>t. snd (sliceRun os ops s h) = h @ t) \<and>
   map (\<lambda>l. AnsFiles (readListing (snd (sliceRun os ops s h)) l)) (fst (sliceRun os ops s h)) =
     scmRun os (map opOf ops) (readScm h s)"
proof (induction ops arbitrary: s h)
  case (Cons op ops)
  obtain l s' t where d: "sliceDo os op s h = (l, s', h @ t)" "okListing (h @ t) l" "keptOk (h @ t) s'" "filtersOwn s'"
    "answer os (opOf op) (readScm h s) = AnsFiles (readListing (h @ t) l)"
    "afterOp os (opOf op) (readScm h s) = readScm (h @ t) s'"
    using listing_served[OF Cons.prems] by blast
  obtain ls h'' where r: "sliceRun os ops s' (h @ t) = (ls, h'')" by fastforce
  have IH: "\<exists>t'. h'' = h @ t @ t'" "map (\<lambda>l. AnsFiles (readListing h'' l)) ls = scmRun os (map opOf ops) (readScm (h @ t) s')"
    using Cons.IH[OF d(3,4)] by (simp_all add: r)
  have "readListing h'' l = readListing (h @ t) l" using IH(1) readListing_append[OF d(2)] by auto
  then show ?case using IH d(1,5,6) r by auto
qed simp

section \<open>The checkouts of a run\<close>

lemma getSCM_shape:
  "getSCM os ev root all = Ok s \<Longrightarrow> (\<exists>g. s = Git g) \<or> (\<exists>g d. s = Subdir (Git g) d) \<or> (\<exists>r. s = RawTree r [])"
  by (auto simp: getSCM_def Let_def bindO_eq_Ok split: option.splits if_splits)

lemma chooseScm_shape:
  assumes "chooseScm re opts doc root = Ok c"
  shows "\<exists>s. c = Caching s [] [] None \<and>
    ((\<exists>fs r base. s = Specified fs r base \<and> getSCM (reOs re) (fvEval (reFs re)) root False = Ok base) \<or>
     (\<exists>content target. s = InMemory content target) \<or>
     (\<exists>b. getSCM (reOs re) (fvEval (reFs re)) root (oAllFiles opts) = Ok b \<and> (s = b \<or> (\<exists>m. s = Filtered m b))))"
  using assms by (auto simp: chooseScm_def bindO_eq_Ok split: if_splits)

definition putUnder :: "scm \<Rightarrow> arrays \<Rightarrow> bool" where
  "putUnder s h \<longleftrightarrow> (let (s', h') = toSlices s h in
     keptOk h' s' \<and> filtersOwn s' \<and> readScm h' s' = s)"

lemma putUnder_base:
  assumes "getSCM os ev root all = Ok s"
  shows "putUnder s h" and "ownArrays (fst (toSlices s h))" and "snd (toSlices s h) = h"
  using getSCM_shape[OF assms] by (auto simp: putUnder_def keptOk_def)

lemma putUnder_wrappers:
  "putUnder s h \<Longrightarrow> putUnder (Subdir s d) h"
  "putUnder s h \<Longrightarrow> putUnder (Caching s [] [] None) h"
  "putUnder s h \<Longrightarrow> ownArrays (fst (toSlices s h)) \<Longrightarrow> putUnder (Filtered m s) h"
  by (auto simp: putUnder_def keptOk_def readCache_def split: prod.splits)

lemma putUnder_specified:
  assumes "getSCM os ev root all = Ok s"
  shows "putUnder (Specified fs r s) h"
  using putUnder_base[OF assms, of "h @ [fs]"]
  by (auto simp: putUnder_def newSlice_def keptOk_def okSlice_def readSlice_def nth_append split: prod.splits)

lemma putUnder_chosen:
  assumes "chooseScm re opts doc root = Ok c"
  shows "putUnder c h"
proof -
  obtain s where c: "c = Caching s [] [] None" and s:
    "(\<exists>fs r base. s = Specified fs r base \<and> getSCM (reOs re) (fvEval (reFs re)) root False = Ok base) \<or>
     (\<exists>content target. s = InMemory content target) \<or>
     (\<exists>b. getSCM (reOs re) (fvEval (reFs re)) root (oAllFiles opts) = Ok b \<and> (s = b \<or> (\<exists>m. s = Filtered m b)))"
    using chooseScm_shape[OF assms] by blast
  have "putUnder (InMemory content target) h" for content target by (simp add: putUnder_def keptOk_def)
  then have "putUnder s h" using s putUnder_base putUnder_specified putUnder_wrappers(3) by metis
  then show ?thesis unfolding c by (rule putUnder_wrappers(2))
qed

text \<open>
  C15. The slices that the checkouts of a run hand out behave like lists: in every sequence of listings
  of the checkout that run.go chooses, or of a subdirectory of it, each slice, read after all the
  listings, holds the files that the checkout of lists answers for this call, although ignored files
  are removed from their array in place and the cache hands one array to many; and no array that was
  there before is changed.
\<close>

theorem slices_are_lists:
  assumes "chooseScm re opts doc root = Ok c" and "s \<in> {c, Subdir c d}"
  shows "map (\<lambda>l. AnsFiles (readListing (snd (sliceRun os ops (fst (toSlices s h)) (snd (toSlices s h)))) l))
      (fst (sliceRun os ops (fst (toSlices s h)) (snd (toSlices s h)))) = scmRun os (map opOf ops) s \<and>
    (\<exists>t. snd (sliceRun os ops (fst (toSlices s h)) (snd (toSlices s h))) = snd (toSlices s h) @ t)"
proof -
  have "putUnder s h" using assms putUnder_chosen putUnder_wrappers(1) by blast
  then have "keptOk (snd (toSlices s h)) (fst (toSlices s h))" "filtersOwn (fst (toSlices s h))"
    "readScm (snd (toSlices s h)) (fst (toSlices s h)) = s"
    by (simp_all add: putUnder_def split: prod.splits)
  from slices_run[OF this(1,2), of os ops] this(3) show ?thesis by simp
qed

text \<open>
  Were files that somebody else keeps filtered in place, a second listing would show a file twice:
  here ignore patterns over the files of the command line, an order run.go does not build.
\<close>

lemma filtering_kept_files:
  "(let (ls, h) = sliceRun os [ListAffected flt, ListAffected flt]
        (SFiltered (\<lambda>path d. path = [''a'']) (SSpecified (0, 2) [] (SRawTree [] []))) [[FileImpl ''a'' [], FileImpl ''b'' []]]
    in map (readListing h) ls) = [Files [FileImpl ''b'' []] None, Files [FileImpl ''b'' [], FileImpl ''b'' []] None]"
  by (simp add: filterInPlace_def readSlice_def ignoreInPlace.simps Split.simps numeral_2_eq_2 Let_def)

definition demoIgnoring :: runEnv where
  "demoIgnoring = demoRe\<lparr>reMatcher := (\<lambda>_ path _. path = [''a''])\<rparr>"

definition demoTree :: osView where
  "demoTree = (reOs demoRe)\<lparr>osWalk := (\<lambda>_. map (\<lambda>p. \<lparr>walkPath = p, walkErr = False, walkIsDir = False,
     walkIsSymlink = False\<rparr>) [''/r/a'', ''/r/b''])\<rparr>"

abbreviation demoIgnored :: scm where
  "demoIgnored \<equiv> Caching (Filtered (\<lambda>path _. path = [''a'']) (RawTree ''/r'' [])) [] [] None"

lemma demo_choice: "chooseScm demoIgnoring plainOptions (emptyDoc\<lparr>Ignore := [''a'']\<rparr>) ''/r'' = Ok demoIgnored"
  by (simp add: chooseScm_def demoIgnoring_def demoRe_def plainOptions_def demoOptions_def emptyDoc_def getSCM_def
      g_init_def g_run_def runGitCmd_def demoOs_def isNotFound_def Let_def)

theorem slices_are_lists_witness:
  "map (\<lambda>l. AnsFiles (readListing (snd (sliceRun demoTree [ListAll demoFlt, ListAffected demoFlt, ListAll demoFlt]
         (fst (toSlices demoIgnored [])) [])) l))
      (fst (sliceRun demoTree [ListAll demoFlt, ListAffected demoFlt, ListAll demoFlt] (fst (toSlices demoIgnored [])) [])) =
    scmRun demoTree [OpAll demoFlt, OpAffected demoFlt, OpAll demoFlt] demoIgnored"
  using slices_are_lists[OF demo_choice insertI1, of demoTree "[ListAll demoFlt, ListAffected demoFlt, ListAll demoFlt]" "[]"]
  by simp

end
