(* ===== verification/Proc_Limit.thy ===== *)
theory Proc_Limit
  imports Go_Prelude Step_System
begin

text \<open>
  How many commands run at once. ctx.os.exec() starts a goroutine for each command
  (runtime_ctx_os.go), which acquires the semaphore that all checks share (run.go), runs the command,
  releases the semaphore, sends the command's error to a channel with room for one and closes it;
  wait() and cleanup() receive from that channel. The semaphore is semaphore.Weighted, translated
  from the vendored copy; each of its critical sections is one step, and so is each operation on the
  channel. The goroutines are numbered; the context may be cancelled at any time.
\<close>

section \<open>semaphore.Weighted\<close>

text \<open>The waiters are in the order of their arrival, each with the goroutine that waits and its weight.\<close>

record weighted =
  wSize :: int
  wCur :: int
  wWaiters :: "(nat \<times> int) list"

text \<open>The waiters that get their tokens, first come first served; their channels are closed.\<close>

fun notifyLoop :: "int \<Rightarrow> int \<Rightarrow> (nat \<times> int) list \<Rightarrow> int \<times> (nat \<times> int) list \<times> nat list" where
  "notifyLoop cap cur [] = (cur, [], [])"
| "notifyLoop cap cur ((g, n) # ws) =
     (if cap - cur < n then (cur, (g, n) # ws, [])
      else let (cur', rest, granted) = notifyLoop cap (cur + n) ws in (cur', rest, g # granted))"

definition notifyWaiters :: "weighted \<Rightarrow> weighted \<times> nat list" where
  "notifyWaiters w =
     (let (cur, rest, granted) = notifyLoop (wSize w) (wCur w) (wWaiters w)
      in (w\<lparr>wCur := cur, wWaiters := rest\<rparr>, granted))"

definition Release :: "int \<Rightarrow> weighted \<Rightarrow> (weighted \<times> nat list) outcome" where
  "Release n w =
     (let w' = w\<lparr>wCur := wCur w - n\<rparr>
      in if wCur w' < 0 then Panic ''semaphore: released more than held'' else Ok (notifyWaiters w'))"

text \<open>The first part of Acquire, under the lock: how it goes on.\<close>

datatype acquireRes = AcqDone | AcqHeld | AcqDoomed | AcqQueued

definition acquireStart :: "bool \<Rightarrow> nat \<Rightarrow> int \<Rightarrow> weighted \<Rightarrow> acquireRes \<times> weighted" where
  "acquireStart ctxDone g n w =
     (if ctxDone then (AcqDone, w)
      else if wSize w - wCur w \<ge> n \<and> wWaiters w = [] then (AcqHeld, w\<lparr>wCur := wCur w + n\<rparr>)
      else if n > wSize w then (AcqDoomed, w)
      else (AcqQueued, w\<lparr>wWaiters := wWaiters w @ [(g, n)]\<rparr>))"

text \<open>A waiter whose context is done: it puts the tokens back if it got them, or leaves the queue.\<close>

definition cancelWait :: "bool \<Rightarrow> nat \<Rightarrow> int \<Rightarrow> weighted \<Rightarrow> weighted \<times> nat list" where
  "cancelWait ready g n w =
     (if ready then notifyWaiters (w\<lparr>wCur := wCur w - n\<rparr>)
      else let isFront = (case wWaiters w of [] \<Rightarrow> False | x # xs \<Rightarrow> fst x = g);
               w' = w\<lparr>wWaiters := filter (\<lambda>x. fst x \<noteq> g) (wWaiters w)\<rparr>
           in if isFront \<and> wSize w > wCur w then notifyWaiters w' else (w', []))"

section \<open>The goroutine of a command\<close>

text \<open>
  Where a goroutine is: about to acquire, in the queue (with its ready channel closed or not),
  acquiring more than there is, running its command, after it, about to send its result, having
  sent it, and at the end.
\<close>

datatype procPc = PStart | PQueued bool | PDoomed | PRunning | PRan "err option" | PResult "err option"
  | PSent "err option" | PClosed "err option"

text \<open>The channel of a command: its buffer and whether it is closed; and what was received from it so far.\<close>

record errsChan =
  ecBuf :: "err option list"
  ecClosed :: bool
  ecGot :: "err option list"

record limiter =
  lmSem :: weighted
  lmPc :: "procPc list"
  lmChan :: "errsChan list"
  lmDone :: bool

definition ctxErr :: err where
  "ctxErr = ErrOther ''context canceled''"

definition setPc :: "nat \<Rightarrow> procPc \<Rightarrow> limiter \<Rightarrow> limiter" where
  "setPc i p st = st\<lparr>lmPc := (lmPc st)[i := p]\<rparr>"

text \<open>Closing the ready channels of the waiters that were notified.\<close>

definition notified :: "weighted \<times> nat list \<Rightarrow> limiter \<Rightarrow> limiter" where
  "notified wg st = st\<lparr>lmSem := fst wg, lmPc := fold (\<lambda>g ps. ps[g := PQueued True]) (snd wg) (lmPc st)\<rparr>"

definition afterAcquire :: "acquireRes \<Rightarrow> procPc" where
  "afterAcquire a =
     (case a of AcqDone \<Rightarrow> PResult (Some ctxErr) | AcqHeld \<Rightarrow> PRunning | AcqDoomed \<Rightarrow> PDoomed | AcqQueued \<Rightarrow> PQueued False)"

text \<open>
  A step of goroutine i, if it can go on; res gives the error of running its command. Where both
  channels of the select are ready, pickDone chooses.
\<close>

fun procStep :: "(nat \<Rightarrow> err option) \<Rightarrow> bool \<Rightarrow> nat \<Rightarrow> limiter \<Rightarrow> limiter outcome option" where
  "procStep res pickDone i st =
     (case lmPc st ! i of
        PStart \<Rightarrow>
          (let (a, w) = acquireStart (lmDone st) i 1 (lmSem st); st' = st\<lparr>lmSem := w\<rparr>
           in Some (Ok (setPc i (afterAcquire a) st')))
      | PDoomed \<Rightarrow> if lmDone st then Some (Ok (setPc i (PResult (Some ctxErr)) st)) else None
      | PQueued ready \<Rightarrow>
          if pickDone then
            (if lmDone st
             then Some (Ok (setPc i (PResult (Some ctxErr)) (notified (cancelWait ready i 1 (lmSem st)) st)))
             else None)
          else if \<not> ready then None
          else if lmDone st then
            Some (case Release 1 (lmSem st) of
                Ok wg \<Rightarrow> Ok (setPc i (PResult (Some ctxErr)) (notified wg st))
              | Err e \<Rightarrow> Err e
              | Panic m \<Rightarrow> Panic m)
          else Some (Ok (setPc i PRunning st))
      | PRunning \<Rightarrow> Some (Ok (setPc i (PRan (res i)) st))
      | PRan e \<Rightarrow>
          Some (case Release 1 (lmSem st) of
              Ok wg \<Rightarrow> Ok (setPc i (PResult e) (notified wg st))
            | Err x \<Rightarrow> Err x
            | Panic m \<Rightarrow> Panic m)
      | PResult e \<Rightarrow>
          if length (ecBuf (lmChan st ! i)) < 1
          then Some (Ok (setPc i (PSent e) (st\<lparr>lmChan := (lmChan st)[i := (lmChan st ! i)\<lparr>ecBuf := ecBuf (lmChan st ! i) @ [e]\<rparr>]\<rparr>)))
          else None
      | PSent e \<Rightarrow> Some (Ok (setPc i (PClosed e) (st\<lparr>lmChan := (lmChan st)[i := (lmChan st ! i)\<lparr>ecClosed := True\<rparr>]\<rparr>)))
      | PClosed e \<Rightarrow> None)"

text \<open>Receiving from the channel of command i: a value of the buffer, nil once it is closed and empty, or blocking.\<close>

definition receive :: "nat \<Rightarrow> limiter \<Rightarrow> limiter option" where
  "receive i st =
     (let c = lmChan st ! i
      in case ecBuf c of
           x # xs \<Rightarrow> Some (st\<lparr>lmChan := (lmChan st)[i := c\<lparr>ecBuf := xs, ecGot := ecGot c @ [x]\<rparr>]\<rparr>)
         | [] \<Rightarrow> if ecClosed c then Some (st\<lparr>lmChan := (lmChan st)[i := c\<lparr>ecGot := ecGot c @ [None]\<rparr>]\<rparr>) else None)"

text \<open>Starting the goroutine of a new command, with its channel.\<close>

definition spawn :: "limiter \<Rightarrow> limiter" where
  "spawn st = st\<lparr>lmPc := lmPc st @ [PStart], lmChan := lmChan st @ [\<lparr>ecBuf = [], ecClosed = False, ecGot = []\<rparr>]\<rparr>"

inductive limstep :: "(nat \<Rightarrow> err option) \<Rightarrow> limiter \<Rightarrow> limiter \<Rightarrow> bool" for res where
  Spawn: "limstep res st (spawn st)"
| Proc: "i < length (lmPc st) \<Longrightarrow> procStep res pickDone i st = Some (Ok st') \<Longrightarrow> limstep res st st'"
| Receive: "i < length (lmPc st) \<Longrightarrow> receive i st = Some st' \<Longrightarrow> limstep res st st'"
| Cancel: "limstep res st (st\<lparr>lmDone := True\<rparr>)"

definition initLimiter :: "nat \<Rightarrow> limiter" where
  "initLimiter maxConcurrency =
     \<lparr>lmSem = \<lparr>wSize = int maxConcurrency, wCur = 0, wWaiters = []\<rparr>, lmPc = [], lmChan = [], lmDone = False\<rparr>"

section \<open>The invariant of the semaphore\<close>

fun holdsToken :: "procPc \<Rightarrow> bool" where
  "holdsToken (PQueued ready) = ready"
| "holdsToken PRunning = True"
| "holdsToken (PRan e) = True"
| "holdsToken p = False"

definition held :: "procPc list \<Rightarrow> nat" where
  "held ps = length (filter holdsToken ps)"

text \<open>
  The tokens in use are those that goroutines hold, no more than there are, and the queue has the
  goroutines that wait for one, each once.
\<close>

definition weakInv :: "int \<Rightarrow> int \<Rightarrow> (nat \<times> int) list \<Rightarrow> procPc list \<Rightarrow> bool" where
  "weakInv cap cur ws ps \<longleftrightarrow>
     cur = int (held ps) \<and> cur \<le> cap \<and> distinct (map fst ws) \<and> PDoomed \<notin> set ps \<and>
     (\<forall>g n. (g, n) \<in> set ws \<longleftrightarrow> n = 1 \<and> g < length ps \<and> ps ! g = PQueued False)"

text \<open>And nobody waits while a token is free.\<close>

definition semInv :: "limiter \<Rightarrow> bool" where
  "semInv st \<longleftrightarrow>
     0 < wSize (lmSem st) \<and> weakInv (wSize (lmSem st)) (wCur (lmSem st)) (wWaiters (lmSem st)) (lmPc st) \<and>
     (wWaiters (lmSem st) \<noteq> [] \<longrightarrow> wCur (lmSem st) = wSize (lmSem st))"

lemma held_update:
  "i < length ps \<Longrightarrow> held (ps[i := p]) + (if holdsToken (ps ! i) then 1 else 0) = held ps + (if holdsToken p then 1 else 0)"
  unfolding held_def
proof (induction ps arbitrary: i)
  case (Cons q ps)
  show ?case
  proof (cases i)
    case (Suc j)
    then show ?thesis using Cons.IH[of j] Cons.prems by auto
  qed simp
qed simp

lemma held_pos: "i < length ps \<Longrightarrow> holdsToken (ps ! i) \<Longrightarrow> 0 < held ps"
  by (auto simp: held_def filter_empty_conv)

lemma held_ex: "0 < held ps \<Longrightarrow> \<exists>i < length ps. holdsToken (ps ! i)"
  by (auto simp: held_def filter_empty_conv in_set_conv_nth)

lemma weak_D:
  assumes "weakInv cap cur ws ps"
  shows "cur = int (held ps)" "cur \<le> cap" "distinct (map fst ws)" "PDoomed \<notin> set ps"
    and "(g, n) \<in> set ws \<Longrightarrow> n = 1 \<and> g < length ps \<and> ps ! g = PQueued False"
    and "i < length ps \<Longrightarrow> ps ! i = PQueued False \<Longrightarrow> (i, 1) \<in> set ws"
  using assms unfolding weakInv_def by auto

text \<open>A goroutine changes from one place to another, neither of which is waiting in the queue.\<close>

lemma weak_set:
  assumes "weakInv cap cur ws ps" and "i < length ps" and "ps ! i \<noteq> PQueued False" and "p \<noteq> PQueued False" and "p \<noteq> PDoomed"
    and "cur' = cur - (if holdsToken (ps ! i) then 1 else 0) + (if holdsToken p then 1 else 0)" and "cur' \<le> cap"
  shows "weakInv cap cur' ws (ps[i := p])"
proof -
  note D = weak_D[OF assms(1)]
  have "cur' = int (held (ps[i := p]))"
    using held_update[OF assms(2), of p] D(1) assms(6) by (auto split: if_splits)
  moreover have "PDoomed \<notin> set (ps[i := p])" using D(4) assms(5) by (auto dest: set_update_subset_insert[THEN subsetD])
  moreover have "(g, n) \<in> set ws \<longleftrightarrow> n = 1 \<and> g < length (ps[i := p]) \<and> ps[i := p] ! g = PQueued False" for g n
    using assms(1-4) unfolding weakInv_def by (cases "g = i") auto
  ultimately show ?thesis using D(3) assms(7) by (simp add: weakInv_def)
qed

lemma weak_queue:
  assumes "weakInv cap cur ws ps" and "i < length ps" and "ps ! i = PStart"
  shows "weakInv cap cur (ws @ [(i, 1)]) (ps[i := PQueued False])"
proof -
  note D = weak_D[OF assms(1)]
  have new: "i \<notin> fst ` set ws" using D(5) assms(3) by fastforce
  have "cur = int (held (ps[i := PQueued False]))" using held_update[OF assms(2), of "PQueued False"] D(1) assms(3) by simp
  moreover have "PDoomed \<notin> set (ps[i := PQueued False])" using D(4) by (auto dest: set_update_subset_insert[THEN subsetD])
  moreover have "(g, n) \<in> set (ws @ [(i, 1)]) \<longleftrightarrow> n = 1 \<and> g < length (ps[i := PQueued False]) \<and> ps[i := PQueued False] ! g = PQueued False" for g n
    using assms unfolding weakInv_def by (cases "g = i") auto
  ultimately show ?thesis using D(2,3) new by (simp add: weakInv_def)
qed

lemma weak_leave:
  assumes "weakInv cap cur ws ps" and "i < length ps" and "ps ! i = PQueued False" and "p \<noteq> PDoomed" "\<not> holdsToken p" "p \<noteq> PQueued False"
  shows "weakInv cap cur (filter (\<lambda>x. fst x \<noteq> i) ws) (ps[i := p])"
proof -
  note D = weak_D[OF assms(1)]
  have "cur = int (held (ps[i := p]))" using held_update[OF assms(2), of p] D(1) assms(3,5) by simp
  moreover have "PDoomed \<notin> set (ps[i := p])" using D(4) assms(4) by (auto dest: set_update_subset_insert[THEN subsetD])
  moreover have "(g, n) \<in> set (filter (\<lambda>x. fst x \<noteq> i) ws) \<longleftrightarrow> n = 1 \<and> g < length (ps[i := p]) \<and> ps[i := p] ! g = PQueued False" for g n
    using assms unfolding weakInv_def by (cases "g = i") auto
  moreover have "distinct (map fst (filter (\<lambda>x. fst x \<noteq> i) ws))" using D(3) by (rule distinct_map_filter)
  ultimately show ?thesis using D(2) by (simp add: weakInv_def)
qed

text \<open>Notifying the waiters hands out the free tokens.\<close>

definition grant :: "nat list \<Rightarrow> procPc list \<Rightarrow> procPc list" where
  "grant gs ps = fold (\<lambda>g ps. ps[g := PQueued True]) gs ps"

lemma grant_simps [simp]: "grant [] ps = ps" "grant (g # gs) ps = grant gs (ps[g := PQueued True])"
  by (simp_all add: grant_def)

lemma grant_length [simp]: "length (grant gs ps) = length ps"
  by (induction gs arbitrary: ps) simp_all

lemma grant_other: "i \<notin> set gs \<Longrightarrow> (grant gs ps) ! i = ps ! i"
  by (induction gs arbitrary: ps) simp_all

lemma grant_update: "i \<notin> set gs \<Longrightarrow> (grant gs ps)[i := p] = grant gs (ps[i := p])"
  by (induction gs arbitrary: ps) (simp_all add: list_update_swap)

lemma notify_weak:
  assumes "notifyLoop cap cur ws = (cur', rest, gs)" and "weakInv cap cur ws ps"
  shows "weakInv cap cur' rest (grant gs ps) \<and> (rest \<noteq> [] \<longrightarrow> cur' = cap) \<and> set gs \<subseteq> fst ` set ws"
  using assms
proof (induction cap cur ws arbitrary: cur' rest gs ps rule: notifyLoop.induct)
  case (1 cap cur)
  then show ?case by simp
next
  case (2 cap cur g n ws)
  note D = weak_D[OF 2(3)]
  have n: "n = 1" "g < length ps" "ps ! g = PQueued False" using D(5)[of g n] by simp_all
  show ?case
  proof (cases "cap - cur < n")
    case True
    then show ?thesis using 2(2,3) D(2) n(1) by auto
  next
    case False
    obtain c r gs' where rec: "notifyLoop cap (cur + n) ws = (c, r, gs')" by (metis surj_pair)
    have eq: "cur' = c" "rest = r" "gs = g # gs'" using 2(2) False rec by simp_all
    have "weakInv cap (cur + n) ws (ps[g := PQueued True])"
    proof -
      have "cur + n = int (held (ps[g := PQueued True]))" using held_update[OF n(2), of "PQueued True"] D(1) n by simp
      moreover have "PDoomed \<notin> set (ps[g := PQueued True])" using D(4) by (auto dest: set_update_subset_insert[THEN subsetD])
      moreover have "(h, m) \<in> set ws \<longleftrightarrow> m = 1 \<and> h < length (ps[g := PQueued True]) \<and> ps[g := PQueued True] ! h = PQueued False" for h m
      proof (cases "h = g")
        case True
        moreover have "(g, m) \<notin> set ws" using D(3) by force
        ultimately show ?thesis using n(2) by simp
      next
        case other: False
        have "(h, m) \<in> set ((g, n) # ws) \<longleftrightarrow> m = 1 \<and> h < length ps \<and> ps ! h = PQueued False"
          using 2(3) unfolding weakInv_def by blast
        then show ?thesis using other by simp
      qed
      ultimately show ?thesis using D(2,3) False by (simp add: weakInv_def)
    qed
    from 2(1)[OF False rec this] show ?thesis unfolding eq by auto
  qed
qed

text \<open>Other goroutines may only have got a token.\<close>

definition others :: "nat \<Rightarrow> procPc list \<Rightarrow> procPc list \<Rightarrow> bool" where
  "others i ps ps' \<longleftrightarrow>
     length ps' = length ps \<and>
     (\<forall>j < length ps. j \<noteq> i \<longrightarrow> ps' ! j = ps ! j \<or> ps ! j = PQueued False \<and> ps' ! j = PQueued True)"

lemma grant_at: "j < length ps \<Longrightarrow> j \<in> set gs \<Longrightarrow> grant gs ps ! j = PQueued True"
proof (induction gs arbitrary: ps)
  case (Cons g gs)
  show ?case
  proof (cases "j \<in> set gs")
    case True
    then show ?thesis using Cons by simp
  next
    case False
    then show ?thesis using Cons.prems grant_other[of j gs "ps[g := PQueued True]"] by simp
  qed
qed simp

lemma others_set: "i < length ps \<Longrightarrow> others i ps (ps[i := p])"
  by (simp add: others_def)

lemma others_grant:
  assumes "weakInv cap cur ws ps" and "set gs \<subseteq> fst ` set ws" and "i < length ps"
  shows "others i ps ((grant gs ps)[i := p])"
proof -
  have "grant gs ps ! j = ps ! j \<or> ps ! j = PQueued False \<and> grant gs ps ! j = PQueued True" if "j < length ps" for j
  proof (cases "j \<in> set gs")
    case True
    then obtain n where "(j, n) \<in> set ws" using assms(2) by force
    then show ?thesis using weak_D(5)[OF assms(1)] grant_at[OF that True] by blast
  qed (simp add: grant_other)
  then show ?thesis by (simp add: others_def)
qed

lemma setPc_simps [simp]:
  "lmSem (setPc i p st) = lmSem st" "lmPc (setPc i p st) = (lmPc st)[i := p]" "lmChan (setPc i p st) = lmChan st"
  "lmDone (setPc i p st) = lmDone st"
  by (simp_all add: setPc_def)

lemma notified_simps [simp]:
  "lmSem (notified wg st) = fst wg" "lmPc (notified wg st) = grant (snd wg) (lmPc st)" "lmChan (notified wg st) = lmChan st"
  "lmDone (notified wg st) = lmDone st"
  by (simp_all add: notified_def grant_def)

lemma notify_inv:
  assumes "weakInv (wSize w) (wCur w) (wWaiters w) ((lmPc st)[i := p])" and "0 < wSize w" and "i < length (lmPc st)"
    and "p \<noteq> PQueued False"
  shows "semInv (setPc i p (notified (notifyWaiters w) st)) \<and> set (snd (notifyWaiters w)) \<subseteq> fst ` set (wWaiters w)"
proof -
  obtain c r gs where l: "notifyLoop (wSize w) (wCur w) (wWaiters w) = (c, r, gs)" by (metis surj_pair)
  have n: "notifyWaiters w = (w\<lparr>wCur := c, wWaiters := r\<rparr>, gs)" by (simp add: notifyWaiters_def l)
  have k: "weakInv (wSize w) c r (grant gs ((lmPc st)[i := p]))" "r \<noteq> [] \<longrightarrow> c = wSize w" "set gs \<subseteq> fst ` set (wWaiters w)"
    using notify_weak[OF l assms(1)] by simp_all
  have "i \<notin> set gs"
  proof
    assume "i \<in> set gs"
    then obtain m where "(i, m) \<in> set (wWaiters w)" using k(3) by force
    then show False using weak_D(5)[OF assms(1)] assms(3,4) by fastforce
  qed
  then have "(grant gs (lmPc st))[i := p] = grant gs ((lmPc st)[i := p])" by (rule grant_update)
  then show ?thesis using k assms(2) by (simp add: n semInv_def)
qed

lemma release_inv:
  assumes "semInv st" and "i < length (lmPc st)" and "holdsToken (lmPc st ! i)" and "\<not> holdsToken p" "p \<noteq> PQueued False" "p \<noteq> PDoomed"
  shows "\<exists>wg. Release 1 (lmSem st) = Ok wg \<and> semInv (setPc i p (notified wg st)) \<and>
    others i (lmPc st) (lmPc (setPc i p (notified wg st)))"
proof -
  let ?w = "lmSem st"
  have inv: "weakInv (wSize ?w) (wCur ?w) (wWaiters ?w) (lmPc st)" "0 < wSize ?w" using assms(1) by (simp_all add: semInv_def)
  have pos: "0 < wCur ?w" using weak_D(1)[OF inv(1)] held_pos[OF assms(2,3)] by simp
  let ?w' = "?w\<lparr>wCur := wCur ?w - 1\<rparr>"
  have ne: "lmPc st ! i \<noteq> PQueued False" using assms(3) by auto
  have "weakInv (wSize ?w') (wCur ?w') (wWaiters ?w') ((lmPc st)[i := p])"
    using weak_set[OF inv(1) assms(2) ne assms(5,6)] assms(3,4) weak_D(2)[OF inv(1)] by simp
  from notify_inv[OF this _ assms(2,5)] inv(2)
  have "semInv (setPc i p (notified (notifyWaiters ?w') st))" and g: "set (snd (notifyWaiters ?w')) \<subseteq> fst ` set (wWaiters ?w)" by simp_all
  moreover have "others i (lmPc st) (lmPc (setPc i p (notified (notifyWaiters ?w') st)))"
    using others_grant[OF inv(1) g assms(2)] by simp
  moreover have "Release 1 ?w = Ok (notifyWaiters ?w')" using pos by (simp add: Release_def)
  ultimately show ?thesis by blast
qed

lemma cancel_inv:
  assumes "semInv st" and "i < length (lmPc st)" and "lmPc st ! i = PQueued ready" and "\<not> holdsToken p" "p \<noteq> PQueued False" "p \<noteq> PDoomed"
  shows "semInv (setPc i p (notified (cancelWait ready i 1 (lmSem st)) st)) \<and>
    others i (lmPc st) (lmPc (setPc i p (notified (cancelWait ready i 1 (lmSem st)) st)))"
proof -
  let ?w = "lmSem st"
  have inv: "weakInv (wSize ?w) (wCur ?w) (wWaiters ?w) (lmPc st)" "0 < wSize ?w"
      "wWaiters ?w \<noteq> [] \<longrightarrow> wCur ?w = wSize ?w" using assms(1) by (simp_all add: semInv_def)
  show ?thesis
  proof (cases ready)
    case True
    then have "holdsToken (lmPc st ! i)" using assms(3) by simp
    then have "0 < wCur ?w" using weak_D(1)[OF inv(1)] held_pos[OF assms(2)] by simp
    then have "Release 1 ?w = Ok (cancelWait ready i 1 ?w)" using True by (simp add: Release_def cancelWait_def)
    moreover obtain wg where "Release 1 ?w = Ok wg" "semInv (setPc i p (notified wg st))"
        "others i (lmPc st) (lmPc (setPc i p (notified wg st)))"
      using release_inv[OF assms(1,2) _ assms(4-6)] assms(3) True by auto
    ultimately show ?thesis by simp
  next
    case False
    then have q: "lmPc st ! i = PQueued False" using assms(3) by simp
    let ?w' = "?w\<lparr>wWaiters := filter (\<lambda>x. fst x \<noteq> i) (wWaiters ?w)\<rparr>"
    have weak: "weakInv (wSize ?w') (wCur ?w') (wWaiters ?w') ((lmPc st)[i := p])"
      using weak_leave[OF inv(1) assms(2) q assms(6,4,5)] by simp
    have "(i, 1) \<in> set (wWaiters ?w)" using weak_D(6)[OF inv(1) assms(2) q] .
    then have full: "wCur ?w = wSize ?w" using inv(3) by auto
    then have c: "cancelWait ready i 1 ?w = (?w', [])" using False by (simp add: cancelWait_def Let_def)
    show ?thesis using weak inv(2) full others_set[OF assms(2)] by (simp add: c semInv_def)
  qed
qed

text \<open>A goroutine's step never panics and keeps the invariant.\<close>

text \<open>A step that changes where the goroutine is, but neither the semaphore nor the holding of a token.\<close>

lemma moved_inv:
  assumes "semInv st" and "i < length (lmPc st)" and "lmSem st' = lmSem st" "lmPc st' = lmPc st"
    and "lmPc st ! i \<noteq> PQueued False" "p \<noteq> PQueued False" "p \<noteq> PDoomed" "holdsToken p = holdsToken (lmPc st ! i)"
  shows "semInv (setPc i p st') \<and> others i (lmPc st) (lmPc (setPc i p st'))"
proof -
  have inv: "weakInv (wSize (lmSem st)) (wCur (lmSem st)) (wWaiters (lmSem st)) (lmPc st)" "0 < wSize (lmSem st)"
      "wWaiters (lmSem st) \<noteq> [] \<longrightarrow> wCur (lmSem st) = wSize (lmSem st)" using assms(1) by (simp_all add: semInv_def)
  show ?thesis
    using weak_set[OF inv(1) assms(2,5-7), of "wCur (lmSem st)"] assms(3,4,8) inv weak_D(2)[OF inv(1)] others_set[OF assms(2)]
    by (simp add: semInv_def)
qed

lemma acquire_inv:
  assumes "semInv st" and "i < length (lmPc st)" and "lmPc st ! i = PStart" and "acquireStart (lmDone st) i 1 (lmSem st) = (a, w)"
  shows "semInv (setPc i (afterAcquire a) (st\<lparr>lmSem := w\<rparr>))"
proof -
  let ?w = "lmSem st"
  have inv: "weakInv (wSize ?w) (wCur ?w) (wWaiters ?w) (lmPc st)" "0 < wSize ?w"
      "wWaiters ?w \<noteq> [] \<longrightarrow> wCur ?w = wSize ?w" using assms(1) by (simp_all add: semInv_def)
  show ?thesis
  proof (cases a)
    case AcqDone
    then have "w = ?w" using assms(4) by (auto simp: acquireStart_def split: if_splits)
    then show ?thesis using moved_inv[OF assms(1,2), of "st\<lparr>lmSem := w\<rparr>" "afterAcquire a"] assms(3) AcqDone
      by (simp add: afterAcquire_def)
  next
    case AcqHeld
    then have w: "w = ?w\<lparr>wCur := wCur ?w + 1\<rparr>" "wSize ?w - wCur ?w \<ge> 1" "wWaiters ?w = []"
      using assms(4) by (auto simp: acquireStart_def split: if_splits)
    have "weakInv (wSize ?w) (wCur ?w + 1) (wWaiters ?w) ((lmPc st)[i := PRunning])"
      by (rule weak_set[OF inv(1) assms(2)]) (use assms(3) w(2) in simp_all)
    then show ?thesis using AcqHeld inv(2) w by (simp add: semInv_def afterAcquire_def)
  next
    case AcqDoomed
    then show ?thesis using assms(4) inv(2) by (auto simp: acquireStart_def split: if_splits)
  next
    case AcqQueued
    then have w: "w = ?w\<lparr>wWaiters := wWaiters ?w @ [(i, 1)]\<rparr>" "\<not> (wSize ?w - wCur ?w \<ge> 1 \<and> wWaiters ?w = [])"
      using assms(4) by (auto simp: acquireStart_def split: if_splits)
    have "wCur ?w = wSize ?w" using w(2) inv(3) weak_D(2)[OF inv(1)] by (cases "wWaiters ?w = []") auto
    then show ?thesis using weak_queue[OF inv(1) assms(2,3)] AcqQueued inv(2) w(1) by (simp add: semInv_def afterAcquire_def)
  qed
qed

lemma procStep_inv:
  assumes "semInv st" and "i < length (lmPc st)" and "procStep res pickDone i st = Some r"
  shows "\<exists>st'. r = Ok st' \<and> semInv st' \<and> others i (lmPc st) (lmPc st')"
proof -
  let ?w = "lmSem st"
  note move = moved_inv[OF assms(1,2)]
  have release: "\<exists>st'. r = Ok st' \<and> semInv st' \<and> others i (lmPc st) (lmPc st')"
    if tok: "holdsToken (lmPc st ! i)" and
      rel: "r = (case Release 1 ?w of Ok wg \<Rightarrow> Ok (setPc i (PResult e) (notified wg st)) | Err x \<Rightarrow> Err x | Panic m \<Rightarrow> Panic m)" for e
  proof -
    obtain wg where "Release 1 ?w = Ok wg" "semInv (setPc i (PResult e) (notified wg st))"
        "others i (lmPc st) (lmPc (setPc i (PResult e) (notified wg st)))"
      using release_inv[OF assms(1,2) tok, of "PResult e"] by auto
    then show ?thesis using rel by simp
  qed
  show ?thesis
  proof (cases "lmPc st ! i")
    case PStart
    obtain a w where aw: "acquireStart (lmDone st) i 1 ?w = (a, w)" by fastforce
    then have "r = Ok (setPc i (afterAcquire a) (st\<lparr>lmSem := w\<rparr>))" using assms(3) PStart by simp
    then show ?thesis using acquire_inv[OF assms(1,2) PStart aw] others_set[OF assms(2)] by simp
  next
    case PDoomed
    have "PDoomed \<notin> set (lmPc st)" using assms(1) by (simp add: semInv_def weakInv_def)
    then show ?thesis using PDoomed assms(2) by (metis nth_mem)
  next
    case (PQueued ready)
    show ?thesis
    proof (cases "pickDone \<or> \<not> lmDone st")
      case True
      then show ?thesis
        using assms(3) PQueued cancel_inv[OF assms(1,2) PQueued, of "PResult (Some ctxErr)"] move[of st PRunning]
        by (auto split: if_splits)
    next
      case False
      then show ?thesis using release[of "Some ctxErr"] assms(3) PQueued by (auto split: if_splits)
    qed
  next
    case PRunning
    then show ?thesis using assms(3) move[of st "PRan (res i)"] by auto
  next
    case (PRan e)
    then show ?thesis using release[of e] assms(3) by simp
  next
    case (PResult e)
    let ?st = "st\<lparr>lmChan := (lmChan st)[i := (lmChan st ! i)\<lparr>ecBuf := ecBuf (lmChan st ! i) @ [e]\<rparr>]\<rparr>"
    have "r = Ok (setPc i (PSent e) ?st)" using assms(3) PResult by (auto split: if_splits)
    then show ?thesis using move[of ?st "PSent e"] PResult by simp
  next
    case (PSent e)
    then show ?thesis using assms(3) move[of "st\<lparr>lmChan := (lmChan st)[i := (lmChan st ! i)\<lparr>ecClosed := True\<rparr>]\<rparr>" "PClosed e"] by auto
  qed (use assms(3) in simp)
qed

section \<open>The channels\<close>

text \<open>The result of a goroutine: the error of its command, or of the context if it got no token.\<close>

definition resultOk :: "(nat \<Rightarrow> err option) \<Rightarrow> bool \<Rightarrow> nat \<Rightarrow> err option \<Rightarrow> bool" where
  "resultOk res ctxDone i e \<longleftrightarrow> e = res i \<or> (e = Some ctxErr \<and> ctxDone)"

definition freshChan :: "errsChan \<Rightarrow> bool" where
  "freshChan c \<longleftrightarrow> ecBuf c = [] \<and> \<not> ecClosed c \<and> ecGot c = []"

text \<open>What was received is the result, and then nil for ever.\<close>

fun procOk :: "(nat \<Rightarrow> err option) \<Rightarrow> bool \<Rightarrow> nat \<Rightarrow> procPc \<Rightarrow> errsChan \<Rightarrow> bool" where
  "procOk res ctxDone i (PRan e) c = (e = res i \<and> freshChan c)"
| "procOk res ctxDone i (PResult e) c = (resultOk res ctxDone i e \<and> freshChan c)"
| "procOk res ctxDone i (PSent e) c = (resultOk res ctxDone i e \<and> \<not> ecClosed c \<and> ecGot c @ ecBuf c = [e])"
| "procOk res ctxDone i (PClosed e) c =
     (resultOk res ctxDone i e \<and> ecClosed c \<and>
      (ecGot c = [] \<and> ecBuf c = [e] \<or> ecBuf c = [] \<and> (\<exists>k. ecGot c = e # replicate k None)))"
| "procOk res ctxDone i p c = freshChan c"

definition chanInv :: "(nat \<Rightarrow> err option) \<Rightarrow> limiter \<Rightarrow> bool" where
  "chanInv res st \<longleftrightarrow>
     length (lmChan st) = length (lmPc st) \<and> (\<forall>i < length (lmPc st). procOk res (lmDone st) i (lmPc st ! i) (lmChan st ! i))"

lemma release_result:
  "(case Release n w of Ok wg \<Rightarrow> Ok (f wg) | Err x \<Rightarrow> Err x | Panic m \<Rightarrow> Panic m) = Ok st' \<longleftrightarrow> (\<exists>wg. Release n w = Ok wg \<and> st' = f wg)"
  by (auto split: outcome.split)

lemma procStep_chan:
  assumes "procStep res pickDone i st = Some (Ok st')" and "procOk res (lmDone st) i (lmPc st ! i) (lmChan st ! i)"
    and "i < length (lmPc st)" and "length (lmChan st) = length (lmPc st)"
  shows "lmDone st' = lmDone st \<and> length (lmChan st') = length (lmChan st) \<and> (\<forall>j. j \<noteq> i \<longrightarrow> lmChan st' ! j = lmChan st ! j) \<and>
    procOk res (lmDone st) i (lmPc st' ! i) (lmChan st' ! i)"
proof (cases "lmPc st ! i")
  case PStart
  then show ?thesis using assms
    by (auto simp: Let_def acquireStart_def afterAcquire_def resultOk_def split: prod.splits if_splits)
next
  case (PQueued ready)
  then show ?thesis using assms
    by (auto simp: release_result resultOk_def split: if_splits)
next
  case (PRan e)
  then show ?thesis using assms by (auto simp: release_result resultOk_def)
next
  case (PResult e)
  then show ?thesis using assms by (auto simp: freshChan_def)
next
  case (PSent e)
  then show ?thesis using assms by (auto simp: append_eq_Cons_conv intro: exI[of _ 0])
qed (use assms in \<open>auto simp: resultOk_def split: if_splits\<close>)

lemma procStep_chanInv:
  assumes "procStep res pickDone i st = Some (Ok st')" and "chanInv res st" and "i < length (lmPc st)" and "others i (lmPc st) (lmPc st')"
  shows "chanInv res st'"
proof -
  have len: "length (lmChan st) = length (lmPc st)" "length (lmPc st') = length (lmPc st)"
    using assms(2,4) by (simp_all add: chanInv_def others_def)
  have ok: "procOk res (lmDone st) j (lmPc st ! j) (lmChan st ! j)" if "j < length (lmPc st)" for j
    using assms(2) that by (simp add: chanInv_def)
  note c = procStep_chan[OF assms(1) ok[OF assms(3)] assms(3) len(1)]
  have "procOk res (lmDone st') j (lmPc st' ! j) (lmChan st' ! j)" if j: "j < length (lmPc st')" for j
  proof (cases "j = i")
    case False
    then have "lmPc st' ! j = lmPc st ! j \<or> lmPc st ! j = PQueued False \<and> lmPc st' ! j = PQueued True"
      using assms(4) j len(2) by (simp add: others_def)
    then show ?thesis using ok[of j] c False j len(2) by auto
  qed (use c in simp)
  then show ?thesis using c len by (simp add: chanInv_def)
qed

lemma receive_chanInv:
  assumes "receive i st = Some st'" and "chanInv res st" and "i < length (lmPc st)"
  shows "chanInv res st' \<and> lmSem st' = lmSem st \<and> lmPc st' = lmPc st"
proof -
  let ?c = "lmChan st ! i"
  have ok: "procOk res (lmDone st) i (lmPc st ! i) ?c" and len: "length (lmChan st) = length (lmPc st)"
    using assms(2,3) by (simp_all add: chanInv_def)
  obtain c' where c': "st' = st\<lparr>lmChan := (lmChan st)[i := c']\<rparr>"
      "ecBuf ?c \<noteq> [] \<and> c' = ?c\<lparr>ecBuf := tl (ecBuf ?c), ecGot := ecGot ?c @ [hd (ecBuf ?c)]\<rparr> \<or>
       ecBuf ?c = [] \<and> ecClosed ?c \<and> c' = ?c\<lparr>ecGot := ecGot ?c @ [None]\<rparr>"
    using assms(1) by (auto simp: receive_def Let_def split: list.splits if_splits)
  have "procOk res (lmDone st) i (lmPc st ! i) c'"
  proof (cases "lmPc st ! i")
    case (PSent e)
    then show ?thesis using ok c'(2) by (auto simp: append_eq_Cons_conv)
  next
    case (PClosed e)
    have more: "\<exists>m. e # replicate k None @ [None] = e # replicate m None" for k
      by (rule exI[of _ "Suc k"]) (simp add: replicate_append_same)
    show ?thesis using ok c'(2) PClosed more by (auto intro: exI[of _ 0])
  qed (use ok c'(2) in \<open>auto simp: freshChan_def\<close>)
  then have "procOk res (lmDone st) j (lmPc st ! j) (((lmChan st)[i := c']) ! j)" if "j < length (lmPc st)" for j
    using assms(2) that len by (cases "j = i") (simp_all add: chanInv_def)
  then show ?thesis using len by (simp add: c'(1) chanInv_def)
qed

lemma notify_size: "wSize (fst (notifyWaiters w)) = wSize w"
  by (simp add: notifyWaiters_def split: prod.split)

lemma procStep_size:
  assumes "procStep res pickDone i st = Some (Ok st')"
  shows "wSize (lmSem st') = wSize (lmSem st)"
proof -
  have rel: "Release n w = Ok wg \<Longrightarrow> wSize (fst wg) = wSize w" for n w wg
    using notify_size[of "w\<lparr>wCur := wCur w - n\<rparr>"] by (auto simp: Release_def Let_def split: if_splits)
  have can: "wSize (fst (cancelWait r i n w)) = wSize w" for r n w
    by (simp add: cancelWait_def Let_def notify_size)
  show ?thesis
    using assms rel can
    by (cases "lmPc st ! i")
      (auto simp: Let_def acquireStart_def release_result split: prod.splits if_splits)
qed

definition limInv :: "(nat \<Rightarrow> err option) \<Rightarrow> limiter \<Rightarrow> bool" where
  "limInv res st \<longleftrightarrow> semInv st \<and> chanInv res st"

lemma procOk_done: "procOk res d i p c \<Longrightarrow> procOk res True i p c"
  by (cases p) (auto simp: resultOk_def)

lemma limstep_inv:
  assumes "limstep res st st'" and "limInv res st"
  shows "limInv res st' \<and> wSize (lmSem st') = wSize (lmSem st)"
  using assms(1)
proof cases
  case Spawn
  have "weakInv (wSize (lmSem st)) (wCur (lmSem st)) (wWaiters (lmSem st)) (lmPc st @ [PStart])"
    using assms(2) by (auto simp: limInv_def semInv_def weakInv_def held_def nth_append)
  then have "semInv st'" using assms(2) Spawn by (simp add: limInv_def semInv_def spawn_def)
  moreover have "chanInv res st'"
    using assms(2) Spawn by (auto simp: limInv_def chanInv_def spawn_def nth_append freshChan_def less_Suc_eq)
  ultimately show ?thesis using Spawn by (simp add: limInv_def spawn_def)
next
  case (Proc i pickDone)
  have s: "semInv st'" "others i (lmPc st) (lmPc st')"
    using procStep_inv[OF _ Proc] assms(2) by (auto simp: limInv_def)
  have "chanInv res st'" using procStep_chanInv[OF Proc(2) _ Proc(1) s(2)] assms(2) by (simp add: limInv_def)
  then show ?thesis using s(1) procStep_size[OF Proc(2)] by (simp add: limInv_def)
next
  case (Receive i)
  have "chanInv res st' \<and> lmSem st' = lmSem st \<and> lmPc st' = lmPc st"
    by (rule receive_chanInv[OF Receive(2) _ Receive(1)]) (use assms(2) in \<open>simp add: limInv_def\<close>)
  then show ?thesis using assms(2) by (simp add: limInv_def semInv_def)
next
  case Cancel
  then show ?thesis using assms(2) procOk_done by (auto simp: limInv_def semInv_def chanInv_def)
qed

interpretation limited: step_invariant "limstep res" "\<lambda>st. limInv res st \<and> wSize (lmSem st) = n" for res n
  by unfold_locales (use limstep_inv in blast)

lemma init_limInv: "0 < n \<Longrightarrow> limInv res (initLimiter n) \<and> wSize (lmSem (initLimiter n)) = int n"
  by (auto simp: limInv_def semInv_def chanInv_def weakInv_def held_def initLimiter_def)

lemmas limsteps_inv = limited.reached[OF _ init_limInv]

section \<open>Progress\<close>

text \<open>Some goroutine can go on as long as one is not at its end; a step brings the end nearer.\<close>

fun pcRank :: "procPc \<Rightarrow> nat" where
  "pcRank PStart = 7"
| "pcRank (PQueued ready) = (if ready then 5 else 6)"
| "pcRank PDoomed = 5"
| "pcRank PRunning = 4"
| "pcRank (PRan e) = 3"
| "pcRank (PResult e) = 2"
| "pcRank (PSent e) = 1"
| "pcRank (PClosed e) = 0"

definition workLeft :: "procPc list \<Rightarrow> nat" where
  "workLeft ps = sum_list (map pcRank ps)"

lemma procStep_rank:
  assumes "procStep res pickDone i st = Some (Ok st')" and "i < length (lmPc st)"
  shows "pcRank (lmPc st' ! i) < pcRank (lmPc st ! i)"
proof (cases "lmPc st ! i")
  case PStart
  then show ?thesis using assms by (auto simp: Let_def afterAcquire_def split: prod.splits acquireRes.splits)
next
  case (PQueued ready)
  then show ?thesis using assms by (auto simp: release_result split: if_splits)
qed (use assms in \<open>auto simp: release_result split: if_splits\<close>)

lemma sum_list_less:
  "length xs = length ys \<Longrightarrow> (\<And>j. j < length xs \<Longrightarrow> ys ! j \<le> (xs ! j :: nat)) \<Longrightarrow> i < length xs \<Longrightarrow> ys ! i < xs ! i \<Longrightarrow>
   sum_list ys < sum_list xs"
proof (induction xs ys arbitrary: i rule: list_induct2)
  case (Cons x xs y ys)
  have le: "ys ! j \<le> xs ! j" if "j < length xs" for j using Cons.prems(1)[of "Suc j"] that by simp
  have y: "y \<le> x" using Cons.prems(1)[of 0] by simp
  have sum: "sum_list ys \<le> sum_list xs"
    unfolding sum_list_sum_nth Cons.hyps by (rule sum_mono) (use Cons.hyps le in auto)
  show ?case
  proof (cases i)
    case 0
    then show ?thesis using Cons.prems(3) sum by simp
  next
    case (Suc k)
    then show ?thesis using Cons.IH[of k] le Cons.prems(2,3) y by simp
  qed
qed simp

lemma procStep_work:
  assumes "procStep res pickDone i st = Some (Ok st')" and "semInv st" and "i < length (lmPc st)"
  shows "workLeft (lmPc st') < workLeft (lmPc st)"
proof -
  have o: "others i (lmPc st) (lmPc st')" using procStep_inv[OF assms(2,3,1)] by simp
  have "pcRank (lmPc st' ! j) \<le> pcRank (lmPc st ! j)" if j: "j < length (lmPc st)" for j
  proof (cases "j = i")
    case True
    then show ?thesis using procStep_rank[OF assms(1,3)] by simp
  next
    case False
    then show ?thesis using o j by (auto simp: others_def)
  qed
  then show ?thesis
    unfolding workLeft_def using o assms(3) procStep_rank[OF assms(1,3)]
    by (intro sum_list_less[of _ _ i]) (simp_all add: others_def)
qed

lemma step_possible:
  assumes "limInv res st" and "i < length (lmPc st)" and "\<forall>e. lmPc st ! i \<noteq> PClosed e"
  shows "\<exists>j pickDone r. j < length (lmPc st) \<and> procStep res pickDone j st = Some r"
proof -
  have inv: "semInv st" "chanInv res st" using assms(1) by (simp_all add: limInv_def)
  have token: "\<exists>r. procStep res False j st = Some r" if "holdsToken (lmPc st ! j)" for j
    using that by (cases "lmPc st ! j") auto
  show ?thesis
  proof (cases "lmPc st ! i = PQueued False")
    case True
    have weak: "weakInv (wSize (lmSem st)) (wCur (lmSem st)) (wWaiters (lmSem st)) (lmPc st)"
      using inv(1) by (simp add: semInv_def)
    have "(i, 1) \<in> set (wWaiters (lmSem st))" using weak_D(6)[OF weak assms(2) True] .
    then have "wWaiters (lmSem st) \<noteq> []" by auto
    then have "0 < held (lmPc st)" using inv(1) weak_D(1)[OF weak] by (simp add: semInv_def)
    then show ?thesis using held_ex token by blast
  next
    case False
    have "lmPc st ! i \<noteq> PDoomed" using inv(1) assms(2) weak_D(4) unfolding semInv_def by (metis nth_mem)
    moreover have "lmPc st ! i = PResult e \<Longrightarrow> ecBuf (lmChan st ! i) = []" for e
      using inv(2) assms(2) by (fastforce simp: chanInv_def freshChan_def)
    ultimately have "\<exists>r. procStep res False i st = Some r"
      using False assms(3) by (cases "lmPc st ! i") (auto split: prod.split)
    then show ?thesis using assms(2) by blast
  qed
qed

section \<open>Properties\<close>

text \<open>
  C12. However the commands of the checks interleave, with cancellation at any moment, no more of
  them run at once than the semaphore admits, a command waits in the queue only while that many
  tokens are taken, and no goroutine panics.
\<close>

theorem commands_are_limited:
  assumes "(limstep res)\<^sup>*\<^sup>* (initLimiter maxConcurrency) st" and "0 < maxConcurrency"
  shows "length (filter (\<lambda>p. p = PRunning) (lmPc st)) \<le> maxConcurrency \<and>
    (PQueued False \<in> set (lmPc st) \<longrightarrow> length (filter holdsToken (lmPc st)) = maxConcurrency) \<and>
    (\<forall>i < length (lmPc st). \<forall>pickDone m. procStep res pickDone i st \<noteq> Some (Panic m))"
proof -
  have inv: "semInv st" and cap: "wSize (lmSem st) = int maxConcurrency"
    using limsteps_inv[OF assms] by (simp_all add: limInv_def)
  have weak: "weakInv (wSize (lmSem st)) (wCur (lmSem st)) (wWaiters (lmSem st)) (lmPc st)"
    using inv by (simp add: semInv_def)
  have "length (filter (\<lambda>p. p = PRunning) ps) \<le> held ps" for ps
    by (induction ps) (auto simp: held_def)
  moreover have "held (lmPc st) \<le> maxConcurrency" using weak_D(1,2)[OF weak] cap by simp
  moreover have "held (lmPc st) = maxConcurrency" if queued: "PQueued False \<in> set (lmPc st)"
  proof -
    obtain i where "i < length (lmPc st)" "lmPc st ! i = PQueued False" using queued by (auto simp: in_set_conv_nth)
    then have "(i, 1) \<in> set (wWaiters (lmSem st))" using weak_D(6)[OF weak] by blast
    then have "wCur (lmSem st) = wSize (lmSem st)" using inv by (auto simp: semInv_def)
    then show ?thesis using weak_D(1)[OF weak] cap by simp
  qed
  moreover have "procStep res pickDone i st \<noteq> Some (Panic m)" if i: "i < length (lmPc st)" for i pickDone m
  proof
    assume "procStep res pickDone i st = Some (Panic m)"
    from procStep_inv[OF inv i this] show False by simp
  qed
  ultimately show ?thesis unfolding held_def by (meson order_trans)
qed

text \<open>The steps that the goroutines take by themselves, without new commands, receivers or a cancellation.\<close>

inductive procRun :: "(nat \<Rightarrow> err option) \<Rightarrow> limiter \<Rightarrow> limiter \<Rightarrow> bool" for res where
  "i < length (lmPc st) \<Longrightarrow> procStep res pickDone i st = Some (Ok st') \<Longrightarrow> procRun res st st'"

interpretation ending: step_measure "procRun res" "\<lambda>st. limInv res st \<and> length (lmPc st) = n" "\<lambda>st. workLeft (lmPc st)" for res n
proof unfold_locales
  fix st st'
  assume inv: "limInv res st \<and> length (lmPc st) = n" and step: "procRun res st st'"
  from step obtain i pickDone where i: "i < length (lmPc st)" "procStep res pickDone i st = Some (Ok st')" by cases blast
  have "length (lmPc st') = length (lmPc st)"
    using procStep_inv[OF _ i] inv by (auto simp: limInv_def others_def)
  then show "limInv res st' \<and> length (lmPc st') = n" using limstep_inv[OF limstep.Proc[OF i]] inv by simp
  show "workLeft (lmPc st') < workLeft (lmPc st)" using procStep_work[OF i(2) _ i(1)] inv by (simp add: limInv_def)
qed

text \<open>
  C22. Whatever has happened before, the goroutines of the commands need nobody else to come to their
  end: they take at most seven steps each, and however they take them, when none of them can go on
  every one has sent its result and closed its channel. So no command waits for ever.
\<close>

theorem commands_all_end:
  assumes "(limstep res)\<^sup>*\<^sup>* (initLimiter maxConcurrency) st" and "0 < maxConcurrency"
  shows "((procRun res ^^ k) st st' \<longrightarrow> k \<le> 7 * length (lmPc st)) \<and>
    ((procRun res)\<^sup>*\<^sup>* st st' \<longrightarrow> (\<forall>u. \<not> procRun res st' u) \<longrightarrow>
       length (lmPc st') = length (lmPc st) \<and> (\<forall>i < length (lmPc st). \<exists>e. lmPc st' ! i = PClosed e))"
proof -
  have inv: "limInv res st \<and> length (lmPc st) = length (lmPc st)" using limsteps_inv[OF assms] by simp
  have "pcRank p \<le> 7" for p by (cases p) auto
  then have "workLeft ps \<le> 7 * length ps" for ps
    unfolding workLeft_def by (induction ps) (simp_all add: add_mono)
  then have "k \<le> 7 * length (lmPc st)" if run: "(procRun res ^^ k) st st'"
    using ending.run_length[OF run inv] by (meson order_trans)
  moreover have "length (lmPc st') = length (lmPc st) \<and> (\<forall>i < length (lmPc st). \<exists>e. lmPc st' ! i = PClosed e)"
    if run: "(procRun res)\<^sup>*\<^sup>* st st'" and stuck: "\<forall>u. \<not> procRun res st' u"
  proof -
    have inv': "limInv res st'" "length (lmPc st') = length (lmPc st)" using ending.reached[OF run inv] by simp_all
    then have sem: "semInv st'" by (simp add: limInv_def)
    have "\<exists>u. procRun res st' u" if i: "i < length (lmPc st')" "\<forall>e. lmPc st' ! i \<noteq> PClosed e" for i
      using step_possible[OF inv'(1) i] procStep_inv[OF sem] by (blast intro: procRun.intros)
    then show ?thesis using stuck inv'(2) by metis
  qed
  ultimately show ?thesis by blast
qed

text \<open>
  The first value received from the channel of a command is its error, as the command gave it,
  or the context's error if the command never ran because the context was cancelled; every later
  one is nil, as cleanup() after wait() expects; and once the goroutine has ended, receiving never
  blocks.
\<close>

theorem wait_receives_result:
  assumes "(limstep res)\<^sup>*\<^sup>* (initLimiter maxConcurrency) st" and "0 < maxConcurrency" and "i < length (lmPc st)"
  shows "(ecGot (lmChan st ! i) = [] \<or>
      (\<exists>e k. ecGot (lmChan st ! i) = e # replicate k None \<and> (e = res i \<or> e = Some ctxErr \<and> lmDone st))) \<and>
    ((\<exists>e. lmPc st ! i = PClosed e) \<longrightarrow> receive i st \<noteq> None)"
proof -
  have ok: "procOk res (lmDone st) i (lmPc st ! i) (lmChan st ! i)"
    using limsteps_inv[OF assms(1,2)] assms(3) by (simp add: limInv_def chanInv_def)
  show ?thesis
  proof (cases "lmPc st ! i")
    case (PSent e)
    then have "ecGot (lmChan st ! i) = [] \<or> ecGot (lmChan st ! i) = e # replicate 0 None" "resultOk res (lmDone st) i e"
      using ok by (auto simp: append_eq_Cons_conv)
    then have "ecGot (lmChan st ! i) \<noteq> [] \<Longrightarrow>
        \<exists>k. ecGot (lmChan st ! i) = e # replicate k None \<and> (e = res i \<or> e = Some ctxErr \<and> lmDone st)"
      unfolding resultOk_def by (intro exI[of _ 0]) simp
    then show ?thesis using PSent by auto
  next
    case (PClosed e)
    then show ?thesis using ok by (auto simp: resultOk_def receive_def Let_def split: list.split)
  qed (use ok in \<open>auto simp: freshChan_def\<close>)
qed

section \<open>The properties on a concrete run\<close>

text \<open>Three commands, of which two may run at once; the third waits until the first has ended.\<close>

definition demoResults :: "nat \<Rightarrow> err option" where
  "demoResults i = (if i = 0 then Some (ErrOther ''exit status 1'') else None)"

fun runGoroutines :: "nat list \<Rightarrow> limiter \<Rightarrow> limiter option" where
  "runGoroutines [] st = Some st"
| "runGoroutines (i # is) st =
     (if i < length (lmPc st)
      then (case procStep demoResults False i st of Some (Ok st') \<Rightarrow> runGoroutines is st' | _ \<Rightarrow> None) else None)"

lemma runGoroutines_reach: "runGoroutines is st = Some st' \<Longrightarrow> (limstep demoResults)\<^sup>*\<^sup>* st st'"
proof (induction "is" arbitrary: st)
  case (Cons i "is")
  then obtain st1 where 1: "i < length (lmPc st)" "procStep demoResults False i st = Some (Ok st1)" "runGoroutines is st1 = Some st'"
    by (simp split: if_splits option.splits outcome.splits)
  show ?case using limstep.Proc[OF 1(1,2)] Cons.IH[OF 1(3)] by (rule converse_rtranclp_into_rtranclp)
qed simp

definition demoThree :: limiter where
  "demoThree = spawn (spawn (spawn (initLimiter 2)))"

lemma demoThree_reach: "(limstep demoResults)\<^sup>*\<^sup>* (initLimiter 2) demoThree"
  unfolding demoThree_def by (rule rtranclp.intros | rule limstep.Spawn)+

definition demoBusy :: limiter where
  "demoBusy = the (runGoroutines [0, 1, 2] demoThree)"

definition demoFinished :: limiter where
  "demoFinished = the (receive 0 (the (runGoroutines [0, 1, 2, 0, 0, 2, 0, 0] demoThree)))"

lemma demo_busy: "runGoroutines [0, 1, 2] demoThree = Some demoBusy" "lmPc demoBusy = [PRunning, PRunning, PQueued False]"
proof -
  have "runGoroutines [0, 1, 2] demoThree \<noteq> None" by code_simp
  then show "runGoroutines [0, 1, 2] demoThree = Some demoBusy" by (auto simp: demoBusy_def)
  show "lmPc demoBusy = [PRunning, PRunning, PQueued False]" by code_simp
qed

lemma demo_finished:
  "(limstep demoResults)\<^sup>*\<^sup>* (initLimiter 2) demoFinished"
  "lmPc demoFinished = [PClosed (Some (ErrOther ''exit status 1'')), PRunning, PRunning]"
  "map ecGot (lmChan demoFinished) = [[Some (ErrOther ''exit status 1'')], [], []]"
proof -
  have "runGoroutines [0, 1, 2, 0, 0, 2, 0, 0] demoThree \<noteq> None" by code_simp
  then obtain st where st: "runGoroutines [0, 1, 2, 0, 0, 2, 0, 0] demoThree = Some st" by auto
  have "receive 0 (the (runGoroutines [0, 1, 2, 0, 0, 2, 0, 0] demoThree)) \<noteq> None" by code_simp
  then have r: "receive 0 st = Some demoFinished" using st by (auto simp: demoFinished_def)
  have "length (lmPc (the (runGoroutines [0, 1, 2, 0, 0, 2, 0, 0] demoThree))) = 3" by code_simp
  then have "0 < length (lmPc st)" unfolding st by simp
  then have "limstep demoResults st demoFinished" using r by (rule limstep.Receive)
  then show "(limstep demoResults)\<^sup>*\<^sup>* (initLimiter 2) demoFinished"
    using demoThree_reach runGoroutines_reach[OF st] by (meson rtranclp.rtrancl_into_rtrancl rtranclp_trans)
  show "lmPc demoFinished = [PClosed (Some (ErrOther ''exit status 1'')), PRunning, PRunning]" by code_simp
  show "map ecGot (lmChan demoFinished) = [[Some (ErrOther ''exit status 1'')], [], []]" by code_simp
qed

theorem commands_are_limited_witness: "length (filter holdsToken (lmPc demoBusy)) = 2"
proof -
  have "(limstep demoResults)\<^sup>*\<^sup>* (initLimiter 2) demoBusy"
    using demoThree_reach runGoroutines_reach[OF demo_busy(1)] by (rule rtranclp_trans)
  from commands_are_limited[OF this] show ?thesis by (simp add: demo_busy(2))
qed

theorem commands_all_end_witness:
  "\<exists>st'. (procRun demoResults)\<^sup>*\<^sup>* demoFinished st' \<and> (\<forall>i < 3. \<exists>e. lmPc st' ! i = PClosed e)"
proof -
  have len: "length (lmPc demoFinished) = 3" by (simp add: demo_finished(2))
  have "limInv demoResults demoFinished \<and> length (lmPc demoFinished) = 3"
    using limsteps_inv[OF demo_finished(1)] len by simp
  then obtain st' where st': "(procRun demoResults)\<^sup>*\<^sup>* demoFinished st'" "\<forall>u. \<not> procRun demoResults st' u"
    using ending.comes_to_end by blast
  then show ?thesis using commands_all_end[OF demo_finished(1) zero_less_numeral, of 0 st'] unfolding len by blast
qed

theorem wait_receives_result_witness: "\<exists>e k. ecGot (lmChan demoFinished ! 0) = e # replicate k None \<and> e = demoResults 0"
proof -
  have got: "ecGot (lmChan demoFinished ! 0) = [Some (ErrOther ''exit status 1'')]"
    using demo_finished(3) by (cases "lmChan demoFinished") auto
  obtain e k where "ecGot (lmChan demoFinished ! 0) = e # replicate k None" "e = demoResults 0 \<or> e = Some ctxErr \<and> lmDone demoFinished"
    using wait_receives_result[OF demo_finished(1), of 0] got by (auto simp: demo_finished(2))
  moreover have "e = Some (ErrOther ''exit status 1'')" using got calculation(1) by simp
  ultimately show ?thesis using got by (intro exI[of _ e] exI[of _ 0]) (simp add: demoResults_def)
qed

end
