(* ===== verification/Sarif.thy ===== *)
theory Sarif
  imports Reporting "HOL-Library.Word" "HOL-Library.AList"
begin

text \<open>
  The SARIF report (internal/reporting/sarif.go). A replacement of a whole file is split into the
  replacements of its changed lines with difflib, a vendored library: the conversion of its matching
  blocks into grouped operations is translated here, the search for the blocks is a parameter with
  the contract its documentation states. Regions hold 32-bit numbers, as the messages do. What
  structpb.NewStruct says of a map of properties is a parameter too.
\<close>

section \<open>Operations of difflib\<close>

datatype opTag = OpEqual | OpReplace | OpDelete | OpInsert

record opCode =
  opT :: opTag
  opI1 :: nat
  opI2 :: nat
  opJ1 :: nat
  opJ2 :: nat

abbreviation mkOp :: "opTag \<Rightarrow> nat \<Rightarrow> nat \<Rightarrow> nat \<Rightarrow> nat \<Rightarrow> opCode" where
  "mkOp t i1 i2 j1 j2 \<equiv> \<lparr>opT = t, opI1 = i1, opI2 = i2, opJ1 = j1, opJ2 = j2\<rparr>"

type_synonym matchBlock = "nat \<times> nat \<times> nat"

fun opCodesLoop :: "nat \<Rightarrow> nat \<Rightarrow> matchBlock list \<Rightarrow> opCode list" where
  "opCodesLoop i j [] = []"
| "opCodesLoop i j ((ai, bj, n) # bs) =
     (if i < ai \<and> j < bj then [mkOp OpReplace i ai j bj]
      else if i < ai then [mkOp OpDelete i ai j bj]
      else if j < bj then [mkOp OpInsert i ai j bj] else []) @
     (if n > 0 then [mkOp OpEqual ai (ai + n) bj (bj + n)] else []) @
     opCodesLoop (ai + n) (bj + n) bs"

definition GetOpCodes :: "matchBlock list \<Rightarrow> opCode list" where
  "GetOpCodes blocks = opCodesLoop 0 0 blocks"

text \<open>The first and the last operation keep at most n lines of context.\<close>

definition trimFirst :: "nat \<Rightarrow> opCode \<Rightarrow> opCode" where
  "trimFirst n c =
     (if opT c = OpEqual
      then mkOp OpEqual (max (opI1 c) (opI2 c - n)) (opI2 c) (max (opJ1 c) (opJ2 c - n)) (opJ2 c) else c)"

definition trimLast :: "nat \<Rightarrow> opCode \<Rightarrow> opCode" where
  "trimLast n c =
     (if opT c = OpEqual
      then mkOp OpEqual (opI1 c) (min (opI2 c) (opI1 c + n)) (opJ1 c) (min (opJ2 c) (opJ1 c + n)) else c)"

fun groupLoop :: "nat \<Rightarrow> opCode list \<Rightarrow> opCode list \<Rightarrow> opCode list list" where
  "groupLoop n g [] = (if length g > 0 \<and> \<not> (length g = 1 \<and> opT (hd g) = OpEqual) then [g] else [])"
| "groupLoop n g (c # cs) =
     (if opT c = OpEqual \<and> opI2 c - opI1 c > n + n
      then (g @ [trimLast n c]) # groupLoop n [trimFirst n c] cs
      else groupLoop n (g @ [c]) cs)"

definition GetGroupedOpCodes :: "nat \<Rightarrow> matchBlock list \<Rightarrow> opCode list list" where
  "GetGroupedOpCodes n blocks =
     (let codes0 = (if GetOpCodes blocks = [] then [mkOp OpEqual 0 1 0 1] else GetOpCodes blocks);
          codes1 = trimFirst n (hd codes0) # tl codes0;
          codes2 = butlast codes1 @ [trimLast n (last codes1)]
      in groupLoop n [] codes2)"

section \<open>Regions and replacements\<close>

type_synonym int32 = "32 word"

text \<open>The conversion int32(n) of Go, which keeps the low 32 bits.\<close>

abbreviation toInt32 :: "int \<Rightarrow> int32" where
  "toInt32 n \<equiv> word_of_int n"

record Region =
  rgStartLine :: int32
  rgEndLine :: int32
  rgStartColumn :: int32
  rgEndColumn :: int32

record Replacement =
  DeletedRegion :: Region
  InsertedText :: string

fun groupLines :: "string list \<Rightarrow> opCode list \<Rightarrow> string list outcome" where
  "groupLines newLines [] = Ok []"
| "groupLines newLines (c # cs) =
     (if opT c = OpDelete then groupLines newLines cs
      else bindO (goSlice newLines (int (opJ1 c)) (int (opJ2 c))) (\<lambda>xs.
           bindO (groupLines newLines cs) (\<lambda>ys. Ok (xs @ ys))))"

definition groupReplacement :: "string list \<Rightarrow> opCode list \<Rightarrow> Replacement outcome" where
  "groupReplacement newLines g =
     (let startLine = opI1 (hd g);
          endLine0 = opI2 (last g);
          endLine = (if startLine = endLine0 then endLine0 + 1 else endLine0);
          col = (if startLine = endLine0 then 1 else 0)
      in bindO (groupLines newLines g) (\<lambda>lines.
           Ok \<lparr>DeletedRegion =
                 \<lparr>rgStartLine = toInt32 (int startLine) + 1, rgEndLine = toInt32 (int endLine),
                  rgStartColumn = toInt32 col, rgEndColumn = toInt32 col\<rparr>,
               InsertedText = concat lines\<rparr>))"

fun groupReplacements :: "string list \<Rightarrow> opCode list list \<Rightarrow> Replacement list outcome" where
  "groupReplacements newLines [] = Ok []"
| "groupReplacements newLines (g # gs) =
     bindO (groupReplacement newLines g) (\<lambda>r.
     bindO (groupReplacements newLines gs) (\<lambda>rs. Ok (r # rs)))"

type_synonym matcher = "string list \<Rightarrow> string list \<Rightarrow> matchBlock list"

definition replacementsForDiff :: "matcher \<Rightarrow> string list \<Rightarrow> string list \<Rightarrow> Replacement list outcome" where
  "replacementsForDiff blocks oldLines newLines =
     groupReplacements newLines (GetGroupedOpCodes 0 (blocks oldLines newLines))"

definition splitReplacement ::
    "(string \<Rightarrow> string outcome) \<Rightarrow> matcher \<Rightarrow> Replacement \<Rightarrow> string \<Rightarrow> string \<Rightarrow> Replacement list outcome" where
  "splitReplacement readFile blocks repl root fl =
     (if rgStartLine (DeletedRegion repl) \<noteq> 0 \<or> fl = [] then Ok [repl]
      else bindO (readFile (PathJoin [root, fl])) (\<lambda>b.
           replacementsForDiff blocks (SplitAfter b (CHR 0x0A)) (SplitAfter (InsertedText repl) (CHR 0x0A))))"

section \<open>The report\<close>

record sarifResult =
  srLevel :: string
  srMessage :: string
  srUri :: string
  srRegion :: Region
  srLocationProps :: props
  srFixes :: "(string \<times> Replacement list) list"
  srProps :: props

text \<open>The results of the checks seen so far.\<close>

type_synonym sarifState = "(string \<times> sarifResult list) list"

fun addResult :: "string \<Rightarrow> sarifResult \<Rightarrow> sarifState \<Rightarrow> sarifState" where
  "addResult check r [] = [(check, [r])]"
| "addResult check r ((k, rs) # rest) =
     (if k = check then (k, rs @ [r]) # rest else (k, rs) # addResult check r rest)"

definition levelMap :: "Level \<Rightarrow> string" where
  "levelMap level =
     (if level = Notice then ''note'' else if level = Warning then ''warning''
      else if level = Error then ''error'' else [])"

definition spanRegion :: "Span \<Rightarrow> Region" where
  "spanRegion s = \<lparr>rgStartLine = toInt32 (Line (Start s)), rgEndLine = toInt32 (Line (End s)),
     rgStartColumn = toInt32 (Col (Start s)), rgEndColumn = toInt32 (Col (End s))\<rparr>"

text \<open>A failure to split is logged, and the replacement of the whole file is kept.\<close>

definition fixFor ::
    "(string \<Rightarrow> string outcome) \<Rightarrow> matcher \<Rightarrow> finding \<Rightarrow> string \<Rightarrow> (string \<times> Replacement list) outcome" where
  "fixFor readFile blocks f repl =
     (let r = \<lparr>DeletedRegion = spanRegion (fdSpan f), InsertedText = repl\<rparr>
      in case splitReplacement readFile blocks r (fdRoot f) (fdFile f) of
           Ok rs \<Rightarrow> Ok (fdFile f, rs)
         | Err e \<Rightarrow> Ok (fdFile f, [r])
         | Panic m \<Rightarrow> Panic m)"

fun mapFixes :: "('a \<Rightarrow> 'b outcome) \<Rightarrow> 'a list \<Rightarrow> 'b list outcome" where
  "mapFixes g [] = Ok []"
| "mapFixes g (x # xs) = bindO (g x) (\<lambda>y. bindO (mapFixes g xs) (\<lambda>ys. Ok (y # ys)))"

definition sarif_EmitFinding ::
    "(string \<Rightarrow> string outcome) \<Rightarrow> matcher \<Rightarrow> ((string \<times> string) list \<Rightarrow> err option) \<Rightarrow>
      finding \<Rightarrow> sarifState \<Rightarrow> sarifState outcome" where
  "sarif_EmitFinding readFile blocks newStruct f st =
     bindO (mapFixes (fixFor readFile blocks f) (fdReplacements f)) (\<lambda>fixes.
       case fdProps f of
         Some m \<Rightarrow>
           (case newStruct m of
              Some e \<Rightarrow> Err e
            | None \<Rightarrow> Ok (addResult (fdCheck f)
                \<lparr>srLevel = levelMap (fdLevel f), srMessage = fdMessage f, srUri = fdFile f,
                 srRegion = spanRegion (fdSpan f), srLocationProps = None, srFixes = fixes, srProps = Some m\<rparr> st))
       | None \<Rightarrow> Ok (addResult (fdCheck f)
           \<lparr>srLevel = levelMap (fdLevel f), srMessage = fdMessage f, srUri = fdFile f,
            srRegion = spanRegion (fdSpan f), srLocationProps = None, srFixes = fixes, srProps = None\<rparr> st))"

text \<open>A property called "commit" replaces the hash of the commit.\<close>

definition commitProps :: "commitFinding \<Rightarrow> (string \<times> string) list" where
  "commitProps f = foldl (\<lambda>p (k, v). AList.update k v p) [(''commit'', cfHash f)]
     (case cfProps f of None \<Rightarrow> [] | Some m \<Rightarrow> m)"

definition sarif_EmitCommitMessageFinding ::
    "((string \<times> string) list \<Rightarrow> err option) \<Rightarrow> commitFinding \<Rightarrow> sarifState \<Rightarrow> sarifState outcome" where
  "sarif_EmitCommitMessageFinding newStruct f st =
     (case newStruct (commitProps f) of
        Some e \<Rightarrow> Err e
      | None \<Rightarrow> Ok (addResult (cfCheck f)
          \<lparr>srLevel = levelMap (cfLevel f), srMessage = cfMessage f, srUri = ''/COMMIT_MSG'',
           srRegion = spanRegion (cfSpan f), srLocationProps = Some (commitProps f),
           srFixes = [], srProps = None\<rparr> st))"

text \<open>The runs of the document: the name of the tool and its results.\<close>

definition sarif_Close :: "sarifState \<Rightarrow> (string \<times> sarifResult list) list" where
  "sarif_Close st =
     map (\<lambda>check. (check, case map_of st check of None \<Rightarrow> [] | Some rs \<Rightarrow> rs)) (sort (map fst st))"

section \<open>The split replacements give the new file\<close>

text \<open>What difflib documents of its matching blocks: they increase in both sequences, are equal in
  both, and end with a dummy at the ends of the sequences.\<close>

fun matchingFrom :: "nat \<Rightarrow> nat \<Rightarrow> 'a list \<Rightarrow> 'a list \<Rightarrow> matchBlock list \<Rightarrow> bool" where
  "matchingFrom i j a b [] = (i = length a \<and> j = length b)"
| "matchingFrom i j a b ((ai, bj, n) # bs) =
     (i \<le> ai \<and> j \<le> bj \<and> ai + n \<le> length a \<and> bj + n \<le> length b \<and>
      take n (drop ai a) = take n (drop bj b) \<and> matchingFrom (ai + n) (bj + n) a b bs)"

definition matchesLines :: "matcher \<Rightarrow> bool" where
  "matchesLines blocks \<longleftrightarrow> (\<forall>a b. matchingFrom 0 0 a b (blocks a b))"

text \<open>The lines of a list from one position to another.\<close>

definition span_of :: "'a list \<Rightarrow> nat \<Rightarrow> nat \<Rightarrow> 'a list" where
  "span_of xs i j = take (j - i) (drop i xs)"

lemma span_of_append:
  assumes "i \<le> j" "j \<le> k"
  shows "span_of xs i j @ span_of xs j k = span_of xs i k"
proof -
  have "k - i = (j - i) + (k - j)" "drop j xs = drop (j - i) (drop i xs)" using assms by simp_all
  then show ?thesis unfolding span_of_def by (simp only: take_add)
qed

lemma span_of_drop:
  assumes "i \<le> j"
  shows "span_of xs i j @ drop j xs = drop i xs"
proof -
  have "drop j xs = drop (j - i) (drop i xs)" using assms by simp
  then show ?thesis unfolding span_of_def by (simp only: append_take_drop_id)
qed

lemma span_of_self [simp]: "span_of xs i i = []"
  by (simp add: span_of_def)

text \<open>Operations that follow each other from one pair of positions to another, and tell the truth.\<close>

definition opOk :: "'a list \<Rightarrow> 'a list \<Rightarrow> opCode \<Rightarrow> bool" where
  "opOk a b c \<longleftrightarrow>
     opI1 c \<le> opI2 c \<and> opJ1 c \<le> opJ2 c \<and> opI2 c \<le> length a \<and> opJ2 c \<le> length b \<and>
     (opT c = OpDelete \<longrightarrow> opJ1 c = opJ2 c) \<and>
     (opT c = OpEqual \<longrightarrow> opI2 c - opI1 c = opJ2 c - opJ1 c \<and>
        span_of a (opI1 c) (opI2 c) = span_of b (opJ1 c) (opJ2 c))"

fun tiles :: "'a list \<Rightarrow> 'a list \<Rightarrow> nat \<Rightarrow> nat \<Rightarrow> opCode list \<Rightarrow> nat \<Rightarrow> nat \<Rightarrow> bool" where
  "tiles a b i j [] i' j' = (i = i' \<and> j = j')"
| "tiles a b i j (c # cs) i' j' = (opI1 c = i \<and> opJ1 c = j \<and> opOk a b c \<and> tiles a b (opI2 c) (opJ2 c) cs i' j')"

lemma tiles_append:
  "tiles a b i j (xs @ ys) i' j' \<longleftrightarrow> (\<exists>k l. tiles a b i j xs k l \<and> tiles a b k l ys i' j')"
  by (induction xs arbitrary: i j) auto

lemma tiles_le: "tiles a b i j cs i' j' \<Longrightarrow> i \<le> i' \<and> j \<le> j'"
  by (induction cs arbitrary: i j) (force simp: opOk_def)+

lemma tiles_ends:
  assumes "tiles a b i j cs i' j'" "cs \<noteq> []"
  shows "opI1 (hd cs) = i \<and> opI2 (last cs) = i' \<and> i' \<le> length a \<and> j' \<le> length b"
  using assms
proof (induction cs arbitrary: i j)
  case (Cons c cs)
  then show ?case by (cases "cs = []") (auto simp: opOk_def)
qed simp

lemma opCodesLoop_tiles:
  "matchingFrom i j a b bs \<Longrightarrow> tiles a b i j (opCodesLoop i j bs) (length a) (length b)"
proof (induction i j a b bs rule: matchingFrom.induct)
  case (2 i j a b ai bj n bs)
  then have m: "i \<le> ai" "j \<le> bj" "ai + n \<le> length a" "bj + n \<le> length b"
    "take n (drop ai a) = take n (drop bj b)" by auto
  have "opOk a b (mkOp OpEqual ai (ai + n) bj (bj + n))" using m by (simp add: opOk_def span_of_def)
  moreover have "opOk a b (mkOp t i ai j bj)" if "t = OpReplace \<or> t = OpInsert \<or> (t = OpDelete \<and> j = bj)" for t
    using m that by (auto simp: opOk_def)
  ultimately show ?case using 2 by auto
qed simp

text \<open>The lines a region covers, from zero and up to its end: with columns it is an empty region before
  its line, without columns it is whole lines with their ends.\<close>

definition regionLines :: "Region \<Rightarrow> nat \<times> nat" where
  "regionLines r =
     (let a = nat (sint (rgStartLine r)) - 1
      in (a, if sint (rgStartColumn r) = 1 \<and> sint (rgEndColumn r) = 1 then a else nat (sint (rgEndLine r))))"

text \<open>Applying replacements, in order, to the lines from position p.\<close>

fun applyFrom :: "nat \<Rightarrow> string list \<Rightarrow> Replacement list \<Rightarrow> string" where
  "applyFrom p ls [] = concat ls"
| "applyFrom p ls (r # rs) =
     (case regionLines (DeletedRegion r) of
        (a, b) \<Rightarrow> concat (take (a - p) ls) @ InsertedText r @ applyFrom b (drop (b - p) ls) rs)"

abbreviation maxLines :: nat where "maxLines \<equiv> 2147483646"

lemma sint_toInt32: "0 \<le> n \<Longrightarrow> n \<le> 2147483647 \<Longrightarrow> sint (toInt32 n) = n"
  by (simp add: sint_sbintrunc' signed_take_bit_int_eq_self)

lemma groupLines_tiles:
  "tiles a b i j cs i' j' \<Longrightarrow> groupLines b cs = Ok (span_of b j j')"
proof (induction cs arbitrary: i j)
  case (Cons c cs)
  then have c: "opI1 c = i" "opJ1 c = j" "opOk a b c" and rest: "tiles a b (opI2 c) (opJ2 c) cs i' j'" by auto
  have le: "j \<le> opJ2 c" "opJ2 c \<le> j'" "opJ2 c \<le> length b" using c tiles_le[OF rest] by (auto simp: opOk_def)
  have slice: "goSlice b (int (opJ1 c)) (int (opJ2 c)) = Ok (span_of b j (opJ2 c))"
    using le c by (simp add: goSlice_def span_of_def nat_minus_as_int)
  show ?case
  proof (cases "opT c = OpDelete")
    case True
    then have "opJ2 c = j" using c by (simp add: opOk_def)
    then show ?thesis using Cons.IH[OF rest] True by simp
  next
    case False
    then show ?thesis using Cons.IH[OF rest] slice span_of_append[OF le(1,2)] by simp
  qed
qed simp

lemma groupReplacement_tiles:
  assumes t: "tiles a b i j g i' j'" "g \<noteq> []" and n: "length a \<le> maxLines"
  shows "\<exists>r. groupReplacement b g = Ok r \<and> regionLines (DeletedRegion r) = (i, i') \<and>
    InsertedText r = concat (span_of b j j')"
proof -
  have e: "opI1 (hd g) = i" "opI2 (last g) = i'" "i' \<le> length a" "i \<le> i'"
    using tiles_ends[OF t] tiles_le[OF t(1)] by auto
  have s: "sint (toInt32 (int i + 1)) = int i + 1" "sint (toInt32 (int i')) = int i'"
    using e n by (intro sint_toInt32; simp)+
  then have w: "sint (word_of_nat i + 1 :: int32) = int i + 1" "sint (word_of_nat i' :: int32) = int i'"
    by simp_all
  show ?thesis
    by (cases "i = i'")
      (use w in \<open>simp_all add: groupReplacement_def groupLines_tiles[OF t(1)] e(1,2) Let_def regionLines_def\<close>)
qed

text \<open>The end of the operations: what is left of the text is unchanged, or the last group replaces it.\<close>

lemma groupLoop_end:
  assumes "tiles a b gi gj g i j" and "drop i a = drop j b"
    and "p \<le> gi" "q \<le> gj" "span_of a p gi = span_of b q gj" and "length a \<le> maxLines"
  shows "\<exists>rs. groupReplacements b (groupLoop 0 g []) = Ok rs \<and> applyFrom p (drop p a) rs = concat (drop q b)"
proof -
  have le: "gi \<le> i" "gj \<le> j" using tiles_le[OF assms(1)] by auto
  have after: "concat (drop i a) = concat (drop j b)" using assms(2) by simp
  have pre: "concat (span_of a p gi) = concat (span_of b q gj)" using assms(5) by simp
  have all: "concat (drop q b) = concat (span_of b q gj) @ concat (span_of b gj j) @ concat (drop j b)"
    using span_of_drop[OF assms(4), of b] span_of_drop[OF le(2), of b] by (metis concat_append)
  show ?thesis
  proof (cases "length g > 0 \<and> \<not> (length g = 1 \<and> opT (hd g) = OpEqual)")
    case True
    then have "g \<noteq> []" by auto
    from groupReplacement_tiles[OF assms(1) this assms(6)] obtain r where
      r: "groupReplacement b g = Ok r" "regionLines (DeletedRegion r) = (gi, i)" "InsertedText r = concat (span_of b gj j)"
      by blast
    have "i - p + p = i" using le assms(3) by simp
    then have "applyFrom p (drop p a) [r] = concat (span_of a p gi) @ concat (span_of b gj j) @ concat (drop i a)"
      using r by (simp add: span_of_def add.commute)
    then show ?thesis using True r(1) after pre all by simp
  next
    case False
    have same: "concat (span_of a gi i) = concat (span_of b gj j)"
    proof (cases g)
      case Nil
      then show ?thesis using assms(1) by simp
    next
      case (Cons c g')
      then show ?thesis using False assms(1) by (auto simp: opOk_def)
    qed
    have "concat (drop p a) = concat (span_of a p gi) @ concat (span_of a gi i) @ concat (drop i a)"
      using span_of_drop[OF assms(3), of a] span_of_drop[OF le(1), of a] by (metis concat_append)
    then show ?thesis using False same after pre all by auto
  qed
qed

lemma groupLoop_apply:
  assumes "tiles a b gi gj g i j" and "tiles a b i j cs ie je" and "drop ie a = drop je b"
    and "p \<le> gi" "q \<le> gj" "span_of a p gi = span_of b q gj" and "length a \<le> maxLines"
  shows "\<exists>rs. groupReplacements b (groupLoop 0 g cs) = Ok rs \<and> applyFrom p (drop p a) rs = concat (drop q b)"
  using assms
proof (induction cs arbitrary: g gi gj i j p q)
  case Nil
  then show ?case using groupLoop_end[of a b gi gj g ie je p q] by auto
next
  case (Cons c cs)
  then have c: "opI1 c = i" "opJ1 c = j" "opOk a b c" and rest: "tiles a b (opI2 c) (opJ2 c) cs ie je" by auto
  have le: "gi \<le> i" "gj \<le> j" using tiles_le[OF Cons.prems(1)] by auto
  show ?case
  proof (cases "opT c = OpEqual \<and> opI2 c - opI1 c > 0")
    case False
    have "tiles a b gi gj (g @ [c]) (opI2 c) (opJ2 c)" using Cons.prems(1) c by (auto simp: tiles_append)
    moreover have "(opT c = OpEqual \<and> opI2 c - opI1 c > 0 + 0) = False" using False by auto
    ultimately show ?thesis using Cons.IH[OF _ rest Cons.prems(3-7)] by (simp only: groupLoop.simps if_False)
  next
    case True
    let ?g = "g @ [trimLast 0 c]"
    have last: "trimLast 0 c = mkOp OpEqual i i j j" using True c by (simp add: trimLast_def opOk_def)
    have first: "trimFirst 0 c = mkOp OpEqual (opI2 c) (opI2 c) (opJ2 c) (opJ2 c)"
      using True c by (simp add: trimFirst_def opOk_def)
    have bnd: "i \<le> opI2 c" "j \<le> opJ2 c" "opI2 c \<le> length a" "opJ2 c \<le> length b"
      "span_of a i (opI2 c) = span_of b j (opJ2 c)" using c True by (auto simp: opOk_def)
    have "tiles a b gi gj ?g i j" using Cons.prems(1) bnd by (auto simp: tiles_append last opOk_def)
    from groupReplacement_tiles[OF this _ Cons.prems(7)] obtain r where
      r: "groupReplacement b ?g = Ok r" "regionLines (DeletedRegion r) = (gi, i)" "InsertedText r = concat (span_of b gj j)"
      by blast
    have "tiles a b (opI2 c) (opJ2 c) [trimFirst 0 c] (opI2 c) (opJ2 c)" using bnd by (simp add: first opOk_def)
    from Cons.IH[OF this rest Cons.prems(3) bnd(1,2,5) Cons.prems(7)] obtain rs where
      rs: "groupReplacements b (groupLoop 0 [trimFirst 0 c] cs) = Ok rs" "applyFrom i (drop i a) rs = concat (drop j b)"
      by blast
    have "i - p + p = i" using le Cons.prems(4) by simp
    then have "applyFrom p (drop p a) (r # rs) =
        concat (span_of a p gi) @ concat (span_of b gj j) @ concat (drop j b)"
      using r rs by (simp add: span_of_def add.commute)
    also have "\<dots> = concat (drop q b)"
      using span_of_drop[OF Cons.prems(5), of b] span_of_drop[OF le(2), of b] Cons.prems(6) by (metis concat_append)
    finally show ?thesis using True r(1) rs(1) by simp
  qed
qed

lemma tiles_snoc_iff:
  "cs \<noteq> [] \<Longrightarrow> tiles a b i j cs i' j' \<longleftrightarrow>
    (\<exists>k l. tiles a b i j (butlast cs) k l \<and> tiles a b k l [last cs] i' j')"
  using tiles_append[of a b i j "butlast cs" "[last cs]" i' j'] by simp

text \<open>Trimming the first and the last operation drops equal lines at both ends.\<close>

lemma trimmed_tiles:
  assumes t: "tiles a b 0 0 cs (length a) (length b)" "cs \<noteq> []"
  defines "codes1 \<equiv> trimFirst 0 (hd cs) # tl cs"
  defines "codes2 \<equiv> butlast codes1 @ [trimLast 0 (last codes1)]"
  shows "\<exists>i j ie je. tiles a b i j codes2 ie je \<and> drop ie a = drop je b \<and> span_of a 0 i = span_of b 0 j"
proof -
  have "\<exists>i j. tiles a b i j codes1 (length a) (length b) \<and> span_of a 0 i = span_of b 0 j"
  proof (cases cs)
    case Nil
    then show ?thesis using t(2) by simp
  next
    case (Cons c cs')
    show ?thesis
    proof (cases "opT c = OpEqual")
      case True
      then have "tiles a b (opI2 c) (opJ2 c) codes1 (length a) (length b)"
        using t(1) Cons by (simp add: codes1_def trimFirst_def opOk_def)
      moreover have "span_of a 0 (opI2 c) = span_of b 0 (opJ2 c)" using t(1) True Cons by (auto simp: opOk_def)
      ultimately show ?thesis by blast
    next
      case False
      then have "tiles a b 0 0 codes1 (length a) (length b)" using t(1) Cons by (simp add: codes1_def trimFirst_def)
      moreover have "span_of a 0 0 = span_of b 0 0" by simp
      ultimately show ?thesis by blast
    qed
  qed
  then obtain i j where c1: "tiles a b i j codes1 (length a) (length b)" "span_of a 0 i = span_of b 0 j" by blast
  have "codes1 \<noteq> []" by (simp add: codes1_def)
  then obtain k l where kl: "tiles a b i j (butlast codes1) k l" "tiles a b k l [last codes1] (length a) (length b)"
    using c1(1) tiles_snoc_iff by blast
  have "\<exists>ie je. tiles a b k l [trimLast 0 (last codes1)] ie je \<and> drop ie a = drop je b"
  proof (cases "opT (last codes1) = OpEqual")
    case True
    then have "opOk a b (mkOp OpEqual k k l l) \<and> trimLast 0 (last codes1) = mkOp OpEqual k k l l"
      using kl(2) by (auto simp: opOk_def trimLast_def)
    moreover have "drop k a = drop l b" using kl(2) True by (auto simp: opOk_def span_of_def)
    ultimately show ?thesis by auto
  next
    case False
    then show ?thesis using kl(2) by (auto simp: trimLast_def)
  qed
  then show ?thesis using kl(1) c1(2) unfolding codes2_def tiles_append by blast
qed

lemma replacementsForDiff_apply:
  assumes m: "matchesLines blocks" and n: "length old \<le> maxLines" and ne: "old \<noteq> [] \<or> new \<noteq> []"
  shows "\<exists>rs. replacementsForDiff blocks old new = Ok rs \<and> applyFrom 0 old rs = concat new"
proof -
  let ?cs = "GetOpCodes (blocks old new)"
  have t: "tiles old new 0 0 ?cs (length old) (length new)"
    using m unfolding GetOpCodes_def by (intro opCodesLoop_tiles) (simp add: matchesLines_def)
  then have cs: "?cs \<noteq> []" using ne by auto
  define codes1 where "codes1 = trimFirst 0 (hd ?cs) # tl ?cs"
  obtain i j ie je where c: "tiles old new i j (butlast codes1 @ [trimLast 0 (last codes1)]) ie je"
      "drop ie old = drop je new" "span_of old 0 i = span_of new 0 j"
    using trimmed_tiles[OF t cs] unfolding codes1_def by blast
  have "\<exists>rs. groupReplacements new (groupLoop 0 [] (butlast codes1 @ [trimLast 0 (last codes1)])) = Ok rs \<and>
      applyFrom 0 (drop 0 old) rs = concat (drop 0 new)"
    by (rule groupLoop_apply[OF _ c(1,2) _ _ c(3) n]) auto
  then show ?thesis
    using cs by (simp add: replacementsForDiff_def GetGroupedOpCodes_def Let_def codes1_def)
qed

text \<open>C5. Splitting loses nothing: where a finding replaces a whole file, applying the replacements the
  report writes, one after another, to the lines of the file gives exactly the text that the check
  proposed, whatever matching blocks the library finds. The hypothesis on the blocks is their
  documented contract; the file must have fewer lines than 32 bits can count.\<close>

theorem split_replacement_exact:
  assumes "matchesLines blocks" and "rgStartLine (DeletedRegion repl) = 0" and "fl \<noteq> []"
    and "readFile (PathJoin [root, fl]) = Ok b" and "length (SplitAfter b (CHR 0x0A)) \<le> maxLines"
  shows "\<exists>rs. splitReplacement readFile blocks repl root fl = Ok rs \<and>
    applyFrom 0 (SplitAfter b (CHR 0x0A)) rs = InsertedText repl"
  using replacementsForDiff_apply[OF assms(1,5), of "SplitAfter (InsertedText repl) (CHR 0x0A)"] assms(2-4)
  by (simp add: splitReplacement_def)

section \<open>Reports that keep their state by check\<close>

text \<open>
  Checks run concurrently, and a report sees their calls in some interleaving; the calls of one
  check come in order. A report that keeps a view of its state for each check, changed only by the
  calls of that check, does not depend on the interleaving.
\<close>

locale per_check =
  fixes inv :: "'s \<Rightarrow> bool" and act :: "'e \<Rightarrow> 's \<Rightarrow> 's" and checkOfCall :: "'e \<Rightarrow> string"
    and view :: "'s \<Rightarrow> string \<Rightarrow> 'v" and upd :: "'e \<Rightarrow> 'v \<Rightarrow> 'v"
  assumes keeps: "inv s \<Longrightarrow> inv (act e s)"
    and own: "inv s \<Longrightarrow> view (act e s) (checkOfCall e) = upd e (view s (checkOfCall e))"
    and other: "inv s \<Longrightarrow> c \<noteq> checkOfCall e \<Longrightarrow> view (act e s) c = view s c"
begin

definition runCalls :: "'s \<Rightarrow> 'e list \<Rightarrow> 's" where
  "runCalls s es = foldl (\<lambda>s e. act e s) s es"

lemma inv_runCalls: "inv s \<Longrightarrow> inv (runCalls s es)"
  unfolding runCalls_def by (induction es arbitrary: s) (auto simp: keeps)

lemma view_runCalls:
  "inv s \<Longrightarrow>
    view (runCalls s es) c = foldl (\<lambda>v e. upd e v) (view s c) (filter (\<lambda>e. checkOfCall e = c) es)"
  unfolding runCalls_def
  by (induction es arbitrary: s) (auto simp: own other keeps)

lemma interleaving_irrelevant:
  assumes "inv s" and "\<And>c. filter (\<lambda>e. checkOfCall e = c) es = filter (\<lambda>e. checkOfCall e = c) es'"
  shows "view (runCalls s es) = view (runCalls s es')"
  using assms by (intro ext) (simp add: view_runCalls)

end

section \<open>The document does not depend on the interleaving of the checks\<close>

fun emCheck :: "emission \<Rightarrow> string" where
  "emCheck (EmFinding f) = fdCheck f"
| "emCheck (EmCommit f) = cfCheck f"
| "emCheck (EmArtifact a) = arCheck a"

text \<open>A call of the report; one that fails leaves the results as they are, and artifacts are dropped.\<close>

definition sarif_emit ::
    "(string \<Rightarrow> string outcome) \<Rightarrow> matcher \<Rightarrow> ((string \<times> string) list \<Rightarrow> err option) \<Rightarrow>
      emission \<Rightarrow> sarifState \<Rightarrow> sarifState" where
  "sarif_emit readFile blocks newStruct em st =
     (case (case em of
              EmFinding f \<Rightarrow> sarif_EmitFinding readFile blocks newStruct f st
            | EmCommit f \<Rightarrow> sarif_EmitCommitMessageFinding newStruct f st
            | EmArtifact a \<Rightarrow> Ok st) of
        Ok st' \<Rightarrow> st' | _ \<Rightarrow> st)"

definition sarifView :: "sarifState \<Rightarrow> string \<Rightarrow> sarifResult list" where
  "sarifView st c = (case map_of st c of None \<Rightarrow> [] | Some rs \<Rightarrow> rs)"

text \<open>The results an emission adds, which do not depend on the state.\<close>

definition resultsOf ::
    "(string \<Rightarrow> string outcome) \<Rightarrow> matcher \<Rightarrow> ((string \<times> string) list \<Rightarrow> err option) \<Rightarrow> emission \<Rightarrow> sarifResult list" where
  "resultsOf readFile blocks newStruct em = sarifView (sarif_emit readFile blocks newStruct em []) (emCheck em)"

lemma map_of_addResult:
  "map_of (addResult c r st) k =
     (if k = c then Some ((case map_of st c of None \<Rightarrow> [] | Some rs \<Rightarrow> rs) @ [r]) else map_of st k)"
  by (induction c r st rule: addResult.induct) auto

lemma sarifView_addResult:
  "sarifView (addResult c r st) k = (if k = c then sarifView st c @ [r] else sarifView st k)"
  by (simp add: sarifView_def map_of_addResult)

lemma sarif_emit_cases:
  "(\<exists>r. \<forall>st. sarif_emit readFile blocks newStruct em st = addResult (emCheck em) r st) \<or>
   (\<forall>st. sarif_emit readFile blocks newStruct em st = st)"
proof (cases em)
  case (EmFinding f)
  show ?thesis
  proof (cases "mapFixes (fixFor readFile blocks f) (fdReplacements f)")
    case (Ok fxs)
    then show ?thesis using EmFinding
      by (cases "fdProps f"; cases "newStruct (the (fdProps f))")
        (auto simp: sarif_emit_def sarif_EmitFinding_def)
  qed (simp_all add: EmFinding sarif_emit_def sarif_EmitFinding_def)
next
  case (EmCommit f)
  then show ?thesis
    by (cases "newStruct (commitProps f)") (auto simp: sarif_emit_def sarif_EmitCommitMessageFinding_def)
qed (simp add: sarif_emit_def)

definition wfResults :: "sarifState \<Rightarrow> bool" where
  "wfResults st \<longleftrightarrow> distinct (map fst st) \<and> (\<forall>c rs. (c, rs) \<in> set st \<longrightarrow> rs \<noteq> [])"

lemma wfResults_Nil: "wfResults []"
  by (simp add: wfResults_def)

lemma keys_addResult: "fst ` set (addResult c r st) = insert c (fst ` set st)"
  by (induction c r st rule: addResult.induct) auto

lemma wfResults_add: "wfResults st \<Longrightarrow> wfResults (addResult c r st)"
proof (induction c r st rule: addResult.induct)
  case (2 c r k rs rest)
  then have rest: "wfResults rest" by (auto simp: wfResults_def)
  show ?case
  proof (cases "k = c")
    case True
    then show ?thesis using "2.prems" by (auto simp: wfResults_def)
  next
    case False
    have "wfResults (addResult c r rest)" using 2 False rest by simp
    moreover have "k \<notin> fst ` set (addResult c r rest)"
      using "2.prems" False unfolding keys_addResult by (simp add: wfResults_def)
    ultimately show ?thesis using "2.prems" False by (auto simp: wfResults_def)
  qed
qed (simp add: wfResults_def)

interpretation sarif: per_check wfResults "sarif_emit readFile blocks newStruct" emCheck sarifView
    "\<lambda>em rs. rs @ resultsOf readFile blocks newStruct em" for readFile blocks newStruct
proof unfold_locales
  fix em st
  assume "wfResults st"
  then show "wfResults (sarif_emit readFile blocks newStruct em st)"
    using sarif_emit_cases[of readFile blocks newStruct em] by (auto simp: wfResults_add)
next
  fix em st
  show "sarifView (sarif_emit readFile blocks newStruct em st) (emCheck em) =
      sarifView st (emCheck em) @ resultsOf readFile blocks newStruct em"
    using sarif_emit_cases[of readFile blocks newStruct em]
    by (auto simp: resultsOf_def sarifView_addResult) (simp_all add: sarifView_def)
next
  fix c em st
  assume "c \<noteq> emCheck em"
  then show "sarifView (sarif_emit readFile blocks newStruct em st) c = sarifView st c"
    using sarif_emit_cases[of readFile blocks newStruct em] by (auto simp: sarifView_addResult)
qed

lemma keys_view: "wfResults st \<Longrightarrow> set (map fst st) = {c. sarifView st c \<noteq> []}"
  by (force simp: wfResults_def sarifView_def image_iff split: option.splits dest: map_of_SomeD
      intro: map_of_is_SomeI dest!: iffD1[OF map_of_eq_None_iff])

text \<open>The document has one run for every check with results.\<close>

lemma sarif_document:
  shows "sarif_Close (foldl (\<lambda>st em. sarif_emit readFile blocks newStruct em st) [] ems) =
    map (\<lambda>c. (c, concat (map (resultsOf readFile blocks newStruct) (filter (\<lambda>em. emCheck em = c) ems))))
      (sorted_list_of_set {c. \<exists>em \<in> set ems. emCheck em = c \<and> resultsOf readFile blocks newStruct em \<noteq> []})"
proof -
  let ?st = "sarif.runCalls readFile blocks newStruct [] ems"
  have fold: "foldl (\<lambda>v e. v @ f e) v es = v @ concat (map f es)" for f :: "emission \<Rightarrow> sarifResult list" and v es
    by (induction es arbitrary: v) auto
  have view: "sarifView ?st c =
      concat (map (resultsOf readFile blocks newStruct) (filter (\<lambda>em. emCheck em = c) ems))" for c
    unfolding sarif.view_runCalls[OF wfResults_Nil] fold by (simp add: sarifView_def)
  have "distinct (map fst ?st)" using sarif.inv_runCalls[OF wfResults_Nil, of readFile blocks newStruct ems] by (simp add: wfResults_def)
  then have "sort (map fst ?st) = sorted_list_of_set (set (map fst ?st))"
    by (simp only: sorted_list_of_set_sort_remdups distinct_remdups_id)
  also have "set (map fst ?st) =
      {c. \<exists>em \<in> set ems. emCheck em = c \<and> resultsOf readFile blocks newStruct em \<noteq> []}"
    unfolding keys_view[OF sarif.inv_runCalls[OF wfResults_Nil]] view by auto
  finally show ?thesis
    unfolding sarif_Close_def sarifView_def[symmetric] view[symmetric] sarif.runCalls_def[symmetric] by simp
qed

text \<open>The conversion to 32 bits makes a finding on line 4294967296, which ctx.emit accepts, look like
  one on a whole file.\<close>

lemma line_number_wraps:
  "parseSpan 4294967296 0 0 0 = Ok (mkSpan 4294967296 0 0 0) \<and>
    rgStartLine (spanRegion (mkSpan 4294967296 0 0 0)) = 0"
  by (simp add: parseSpan_def intToInt_def mkSpan_def spanRegion_def Let_def word_of_int_eq_0_iff)

text \<open>A property named "commit" takes the place of the hash by which a finding on a commit message is
  attributed.\<close>

lemma commit_property_shadows_hash:
  "commitProps \<lparr>cfCheck = c, cfLevel = l, cfMessage = m, cfHash = h, cfCommitMessage = cm, cfSpan = s,
     cfProps = Some [(''commit'', v)]\<rparr> = [(''commit'', v)]"
  by (simp add: commitProps_def)

section \<open>The properties on a concrete file\<close>

text \<open>Matching blocks by the longest common prefix keep the contract.\<close>

fun commonLen :: "'a list \<Rightarrow> 'a list \<Rightarrow> nat" where
  "commonLen (x # xs) (y # ys) = (if x = y then Suc (commonLen xs ys) else 0)"
| "commonLen xs ys = 0"

definition prefixMatcher :: matcher where
  "prefixMatcher a b = [(0, 0, commonLen a b), (length a, length b, 0)]"

lemma commonLen_take: "commonLen a b \<le> length a \<and> commonLen a b \<le> length b \<and>
    take (commonLen a b) a = take (commonLen a b) b"
  by (induction a b rule: commonLen.induct) auto

lemma prefixMatcher_matches: "matchesLines prefixMatcher"
  using commonLen_take by (auto simp: matchesLines_def prefixMatcher_def)

definition wholeFile :: Region where
  "wholeFile = spanRegion (mkSpan 0 0 0 0)"

theorem split_replacement_exact_witness:
  "splitReplacement (\<lambda>_. Ok (''a'' @ newline @ ''b'' @ newline)) prefixMatcher
     \<lparr>DeletedRegion = wholeFile, InsertedText = ''a'' @ newline @ ''c'' @ newline\<rparr> ''/r'' ''f'' =
   Ok [\<lparr>DeletedRegion = \<lparr>rgStartLine = 2, rgEndLine = 3, rgStartColumn = 0, rgEndColumn = 0\<rparr>,
     InsertedText = ''c'' @ newline\<rparr>] \<and>
   applyFrom 0 [''a'' @ newline, ''b'' @ newline, ''''] [\<lparr>DeletedRegion =
     \<lparr>rgStartLine = 2, rgEndLine = 3, rgStartColumn = 0, rgEndColumn = 0\<rparr>, InsertedText = ''c'' @ newline\<rparr>] =
   ''a'' @ newline @ ''c'' @ newline"
proof -
  let ?b = "''a'' @ newline @ ''b'' @ newline"
  let ?r = "\<lparr>DeletedRegion = wholeFile, InsertedText = ''a'' @ newline @ ''c'' @ newline\<rparr>"
  let ?rs = "[\<lparr>DeletedRegion = \<lparr>rgStartLine = 2, rgEndLine = 3, rgStartColumn = 0, rgEndColumn = 0\<rparr>,
     InsertedText = ''c'' @ newline\<rparr>]"
  have zero: "rgStartLine (DeletedRegion ?r) = 0" by (simp add: wholeFile_def spanRegion_def mkSpan_def)
  have split: "splitReplacement (\<lambda>_. Ok ?b) prefixMatcher ?r ''/r'' ''f'' = Ok ?rs"
    using zero by (simp add: splitReplacement_def replacementsForDiff_def prefixMatcher_def GetGroupedOpCodes_def
        GetOpCodes_def trimFirst_def trimLast_def groupReplacement_def goSlice_def Let_def)
  have "length (SplitAfter ?b (CHR 0x0A)) \<le> maxLines" by simp
  from split_replacement_exact[OF prefixMatcher_matches zero, of "''f''" "\<lambda>_. Ok ?b" "''/r''" ?b] this
  have "\<exists>rs. Ok ?rs = Ok rs \<and> applyFrom 0 (SplitAfter ?b (CHR 0x0A)) rs = InsertedText ?r"
    unfolding split by blast
  then show ?thesis using split by simp
qed

end
