(* ===== verification/Result_Db.thy ===== *)
theory Result_Db
  imports Sarif Step_System
begin

text \<open>
  The report to ResultDB (internal/reporting/resultdb.go): the test results of the checks that are
  running, what a completed check posts, the batches that are uploaded, and the context of LUCI. The
  size of an encoded tag (proto.Size), the JSON decoder and the HTTP client are parameters.
\<close>

section \<open>Tags and messages\<close>

type_synonym tag = "string \<times> string"

definition resultSinkMaxBatchSize :: nat where "resultSinkMaxBatchSize = 500"
definition resultDBMaxSummaryHTMLLength :: int where "resultDBMaxSummaryHTMLLength = 4096"
definition resultDBMaxFailureReasonLength :: int where "resultDBMaxFailureReasonLength = 1024"
definition resultDBMaxTagLength :: nat where "resultDBMaxTagLength = 16384"

fun tagsLoop :: "(tag \<Rightarrow> nat) \<Rightarrow> nat \<Rightarrow> tag list \<Rightarrow> tag list \<Rightarrow> tag list \<times> string" where
  "tagsLoop protoSize n uniqueTags [] = (uniqueTags, '''')"
| "tagsLoop protoSize n uniqueTags (t # ts) =
     (if t \<in> set uniqueTags then tagsLoop protoSize n uniqueTags ts
      else if n + protoSize t > resultDBMaxTagLength then (uniqueTags, ''<br>Tags truncated<br>'')
      else tagsLoop protoSize (n + protoSize t) (uniqueTags @ [t]) ts)"

definition makeTagsUniqueAndValid :: "(tag \<Rightarrow> nat) \<Rightarrow> tag list \<Rightarrow> tag list \<times> string" where
  "makeTagsUniqueAndValid protoSize tags = tagsLoop protoSize 0 [] tags"

definition truncationNotice :: string where
  "truncationNotice = ''... (truncated)''"

definition maybeTruncateMessage :: "string \<Rightarrow> string \<Rightarrow> int \<Rightarrow> string outcome" where
  "maybeTruncateMessage msg tagMsg maxSize =
     (if int (length msg + length tagMsg) > maxSize
      then bindO (goTo msg (maxSize - int (length truncationNotice + length tagMsg)))
             (\<lambda>m. Ok (m @ truncationNotice @ tagMsg))
      else Ok (msg @ tagMsg))"

text \<open>html.EscapeString.\<close>

fun escapeChar :: "char \<Rightarrow> string" where
  "escapeChar c =
     (if c = CHR ''&'' then ''&amp;'' else if c = CHR 0x27 then ''&#39;'' else if c = CHR ''<'' then ''&lt;''
      else if c = CHR ''>'' then ''&gt;'' else if c = CHR 0x22 then ''&#34;'' else [c])"

definition EscapeString :: "string \<Rightarrow> string" where
  "EscapeString s = concat (map escapeChar s)"

section \<open>The results of running checks\<close>

datatype testStatus = StatusUnset | StatusPass | StatusFail | StatusCrash

datatype artifactBody = Contents string | FilePath string

record testResult =
  trTestId :: string
  trSummaryHtml :: string
  trTags :: "tag list"
  trArtifacts :: "string \<rightharpoonup> artifactBody"
  trStartTime :: string
  trDuration :: string
  trStatus :: testStatus
  trExpected :: bool
  trFailureReason :: "string option"

definition newTestResult :: "string \<Rightarrow> testResult" where
  "newTestResult check =
     \<lparr>trTestId = ''shac/'' @ check, trSummaryHtml = [], trTags = [], trArtifacts = Map.empty,
      trStartTime = [], trDuration = [], trStatus = StatusUnset, trExpected = False, trFailureReason = None\<rparr>"

text \<open>The results of the checks that have not completed, and those sent on the channel. A result is a
  pointer in the map, so changing it is changing the map.\<close>

record luci =
  liveChecks :: "string \<rightharpoonup> testResult"
  doneChecks :: "testResult list"

definition initLuci :: luci where
  "initLuci = \<lparr>liveChecks = Map.empty, doneChecks = []\<rparr>"

definition getTestResult :: "string \<Rightarrow> luci \<Rightarrow> testResult \<times> luci" where
  "getTestResult check l =
     (case liveChecks l check of
        Some r \<Rightarrow> (r, l)
      | None \<Rightarrow> (newTestResult check, l\<lparr>liveChecks := (liveChecks l)(check \<mapsto> newTestResult check)\<rparr>))"

definition setTestResult :: "string \<Rightarrow> testResult \<Rightarrow> luci \<Rightarrow> luci" where
  "setTestResult check r l = l\<lparr>liveChecks := (liveChecks l)(check \<mapsto> r)\<rparr>"

definition addSummary :: "string \<Rightarrow> testResult \<Rightarrow> testResult" where
  "addSummary overview r = r\<lparr>trSummaryHtml := trSummaryHtml r @ EscapeString overview @ ''<br>''\<rparr>"

definition findingResult :: "(string \<Rightarrow> string) \<Rightarrow> finding \<Rightarrow> testResult \<Rightarrow> testResult" where
  "findingResult quote f r =
     (let overview = overviewString quote False UnknownAnsi (fdCheck f) (fdLevel f) (fdMessage f) (fdFile f) (fdSpan f) None;
          r1 = addSummary overview r
      in case fdProps f of None \<Rightarrow> r1 | Some m \<Rightarrow> r1\<lparr>trTags := trTags r1 @ sort_key fst m\<rparr>)"

definition luci_EmitFinding :: "(string \<Rightarrow> string) \<Rightarrow> finding \<Rightarrow> luci \<Rightarrow> luci" where
  "luci_EmitFinding quote f l =
     (let (r, l1) = getTestResult (fdCheck f) l in setTestResult (fdCheck f) (findingResult quote f r) l1)"

definition commitResult :: "(string \<Rightarrow> string) \<Rightarrow> commitFinding \<Rightarrow> testResult \<Rightarrow> testResult" where
  "commitResult quote f r =
     (let overview = overviewString quote False UnknownAnsi (cfCheck f) (cfLevel f) (cfMessage f)
            (''Commit '' @ shortHash (cfHash f)) (cfSpan f) None;
          r1 = addSummary overview r
      in r1\<lparr>trTags := trTags r1 @ [(''commit'', cfHash f)]\<rparr>)"

definition luci_EmitCommitMessageFinding :: "(string \<Rightarrow> string) \<Rightarrow> commitFinding \<Rightarrow> luci \<Rightarrow> luci" where
  "luci_EmitCommitMessageFinding quote f l =
     (let (r, l1) = getTestResult (cfCheck f) l in setTestResult (cfCheck f) (commitResult quote f r) l1)"

definition artifactResult :: "artifact \<Rightarrow> testResult \<Rightarrow> testResult" where
  "artifactResult a r =
     r\<lparr>trArtifacts := (trArtifacts r)(arFile a \<mapsto>
       (case arContent a of
          Some content \<Rightarrow> Contents content
        | None \<Rightarrow> FilePath (PathJoin [arRoot a, arFile a])))\<rparr>"

definition luci_EmitArtifact :: "artifact \<Rightarrow> luci \<Rightarrow> luci" where
  "luci_EmitArtifact a l =
     (let (r, l1) = getTestResult (arCheck a) l in setTestResult (arCheck a) (artifactResult a r) l1)"

definition completeResult ::
    "(tag \<Rightarrow> nat) \<Rightarrow> string \<Rightarrow> string \<Rightarrow> Level \<Rightarrow> err option \<Rightarrow> testResult \<Rightarrow> testResult outcome" where
  "completeResult protoSize start d level e r0 =
     (let r1 = r0\<lparr>trStartTime := start, trDuration := d\<rparr>
      in bindO
           (case e of
              Some x \<Rightarrow>
                bindO (maybeTruncateMessage (errText x) [] resultDBMaxFailureReasonLength) (\<lambda>msg.
                  Ok (r1\<lparr>trStatus := StatusCrash, trFailureReason := Some msg\<rparr>))
            | None \<Rightarrow>
                if level = Error then Ok (r1\<lparr>trStatus := StatusFail\<rparr>)
                else Ok (r1\<lparr>trStatus := StatusPass, trExpected := True\<rparr>))
           (\<lambda>r2.
             let (tags, tagMsg) = makeTagsUniqueAndValid protoSize (trTags r2)
             in bindO (maybeTruncateMessage (trSummaryHtml r2) tagMsg resultDBMaxSummaryHTMLLength) (\<lambda>s.
                  Ok (r2\<lparr>trSummaryHtml := s, trTags := tags\<rparr>))))"

definition luci_CheckCompleted ::
    "(tag \<Rightarrow> nat) \<Rightarrow> string \<Rightarrow> string \<Rightarrow> string \<Rightarrow> Level \<Rightarrow> err option \<Rightarrow> luci \<Rightarrow> luci outcome" where
  "luci_CheckCompleted protoSize check start d level e l =
     (let (r, l1) = getTestResult check l
      in bindO (completeResult protoSize start d level e r) (\<lambda>r'.
           Ok (l1\<lparr>liveChecks := (liveChecks l1)(check := None), doneChecks := doneChecks l1 @ [r']\<rparr>)))"

section \<open>The context of LUCI\<close>

record resultSinkContext =
  AuthToken :: string
  ResultSinkAddr :: string

record luciContext =
  lcInvocation :: string
  lcResultSink :: resultSinkContext

definition resultSinkCtx ::
    "(string \<Rightarrow> string) \<Rightarrow> (string \<Rightarrow> string outcome) \<Rightarrow> (string \<Rightarrow> luciContext outcome) \<Rightarrow> resultSinkContext outcome" where
  "resultSinkCtx getenv readFile unmarshal =
     (let path = getenv ''LUCI_CONTEXT'';
          failed = (\<lambda>e. Err (Errorf ''failed to load LUCI_CONTEXT=%q: %w'' [FStr path, FErr e]))
      in case readFile path of
           Err e \<Rightarrow> failed e
         | Panic m \<Rightarrow> Panic m
         | Ok b \<Rightarrow>
             (case unmarshal b of
                Err e \<Rightarrow> failed e
              | Panic m \<Rightarrow> Panic m
              | Ok ctx \<Rightarrow>
                  if lcInvocation ctx = [] \<or> AuthToken (lcResultSink ctx) = [] \<or> ResultSinkAddr (lcResultSink ctx) = []
                  then Err (Errorf ''resultdb is enabled but not resultsink for invocation %s. Make sure shac is run under \"rdb stream\"''
                    [FStr (lcInvocation ctx)])
                  else Ok (lcResultSink ctx)))"

text \<open>The answer of the HTTP client: an error, or a status code with the errors of reading and closing
  the body. A failing status code outranks these.\<close>

datatype httpAnswer = HttpErr err | HttpResp int "err option" "err option"

record httpRequest =
  hrUrl :: string
  hrAuthorization :: string
  hrBody :: string

definition sendRequest :: "resultSinkContext \<Rightarrow> string \<Rightarrow> string \<Rightarrow> httpRequest" where
  "sendRequest r endpoint body =
     \<lparr>hrUrl = ''http://'' @ ResultSinkAddr r @ ''/prpc/luci.resultsink.v1.Sink/'' @ endpoint,
      hrAuthorization = ''ResultSink '' @ AuthToken r, hrBody = body\<rparr>"

definition sendData ::
    "resultSinkContext \<Rightarrow> (httpRequest \<Rightarrow> httpAnswer) \<Rightarrow> (int \<Rightarrow> string) \<Rightarrow> string \<Rightarrow> string \<Rightarrow> unit outcome" where
  "sendData r client statusText endpoint body =
     (case client (sendRequest r endpoint body) of
        HttpErr e \<Rightarrow> Err e
      | HttpResp code copyErr closeErr \<Rightarrow>
          if code \<noteq> 200
          then Err (Errorf ''ResultDB HTTP Request error: %s (%d)'' [FStr (statusText code), FInt code])
          else fromErr (case copyErr of None \<Rightarrow> closeErr | Some e \<Rightarrow> Some e))"

section \<open>Uploading in batches\<close>

text \<open>
  The encoder of the request's JSON, the status texts, and the HTTP client: what it answers to the
  request made when so many goroutines have ended before.
\<close>

record 'r uploadEnv =
  ueSink :: resultSinkContext
  ueMarshal :: "'r list \<Rightarrow> err + string"
  ueStatusText :: "int \<Rightarrow> string"
  ueClient :: "nat \<Rightarrow> httpRequest \<Rightarrow> httpAnswer"

text \<open>
  The checks that still complete and put their result on the channel, the buffered channel, the batch
  that the upload goroutine fills, the goroutines that send a batch and have not ended, and the first
  error of the group. The requests made and what the goroutines that have ended returned are kept as
  history.
\<close>

record 'r uploading =
  upTodo :: "'r list"
  upChan :: "'r list"
  upClosed :: bool
  upBatch :: "'r list"
  upEnded :: bool
  upPending :: "'r list list"
  upErr :: "err option"
  upRequests :: "httpRequest list"
  upSent :: "('r list \<times> unit outcome) list"

definition startUpload :: "'r list \<Rightarrow> 'r uploading" where
  "startUpload results =
     \<lparr>upTodo = results, upChan = [], upClosed = False, upBatch = [], upEnded = False, upPending = [], upErr = None,
      upRequests = [], upSent = []\<rparr>"

text \<open>The end of a batch starts the goroutine that sends it.\<close>

definition startSend :: "'r uploading \<Rightarrow> 'r uploading" where
  "startSend s = s\<lparr>upBatch := [], upPending := upPending s @ [upBatch s]\<rparr>"

text \<open>The body of that goroutine: the requests it makes, none when the batch can't be encoded, and its result.\<close>

definition sendBatch :: "'r uploadEnv \<Rightarrow> nat \<Rightarrow> 'r list \<Rightarrow> httpRequest list \<times> unit outcome" where
  "sendBatch env k batch =
     (case ueMarshal env batch of
        Inl e \<Rightarrow> ([], Err e)
      | Inr b \<Rightarrow>
          ([sendRequest (ueSink env) ''ReportTestResults'' b],
           sendData (ueSink env) (ueClient env k) (ueStatusText env) ''ReportTestResults'' b))"

text \<open>The group keeps the first error.\<close>

definition endSend :: "'r uploadEnv \<Rightarrow> nat \<Rightarrow> 'r uploading \<Rightarrow> 'r uploading" where
  "endSend env i s =
     (let batch = upPending s ! i; (reqs, r) = sendBatch env (length (upSent s)) batch
      in s\<lparr>upPending := take i (upPending s) @ drop (Suc i) (upPending s), upRequests := upRequests s @ reqs,
           upErr := (case upErr s of Some e \<Rightarrow> Some e | None \<Rightarrow> (case r of Err e \<Rightarrow> Some e | _ \<Rightarrow> None)),
           upSent := upSent s @ [(batch, r)]\<rparr>)"

text \<open>
  The steps: a check reports its result, which waits while the channel is full; Close closes the channel,
  after the last check; the upload goroutine receives a result, stops waiting for more because of the
  timer, the closed channel or a full batch, or ends; a goroutine that sends ends, in any order.
\<close>

datatype uploadTurn = UpReport | UpClose | UpRecv | UpTimer | UpDrained | UpFull | UpSend nat

fun uploadStep :: "'r uploadEnv \<Rightarrow> uploadTurn \<Rightarrow> 'r uploading \<Rightarrow> 'r uploading option" where
  "uploadStep env UpReport s =
     (case upTodo s of
        [] \<Rightarrow> None
      | r # rs \<Rightarrow>
          if length (upChan s) < resultSinkMaxBatchSize then Some (s\<lparr>upTodo := rs, upChan := upChan s @ [r]\<rparr>) else None)"
| "uploadStep env UpClose s = (if upTodo s = [] \<and> \<not> upClosed s then Some (s\<lparr>upClosed := True\<rparr>) else None)"
| "uploadStep env UpRecv s =
     (case upChan s of
        [] \<Rightarrow> None
      | r # rs \<Rightarrow>
          if \<not> upEnded s \<and> length (upBatch s) < resultSinkMaxBatchSize
          then Some (s\<lparr>upChan := rs, upBatch := upBatch s @ [r]\<rparr>) else None)"
| "uploadStep env UpTimer s =
     (if \<not> upEnded s \<and> upBatch s \<noteq> [] \<and> length (upBatch s) < resultSinkMaxBatchSize then Some (startSend s) else None)"
| "uploadStep env UpDrained s =
     (if \<not> upEnded s \<and> upClosed s \<and> upChan s = [] \<and> length (upBatch s) < resultSinkMaxBatchSize
      then Some (if upBatch s = [] then s\<lparr>upEnded := True\<rparr> else startSend s) else None)"
| "uploadStep env UpFull s =
     (if \<not> upEnded s \<and> \<not> length (upBatch s) < resultSinkMaxBatchSize then Some (startSend s) else None)"
| "uploadStep env (UpSend i) s = (if i < length (upPending s) then Some (endSend env i s) else None)"

fun uploadRun :: "'r uploadEnv \<Rightarrow> uploadTurn list \<Rightarrow> 'r uploading \<Rightarrow> 'r uploading option" where
  "uploadRun env [] s = Some s"
| "uploadRun env (t # ts) s = (case uploadStep env t s of None \<Rightarrow> None | Some s' \<Rightarrow> uploadRun env ts s')"

text \<open>The wait of Close ends when all goroutines have ended, and returns the error of the group.\<close>

definition uploaded :: "'r uploading \<Rightarrow> bool" where
  "uploaded s \<longleftrightarrow> upClosed s \<and> upEnded s \<and> upPending s = []"

definition luci_Close :: "'r uploading \<Rightarrow> unit outcome" where
  "luci_Close s = fromErr (upErr s)"

text \<open>A run in which a scheduler picks among the turns that are possible.\<close>

definition turns :: "'r uploadEnv \<Rightarrow> 'r uploading \<Rightarrow> uploadTurn list" where
  "turns env s =
     filter (\<lambda>t. \<not> Option.is_none (uploadStep env t s))
       ([UpReport, UpClose, UpRecv, UpTimer, UpDrained, UpFull] @ map UpSend [0 ..< length (upPending s)])"

primrec uploadFor :: "'r uploadEnv \<Rightarrow> ('r uploading \<Rightarrow> nat) \<Rightarrow> nat \<Rightarrow> 'r uploading \<Rightarrow> 'r uploading" where
  "uploadFor env pick 0 s = s"
| "uploadFor env pick (Suc n) s =
     (if turns env s = [] then s
      else case uploadStep env (turns env s ! (pick s mod length (turns env s))) s of
          None \<Rightarrow> s
        | Some s' \<Rightarrow> uploadFor env pick n s')"

definition uploadAll :: "'r uploadEnv \<Rightarrow> ('r uploading \<Rightarrow> nat) \<Rightarrow> 'r list \<Rightarrow> 'r uploading" where
  "uploadAll env pick results = uploadFor env pick (4 * length results + 2) (startUpload results)"

section \<open>Tags and messages are within their limits\<close>

definition tagsSize :: "(tag \<Rightarrow> nat) \<Rightarrow> tag list \<Rightarrow> nat" where
  "tagsSize protoSize ts = sum_list (map protoSize ts)"

text \<open>
  The tags \<open>us\<close> that were added to \<open>u\<close>: within the limit, and all the others unless a tag that is left
  out would have gone beyond it.
\<close>

definition tagsFit :: "(tag \<Rightarrow> nat) \<Rightarrow> nat \<Rightarrow> tag list \<Rightarrow> tag list \<Rightarrow> tag list \<Rightarrow> string \<Rightarrow> tag list \<Rightarrow> bool" where
  "tagsFit protoSize n u ts u' m us \<longleftrightarrow>
     u' = u @ us \<and> distinct u' \<and> subseq us ts \<and> n + tagsSize protoSize us \<le> resultDBMaxTagLength \<and>
     (if m = [] then set u' = set u \<union> set ts
      else m = ''<br>Tags truncated<br>'' \<and>
        (\<exists>t \<in> set ts - set u'. n + tagsSize protoSize us + protoSize t > resultDBMaxTagLength))"

lemma tagsFit_seen: "t \<in> set u \<Longrightarrow> tagsFit protoSize n u ts u' m us \<Longrightarrow> tagsFit protoSize n u (t # ts) u' m us"
  by (auto simp: tagsFit_def split: if_splits)

lemma tagsFit_new:
  assumes "tagsFit protoSize (n + protoSize t) (u @ [t]) ts u' m us"
  shows "tagsFit protoSize n u (t # ts) u' m (t # us)"
proof -
  have n: "n + tagsSize protoSize (t # us) = n + protoSize t + tagsSize protoSize us" by (simp add: tagsSize_def)
  have us: "u' = (u @ [t]) @ us" "distinct u'" "subseq us ts" "n + protoSize t + tagsSize protoSize us \<le> resultDBMaxTagLength"
    and rest: "if m = [] then set u' = set (u @ [t]) \<union> set ts
      else m = ''<br>Tags truncated<br>'' \<and>
        (\<exists>t' \<in> set ts - set u'. n + protoSize t + tagsSize protoSize us + protoSize t' > resultDBMaxTagLength)"
    using assms unfolding tagsFit_def by blast+
  have "if m = [] then set u' = set u \<union> set (t # ts)
      else m = ''<br>Tags truncated<br>'' \<and>
        (\<exists>t' \<in> set (t # ts) - set u'. n + protoSize t + tagsSize protoSize us + protoSize t' > resultDBMaxTagLength)"
  proof (cases "m = []")
    case True
    then show ?thesis using rest by simp
  next
    case False
    then show ?thesis using rest unfolding if_not_P[OF False] by (intro conjI) (blast, metis Diff_iff list.set_intros(2))
  qed
  moreover have "u' = u @ t # us" "subseq (t # us) (t # ts)" using us(1,3) by simp_all
  ultimately show ?thesis using us(2,4) unfolding tagsFit_def n by blast
qed

lemma tagsLoop_fit:
  "tagsLoop protoSize n u ts = (u', m) \<Longrightarrow> distinct u \<Longrightarrow> n \<le> resultDBMaxTagLength \<Longrightarrow>
   \<exists>us. tagsFit protoSize n u ts u' m us"
proof (induction protoSize n u ts rule: tagsLoop.induct)
  case (1 protoSize n u)
  then show ?case by (auto simp: tagsFit_def tagsSize_def)
next
  case (2 protoSize n u t ts)
  consider "t \<in> set u" | "t \<notin> set u" "n + protoSize t > resultDBMaxTagLength" | "t \<notin> set u" "\<not> n + protoSize t > resultDBMaxTagLength"
    by blast
  then show ?case
  proof cases
    case 1
    then show ?thesis using "2.IH"(1) "2.prems" tagsFit_seen by fastforce
  next
    case 2
    then show ?thesis using "2.prems" by (auto simp: tagsFit_def tagsSize_def)
  next
    case 3
    then show ?thesis using "2.IH"(2) "2.prems" tagsFit_new by fastforce
  qed
qed

lemma tagsLoop_spec:
  assumes "tagsLoop protoSize n u ts = (u', m)" "distinct u" "n \<le> resultDBMaxTagLength"
  shows "\<exists>us. u' = u @ us \<and> distinct u' \<and> subseq us ts \<and> n + tagsSize protoSize us \<le> resultDBMaxTagLength \<and>
    (if m = [] then set u' = set u \<union> set ts
     else m = ''<br>Tags truncated<br>'' \<and>
       (\<exists>t \<in> set ts - set u'. n + tagsSize protoSize us + protoSize t > resultDBMaxTagLength))"
  using tagsLoop_fit[OF assms] unfolding tagsFit_def .

text \<open>The tags of a result are distinct, in the order they were given, and within the size ResultDB
  accepts; either no tag is missing, or the message says so and one that is missing would not fit.\<close>

theorem tags_valid:
  assumes "makeTagsUniqueAndValid protoSize tags = (u, m)"
  shows "distinct u \<and> subseq u tags \<and> tagsSize protoSize u \<le> resultDBMaxTagLength \<and>
    (if m = [] then set u = set tags
     else m = ''<br>Tags truncated<br>'' \<and>
       (\<exists>t \<in> set tags - set u. tagsSize protoSize u + protoSize t > resultDBMaxTagLength))"
  using tagsLoop_spec[OF assms[unfolded makeTagsUniqueAndValid_def]] by (auto split: if_splits)

text \<open>A message that is too long is cut so that with the notice and the message about the tags it has
  exactly the length allowed; any other is kept.\<close>

lemma maybeTruncateMessage_spec:
  assumes "int (length truncationNotice + length tagMsg) \<le> maxSize"
  shows "maybeTruncateMessage msg tagMsg maxSize =
    Ok (if int (length msg + length tagMsg) \<le> maxSize then msg @ tagMsg
        else take (nat maxSize - length truncationNotice - length tagMsg) msg @ truncationNotice @ tagMsg)"
proof -
  have "goTo msg (maxSize - int (length truncationNotice + length tagMsg)) =
      Ok (take (nat maxSize - length truncationNotice - length tagMsg) msg)"
    if "int (length msg + length tagMsg) > maxSize"
  proof -
    have "nat (maxSize - int (length truncationNotice + length tagMsg)) =
        nat maxSize - length truncationNotice - length tagMsg" by linarith
    then show ?thesis using that assms by (simp add: goSlice_def)
  qed
  then show ?thesis by (simp add: maybeTruncateMessage_def)
qed

lemma maybeTruncateMessage_bound:
  assumes "int (length truncationNotice + length tagMsg) \<le> maxSize"
  shows "\<exists>s. maybeTruncateMessage msg tagMsg maxSize = Ok s \<and> int (length s) \<le> maxSize \<and> suffix tagMsg s"
  using assms by (auto simp: maybeTruncateMessage_spec suffix_def)

section \<open>A completed check posts one result\<close>

lemma notice_length: "length truncationNotice = 15"
  by (simp add: truncationNotice_def)

text \<open>
  What a check that has completed posts, field by field, from what was gathered for it: the end of the
  check decides the status, only a pass is expected, an error that is too long is cut with a notice,
  and so is the summary, which ends with the message about the tags.
\<close>

definition cutText :: "nat \<Rightarrow> string \<Rightarrow> string \<Rightarrow> string" where
  "cutText limit tagMsg s =
     (if length s + length tagMsg \<le> limit then s @ tagMsg
      else take (limit - 15 - length tagMsg) s @ ''... (truncated)'' @ tagMsg)"

lemma cutText_length: "15 + length tagMsg \<le> limit \<Longrightarrow> length (cutText limit tagMsg s) \<le> limit"
  by (simp add: cutText_def) arith

lemma maybeTruncateMessage_cut:
  assumes "15 + length tagMsg \<le> limit" and "maxSize = int limit"
  shows "maybeTruncateMessage msg tagMsg maxSize = Ok (cutText limit tagMsg msg)"
  using maybeTruncateMessage_spec[of tagMsg maxSize msg] assms
  by (simp add: cutText_def notice_length) (simp add: truncationNotice_def)

definition completedAs ::
    "(tag \<Rightarrow> nat) \<Rightarrow> string \<Rightarrow> string \<Rightarrow> Level \<Rightarrow> err option \<Rightarrow> string \<Rightarrow> tag list \<Rightarrow> testResult \<Rightarrow> bool" where
  "completedAs protoSize start d level e html tags r \<longleftrightarrow>
     trStartTime r = start \<and> trDuration r = d \<and>
     trStatus r = (if e \<noteq> None then StatusCrash else if level = Error then StatusFail else StatusPass) \<and>
     (trExpected r \<longleftrightarrow> e = None \<and> level \<noteq> Error) \<and>
     trFailureReason r = map_option (\<lambda>x. cutText 1024 [] (errText x)) e \<and>
     (\<exists>m. tagsFit protoSize 0 [] tags (trTags r) m (trTags r) \<and> trSummaryHtml r = cutText 4096 m html)"

lemma completeResult_ok:
  "\<exists>r'. completeResult protoSize start d level e r = Ok r' \<and> trTestId r' = trTestId r \<and>
    trArtifacts r' = trArtifacts r \<and>
    (\<not> trExpected r \<and> trFailureReason r = None \<longrightarrow>
       completedAs protoSize start d level e (trSummaryHtml r) (trTags r) r')"
proof -
  obtain u m where tm: "makeTagsUniqueAndValid protoSize (trTags r) = (u, m)" by (cases "makeTagsUniqueAndValid protoSize (trTags r)")
  obtain us where us: "tagsFit protoSize 0 [] (trTags r) u m us"
    using tagsLoop_fit[OF tm[unfolded makeTagsUniqueAndValid_def]] by auto
  then have fit: "tagsFit protoSize 0 [] (trTags r) u m u" by (auto simp: tagsFit_def)
  have "length m \<le> 22" using fit by (auto simp: tagsFit_def split: if_splits)
  then have m: "15 + length m \<le> 4096" by simp
  have s: "maybeTruncateMessage (trSummaryHtml r) m resultDBMaxSummaryHTMLLength = Ok (cutText 4096 m (trSummaryHtml r))"
    by (rule maybeTruncateMessage_cut[OF m]) (simp add: resultDBMaxSummaryHTMLLength_def)
  have f: "maybeTruncateMessage (errText x) [] resultDBMaxFailureReasonLength = Ok (cutText 1024 [] (errText x))" for x
    by (rule maybeTruncateMessage_cut) (simp_all add: resultDBMaxFailureReasonLength_def)
  show ?thesis
    using tm s fit
    by (cases e) (auto simp: completeResult_def Let_def f completedAs_def)
qed

text \<open>The calls of the report in some interleaving of the checks.\<close>

datatype luciCall = LuciEmit emission | LuciCompleted string string string Level "err option"

fun luciCall_check :: "luciCall \<Rightarrow> string" where
  "luciCall_check (LuciEmit em) = emCheck em"
| "luciCall_check (LuciCompleted c start d level e) = c"

fun luci_act :: "(string \<Rightarrow> string) \<Rightarrow> (tag \<Rightarrow> nat) \<Rightarrow> luciCall \<Rightarrow> luci \<Rightarrow> luci" where
  "luci_act quote protoSize (LuciEmit (EmFinding f)) l = luci_EmitFinding quote f l"
| "luci_act quote protoSize (LuciEmit (EmCommit f)) l = luci_EmitCommitMessageFinding quote f l"
| "luci_act quote protoSize (LuciEmit (EmArtifact a)) l = luci_EmitArtifact a l"
| "luci_act quote protoSize (LuciCompleted c start d level e) l =
     (case luci_CheckCompleted protoSize c start d level e l of Ok l' \<Rightarrow> l' | _ \<Rightarrow> l)"

fun addEmission :: "(string \<Rightarrow> string) \<Rightarrow> emission \<Rightarrow> testResult \<Rightarrow> testResult" where
  "addEmission quote (EmFinding f) r = findingResult quote f r"
| "addEmission quote (EmCommit f) r = commitResult quote f r"
| "addEmission quote (EmArtifact a) r = artifactResult a r"

text \<open>What the report holds of one check: its live result and what was posted for it.\<close>

definition luciView :: "luci \<Rightarrow> string \<Rightarrow> testResult option \<times> testResult list" where
  "luciView l c = (liveChecks l c, filter (\<lambda>r. trTestId r = ''shac/'' @ c) (doneChecks l))"

definition luciUpd ::
    "(string \<Rightarrow> string) \<Rightarrow> (tag \<Rightarrow> nat) \<Rightarrow> luciCall \<Rightarrow> testResult option \<times> testResult list \<Rightarrow>
      testResult option \<times> testResult list" where
  "luciUpd quote protoSize call v =
     (let r = (case fst v of None \<Rightarrow> newTestResult (luciCall_check call) | Some r \<Rightarrow> r)
      in case call of
           LuciEmit em \<Rightarrow> (Some (addEmission quote em r), snd v)
         | LuciCompleted c start d level e \<Rightarrow>
             (case completeResult protoSize start d level e r of Ok r' \<Rightarrow> (None, snd v @ [r']) | _ \<Rightarrow> v))"

definition luciInv :: "luci \<Rightarrow> bool" where
  "luciInv l \<longleftrightarrow> (\<forall>c r. liveChecks l c = Some r \<longrightarrow> trTestId r = ''shac/'' @ c)"

lemma addEmission_id [simp]: "trTestId (addEmission quote em r) = trTestId r"
  by (cases em) (simp_all add: findingResult_def commitResult_def artifactResult_def addSummary_def Let_def
      split: option.splits)

text \<open>What an emission adds to the result of its check: a line of the summary, tags, an artifact.\<close>

primrec emissionHtml :: "(string \<Rightarrow> string) \<Rightarrow> emission \<Rightarrow> string" where
  "emissionHtml quote (EmFinding f) = EscapeString
     (overviewString quote False UnknownAnsi (fdCheck f) (fdLevel f) (fdMessage f) (fdFile f) (fdSpan f) None) @ ''<br>''"
| "emissionHtml quote (EmCommit f) = EscapeString
     (overviewString quote False UnknownAnsi (cfCheck f) (cfLevel f) (cfMessage f) (''Commit '' @ take 8 (cfHash f)) (cfSpan f) None) @
     ''<br>''"
| "emissionHtml quote (EmArtifact a) = []"

primrec emissionTags :: "emission \<Rightarrow> tag list" where
  "emissionTags (EmFinding f) = (case fdProps f of None \<Rightarrow> [] | Some m \<Rightarrow> sort_key fst m)"
| "emissionTags (EmCommit f) = [(''commit'', cfHash f)]"
| "emissionTags (EmArtifact a) = []"

primrec emissionArtifact :: "emission \<Rightarrow> (string \<times> artifactBody) list" where
  "emissionArtifact (EmFinding f) = []"
| "emissionArtifact (EmCommit f) = []"
| "emissionArtifact (EmArtifact a) =
     [(arFile a, case arContent a of Some content \<Rightarrow> Contents content | None \<Rightarrow> FilePath (PathJoin [arRoot a, arFile a]))]"

lemma addEmission_fields:
  "trSummaryHtml (addEmission quote em r) = trSummaryHtml r @ emissionHtml quote em \<and>
   trTags (addEmission quote em r) = trTags r @ emissionTags em \<and>
   trArtifacts (addEmission quote em r) = trArtifacts r ++ map_of (emissionArtifact em) \<and>
   trExpected (addEmission quote em r) = trExpected r \<and> trFailureReason (addEmission quote em r) = trFailureReason r"
proof -
  have "shortHash h = take 8 h" for h by (simp add: shortHash_def min_def)
  then show ?thesis
    by (cases em) (simp_all add: findingResult_def commitResult_def artifactResult_def addSummary_def Let_def
      split: option.splits)
qed

lemma gathered:
  "trSummaryHtml (foldl (\<lambda>r em. addEmission quote em r) r ems) = trSummaryHtml r @ concat (map (emissionHtml quote) ems) \<and>
   trTags (foldl (\<lambda>r em. addEmission quote em r) r ems) = trTags r @ concat (map emissionTags ems) \<and>
   trArtifacts (foldl (\<lambda>r em. addEmission quote em r) r ems) =
     trArtifacts r ++ map_of (rev (concat (map emissionArtifact ems))) \<and>
   trExpected (foldl (\<lambda>r em. addEmission quote em r) r ems) = trExpected r \<and>
   trFailureReason (foldl (\<lambda>r em. addEmission quote em r) r ems) = trFailureReason r \<and>
   trTestId (foldl (\<lambda>r em. addEmission quote em r) r ems) = trTestId r"
proof (induction ems arbitrary: r)
  case (Cons em ems)
  have "map_of (emissionArtifact em) = map_of (rev (emissionArtifact em))" by (cases em) simp_all
  then show ?case using Cons[of "addEmission quote em r"] addEmission_fields[of quote em r] by simp
qed simp

lemma newTestResult_id [simp]: "trTestId (newTestResult c) = ''shac/'' @ c"
  by (simp add: newTestResult_def)

definition liveOr :: "luci \<Rightarrow> string \<Rightarrow> testResult" where
  "liveOr l c = (case liveChecks l c of None \<Rightarrow> newTestResult c | Some r \<Rightarrow> r)"

lemma liveOr_id: "luciInv l \<Longrightarrow> trTestId (liveOr l c) = ''shac/'' @ c"
  by (auto simp: luciInv_def liveOr_def split: option.splits)

lemma luci_act_emit:
  "luci_act quote protoSize (LuciEmit em) l =
    l\<lparr>liveChecks := (liveChecks l)(emCheck em \<mapsto> addEmission quote em (liveOr l (emCheck em)))\<rparr>"
  by (cases em)
    (simp_all add: luci_EmitFinding_def luci_EmitCommitMessageFinding_def luci_EmitArtifact_def getTestResult_def
      setTestResult_def liveOr_def split: option.splits)

lemma luci_act_completed:
  assumes "luciInv l"
  shows "\<exists>r'. completeResult protoSize start d level e (liveOr l c) = Ok r' \<and> trTestId r' = ''shac/'' @ c \<and>
    luci_act quote protoSize (LuciCompleted c start d level e) l =
      l\<lparr>liveChecks := (liveChecks l)(c := None), doneChecks := doneChecks l @ [r']\<rparr>"
proof -
  obtain r' where r': "completeResult protoSize start d level e (liveOr l c) = Ok r'" "trTestId r' = trTestId (liveOr l c)"
    using completeResult_ok[of protoSize start d level e "liveOr l c"] by blast
  then show ?thesis using liveOr_id[OF assms, of c]
    by (cases "liveChecks l c") (simp_all add: luci_CheckCompleted_def getTestResult_def liveOr_def)
qed

interpretation luci: per_check luciInv "luci_act quote protoSize" luciCall_check luciView "luciUpd quote protoSize"
  for quote protoSize
proof unfold_locales
  fix l call
  assume inv: "luciInv l"
  show "luciInv (luci_act quote protoSize call l)"
  proof (cases call)
    case (LuciEmit em)
    then show ?thesis using inv liveOr_id[OF inv] by (simp add: luci_act_emit luciInv_def)
  next
    case (LuciCompleted c start d level e)
    then show ?thesis using inv luci_act_completed[OF inv, of protoSize start d level e c quote]
      by (auto simp: luciInv_def split: if_splits)
  qed
  show "luciView (luci_act quote protoSize call l) (luciCall_check call) =
      luciUpd quote protoSize call (luciView l (luciCall_check call))"
  proof (cases call)
    case (LuciEmit em)
    then show ?thesis by (simp add: luci_act_emit luciView_def luciUpd_def liveOr_def split: option.split)
  next
    case (LuciCompleted c start d level e)
    then show ?thesis using luci_act_completed[OF inv, of protoSize start d level e c quote]
      by (auto simp: luciView_def luciUpd_def liveOr_def split: option.split)
  qed
  fix c
  assume c: "c \<noteq> luciCall_check call"
  show "luciView (luci_act quote protoSize call l) c = luciView l c"
  proof (cases call)
    case (LuciEmit em)
    then show ?thesis using c by (simp add: luci_act_emit luciView_def)
  next
    case (LuciCompleted c' start d level e)
    then show ?thesis using c luci_act_completed[OF inv, of protoSize start d level e c' quote]
      by (auto simp: luciView_def)
  qed
qed

lemma luciUpd_emits:
  "foldl (\<lambda>v call. luciUpd quote protoSize call v) (Some r, ds) (map LuciEmit ems) =
    (Some (foldl (\<lambda>r em. addEmission quote em r) r ems), ds)"
  by (induction ems arbitrary: r) (simp_all add: luciUpd_def)

lemma completedAs_limits:
  assumes "completedAs protoSize start d level e html tags r"
  shows "length (trSummaryHtml r) \<le> 4096" "distinct (trTags r)" "subseq (trTags r) tags"
    "tagsSize protoSize (trTags r) \<le> resultDBMaxTagLength" "trFailureReason r = Some x \<Longrightarrow> length x \<le> 1024"
proof -
  obtain m where m: "tagsFit protoSize 0 [] tags (trTags r) m (trTags r)" "trSummaryHtml r = cutText 4096 m html"
    using assms unfolding completedAs_def by blast
  have "15 + length m \<le> 4096" using m(1) by (auto simp: tagsFit_def split: if_splits)
  then show "length (trSummaryHtml r) \<le> 4096" unfolding m(2) by (rule cutText_length)
  show "distinct (trTags r)" "subseq (trTags r) tags" "tagsSize protoSize (trTags r) \<le> resultDBMaxTagLength"
    using m(1) by (simp_all add: tagsFit_def)
  have "length (cutText 1024 [] y) \<le> 1024" for y by (rule cutText_length) simp
  then show "trFailureReason r = Some x \<Longrightarrow> length x \<le> 1024" using assms unfolding completedAs_def by auto
qed

text \<open>C9. For every interleaving of the checks, a check that emits findings and artifacts and then completes
  has exactly one result posted, made of its own calls only: it has the start and the duration, it is a
  crash where the check failed, a failure where its level is error, otherwise a pass, and only a pass is
  expected; the reason of a crash is the error, cut to 1024 bytes with a notice; the artifacts are those
  emitted, of each file the last; the summary has a line for every finding, in order, and is cut to 4096
  bytes with a notice; the tags are those emitted, distinct and in order, and if the size limit leaves
  tags out, the summary ends by saying so. Completing never panics, whatever the lengths.\<close>

theorem luci_one_result:
  assumes "filter (\<lambda>call. luciCall_check call = c) calls = map LuciEmit ems @ [LuciCompleted c start d level e]"
  shows "\<exists>r. filter (\<lambda>r. trTestId r = ''shac/'' @ c)
      (doneChecks (foldl (\<lambda>l call. luci_act quote protoSize call l) initLuci calls)) = [r] \<and>
    liveChecks (foldl (\<lambda>l call. luci_act quote protoSize call l) initLuci calls) c = None \<and>
    completedAs protoSize start d level e (concat (map (emissionHtml quote) ems)) (concat (map emissionTags ems)) r \<and>
    trArtifacts r = map_of (rev (concat (map emissionArtifact ems))) \<and>
    length (trSummaryHtml r) \<le> 4096 \<and> distinct (trTags r) \<and> subseq (trTags r) (concat (map emissionTags ems)) \<and>
    tagsSize protoSize (trTags r) \<le> resultDBMaxTagLength \<and>
    (case trFailureReason r of None \<Rightarrow> e = None | Some x \<Rightarrow> e \<noteq> None \<and> length x \<le> 1024)"
proof -
  let ?l = "luci.runCalls quote protoSize initLuci calls"
  let ?r = "foldl (\<lambda>r em. addEmission quote em r) (newTestResult c) ems"
  have new: "trSummaryHtml (newTestResult c) = []" "trTags (newTestResult c) = []" "trArtifacts (newTestResult c) = Map.empty"
    "\<not> trExpected (newTestResult c)" "trFailureReason (newTestResult c) = None"
    by (simp_all add: newTestResult_def)
  obtain r where r: "completeResult protoSize start d level e ?r = Ok r"
    "trArtifacts r = map_of (rev (concat (map emissionArtifact ems)))"
    "completedAs protoSize start d level e (concat (map (emissionHtml quote) ems)) (concat (map emissionTags ems)) r"
    using completeResult_ok[of protoSize start d level e ?r] gathered[of quote "newTestResult c" ems] new by auto
  have inv: "luciInv initLuci" "luciView initLuci c = (None, [])" by (simp_all add: luciInv_def initLuci_def luciView_def)
  have own: "emCheck em = c" if "em \<in> set ems" for em
  proof -
    have "LuciEmit em \<in> set (filter (\<lambda>call. luciCall_check call = c) calls)" unfolding assms using that by simp
    then show ?thesis by simp
  qed
  have "luciView ?l c = foldl (\<lambda>v call. luciUpd quote protoSize call v) (None, [])
      (map LuciEmit ems @ [LuciCompleted c start d level e])"
    by (simp add: luci.view_runCalls[OF inv(1)] inv(2) assms)
  also have "\<dots> = luciUpd quote protoSize (LuciCompleted c start d level e)
      (foldl (\<lambda>v call. luciUpd quote protoSize call v) (None, []) (map LuciEmit ems))" by simp
  also have "\<dots> = (None, [r])"
  proof (cases ems)
    case Nil
    then show ?thesis using r(1) by (simp add: luciUpd_def)
  next
    case (Cons em ems')
    have "luciUpd quote protoSize (LuciEmit em) (None, []) = (Some (addEmission quote em (newTestResult c)), [])"
      using own[of em] Cons by (simp add: luciUpd_def)
    then have "foldl (\<lambda>v call. luciUpd quote protoSize call v) (None, []) (map LuciEmit ems) = (Some ?r, [])"
      using luciUpd_emits[of quote protoSize "addEmission quote em (newTestResult c)" "[]" ems'] Cons by simp
    then show ?thesis using r(1) by (simp add: luciUpd_def)
  qed
  finally have view: "luciView ?l c = (None, [r])" .
  have reason: "case trFailureReason r of None \<Rightarrow> e = None | Some x \<Rightarrow> e \<noteq> None \<and> length x \<le> 1024"
    using r(3) completedAs_limits(5)[OF r(3)] by (cases e) (simp_all add: completedAs_def)
  show ?thesis
    using view r(2,3) completedAs_limits(1-4)[OF r(3)] reason unfolding luciView_def luci.runCalls_def
    by (intro exI[of _ r]) simp
qed

section \<open>Batches\<close>

text \<open>The steps that are left at most, and what every step keeps.\<close>

definition uploadLeft :: "'r uploading \<Rightarrow> nat" where
  "uploadLeft s =
     4 * length (upTodo s) + 3 * length (upChan s) + 2 * length (upBatch s) + length (upPending s) +
     (if upClosed s then 0 else 1) + (if upEnded s then 0 else 1)"

text \<open>What the goroutines that have ended did: the k-th one found k ended before it.\<close>

definition sendsMade :: "'r uploadEnv \<Rightarrow> 'r uploading \<Rightarrow> bool" where
  "sendsMade env s \<longleftrightarrow>
     (\<forall>k < length (upSent s). snd (upSent s ! k) = snd (sendBatch env k (fst (upSent s ! k)))) \<and>
     upRequests s = concat (map (\<lambda>(b, r). fst (sendBatch env 0 b)) (upSent s)) \<and>
     fromErr (upErr s) = (case filter (\<lambda>r. r \<noteq> Ok ()) (map snd (upSent s)) of [] \<Rightarrow> Ok () | r # rs \<Rightarrow> r)"

definition batched :: "'r list \<Rightarrow> 'r uploading \<Rightarrow> 'r list list \<Rightarrow> bool" where
  "batched results s bs \<longleftrightarrow>
     concat bs @ upBatch s @ upChan s @ upTodo s = results \<and> list_all (\<lambda>b. b \<noteq> [] \<and> length b \<le> 500) bs \<and>
     mset (map fst (upSent s) @ upPending s) = mset bs"

definition upInv :: "'r uploadEnv \<Rightarrow> 'r list \<Rightarrow> 'r uploading \<Rightarrow> bool" where
  "upInv env results s \<longleftrightarrow>
     (\<exists>bs. batched results s bs) \<and> length (upBatch s) \<le> 500 \<and> (upClosed s \<longrightarrow> upTodo s = []) \<and>
     (upEnded s \<longrightarrow> upClosed s \<and> upBatch s = [] \<and> upChan s = []) \<and> sendsMade env s"

lemma upInv_start: "upInv env results (startUpload results)"
  by (auto simp: upInv_def startUpload_def batched_def sendsMade_def fromErr_def intro!: exI[of _ "[]"])

lemma batched_move:
  assumes "batched results s bs" and "upBatch s' @ upChan s' @ upTodo s' = upBatch s @ upChan s @ upTodo s"
    and "upSent s' = upSent s" "upPending s' = upPending s"
  shows "batched results s' bs"
  using assms by (simp add: batched_def)

lemma startSend_inv:
  assumes "upInv env results s" and "upBatch s \<noteq> []" and "\<not> upEnded s"
  shows "upInv env results (startSend s)"
proof -
  obtain bs where "batched results s bs" using assms(1) by (auto simp: upInv_def)
  then have "batched results (startSend s) (bs @ [upBatch s])"
    using assms by (simp add: batched_def startSend_def upInv_def)
  then show ?thesis using assms(1,3) by (auto simp: upInv_def startSend_def sendsMade_def)
qed

lemma sendBatch_requests: "fst (sendBatch env k b) = fst (sendBatch env 0 b)"
  by (simp add: sendBatch_def split: sum.split)

lemma sendBatch_never_panics: "snd (sendBatch env k b) \<noteq> Panic m"
  by (simp add: sendBatch_def sendData_def fromErr_def split: sum.split httpAnswer.split option.split)

lemma mset_remove_nth: "i < length xs \<Longrightarrow> add_mset (xs ! i) (mset (take i xs @ drop (Suc i) xs)) = mset xs"
  by (subst (3) id_take_nth_drop[of i xs]) simp_all

lemma endSend_made:
  assumes "sendsMade env s"
  shows "sendsMade env (endSend env i s)"
proof -
  obtain reqs r where b: "sendBatch env (length (upSent s)) (upPending s ! i) = (reqs, r)" by fastforce
  have reqs: "fst (sendBatch env 0 (upPending s ! i)) = reqs"
    using sendBatch_requests[of env "length (upSent s)" "upPending s ! i"] b by simp
  have "r \<noteq> Panic m" for m using sendBatch_never_panics[of env "length (upSent s)" "upPending s ! i" m] b by simp
  then have r: "r = Ok () \<or> (\<exists>e. r = Err e)" by (cases r) auto
  have s': "upSent (endSend env i s) = upSent s @ [(upPending s ! i, r)]" "upRequests (endSend env i s) = upRequests s @ reqs"
    "upErr (endSend env i s) = (case upErr s of Some e \<Rightarrow> Some e | None \<Rightarrow> (case r of Err e \<Rightarrow> Some e | _ \<Rightarrow> None))"
    by (simp_all add: endSend_def b)
  have no_ok: "filter (\<lambda>r. r \<noteq> Ok ()) xs \<noteq> Ok () # ys" for xs ys :: "unit outcome list"
    by (auto dest: filter_eq_ConsD)
  show ?thesis
    unfolding sendsMade_def s'
  proof (intro conjI allI impI)
    fix k assume "k < length (upSent s @ [(upPending s ! i, r)])"
    then show "snd ((upSent s @ [(upPending s ! i, r)]) ! k) = snd (sendBatch env k (fst ((upSent s @ [(upPending s ! i, r)]) ! k)))"
      using assms b by (cases "k = length (upSent s)") (simp_all add: nth_append sendsMade_def)
  next
    show "upRequests s @ reqs = concat (map (\<lambda>(b, r). fst (sendBatch env 0 b)) (upSent s @ [(upPending s ! i, r)]))"
      using assms reqs by (simp add: sendsMade_def)
  next
    have "fromErr (upErr s) = (case filter (\<lambda>r. r \<noteq> Ok ()) (map snd (upSent s)) of [] \<Rightarrow> Ok () | r # rs \<Rightarrow> r)"
      using assms by (simp add: sendsMade_def)
    then show "fromErr (case upErr s of Some e \<Rightarrow> Some e | None \<Rightarrow> (case r of Err e \<Rightarrow> Some e | _ \<Rightarrow> None)) =
        (case filter (\<lambda>r. r \<noteq> Ok ()) (map snd (upSent s @ [(upPending s ! i, r)])) of [] \<Rightarrow> Ok () | r # rs \<Rightarrow> r)"
      using r no_ok[of "map snd (upSent s)"]
      by (cases "filter (\<lambda>r. r \<noteq> Ok ()) (map snd (upSent s))"; cases "upErr s") (auto simp: fromErr_def)
  qed
qed

lemma endSend_inv:
  assumes "upInv env results s" and "i < length (upPending s)"
  shows "upInv env results (endSend env i s)"
proof -
  obtain bs where bs: "batched results s bs" using assms(1) by (auto simp: upInv_def)
  obtain reqs r where b: "sendBatch env (length (upSent s)) (upPending s ! i) = (reqs, r)" by fastforce
  have "batched results (endSend env i s) bs"
    using bs mset_remove_nth[OF assms(2)] by (simp add: batched_def endSend_def b union_assoc)
  moreover have "sendsMade env (endSend env i s)" using assms(1) by (intro endSend_made) (simp add: upInv_def)
  moreover have "upBatch (endSend env i s) = upBatch s" "upChan (endSend env i s) = upChan s"
    "upTodo (endSend env i s) = upTodo s" "upClosed (endSend env i s) = upClosed s" "upEnded (endSend env i s) = upEnded s"
    by (simp_all add: endSend_def b)
  ultimately show ?thesis using assms(1) by (auto simp: upInv_def)
qed

definition upStep :: "'r uploadEnv \<Rightarrow> 'r uploading \<Rightarrow> 'r uploading \<Rightarrow> bool" where
  "upStep env s s' \<longleftrightarrow> (\<exists>t. uploadStep env t s = Some s')"

lemma upInv_step:
  assumes "upInv env results s" and "uploadStep env t s = Some s'"
  shows "upInv env results s'"
proof -
  obtain bs where bs: "batched results s bs" using assms(1) by (auto simp: upInv_def)
  have inv: "length (upBatch s) \<le> 500" "upClosed s \<longrightarrow> upTodo s = []"
    "upEnded s \<longrightarrow> upClosed s \<and> upBatch s = [] \<and> upChan s = []" "sendsMade env s"
    using assms(1) by (simp_all add: upInv_def)
  have moved: ?thesis
    if "upBatch s' @ upChan s' @ upTodo s' = upBatch s @ upChan s @ upTodo s" "length (upBatch s') \<le> 500"
      "upClosed s' \<longrightarrow> upTodo s' = []" "upEnded s' \<longrightarrow> upClosed s' \<and> upBatch s' = [] \<and> upChan s' = []"
      "upSent s' = upSent s" "upPending s' = upPending s" "upRequests s' = upRequests s" "upErr s' = upErr s"
    using batched_move[OF bs that(1,5,6)] that inv(4) by (auto simp: upInv_def sendsMade_def)
  show ?thesis
  proof (cases t)
    case UpReport
    then obtain r rs where "upTodo s = r # rs" "s' = s\<lparr>upTodo := rs, upChan := upChan s @ [r]\<rparr>"
      using assms(2) by (auto split: list.splits if_splits)
    then show ?thesis using inv(1-3) by (intro moved) simp_all
  next
    case UpClose
    then have "upTodo s = []" "s' = s\<lparr>upClosed := True\<rparr>" using assms(2) by (simp_all split: if_splits)
    then show ?thesis using inv(1-3) by (intro moved) simp_all
  next
    case UpRecv
    then obtain r rs where "upChan s = r # rs" "s' = s\<lparr>upChan := rs, upBatch := upBatch s @ [r]\<rparr>"
        "length (upBatch s) < 500" "\<not> upEnded s"
      using assms(2) by (auto simp: resultSinkMaxBatchSize_def split: list.splits if_splits)
    then show ?thesis using inv(2) by (intro moved) simp_all
  next
    case UpTimer
    then show ?thesis using assms(2) startSend_inv[OF assms(1)] by (auto split: if_splits)
  next
    case UpFull
    then have "s' = startSend s" "upBatch s \<noteq> []" "\<not> upEnded s"
      using assms(2) by (auto simp: resultSinkMaxBatchSize_def split: if_splits)
    then show ?thesis using startSend_inv[OF assms(1)] by simp
  next
    case UpDrained
    show ?thesis
    proof (cases "upBatch s = []")
      case True
      then have "s' = s\<lparr>upEnded := True\<rparr>" "upClosed s" "upChan s = []"
        using UpDrained assms(2) by (simp_all split: if_splits)
      then show ?thesis using True inv(1,2) by (intro moved) simp_all
    next
      case False
      then show ?thesis using UpDrained assms(2) startSend_inv[OF assms(1)] by (auto split: if_splits)
    qed
  next
    case (UpSend i)
    then show ?thesis using assms(2) endSend_inv[OF assms(1), of i] by (auto split: if_splits)
  qed
qed

lemma endSend_left: "i < length (upPending s) \<Longrightarrow> uploadLeft (endSend env i s) < uploadLeft s"
  by (cases "sendBatch env (length (upSent s)) (upPending s ! i)") (simp add: uploadLeft_def endSend_def)

lemma startSend_left: "upBatch s \<noteq> [] \<Longrightarrow> uploadLeft (startSend s) < uploadLeft s"
  by (cases "upBatch s") (simp_all add: uploadLeft_def startSend_def)

lemma uploadStep_lowers: "uploadStep env t s = Some s' \<Longrightarrow> uploadLeft s' < uploadLeft s"
proof (cases t)
  case UpReport
  then show "uploadStep env t s = Some s' \<Longrightarrow> ?thesis" by (auto simp: uploadLeft_def split: list.splits if_splits)
next
  case UpRecv
  then show "uploadStep env t s = Some s' \<Longrightarrow> ?thesis" by (auto simp: uploadLeft_def split: list.splits if_splits)
next
  case UpDrained
  then show "uploadStep env t s = Some s' \<Longrightarrow> ?thesis"
    using startSend_left[of s] by (cases "upBatch s = []") (auto simp: uploadLeft_def split: if_splits)
next
  case UpFull
  then show "uploadStep env t s = Some s' \<Longrightarrow> ?thesis"
    using startSend_left[of s] by (cases "upBatch s = []") (auto simp: resultSinkMaxBatchSize_def split: if_splits)
next
  case UpClose
  then show "uploadStep env t s = Some s' \<Longrightarrow> ?thesis" by (auto simp: uploadLeft_def split: if_splits)
next
  case UpTimer
  then show "uploadStep env t s = Some s' \<Longrightarrow> ?thesis" using startSend_left[of s] by (auto split: if_splits)
next
  case (UpSend i)
  then show "uploadStep env t s = Some s' \<Longrightarrow> ?thesis" using endSend_left[of i s env] by (auto split: if_splits)
qed

interpretation uploads: step_measure "upStep env" "upInv env results" uploadLeft
  for env :: "'r uploadEnv" and results
  by unfold_locales (auto simp: upStep_def intro: upInv_step uploadStep_lowers)

lemma upload_progress:
  assumes "upInv env results s" and "\<not> uploaded s"
  shows "\<exists>t s'. uploadStep env t s = Some s'"
proof -
  have full: "uploadStep env UpFull s \<noteq> None" if "\<not> upEnded s" "\<not> length (upBatch s) < resultSinkMaxBatchSize"
    using that by simp
  consider "upPending s \<noteq> []" | "\<not> upEnded s" "\<not> length (upBatch s) < resultSinkMaxBatchSize"
    | "\<not> upEnded s" "length (upBatch s) < resultSinkMaxBatchSize" "upChan s \<noteq> []"
    | "\<not> upEnded s" "length (upBatch s) < resultSinkMaxBatchSize" "upChan s = []" "upClosed s"
    | "\<not> upEnded s" "upChan s = []" "\<not> upClosed s" | "upEnded s" "upPending s = []" by blast
  then show ?thesis
  proof cases
    case 1
    then show ?thesis by (intro exI[of _ "UpSend 0"]) simp
  next
    case 2
    then show ?thesis by (intro exI[of _ UpFull]) simp
  next
    case 3
    then show ?thesis by (intro exI[of _ UpRecv]) (simp add: neq_Nil_conv, fastforce)
  next
    case 4
    then show ?thesis by (intro exI[of _ UpDrained]) simp
  next
    case 5
    then show ?thesis
    proof (cases "upTodo s")
      case Nil
      then show ?thesis using 5 by (intro exI[of _ UpClose]) simp
    next
      case (Cons r rs)
      then show ?thesis using 5 by (intro exI[of _ UpReport]) (simp add: resultSinkMaxBatchSize_def)
    qed
  next
    case 6
    then show ?thesis using assms by (simp add: upInv_def uploaded_def)
  qed
qed

lemma uploadRun_steps: "uploadRun env ts s = Some s' \<Longrightarrow> (upStep env ^^ length ts) s s'"
proof (induction ts arbitrary: s)
  case (Cons t ts)
  obtain u where u: "uploadStep env t s = Some u" "uploadRun env ts u = Some s'" using Cons.prems by (auto split: option.splits)
  have "upStep env s u" using u(1) by (auto simp: upStep_def)
  then show ?case using relpowp_Suc_I2[of "upStep env"] Cons.IH[OF u(2)] by simp
qed simp

lemma startUpload_left: "uploadLeft (startUpload results) = 4 * length results + 2"
  by (simp add: uploadLeft_def startUpload_def)

lemma turns_set: "t \<in> set (turns env s) \<longleftrightarrow> uploadStep env t s \<noteq> None"
proof (cases t)
  case (UpSend i)
  then show ?thesis by (auto simp: turns_def Option.is_none_def)
qed (auto simp: turns_def Option.is_none_def)

text \<open>However the scheduler picks, all goroutines end.\<close>

lemma uploadFor_ends:
  "upInv env results s \<Longrightarrow> uploadLeft s \<le> n \<Longrightarrow>
   uploaded (uploadFor env pick n s) \<and> (upStep env)\<^sup>*\<^sup>* s (uploadFor env pick n s)"
proof (induction n arbitrary: s)
  case 0
  then have "uploaded s" using upload_progress[OF 0(1)] uploadStep_lowers[of env _ s] by fastforce
  then show ?case by simp
next
  case (Suc n)
  show ?case
  proof (cases "turns env s = []")
    case True
    then have "uploadStep env t s = None" for t using turns_set[of t env s] by simp
    then have "uploaded s" using upload_progress[OF Suc.prems(1)] by fastforce
    then show ?thesis using True by simp
  next
    case False
    let ?t = "turns env s ! (pick s mod length (turns env s))"
    have "?t \<in> set (turns env s)" using False by (intro nth_mem) simp
    then obtain s' where s': "uploadStep env ?t s = Some s'" by (auto simp: turns_set)
    have "uploadLeft s' \<le> n" using uploadStep_lowers[OF s'] Suc.prems(2) by simp
    from Suc.IH[OF upInv_step[OF Suc.prems(1) s'] this]
    have ih: "uploaded (uploadFor env pick n s')" "(upStep env)\<^sup>*\<^sup>* s' (uploadFor env pick n s')" by simp_all
    have "upStep env s s'" using s' by (auto simp: upStep_def)
    then have "(upStep env)\<^sup>*\<^sup>* s (uploadFor env pick n s')" using ih(2) by (rule converse_rtranclp_into_rtranclp)
    then show ?thesis using False s' ih(1) by simp
  qed
qed

lemma uploadAll_ends:
  "uploaded (uploadAll env pick results) \<and> (upStep env)\<^sup>*\<^sup>* (startUpload results) (uploadAll env pick results)"
  unfolding uploadAll_def by (rule uploadFor_ends[OF upInv_start]) (simp add: startUpload_left)

text \<open>
  C36. The results of the checks, the upload goroutine and the goroutines that each send one batch, in any
  interleaving, wherever the timer ends a batch, whichever batches can't be encoded or are refused, and
  in whatever order the sends end: no run gets stuck before all goroutines have ended, and none has more
  than 4 steps for each result and 2 more. In the end every result was in exactly one batch, the batches
  follow the order of the results, none is empty or has more than 500; each batch was sent once, by one
  request with all its results, or by none where it can't be encoded, whatever became of the others; and
  Close returns the error of the send that failed first, none if all were accepted.
\<close>

theorem uploads_all:
  assumes "uploadRun env ts (startUpload results) = Some s"
  shows "length ts \<le> 4 * length results + 2 \<and>
    (uploaded s \<or> (\<exists>t s'. uploadStep env t s = Some s')) \<and>
    (uploaded s \<longrightarrow>
      (\<exists>batches. concat batches = results \<and> list_all (\<lambda>b. b \<noteq> [] \<and> length b \<le> 500) batches \<and>
         mset (map fst (upSent s)) = mset batches) \<and>
      upRequests s = concat (map (\<lambda>(b, r). case ueMarshal env b of
          Inl e \<Rightarrow> [] | Inr body \<Rightarrow> [sendRequest (ueSink env) ''ReportTestResults'' body]) (upSent s)) \<and>
      (\<forall>k < length (upSent s). snd (upSent s ! k) =
         (case ueMarshal env (fst (upSent s ! k)) of
            Inl e \<Rightarrow> Err e
          | Inr body \<Rightarrow> sendData (ueSink env) (ueClient env k) (ueStatusText env) ''ReportTestResults'' body)) \<and>
      luci_Close s = (case filter (\<lambda>r. r \<noteq> Ok ()) (map snd (upSent s)) of [] \<Rightarrow> Ok () | r # rs \<Rightarrow> r))"
proof -
  note run = uploadRun_steps[OF assms]
  have inv: "upInv env results s" by (rule uploads.after[OF run upInv_start])
  have sent: "fst (sendBatch env k b) = (case ueMarshal env b of Inl e \<Rightarrow> [] | Inr body \<Rightarrow> [sendRequest (ueSink env) ''ReportTestResults'' body])"
    "snd (sendBatch env k b) = (case ueMarshal env b of Inl e \<Rightarrow> Err e
       | Inr body \<Rightarrow> sendData (ueSink env) (ueClient env k) (ueStatusText env) ''ReportTestResults'' body)" for k b
    by (simp_all add: sendBatch_def split: sum.split)
  have made: "sendsMade env s" using inv by (simp add: upInv_def)
  have "length ts \<le> 4 * length results + 2" using uploads.run_length[OF run upInv_start] by (simp add: startUpload_left)
  moreover have "uploaded s \<or> (\<exists>t s'. uploadStep env t s = Some s')" using upload_progress[OF inv] by blast
  moreover have "\<exists>batches. concat batches = results \<and> list_all (\<lambda>b. b \<noteq> [] \<and> length b \<le> 500) batches \<and>
      mset (map fst (upSent s)) = mset batches" if "uploaded s"
  proof -
    obtain bs where bs: "batched results s bs" using inv by (auto simp: upInv_def)
    have "upBatch s = []" "upChan s = []" "upTodo s = []" "upPending s = []"
      using that inv by (auto simp: uploaded_def upInv_def)
    then show ?thesis using bs by (intro exI[of _ bs]) (simp add: batched_def)
  qed
  ultimately show ?thesis using made unfolding sendsMade_def sent luci_Close_def by blast
qed

section \<open>The properties on concrete calls\<close>

theorem tags_valid_witness:
  "makeTagsUniqueAndValid (\<lambda>_. 9000) [(''a'', ''1''), (''a'', ''1''), (''b'', ''2'')] =
    ([(''a'', ''1'')], ''<br>Tags truncated<br>'') \<and>
   tagsSize (\<lambda>_. 9000) [(''a'', ''1'')] \<le> resultDBMaxTagLength"
proof
  show run: "makeTagsUniqueAndValid (\<lambda>_. 9000) [(''a'', ''1''), (''a'', ''1''), (''b'', ''2'')] =
      ([(''a'', ''1'')], ''<br>Tags truncated<br>'')"
    by (simp add: makeTagsUniqueAndValid_def resultDBMaxTagLength_def)
  show "tagsSize (\<lambda>_. 9000) [(''a'', ''1'')] \<le> resultDBMaxTagLength"
    using tags_valid[OF run] by blast
qed

text \<open>Two checks in turns; the one that fails has an artifact and a commit finding, and the error of its
  crash is too long.\<close>

theorem luci_one_result_witness:
  "\<exists>r. filter (\<lambda>r. trTestId r = ''shac/a'')
      (doneChecks (foldl (\<lambda>l call. luci_act (\<lambda>x. x) (\<lambda>_. 1) call l) initLuci
        [LuciCompleted ''b'' ''t'' ''d'' Notice None,
         LuciEmit (EmArtifact \<lparr>arCheck = ''a'', arRoot = [], arFile = ''f'', arContent = Some ''x''\<rparr>),
         LuciCompleted ''a'' ''t'' ''d'' Error (Some (ErrNotExist (replicate 2000 CHR ''x'')))])) = [r] \<and>
     trStatus r = StatusCrash \<and> \<not> trExpected r \<and> trArtifacts r = [''f'' \<mapsto> Contents ''x''] \<and> trSummaryHtml r = [] \<and>
     trFailureReason r = Some (replicate 1009 CHR ''x'' @ ''... (truncated)'')"
proof -
  let ?em = "EmArtifact \<lparr>arCheck = ''a'', arRoot = [], arFile = ''f'', arContent = Some ''x''\<rparr>"
  let ?e = "ErrNotExist (replicate 2000 CHR ''x'')"
  let ?calls = "[LuciCompleted ''b'' ''t'' ''d'' Notice None, LuciEmit ?em, LuciCompleted ''a'' ''t'' ''d'' Error (Some ?e)]"
  have "filter (\<lambda>call. luciCall_check call = ''a'') ?calls = map LuciEmit [?em] @ [LuciCompleted ''a'' ''t'' ''d'' Error (Some ?e)]"
    by simp
  from luci_one_result[OF this, of "\<lambda>x. x" "\<lambda>_. 1"] obtain r where
    r: "filter (\<lambda>r. trTestId r = ''shac/'' @ ''a'') (doneChecks (foldl (\<lambda>l call. luci_act (\<lambda>x. x) (\<lambda>_. 1) call l) initLuci ?calls)) = [r]"
    "completedAs (\<lambda>_. 1) ''t'' ''d'' Error (Some ?e) (concat (map (emissionHtml (\<lambda>x. x)) [?em])) (concat (map emissionTags [?em])) r"
    "trArtifacts r = map_of (rev (concat (map emissionArtifact [?em])))" by blast
  have long: "errText ?e = replicate 2000 CHR ''x''" by simp
  have fields: "trStatus r = StatusCrash" "\<not> trExpected r" "trFailureReason r = Some (cutText 1024 [] (errText ?e))"
    using r(2) unfolding completedAs_def by (simp_all del: errText.simps)
  have "cutText 1024 [] (errText ?e) = replicate 1009 CHR ''x'' @ ''... (truncated)''"
    unfolding long cutText_def by simp
  moreover have "\<exists>m. tagsFit (\<lambda>_. 1) 0 [] [] (trTags r) m (trTags r) \<and> trSummaryHtml r = cutText 4096 m []"
    using r(2) unfolding completedAs_def by simp
  then have "trSummaryHtml r = []" by (auto simp: tagsFit_def cutText_def split: if_splits)
  ultimately show ?thesis using r(1,3) fields by (intro exI[of _ r]) simp
qed

text \<open>Three results: the timer ends the first batch, the second can't be encoded and its send ends first;
  the first batch is sent all the same.\<close>

definition demoUpload :: "nat uploadEnv" where
  "demoUpload = \<lparr>ueSink = \<lparr>AuthToken = ''t'', ResultSinkAddr = ''a:1''\<rparr>,
     ueMarshal = (\<lambda>b. if 2 \<in> set b then Inl (New ''invalid UTF-8'') else Inr (map (\<lambda>n. char_of (48 + n)) b)),
     ueStatusText = (\<lambda>_. ''OK''), ueClient = (\<lambda>_ _. HttpResp 200 None None)\<rparr>"

definition demoTurns :: "uploadTurn list" where
  "demoTurns = [UpReport, UpReport, UpRecv, UpRecv, UpReport, UpTimer, UpRecv, UpClose, UpDrained, UpSend 1, UpDrained, UpSend 0]"

definition demoUploaded :: "nat uploading" where
  "demoUploaded = \<lparr>upTodo = [], upChan = [], upClosed = True, upBatch = [], upEnded = True, upPending = [],
     upErr = Some (New ''invalid UTF-8''),
     upRequests = [sendRequest \<lparr>AuthToken = ''t'', ResultSinkAddr = ''a:1''\<rparr> ''ReportTestResults'' ''01''],
     upSent = [([2], Err (New ''invalid UTF-8'')), ([0, 1], Ok ())]\<rparr>"

lemma demo_uploaded: "uploadRun demoUpload demoTurns (startUpload [0, 1, 2]) = Some demoUploaded"
  by code_simp

theorem uploads_all_witness:
  "uploadRun demoUpload demoTurns (startUpload [0, 1, 2]) = Some demoUploaded \<and> uploaded demoUploaded \<and>
   luci_Close demoUploaded = Err (New ''invalid UTF-8'') \<and>
   (\<exists>batches. concat batches = [0, 1, 2] \<and> mset (map fst (upSent demoUploaded)) = mset batches)"
proof -
  have u: "uploaded demoUploaded" by (simp add: uploaded_def demoUploaded_def)
  have "luci_Close demoUploaded = (case filter (\<lambda>r. r \<noteq> Ok ()) (map snd (upSent demoUploaded)) of [] \<Rightarrow> Ok () | r # rs \<Rightarrow> r)"
    and b: "\<exists>batches. concat batches = [0, 1, 2] \<and> list_all (\<lambda>b. b \<noteq> [] \<and> length b \<le> 500) batches \<and>
      mset (map fst (upSent demoUploaded)) = mset batches"
    using uploads_all[OF demo_uploaded] u by blast+
  then have "luci_Close demoUploaded = Err (New ''invalid UTF-8'')" by (simp add: demoUploaded_def)
  then show ?thesis using demo_uploaded u b by blast
qed

end
