(* ===== verification/All_Reports.thy ===== *)
theory All_Reports
  imports Result_Db Step_System
begin

text \<open>
  The reports of shac check together (internal/cli/check.go, internal/reporting): Get chooses the
  reports, a SARIF report is added, and the report that tees to them passes on every call of the
  engine, each to every report, and at the end closes them. The report that writes to the terminal is
  wrapped by \<open>synchronized\<close>, whose lock is a step relation over goroutines that write their texts.
\<close>

section \<open>A report and its methods\<close>

datatype repCall =
    RepEmit emission
  | RepCompleted string string string Level "err option"
  | RepPrint string string int string

text \<open>
  What the reports use: the quoting of %q, reading files, the matching blocks of difflib, structpb,
  proto.Size, standard output, protojson, the HTTP client of the uploads and the order in which their
  goroutines run, and the choice that errgroup makes.
\<close>

record repEnv =
  rvQuote :: "string \<Rightarrow> string"
  rvReadFile :: "string \<Rightarrow> string outcome"
  rvBlocks :: matcher
  rvNewStruct :: "(string \<times> string) list \<Rightarrow> err option"
  rvProtoSize :: "tag \<Rightarrow> nat"
  rvStdout :: writer
  rvMarshal :: "(string \<times> sarifResult list) list \<Rightarrow> string outcome"
  rvUpload :: "testResult uploadEnv"
  rvPick :: "testResult uploading \<Rightarrow> nat"
  rvFirst :: "err list \<Rightarrow> err"

datatype terminal = OnGithub | OnInteractive | OnBasic

datatype reportObj =
    LuciObj luci
  | TerminalObj terminal "string list"
  | SarifObj sarifState string

text \<open>The methods that do nothing, or nothing but fail: GitHub is not told of completed checks.\<close>

definition github_EmitArtifact :: "artifact \<Rightarrow> string list \<times> unit outcome" where
  "github_EmitArtifact a = ([], Err (New ''not implemented''))"

definition interactive_EmitArtifact :: "artifact \<Rightarrow> string list \<times> unit outcome" where
  "interactive_EmitArtifact a = ([], Err (New ''not implemented''))"

definition github_CheckCompleted :: "string \<Rightarrow> string \<Rightarrow> Level \<Rightarrow> err option \<Rightarrow> string list" where
  "github_CheckCompleted check dur level e = []"

definition terminal_Close :: "terminal \<Rightarrow> unit outcome" where
  "terminal_Close t = Ok ()"

text \<open>A call of the wrapped report: the texts it writes and its result.\<close>

fun synchronized_call :: "repEnv \<Rightarrow> terminal \<Rightarrow> repCall \<Rightarrow> (string list \<times> unit outcome) outcome" where
  "synchronized_call env t (RepEmit (EmFinding f)) =
     (case t of
        OnGithub \<Rightarrow> Ok (github_EmitFinding (rvStdout env) f)
      | OnInteractive \<Rightarrow> interactive_EmitFinding (rvQuote env) (rvReadFile env) (rvStdout env) f
      | OnBasic \<Rightarrow> Ok (basic_EmitFinding (rvQuote env) (rvStdout env) f))"
| "synchronized_call env t (RepEmit (EmCommit f)) =
     (case t of
        OnGithub \<Rightarrow> Ok (github_EmitCommitMessageFinding (rvStdout env) f)
      | OnInteractive \<Rightarrow> interactive_EmitCommitMessageFinding (rvQuote env) (rvStdout env) f
      | OnBasic \<Rightarrow> Ok (basic_EmitCommitMessageFinding (rvQuote env) (rvStdout env) f))"
| "synchronized_call env t (RepEmit (EmArtifact a)) = 
     Ok (case t of
        OnGithub \<Rightarrow> github_EmitArtifact a
      | OnInteractive \<Rightarrow> interactive_EmitArtifact a
      | OnBasic \<Rightarrow> ([], notImplemented))"
| "synchronized_call env t (RepCompleted check start dur level e) =
     Ok (case t of
        OnGithub \<Rightarrow> github_CheckCompleted check dur level e
      | OnInteractive \<Rightarrow> interactive_CheckCompleted check dur level e
      | OnBasic \<Rightarrow> basic_CheckCompleted check dur level e, Ok ())"
| "synchronized_call env t (RepPrint check f line msg) =
     Ok (case t of
        OnGithub \<Rightarrow> github_Print check f line msg
      | OnInteractive \<Rightarrow> interactive_Print check f line msg
      | OnBasic \<Rightarrow> basic_Print check f line msg, Ok ())"

fun luci_call :: "repEnv \<Rightarrow> repCall \<Rightarrow> luci \<Rightarrow> luci outcome" where
  "luci_call env (RepEmit (EmFinding f)) l = Ok (luci_EmitFinding (rvQuote env) f l)"
| "luci_call env (RepEmit (EmCommit f)) l = Ok (luci_EmitCommitMessageFinding (rvQuote env) f l)"
| "luci_call env (RepEmit (EmArtifact a)) l = Ok (luci_EmitArtifact a l)"
| "luci_call env (RepCompleted check start dur level e) l = luci_CheckCompleted (rvProtoSize env) check start dur level e l"
| "luci_call env (RepPrint check f line msg) l = Ok l"

fun sarif_call :: "repEnv \<Rightarrow> repCall \<Rightarrow> sarifState \<Rightarrow> sarifState outcome" where
  "sarif_call env (RepEmit (EmFinding f)) st = sarif_EmitFinding (rvReadFile env) (rvBlocks env) (rvNewStruct env) f st"
| "sarif_call env (RepEmit (EmCommit f)) st = sarif_EmitCommitMessageFinding (rvNewStruct env) f st"
| "sarif_call env (RepEmit (EmArtifact a)) st = Ok st"
| "sarif_call env (RepCompleted check start dur level e) st = Ok st"
| "sarif_call env (RepPrint check f line msg) st = Ok st"

text \<open>A method that fails leaves the report as it was, but for the texts it wrote before.\<close>

definition kept :: "('s \<Rightarrow> reportObj) \<Rightarrow> 's \<Rightarrow> 's outcome \<Rightarrow> reportObj \<times> unit outcome" where
  "kept mk s x = (case x of Ok s' \<Rightarrow> (mk s', Ok ()) | Err e \<Rightarrow> (mk s, Err e) | Panic m \<Rightarrow> (mk s, Panic m))"

primrec callReport :: "repEnv \<Rightarrow> repCall \<Rightarrow> reportObj \<Rightarrow> reportObj \<times> unit outcome" where
  "callReport env c (LuciObj l) = kept LuciObj l (luci_call env c l)"
| "callReport env c (TerminalObj t out) =
     (case synchronized_call env t c of
        Ok (ts, r) \<Rightarrow> (TerminalObj t (out @ ts), r)
      | Err e \<Rightarrow> (TerminalObj t out, Err e)
      | Panic m \<Rightarrow> (TerminalObj t out, Panic m))"
| "callReport env c (SarifObj st out) = kept (\<lambda>s. SarifObj s out) st (sarif_call env c st)"

text \<open>Closing: the terminal needs nothing; the SARIF report writes its document to its buffer.\<close>

primrec closeReport :: "repEnv \<Rightarrow> reportObj \<Rightarrow> reportObj \<times> unit outcome" where
  "closeReport env (LuciObj l) = (LuciObj l, luci_Close (uploadAll (rvUpload env) (rvPick env) (doneChecks l)))"
| "closeReport env (TerminalObj t out) = (TerminalObj t out, terminal_Close t)"
| "closeReport env (SarifObj st out) =
     (case rvMarshal env (sarif_Close st) of
        Ok b \<Rightarrow> (SarifObj st (out @ b), Ok ())
      | Err e \<Rightarrow> (SarifObj st out, Err e)
      | Panic m \<Rightarrow> (SarifObj st out, Panic m))"

section \<open>All the reports of a command\<close>

text \<open>The report that tees: a call of each report, the result of one that failed. Those of CheckCompleted
  and Print never fail.\<close>

definition multi_call :: "repEnv \<Rightarrow> repCall \<Rightarrow> reportObj list \<Rightarrow> reportObj list \<times> unit outcome" where
  "multi_call env c rs = multi_do (rvFirst env) (callReport env c) rs"

definition multi_Close :: "repEnv \<Rightarrow> reportObj list \<Rightarrow> reportObj list \<times> unit outcome" where
  "multi_Close env rs = multi_do (rvFirst env) (closeReport env) rs"

primrec newReport :: "reporter \<Rightarrow> reportObj" where
  "newReport LuciReport = LuciObj initLuci"
| "newReport GithubReport = TerminalObj OnGithub []"
| "newReport InteractiveReport = TerminalObj OnInteractive []"
| "newReport BasicReport = TerminalObj OnBasic []"

text \<open>The reports of the check command.\<close>

definition checkReports :: "reportEnv \<Rightarrow> reportObj list outcome" where
  "checkReports env = bindO (Get env) (\<lambda>rs. Ok (map newReport rs @ [SarifObj [] []]))"

text \<open>
  The calls of a run, one after another. A call that panics would end the process; here the calls go
  on, so what is said of the reports afterwards is said of a run in which none did.
\<close>

definition callAll :: "repEnv \<Rightarrow> repCall list \<Rightarrow> reportObj list \<Rightarrow> reportObj list" where
  "callAll env calls rs = foldl (\<lambda>rs c. fst (multi_call env c rs)) rs calls"

text \<open>What a handler of ctx sees of the reports: the error of an emission.\<close>

definition emitError :: "repEnv \<Rightarrow> reportObj list \<Rightarrow> report" where
  "emitError env rs em = (case snd (multi_call env (RepEmit em) rs) of Err e \<Rightarrow> Some e | _ \<Rightarrow> None)"


section \<open>Every report gets every call\<close>

lemma multi_call_map [simp]: "fst (multi_call env c rs) = map (\<lambda>r. fst (callReport env c r)) rs"
  using multi_do_all[of "rvFirst env" "callReport env c" rs] by (simp add: multi_call_def comp_def)

lemma callAll_map: "callAll env calls rs = map (\<lambda>r. foldl (\<lambda>r c. fst (callReport env c r)) r calls) rs"
  unfolding callAll_def by (induction calls arbitrary: rs) (simp_all add: comp_def)

fun emissionsOf :: "repCall list \<Rightarrow> emission list" where
  "emissionsOf [] = []"
| "emissionsOf (RepEmit em # cs) = em # emissionsOf cs"
| "emissionsOf (c # cs) = emissionsOf cs"

lemma sarif_after_call:
  "fst (callReport env c (SarifObj st out)) =
    SarifObj (case c of RepEmit em \<Rightarrow> sarif_emit (rvReadFile env) (rvBlocks env) (rvNewStruct env) em st | _ \<Rightarrow> st) out"
proof (cases c)
  case (RepEmit em)
  then show ?thesis by (cases em) (auto simp: kept_def sarif_emit_def split: outcome.split)
qed (simp_all add: kept_def)

lemma sarif_after:
  "foldl (\<lambda>r c. fst (callReport env c r)) (SarifObj st out) calls =
    SarifObj (foldl (\<lambda>st em. sarif_emit (rvReadFile env) (rvBlocks env) (rvNewStruct env) em st) st (emissionsOf calls)) out"
proof (induction calls arbitrary: st)
  case (Cons c calls)
  then show ?case by (cases c) (simp_all only: foldl.simps sarif_after_call repCall.case emissionsOf.simps)
qed simp

fun luciCallOf :: "repCall \<Rightarrow> luciCall list" where
  "luciCallOf (RepEmit em) = [LuciEmit em]"
| "luciCallOf (RepCompleted check start dur level e) = [LuciCompleted check start dur level e]"
| "luciCallOf (RepPrint check f line msg) = []"

definition luciCallsOf :: "repCall list \<Rightarrow> luciCall list" where
  "luciCallsOf calls = concat (map luciCallOf calls)"

lemma luci_after_call:
  "fst (callReport env c (LuciObj l)) = LuciObj (foldl (\<lambda>l c. luci_act (rvQuote env) (rvProtoSize env) c l) l (luciCallOf c))"
proof (cases c)
  case (RepEmit em)
  then show ?thesis by (cases em) (simp_all add: kept_def)
qed (auto simp: kept_def split: outcome.split)

lemma luci_after:
  "foldl (\<lambda>r c. fst (callReport env c r)) (LuciObj l) calls =
    LuciObj (foldl (\<lambda>l c. luci_act (rvQuote env) (rvProtoSize env) c l) l (luciCallsOf calls))"
  unfolding luciCallsOf_def
proof (induction calls arbitrary: l)
  case (Cons c calls)
  then show ?case by (simp only: foldl.simps luci_after_call list.map concat.simps foldl_append)
qed simp

lemma checkReports_cases:
  assumes "checkReports env = Ok rs"
  shows "\<exists>t. rs = (if rpGetenv env ''LUCI_CONTEXT'' \<noteq> [] then [LuciObj initLuci] else []) @ [TerminalObj t [], SarifObj [] []]"
  using assms by (cases "rpLuciInit env") (auto simp: checkReports_def Get_def split: if_splits)

text \<open>The texts that calls write.\<close>

definition textsOf :: "repEnv \<Rightarrow> terminal \<Rightarrow> repCall \<Rightarrow> string list" where
  "textsOf env t c = (case synchronized_call env t c of Ok (ts, r) \<Rightarrow> ts | _ \<Rightarrow> [])"

lemma terminal_after:
  "foldl (\<lambda>r c. fst (callReport env c r)) (TerminalObj t out) calls =
    TerminalObj t (out @ concat (map (textsOf env t) calls))"
proof (induction calls arbitrary: out)
  case (Cons c calls)
  have "fst (callReport env c (TerminalObj t out)) = TerminalObj t (out @ textsOf env t c)"
    by (simp add: textsOf_def split: outcome.split prod.split)
  then show ?case using Cons by (simp only: foldl.simps list.map concat.simps append_assoc)
qed simp


text \<open>
  C11. Under shac check every report gets every call of the engine, whatever the others answer: if one
  fails, the others still have it. When the reports are closed, the buffer of the SARIF report holds
  the document of all findings, one run for each check with results, in the order of their names,
  with the results of the check in the order they were emitted; so it is the same for every
  interleaving of the checks. The terminal has the texts of all calls in their order, and ResultDB
  what its report makes of the calls alone.
\<close>

theorem reports_get_every_call:
  assumes "checkReports renv = Ok rs" and "multi_Close env (callAll env calls rs) = (rs', r)"
    and "rvMarshal env (map (\<lambda>c. (c, concat (map (resultsOf (rvReadFile env) (rvBlocks env) (rvNewStruct env))
             (filter (\<lambda>em. emCheck em = c) (emissionsOf calls)))))
           (sorted_list_of_set {c. \<exists>em \<in> set (emissionsOf calls). emCheck em = c \<and>
              resultsOf (rvReadFile env) (rvBlocks env) (rvNewStruct env) em \<noteq> []})) = Ok document"
  shows "\<exists>t st. rs' =
    (if rpGetenv renv ''LUCI_CONTEXT'' \<noteq> []
     then [LuciObj (foldl (\<lambda>l c. luci_act (rvQuote env) (rvProtoSize env) c l) initLuci (luciCallsOf calls))] else []) @
    [TerminalObj t (concat (map (textsOf env t) calls)), SarifObj st document]"
proof -
  obtain t where rs: "rs = (if rpGetenv renv ''LUCI_CONTEXT'' \<noteq> [] then [LuciObj initLuci] else []) @ [TerminalObj t [], SarifObj [] []]"
    using checkReports_cases[OF assms(1)] by blast
  let ?st = "foldl (\<lambda>st em. sarif_emit (rvReadFile env) (rvBlocks env) (rvNewStruct env) em st) [] (emissionsOf calls)"
  have "rvMarshal env (sarif_Close ?st) = Ok document" unfolding sarif_document by (rule assms(3))
  then have "fst (closeReport env (SarifObj ?st [])) = SarifObj ?st document" by simp
  moreover have "rs' = map (\<lambda>r. fst (closeReport env r)) (callAll env calls rs)"
    using multi_do_all[of "rvFirst env" "closeReport env" "callAll env calls rs"] assms(2) by (simp add: multi_Close_def comp_def)
  ultimately have "rs' = (if rpGetenv renv ''LUCI_CONTEXT'' \<noteq> []
     then [LuciObj (foldl (\<lambda>l c. luci_act (rvQuote env) (rvProtoSize env) c l) initLuci (luciCallsOf calls))] else []) @
    [TerminalObj t (concat (map (textsOf env t) calls)), SarifObj ?st document]"
    by (simp add: rs callAll_map luci_after terminal_after sarif_after del: closeReport.simps(3))
  then show ?thesis by blast
qed

section \<open>Artifacts\<close>

lemma callAll_shape:
  assumes "checkReports renv = Ok rs"
  shows "\<exists>ls t out st. callAll env calls rs = ls @ [TerminalObj t out, SarifObj st []] \<and> (ls = [] \<or> (\<exists>l. ls = [LuciObj l]))"
proof -
  obtain t where rs: "rs = (if rpGetenv renv ''LUCI_CONTEXT'' \<noteq> [] then [LuciObj initLuci] else []) @ [TerminalObj t [], SarifObj [] []]"
    using checkReports_cases[OF assms] by blast
  then show ?thesis by (simp add: callAll_map luci_after terminal_after sarif_after)
qed

lemma artifact_not_implemented:
  assumes "checkReports renv = Ok rs" and "rvFirst env [New ''not implemented''] = New ''not implemented''"
  shows "snd (multi_call env (RepEmit (EmArtifact a)) (callAll env calls rs)) = notImplemented"
proof -
  obtain ls t out st where shape: "callAll env calls rs = ls @ [TerminalObj t out, SarifObj st []]"
    "ls = [] \<or> (\<exists>l. ls = [LuciObj l])" using callAll_shape[OF assms(1)] by blast
  show ?thesis using shape(2) assms(2) unfolding shape(1)
    by (cases t) (auto simp: multi_call_def multi_do_def kept_def notImplemented_def github_EmitArtifact_def
        interactive_EmitArtifact_def)
qed

text \<open>
  Under shac check ctx.emit.artifact() never succeeds, wherever shac runs: a report that writes to
  the terminal is always among the reports, it answers "not implemented", and that makes the call
  fail, also on LUCI, where ResultDB has a place for it.
\<close>

theorem artifacts_never_accepted:
  assumes "checkReports renv = Ok rs" and "rvFirst env [New ''not implemented''] = New ''not implemented''"
  shows "fst (ctxEmitArtifact stat (emitError env (callAll env calls rs)) senv f content st) =
    (case artifactRoot stat senv f content of
       Ok b \<Rightarrow> Err (Errorf ''failed to emit: %w'' [FErr (New ''not implemented'')])
     | Err e \<Rightarrow> Err e
     | Panic m \<Rightarrow> Panic m)"
  using artifact_not_implemented[OF assms, of _ calls]
  by (auto simp: ctxEmitArtifact_def emitError_def emitTo_def notImplemented_def split: outcome.split)


section \<open>The lock of the terminal's report\<close>

text \<open>
  Goroutines that call the wrapped report: each has calls to make; the one that holds the lock has
  texts left to write. The log of the calls that got the lock is kept beside. A call that panics ends
  the process, so there is no step for it.
\<close>

record syncState =
  syHolder :: "nat option"
  syWriting :: "nat \<Rightarrow> string list option"
  syTodo :: "nat \<Rightarrow> repCall list"
  syOut :: "string list"
  syLog :: "(nat \<times> repCall) list"

inductive syncStep :: "repEnv \<Rightarrow> terminal \<Rightarrow> syncState \<Rightarrow> syncState \<Rightarrow> bool" for env t where
  LockCall: "syWriting st g = None \<Longrightarrow> syTodo st g = c # cs \<Longrightarrow> syHolder st = None \<Longrightarrow>
    synchronized_call env t c = Ok (ts, r) \<Longrightarrow>
    syncStep env t st (st\<lparr>syHolder := Some g, syWriting := (syWriting st)(g \<mapsto> ts),
      syTodo := (syTodo st)(g := cs), syLog := syLog st @ [(g, c)]\<rparr>)"
| WriteText: "syWriting st g = Some (x # xs) \<Longrightarrow>
    syncStep env t st (st\<lparr>syWriting := (syWriting st)(g \<mapsto> xs), syOut := syOut st @ [x]\<rparr>)"
| UnlockCall: "syWriting st g = Some [] \<Longrightarrow>
    syncStep env t st (st\<lparr>syWriting := (syWriting st)(g := None), syHolder := None\<rparr>)"

definition initSync :: "(nat \<Rightarrow> repCall list) \<Rightarrow> syncState" where
  "initSync todo = \<lparr>syHolder = None, syWriting = (\<lambda>_. None), syTodo = todo, syOut = [], syLog = []\<rparr>"

abbreviation syncSteps :: "repEnv \<Rightarrow> terminal \<Rightarrow> syncState \<Rightarrow> syncState \<Rightarrow> bool" where
  "syncSteps env t \<equiv> (syncStep env t)\<^sup>*\<^sup>*"

definition loggedOf :: "nat \<Rightarrow> (nat \<times> repCall) list \<Rightarrow> repCall list" where
  "loggedOf g lg = map snd (filter (\<lambda>x. fst x = g) lg)"

definition syncInv :: "repEnv \<Rightarrow> terminal \<Rightarrow> (nat \<Rightarrow> repCall list) \<Rightarrow> syncState \<Rightarrow> bool" where
  "syncInv env t todo st \<longleftrightarrow>
     (\<forall>g. (syWriting st g \<noteq> None) = (syHolder st = Some g)) \<and>
     (\<forall>g. loggedOf g (syLog st) @ syTodo st g = todo g) \<and>
     syOut st @ (case syHolder st of None \<Rightarrow> [] | Some g \<Rightarrow> the (syWriting st g)) =
       concat (map (textsOf env t \<circ> snd) (syLog st)) \<and>
     (\<forall>g. syHolder st = Some g \<longrightarrow>
       (\<exists>before. the (syWriting st g) = drop before (textsOf env t (snd (last (syLog st))))))"

lemma syncInv_init: "syncInv env t todo (initSync todo)"
  by (simp add: syncInv_def initSync_def loggedOf_def)

lemma syncInv_step:
  assumes "syncStep env t st st'" and "syncInv env t todo st"
  shows "syncInv env t todo st'"
  using assms(1)
proof cases
  case (LockCall g c cs ts r)
  have old: "loggedOf h (syLog st) @ syTodo st h = todo h" for h using assms(2) by (simp add: syncInv_def)
  have "loggedOf h (syLog st') @ syTodo st' h = todo h" for h
    using old[of h] LockCall(1,3) by (cases "h = g") (simp_all add: loggedOf_def)
  moreover have "ts = drop 0 (textsOf env t c)" using LockCall(5) by (simp add: textsOf_def)
  then have "\<exists>before. ts = drop before (textsOf env t c)" by blast
  ultimately show ?thesis using assms(2) LockCall by (auto simp: syncInv_def textsOf_def)
next
  case (WriteText g x xs)
  have "syHolder st = Some g" using assms(2) WriteText(2) unfolding syncInv_def by (metis option.distinct(1))
  moreover from this obtain before where "x # xs = drop before (textsOf env t (snd (last (syLog st))))"
    using assms(2) WriteText(2) unfolding syncInv_def by auto
  then have "xs = drop (Suc before) (textsOf env t (snd (last (syLog st))))"
    by (metis drop_Suc list.sel(3) tl_drop)
  ultimately show ?thesis using assms(2) WriteText by (auto simp: syncInv_def)
next
  case (UnlockCall g)
  have "syHolder st = Some g" using assms(2) UnlockCall(2) unfolding syncInv_def by (metis option.distinct(1))
  then show ?thesis using assms(2) UnlockCall by (auto simp: syncInv_def)
qed

interpretation lock: step_invariant "syncStep env t" "syncInv env t todo" for env t todo
  by unfold_locales (rule syncInv_step)

text \<open>While a goroutine has something left to do and no call panics, some goroutine can go on.\<close>

lemma calls_never_stuck:
  assumes "syncInv env t todo st" and "syTodo st g \<noteq> [] \<or> syWriting st g \<noteq> None"
    and "\<And>c. \<exists>ts r. synchronized_call env t c = Ok (ts, r)"
  shows "\<exists>st'. syncStep env t st st'"
proof (cases "syHolder st")
  case None
  then have idle: "syWriting st g = None" using assms(1) unfolding syncInv_def by auto
  then obtain c cs where "syTodo st g = c # cs" using assms(2) by (cases "syTodo st g") auto
  then show ?thesis using assms(3)[of c] None idle by (auto intro: syncStep.LockCall)
next
  case (Some h)
  then obtain xs where "syWriting st h = Some xs" using assms(1) unfolding syncInv_def by fastforce
  then show ?thesis by (cases xs) (auto intro: syncStep.WriteText syncStep.UnlockCall)
qed

text \<open>
  C21. However goroutines call the terminal's report at the same time, what is written is the texts of
  whole calls, one call after the other, in an order that keeps that of each goroutine: at every
  moment the output is the texts of the calls that got the lock, in that order, with only the end of
  the last one missing while it is being written. When all calls have returned, nothing is missing.
\<close>

theorem texts_never_interleave:
  assumes "syncSteps env t (initSync todo) st"
  shows "\<exists>missing. syOut st @ missing = concat (map (textsOf env t \<circ> snd) (syLog st)) \<and>
    (\<forall>g. loggedOf g (syLog st) @ syTodo st g = todo g) \<and>
    ((\<forall>g. syWriting st g = None) \<longrightarrow> missing = []) \<and>
    (missing = [] \<or> (\<exists>before. missing = drop before (textsOf env t (snd (last (syLog st))))))"
proof -
  have inv: "syncInv env t todo st" using lock.reached[OF assms syncInv_init] .
  let ?missing = "case syHolder st of None \<Rightarrow> [] | Some g \<Rightarrow> the (syWriting st g)"
  have "syHolder st = None" if idle: "\<forall>g. syWriting st g = None" using inv idle unfolding syncInv_def by (metis option.exhaust)
  then show ?thesis using inv unfolding syncInv_def by (intro exI[of _ ?missing]) (auto split: option.splits)
qed


section \<open>Witnesses\<close>

definition demoRepEnv :: repEnv where
  "demoRepEnv = \<lparr>rvQuote = (\<lambda>s. s), rvReadFile = (\<lambda>p. Err (New ''no file'')), rvBlocks = (\<lambda>a b. []),
     rvNewStruct = (\<lambda>m. None), rvProtoSize = (\<lambda>t. 1), rvStdout = (\<lambda>t. Some (New ''stdout is closed'')),
     rvMarshal = (\<lambda>d. Ok (concat (map (\<lambda>(c, rs). c @ concat (map srMessage rs)) d))),
     rvUpload = \<lparr>ueSink = \<lparr>AuthToken = ''t'', ResultSinkAddr = ''a:1''\<rparr>, ueMarshal = (\<lambda>b. Inr []), ueStatusText = (\<lambda>n. []),
       ueClient = (\<lambda>k q. HttpResp 200 None None)\<rparr>,
     rvPick = (\<lambda>s. 0), rvFirst = hd\<rparr>"

definition demoCommit :: "string \<Rightarrow> string \<Rightarrow> commitFinding" where
  "demoCommit c m = \<lparr>cfCheck = c, cfLevel = Warning, cfMessage = m, cfHash = ''abc'', cfCommitMessage = [],
     cfSpan = mkSpan 0 0 0 0, cfProps = None\<rparr>"

definition demoGetEnv :: reportEnv where
  "demoGetEnv = \<lparr>rpGetenv = (\<lambda>v. []), rpTerminal = False, rpLuciInit = Ok ()\<rparr>"

lemma demo_reports: "checkReports demoGetEnv = Ok [TerminalObj OnBasic [], SarifObj [] []]"
  by (simp add: checkReports_def Get_def demoGetEnv_def)

definition demoCalls :: "repCall list" where
  "demoCalls = [RepEmit (EmCommit (demoCommit ''b'' ''one'')), RepPrint ''b'' ''f'' 1 ''msg'', RepEmit (EmCommit (demoCommit ''b'' ''two''))]"

text \<open>Standard output is closed, and yet the document has both findings.\<close>

theorem reports_get_every_call_witness:
  "\<exists>t st. fst (multi_Close demoRepEnv (callAll demoRepEnv demoCalls [TerminalObj OnBasic [], SarifObj [] []])) =
    [TerminalObj t (concat (map (textsOf demoRepEnv t) demoCalls)), SarifObj st ''bonetwo'']"
proof -
  have ems: "emissionsOf demoCalls = [EmCommit (demoCommit ''b'' ''one''), EmCommit (demoCommit ''b'' ''two'')]"
    by (simp add: demoCalls_def)
  let ?rs = "resultsOf (rvReadFile demoRepEnv) (rvBlocks demoRepEnv) (rvNewStruct demoRepEnv)"
  have res: "map srMessage (?rs (EmCommit (demoCommit ''b'' m))) = [m]" for m
    by (simp add: resultsOf_def sarif_emit_def sarif_EmitCommitMessageFinding_def demoRepEnv_def demoCommit_def sarifView_def)
  then have ne: "?rs (EmCommit (demoCommit ''b'' m)) \<noteq> []" for m by (metis list.map_disc_iff list.discI)
  have own: "emCheck (EmCommit (demoCommit ''b'' m)) = ''b''" for m by (simp add: demoCommit_def)
  have keys: "{c. \<exists>em \<in> set (emissionsOf demoCalls). emCheck em = c \<and> ?rs em \<noteq> []} = {''b''}"
    unfolding ems using ne own by auto
  have list: "concat (map ?rs (filter (\<lambda>em. emCheck em = ''b'') (emissionsOf demoCalls))) =
      ?rs (EmCommit (demoCommit ''b'' ''one'')) @ ?rs (EmCommit (demoCommit ''b'' ''two''))"
    unfolding ems using own by simp
  have marshal: "rvMarshal demoRepEnv d = Ok (concat (map (\<lambda>(c, rs). c @ concat (map srMessage rs)) d))" for d
    by (simp add: demoRepEnv_def)
  have doc: "rvMarshal demoRepEnv (map (\<lambda>c. (c, concat (map ?rs (filter (\<lambda>em. emCheck em = c) (emissionsOf demoCalls)))))
      (sorted_list_of_set {c. \<exists>em \<in> set (emissionsOf demoCalls). emCheck em = c \<and> ?rs em \<noteq> []})) = Ok ''bonetwo''"
    unfolding keys marshal by (simp add: list res)
  obtain rs' r where close: "multi_Close demoRepEnv (callAll demoRepEnv demoCalls [TerminalObj OnBasic [], SarifObj [] []]) = (rs', r)"
    by fastforce
  show ?thesis using reports_get_every_call[OF demo_reports close doc] by (simp add: close) (simp add: demoGetEnv_def)
qed

definition demoShacEnv :: shacEnv where
  "demoShacEnv = \<lparr>seRoot = ''/r'', seSubdir = [], seAllowedProps = [], seVars = (\<lambda>_. None)\<rparr>"

theorem artifacts_never_accepted_witness:
  "fst (ctxEmitArtifact (\<lambda>p. StatFile) (emitError demoRepEnv (callAll demoRepEnv demoCalls [TerminalObj OnBasic [], SarifObj [] []]))
      demoShacEnv ''result.txt'' (VStr ''fake data'') demoRun) =
    Err (Errorf ''failed to emit: %w'' [FErr (New ''not implemented'')])"
proof -
  have "rvFirst demoRepEnv [New ''not implemented''] = New ''not implemented''" by (simp add: demoRepEnv_def)
  from artifacts_never_accepted[OF demo_reports this] show ?thesis by (simp add: artifactRoot_def)
qed

theorem texts_never_interleave_witness:
  "\<exists>st missing. syncSteps demoRepEnv OnGithub (initSync (\<lambda>g. if g < 2 then [RepPrint [] ''f'' 1 ''m''] else [])) st \<and>
    syOut st @ missing = concat (map (textsOf demoRepEnv OnGithub \<circ> snd) (syLog st)) \<and> length (syLog st) = 1"
proof -
  let ?st0 = "initSync (\<lambda>g. if g < 2 then [RepPrint [] ''f'' 1 ''m''] else [])"
  let ?st1 = "?st0\<lparr>syHolder := Some 1, syWriting := (syWriting ?st0)(1 \<mapsto> github_Print [] ''f'' 1 ''m''),
      syTodo := (syTodo ?st0)(1 := []), syLog := syLog ?st0 @ [(1, RepPrint [] ''f'' 1 ''m'')]\<rparr>"
  have "syncStep demoRepEnv OnGithub ?st0 ?st1"
    by (rule syncStep.LockCall[where r = "Ok ()"]) (simp_all add: initSync_def)
  then have "syncSteps demoRepEnv OnGithub ?st0 ?st1" by (rule r_into_rtranclp)
  moreover from this have "\<exists>missing. syOut ?st1 @ missing = concat (map (textsOf demoRepEnv OnGithub \<circ> snd) (syLog ?st1))"
    using texts_never_interleave by blast
  moreover have "length (syLog ?st1) = 1" by (simp add: initSync_def)
  ultimately show ?thesis by blast
qed

end
