(* ===== verification/Download.thy ===== *)
theory Download
  imports Io
begin

text \<open>
  The tool that fetches the prebuilt nsjail executables (internal/sandbox/download_nsjail.go): for each
  platform an archive is downloaded into a temporary directory, and its entry "nsjail" is extracted
  into the working directory. Files are a map from paths to contents and modes; the network, the zip
  format and the errors of the file system are parameters.
\<close>

section \<open>The tool\<close>

record httpBody =
  hbData :: string
  hbErr :: "err option"
  hbClose :: "err option"

record zipEntry =
  zeName :: string
  zeOpen :: "err option"
  zeData :: string
  zeErr :: "err option"

type_synonym dlFiles = "string \<rightharpoonup> string \<times> nat"

text \<open>A write may fail after some bytes; an archive is read from its content.\<close>

record dlEnv =
  dvGetwd :: "err + string"
  dvChdir :: "string \<Rightarrow> err option"
  dvMkdirTemp :: "string \<Rightarrow> err + string"
  dvRemoveAll :: "string \<Rightarrow> err option"
  dvGet :: "string \<Rightarrow> err + httpBody"
  dvCreate :: "string \<Rightarrow> err option"
  dvWriteErr :: "string \<Rightarrow> string \<Rightarrow> (nat \<times> err) option"
  dvCloseErr :: "string \<Rightarrow> err option"
  dvChmod :: "string \<Rightarrow> err option"
  dvUnzip :: "string \<Rightarrow> err + zipEntry list"

definition below :: "string \<Rightarrow> string \<Rightarrow> bool" where
  "below d p \<longleftrightarrow> p = d \<or> HasPrefix p (d @ ''/'')"

text \<open>os.Create: an existing file is truncated and keeps its mode.\<close>

definition createFile :: "string \<Rightarrow> dlFiles \<Rightarrow> dlFiles" where
  "createFile p fs = fs(p \<mapsto> ([], case fs p of None \<Rightarrow> 438 | Some (c, m) \<Rightarrow> m))"

text \<open>io.Copy into a file just created, from a reader that may fail at the end of its data.\<close>

definition copyInto :: "dlEnv \<Rightarrow> string \<Rightarrow> string \<Rightarrow> err option \<Rightarrow> dlFiles \<Rightarrow> dlFiles \<times> err option" where
  "copyInto env p content readErr fs =
     (let put = (\<lambda>c. fs(p \<mapsto> (c, case fs p of None \<Rightarrow> 438 | Some (c', m) \<Rightarrow> m)))
      in case dvWriteErr env p content of
           Some (n, e) \<Rightarrow> (put (take n content), Some e)
         | None \<Rightarrow> (put content, readErr))"

text \<open>The mode 0o777 is 511. The error of closing the executable is ignored.\<close>

definition extractTo :: "dlEnv \<Rightarrow> string \<Rightarrow> zipEntry \<Rightarrow> dlFiles \<Rightarrow> dlFiles \<times> err option" where
  "extractTo env path fi fs =
     (case zeOpen fi of
        Some e \<Rightarrow> (fs, Some e)
      | None \<Rightarrow>
          (case dvCreate env path of
             Some e \<Rightarrow> (fs, Some e)
           | None \<Rightarrow>
               (let fs1 = createFile path fs
                in case dvChmod env path of
                     Some e \<Rightarrow> (fs1, Some e)
                   | None \<Rightarrow> copyInto env path (zeData fi) (zeErr fi)
                       (fs1(path \<mapsto> (fst (the (fs1 path)), 511))))))"

fun extractLoop :: "dlEnv \<Rightarrow> string \<Rightarrow> zipEntry list \<Rightarrow> dlFiles \<Rightarrow> dlFiles \<times> err option" where
  "extractLoop env path [] fs = (fs, Some (New ''no nsjail executable found in CIPD package''))"
| "extractLoop env path (fi # fis) fs =
     (if zeName fi \<noteq> ''nsjail'' then extractLoop env path fis fs else extractTo env path fi fs)"

definition downloadNsjail :: "dlEnv \<Rightarrow> string \<Rightarrow> string \<Rightarrow> string \<Rightarrow> dlFiles \<Rightarrow> dlFiles \<times> err option" where
  "downloadNsjail env url path tempDir fs =
     (case dvGet env url of
        Inl e \<Rightarrow> (fs, Some e)
      | Inr body \<Rightarrow>
          (let archivePath = PathJoin [tempDir, ''sandbox.zip'']
           in case dvCreate env archivePath of
                Some e \<Rightarrow> (fs, Some e)
              | None \<Rightarrow>
                  (case copyInto env archivePath (hbData body) (hbErr body) (createFile archivePath fs) of
                     (fs1, Some e) \<Rightarrow> (fs1, Some e)
                   | (fs1, None) \<Rightarrow>
                       (case dvCloseErr env archivePath of
                          Some e \<Rightarrow> (fs1, Some e)
                        | None \<Rightarrow>
                            (case hbClose body of
                               Some e \<Rightarrow> (fs1, Some e)
                             | None \<Rightarrow>
                                 (case dvUnzip env (fst (the (fs1 archivePath))) of
                                    Inl e \<Rightarrow> (fs1, Some e)
                                  | Inr entries \<Rightarrow> extractLoop env path entries fs1))))))"

definition nsjailURL :: "string \<Rightarrow> string" where
  "nsjailURL platform = ''https://chrome-infra-packages.appspot.com/dl/infra/3pp/tools/nsjail/'' @ platform @
     ''/+/version:2@3.3.chromium.1''"

definition destPath :: "string \<Rightarrow> string \<Rightarrow> string" where
  "destPath cwd platform = PathJoin [cwd, ''nsjail-'' @ platform]"

definition removeTree :: "string \<Rightarrow> dlFiles \<Rightarrow> dlFiles" where
  "removeTree d fs = (\<lambda>p. if below d p then None else fs p)"

fun platformLoop :: "dlEnv \<Rightarrow> string \<Rightarrow> string list \<Rightarrow> dlFiles \<Rightarrow> dlFiles \<times> err option" where
  "platformLoop env cwd [] fs = (fs, None)"
| "platformLoop env cwd (platform # rest) fs =
     (case dvMkdirTemp env platform of
        Inl e \<Rightarrow> (fs, Some e)
      | Inr tempDir \<Rightarrow>
          (let (fs1, e) = downloadNsjail env (nsjailURL platform) (destPath cwd platform) tempDir fs;
               (fs2, e2) = (case dvRemoveAll env tempDir of
                   Some rmErr \<Rightarrow> (fs1, if e = None then Some rmErr else e)
                 | None \<Rightarrow> (removeTree tempDir fs1, e))
           in if e2 \<noteq> None then (fs2, e2) else platformLoop env cwd rest fs2))"

definition platforms :: "string list" where
  "platforms = [''linux-amd64'', ''linux-arm64'']"

text \<open>log.Fatal ends the process with the error.\<close>

definition nsjailMain :: "dlEnv \<Rightarrow> dlFiles \<Rightarrow> dlFiles \<times> err option" where
  "nsjailMain env fs =
     (case dvGetwd env of
        Inl e \<Rightarrow> (fs, Some e)
      | Inr cwd \<Rightarrow>
          (case dvChdir env cwd of
             Some e \<Rightarrow> (fs, Some e)
           | None \<Rightarrow> platformLoop env cwd platforms fs))"


section \<open>What is installed\<close>

lemma copyInto_ok:
  "copyInto env p content e fs = (fs', None) \<Longrightarrow> e = None \<and> (\<exists>m. fs' = fs(p \<mapsto> (content, case fs p of None \<Rightarrow> 438 | Some (c, m) \<Rightarrow> m)))"
  by (auto simp: copyInto_def Let_def split: option.splits)

lemma copyInto_frame: "q \<noteq> p \<Longrightarrow> fst (copyInto env p content e fs) q = fs q"
  by (auto simp: copyInto_def Let_def split: option.splits)

lemma extractTo_ok:
  "extractTo env path fi fs = (fs', None) \<Longrightarrow> zeErr fi = None \<and> fs' = fs(path \<mapsto> (zeData fi, 511))"
  by (auto simp: extractTo_def createFile_def Let_def dest!: copyInto_ok split: option.splits)

lemma extractTo_frame: "q \<noteq> path \<Longrightarrow> fst (extractTo env path fi fs) q = fs q"
  by (auto simp: extractTo_def createFile_def Let_def copyInto_frame split: option.splits)

definition isNsjail :: "zipEntry \<Rightarrow> bool" where
  "isNsjail fi \<longleftrightarrow> zeName fi = ''nsjail''"

lemma extractLoop_ok:
  "extractLoop env path fis fs = (fs', None) \<Longrightarrow>
    \<exists>fi. find isNsjail fis = Some fi \<and> zeErr fi = None \<and> fs' = fs(path \<mapsto> (zeData fi, 511))"
  by (induction env path fis fs rule: extractLoop.induct) (auto simp: isNsjail_def dest!: extractTo_ok split: if_splits)

lemma extractLoop_frame: "q \<noteq> path \<Longrightarrow> fst (extractLoop env path fis fs) q = fs q"
  by (induction env path fis fs rule: extractLoop.induct) (auto simp: extractTo_frame)

lemma download_frame:
  assumes "q \<noteq> path" and "q \<noteq> PathJoin [tempDir, ''sandbox.zip'']"
  shows "fst (downloadNsjail env url path tempDir fs) q = fs q"
proof (cases "dvGet env url")
  case (Inr body)
  let ?a = "PathJoin [tempDir, ''sandbox.zip'']"
  obtain fs1 e where copy: "copyInto env ?a (hbData body) (hbErr body) (createFile ?a fs) = (fs1, e)" by fastforce
  have "fs1 q = fs q"
    using copyInto_frame[OF assms(2), of env "hbData body" "hbErr body" "createFile ?a fs"] copy assms(2)
    by (simp add: createFile_def)
  then show ?thesis using Inr copy extractLoop_frame[OF assms(1)]
    by (simp add: downloadNsjail_def Let_def split: option.split sum.split)
qed (simp add: downloadNsjail_def)

text \<open>The first entry "nsjail" of the archive at a URL, if all of it could be had.\<close>

definition published :: "dlEnv \<Rightarrow> string \<Rightarrow> string \<Rightarrow> bool" where
  "published env url content \<longleftrightarrow>
     (\<exists>body fis fi. dvGet env url = Inr body \<and> hbErr body = None \<and> dvUnzip env (hbData body) = Inr fis \<and>
        find isNsjail fis = Some fi \<and> zeErr fi = None \<and> content = zeData fi)"

lemma download_ok:
  assumes "downloadNsjail env url path tempDir fs = (fs', None)"
  shows "\<exists>content. published env url content \<and> fs' path = Some (content, 511)"
proof -
  let ?a = "PathJoin [tempDir, ''sandbox.zip'']"
  obtain body where body: "dvGet env url = Inr body" using assms by (cases "dvGet env url") (auto simp: downloadNsjail_def)
  obtain fs1 e where copy: "copyInto env ?a (hbData body) (hbErr body) (createFile ?a fs) = (fs1, e)" by fastforce
  have e: "e = None" using assms body copy by (cases e) (auto simp: downloadNsjail_def Let_def split: option.splits)
  obtain fis where fis: "dvUnzip env (fst (the (fs1 ?a))) = Inr fis" "extractLoop env path fis fs1 = (fs', None)"
    using assms body copy e by (auto simp: downloadNsjail_def Let_def split: option.splits sum.splits)
  from copyInto_ok[OF copy[unfolded e]] have "hbErr body = None" "fst (the (fs1 ?a)) = hbData body" by auto
  then show ?thesis using extractLoop_ok[OF fis(2)] fis(1) body unfolding published_def by auto
qed


text \<open>Temporary directories are new: nothing is in them, and no executable will be.\<close>

definition freshTemp :: "dlEnv \<Rightarrow> string \<Rightarrow> string list \<Rightarrow> dlFiles \<Rightarrow> bool" where
  "freshTemp env cwd pls fs \<longleftrightarrow>
     (\<forall>pl d. dvMkdirTemp env pl = Inr d \<longrightarrow>
        (\<exists>ts. d = absForm ts \<and> list_all plainElem ts \<and> ts \<noteq> []) \<and> (\<forall>p. below d p \<longrightarrow> fs p = None) \<and>
        (\<forall>pl' \<in> set pls. \<not> below d (destPath cwd pl')))"

lemma archive_below:
  assumes "list_all plainElem ts" and "ts \<noteq> []"
  shows "below (absForm ts) (PathJoin [absForm ts, ''sandbox.zip''])"
proof -
  have "PathJoin [absForm ts, ''sandbox.zip''] = absForm (ts @ [''sandbox.zip''])"
    using PathJoin_abs[OF assms(1), of "[''sandbox.zip'']"] by (simp add: plainElem_def)
  also have "\<dots> = absForm ts @ ''/'' @ ''sandbox.zip''" using assms(2) by (simp add: absForm_def Join_snoc)
  finally show ?thesis by (simp add: below_def HasPrefix_def)
qed

lemma platformLoop_spec:
  assumes "platformLoop env cwd pls fs = (fs', e)" and "freshTemp env cwd ps fs" and "set pls \<subseteq> set ps"
    and "distinct (map (destPath cwd) pls)" and "\<And>d. dvRemoveAll env d = None"
  shows "(\<forall>p. p \<notin> destPath cwd ` set pls \<longrightarrow> fs' p = fs p) \<and>
    (e = None \<longrightarrow> (\<forall>pl \<in> set pls. \<exists>content. published env (nsjailURL pl) content \<and> fs' (destPath cwd pl) = Some (content, 511)))"
  using assms(1-4)
proof (induction pls arbitrary: fs)
  case (Cons pl pls)
  show ?case
  proof (cases "dvMkdirTemp env pl")
    case (Inl x)
    then show ?thesis using Cons.prems(1) by auto
  next
    case (Inr d)
    let ?dest = "destPath cwd pl"
    from Cons.prems(2) Inr obtain ts where ts: "d = absForm ts" "list_all plainElem ts" "ts \<noteq> []" unfolding freshTemp_def by blast
    have empty: "\<And>p. below d p \<Longrightarrow> fs p = None" and out: "\<not> below d ?dest"
      using Cons.prems(2,3) Inr unfolding freshTemp_def by auto
    obtain fs1 e1 where dl: "downloadNsjail env (nsjailURL pl) ?dest d fs = (fs1, e1)" by fastforce
    let ?fs2 = "removeTree d fs1"
    have same: "?fs2 p = fs p" if p: "p \<noteq> ?dest" for p
      using download_frame[OF p, of d env "nsjailURL pl" fs] dl empty archive_below[OF ts(2,3)] ts(1)
      by (auto simp: removeTree_def)
    have loop: "(if e1 \<noteq> None then (?fs2, e1) else platformLoop env cwd pls ?fs2) = (fs', e)"
      using Cons.prems(1) Inr dl assms(5) by simp
    show ?thesis
    proof (cases e1)
      case (Some x)
      then show ?thesis using loop same by auto
    next
      case None
      have "freshTemp env cwd ps ?fs2" unfolding freshTemp_def
      proof (intro allI impI)
        fix q d' assume d': "dvMkdirTemp env q = Inr d'"
        have f: "(\<exists>ts. d' = absForm ts \<and> list_all plainElem ts \<and> ts \<noteq> [])" "\<forall>p. below d' p \<longrightarrow> fs p = None"
          "\<forall>pl' \<in> set ps. \<not> below d' (destPath cwd pl')" using Cons.prems(2) d' unfolding freshTemp_def by blast+
        have "?fs2 p = None" if p: "below d' p" for p
          using f(2,3) p same[of p] Cons.prems(3) by (cases "p = ?dest") auto
        then show "(\<exists>ts. d' = absForm ts \<and> list_all plainElem ts \<and> ts \<noteq> []) \<and> (\<forall>p. below d' p \<longrightarrow> ?fs2 p = None) \<and>
            (\<forall>pl' \<in> set ps. \<not> below d' (destPath cwd pl'))" using f(1,3) by blast
      qed
      moreover have "platformLoop env cwd pls ?fs2 = (fs', e)" using loop None by simp
      ultimately have IH: "\<forall>p. p \<notin> destPath cwd ` set pls \<longrightarrow> fs' p = ?fs2 p"
        "e = None \<longrightarrow> (\<forall>pl \<in> set pls. \<exists>content. published env (nsjailURL pl) content \<and> fs' (destPath cwd pl) = Some (content, 511))"
        using Cons.IH[of ?fs2] Cons.prems(3,4) by auto
      obtain content where c: "published env (nsjailURL pl) content" "fs1 ?dest = Some (content, 511)"
        using download_ok dl None by blast
      have "fs' ?dest = Some (content, 511)" using IH(1) Cons.prems(4) c(2) out by (simp add: removeTree_def)
      then show ?thesis using IH same c(1) by auto
    qed
  qed
qed simp

lemma destPath_distinct:
  assumes "list_all plainElem cs"
  shows "distinct (map (destPath (absForm cs)) platforms)"
proof -
  have pe: "plainElem ''nsjail-linux-amd64''" "plainElem ''nsjail-linux-arm64''" by (simp_all add: plainElem_def)
  have "destPath (absForm cs) pl = absForm (cs @ [''nsjail-'' @ pl])" if pl: "plainElem (''nsjail-'' @ pl)" for pl
    using PathJoin_abs[OF assms, of "[''nsjail-'' @ pl]"] pl by (simp add: destPath_def)
  moreover have "absForm (cs @ [''nsjail-linux-amd64'']) \<noteq> absForm (cs @ [''nsjail-linux-arm64''])"
  proof
    assume eq: "absForm (cs @ [''nsjail-linux-amd64'']) = absForm (cs @ [''nsjail-linux-arm64''])"
    have "list_all plainElem (cs @ [''nsjail-linux-amd64''])" "list_all plainElem (cs @ [''nsjail-linux-arm64''])"
      using assms pe by simp_all
    from Split_absForm[OF this(1)] Split_absForm[OF this(2)] show False using eq by simp
  qed
  ultimately show ?thesis using pe by (simp add: platforms_def)
qed

text \<open>
  When the tool succeeds, each platform's executable is, byte for byte, the first entry "nsjail" of
  the archive at its URL, with mode 0o777. Whether or not it succeeds, it changes no other file: the
  temporary directories are gone.
\<close>

theorem nsjail_installed:
  assumes "nsjailMain env fs = (fs', e)" and "dvGetwd env = Inr (absForm cs)" and "list_all plainElem cs"
    and "freshTemp env (absForm cs) platforms fs" and "\<And>d. dvRemoveAll env d = None"
  shows "(\<forall>p. p \<notin> destPath (absForm cs) ` set platforms \<longrightarrow> fs' p = fs p) \<and>
    (e = None \<longrightarrow> (\<forall>pl \<in> set platforms. \<exists>content. published env (nsjailURL pl) content \<and>
       fs' (destPath (absForm cs) pl) = Some (content, 511)))"
proof (cases "dvChdir env (absForm cs)")
  case None
  then have loop: "platformLoop env (absForm cs) platforms fs = (fs', e)" using assms(1,2) by (simp add: nsjailMain_def)
  show ?thesis by (rule platformLoop_spec[OF loop assms(4) subset_refl destPath_distinct[OF assms(3)] assms(5)])
next
  case (Some x)
  then show ?thesis using assms(1,2) by (auto simp: nsjailMain_def)
qed


section \<open>A run\<close>

definition demoDl :: "(string \<Rightarrow> string \<Rightarrow> (nat \<times> err) option) \<Rightarrow> dlEnv" where
  "demoDl we = \<lparr>dvGetwd = Inr ''/w'', dvChdir = (\<lambda>d. None), dvMkdirTemp = (\<lambda>pl. Inr ''/tmp/platform1''),
     dvRemoveAll = (\<lambda>d. None),
     dvGet = (\<lambda>url. Inr \<lparr>hbData = (if url = nsjailURL ''linux-amd64'' then ''A'' else ''B''), hbErr = None, hbClose = None\<rparr>),
     dvCreate = (\<lambda>p. None), dvWriteErr = we, dvCloseErr = (\<lambda>p. None), dvChmod = (\<lambda>p. None),
     dvUnzip = (\<lambda>b. Inr [\<lparr>zeName = ''README'', zeOpen = None, zeData = [], zeErr = None\<rparr>,
       \<lparr>zeName = ''nsjail'', zeOpen = None, zeData = ''elf'' @ b, zeErr = None\<rparr>])\<rparr>"

abbreviation demoDest :: string where "demoDest \<equiv> ''/w/nsjail-linux-amd64''"

lemma demo_dest: "destPath ''/w'' ''linux-amd64'' = demoDest" "destPath ''/w'' ''linux-arm64'' = ''/w/nsjail-linux-arm64''"
  by code_simp+

text \<open>A failure while writing leaves a part of the new executable where the old one was.\<close>

lemma failed_write_keeps_part:
  "fst (extractTo (demoDl (\<lambda>p c. if p = demoDest then Some (1, New ''no space left'') else None)) demoDest
      \<lparr>zeName = ''nsjail'', zeOpen = None, zeData = ''elfA'', zeErr = None\<rparr> [demoDest \<mapsto> (''old'', 511)]) demoDest = Some (''e'', 511)"
  by (simp add: extractTo_def demoDl_def createFile_def copyInto_def)

theorem nsjail_installed_witness:
  "\<exists>content. published (demoDl (\<lambda>p c. None)) (nsjailURL ''linux-amd64'') content \<and>
    fst (nsjailMain (demoDl (\<lambda>p c. None)) Map.empty) demoDest = Some (content, 511)"
proof -
  let ?env = "demoDl (\<lambda>p c. None)"
  have cwd: "absForm [''w''] = ''/w''" by (simp add: absForm_def)
  have pl: "list_all plainElem [''w'']" by (simp add: plainElem_def)
  have "freshTemp ?env (absForm [''w'']) platforms Map.empty"
    unfolding freshTemp_def cwd
    by (auto simp: demoDl_def platforms_def demo_dest below_def HasPrefix_def absForm_def plainElem_def
        intro!: exI[of _ "[''tmp'', ''platform1'']"])
  moreover have "nsjailMain ?env Map.empty = (fst (nsjailMain ?env Map.empty), None)"
  proof -
    have "snd (nsjailMain ?env Map.empty) = None" by code_simp
    then show ?thesis by (simp add: prod_eq_iff)
  qed
  moreover have "dvGetwd ?env = Inr (absForm [''w''])" "\<And>d. dvRemoveAll ?env d = None" by (simp_all add: demoDl_def cwd)
  ultimately show ?thesis
    using nsjail_installed[of ?env Map.empty "fst (nsjailMain ?env Map.empty)" None "[''w'']"] pl
    by (simp add: cwd platforms_def demo_dest)
qed

end
