(* ===== verification/Spec2Isabelle.thy ===== *)
theory Spec2Isabelle
  imports Cli Docgen Execsupport Fork_Check Loader Shac_Parse Scm_Slices Proc_Limit All_Reports Download
begin

text \<open>
  shac, a checker that runs the checks written in the Starlark files of a repository, modelled from
  its Go sources.

  The parts of the program and how they interact. \<open>Run\<close> (src/internal/engine/run.go) finds the root
  of the checkout with git, reads shac.textproto, chooses a checkout object, fetches and verifies
  the packages, finds the shac files, loads them (they register checks), filters the checks and
  runs them concurrently. A running check calls back into ctx: it lists files through the checkout,
  reads files, makes temporary directories, starts processes in a sandbox and emits findings. The
  fix command runs the same engine with a report that collects the findings and rewrites the files.

  The theories, from the bottom up.
  \<^item> Go_Prelude: errors, outcomes (a value, an error, a panic), indexing, package strings, strconv,
    sort.Find, and the contract of sort.Slice as a locale.
  \<^item> Go_Path: filepath.Clean, Join, Dir and Base, and their laws on plain paths.
  \<^item> Checks: levels, check objects, registration and the filter (run.go, runtime_shac.go,
    runtime_shac_check.go).
  \<^item> Scm_Files, Git_Scm, Scm: the files of a checkout, the git checkout with its error and the
    parsers of git's output, and all the checkouts as one datatype with the state each keeps
    (runtime_ctx_scm.go, git.go). The locale of sorted listings is interpreted by both listings.
  \<^item> Scm_Cache: the cache around a checkout against the checkout without it. Scm_Slices: the listings as
    slices of arrays that are shared and, by the ignore patterns, filtered in place, as a refinement of
    the listings as lists, for the order in which run.go wraps the checkouts.
  \<^item> Step_System: the locales of the components with interleaved steps: an invariant of the steps, and a
    measure that bounds every run. Loader, Execsupport, Proc_Limit, Subprocess, Result_Db and All_Reports
    interpret them on their step relations.
  \<^item> Io: absPath, reading files, temporary directories, the files of the command line, ctx.re
    (runtime_ctx_io.go, runtime_ctx_re.go, run.go).
  \<^item> Emit: ctx.emit, spans and finding properties, ctx.vars, fail() (runtime_ctx_emit.go,
    findings_properties.go, runtime_ctx_vars.go, runtime.go).
  \<^item> Fix: choosing and applying fixes (fix.go), with the replacement of byte intervals as its
    specification.
  \<^item> Config, Pkg: the configuration and its validation (config.go, version.go), packages and their
    digests (pkg.go).
  \<^item> Load_Env, Loader: references to Starlark files, one source with its errors, and concurrent loads
    of sources that share a table and a mutex each (env.go).
  \<^item> Sandbox, Subprocess: mounts and command lines (internal/sandbox), ctx.os.exec, wait, the buffer
    pool and the end of a check (runtime_ctx_os.go, buffers.go, run.go).
  \<^item> Unpack, Ctx_Calls: how a builtin gets its arguments (UnpackArgs of the vendored interpreter, with
    the variables that the arguments bind as its specification), the functions of ctx with their
    parameters and the naming of their errors (runtime_ctx.go, runtime.go and the files of the
    functions), and a check as a sequence of calls over one state, in which the components above meet.
  \<^item> Shac_Api: what a Starlark file can call while it is loaded (runtime_shac.go,
    runtime_shac_check.go) as a script that creates and registers checks, the parameters of a
    Starlark function as the resolver leaves them, and the binding of the arguments of a call
    (setArgs of the vendored interpreter): which registered checks can be called.
  \<^item> Proc_Limit: how many commands run at once: the goroutine of each command, its channel, and the
    semaphore of golang.org/x/sync (vendored), as interleaved steps. It says when the ends of
    processes, which Subprocess takes as a parameter, come and that they do come.
  \<^item> Execsupport: the lock that keeps processes from being forked while the nsjail executable is
    written, and sandbox.New (internal/execsupport, internal/sandbox/sandbox.go), as interleaved
    steps of goroutines.
  \<^item> Runner: the run (run.go). Shac_Parse: shacState.parse on the events of a script, which gives the
    loads that Runner takes as a parameter, and the checks of a run from the scripts on.
  \<^item> Reporting: the reports on the terminal, ANSI codes, the report that tees to several and the choice
    of reports (internal/reporting/reporting.go, ansi.go, multi.go).
  \<^item> Sarif, Result_Db: the SARIF document with the splitting of replacements (sarif.go) and the report
    to ResultDB (resultdb.go), with the goroutine that fills batches and those that each send one, and
    the group they belong to (vendored errgroup), as interleaved steps. The locale of reports that keep their state by check, whose view does
    not depend on the interleaving of the checks, is interpreted by both.
  \<^item> All_Reports: the reports of the check command together, each getting every call of the engine
    (multi.go, check.go), and the lock around the report on the terminal (reporting.go).
  \<^item> Cli: flags, subcommands, dispatch, exit code and backtraces (internal/cli, main.go, errors.go).
  \<^item> Docgen: the documentation generator (docgen.go).
  \<^item> Fork_Check: the check of this repository that os/exec commands are started through execsupport
    (internal/go_checks/fork_check).
  \<^item> Download: the tool that fetches nsjail (internal/sandbox/download_nsjail.go).
  \<^item> This theory: the properties that span the engine, the emitted findings and the command line.

  State is passed explicitly: a checkout operation returns the checkout it leaves, a call of a check
  returns the state of the temporary directories, of the pool and of the processes. Go's (value,
  error) results are \<open>outcome\<close> values, with panics as a third case. Concurrency is a step relation:
  \<open>lstep\<close> for loads (a reader of a source holds its mutex too), \<open>wstep\<close> for checks over the pool, \<open>pstep\<close> for the lock around exec, \<open>procStep\<close> and \<open>procRun\<close> for the semaphore of
  commands, \<open>syncStep\<close> for the lock of the terminal, \<open>uploadStep\<close> for the uploads to ResultDB; the order in
  which the goroutines of the other groups end is a parameter. Strings are byte lists; Go's 64-bit ints are unbounded ints with the range tests that
  the code makes (intToInt, sequenceToInts, Atoi) written out.

  Code outside the repository is a parameter of the definitions that use it: git, the file system,
  net/url, dirhash, gitignore patterns, regular expressions, the prototext parser, Starlark's
  evaluation and String methods (UnpackArgs, setArgs and the resolving of a function's parameters are
  translated from the vendored copy), pflag, the matching blocks of difflib (the rest of its conversion
  to operations is translated from the vendored copy), JSON and HTTP, the renderer of documentation.
  Hypotheses on them are documented behaviour: a sort sorts, a hash depends on what it reads, an element chosen from a non-empty map is one of its keys, errgroup
  returns one of the errors.

  Fuel: the climb of resolveMounts and the search of shacFileDirs take one, and are shown to come to
  an end with as many steps as the path has elements (resolveMounts_returns).

  What the groups of lemmas show: every component's operations on all branches, and above them the
  contracts that matter to the user: what is listed, run, emitted, mounted, fetched, fixed, reported,
  and what the exit code says.

  Not modelled: the generated protobuf code (shac.pb.go, sarif.pb.go: accessors and descriptors, no logic
  of the program); the errors of writing a fixed file and of reading a file that is open; that a git
  command borrows two buffers of the pool while it runs (git.go); the signal handler of main; the methods that Starlark values have for printing,
  hashing and freezing; the tool that regenerates the documentation.
\<close>

section \<open>From the findings of the checks to the verdict of a run\<close>

text \<open>
  A check ended well after some calls of ctx, from a fresh state, and these are the levels of the
  findings it emitted.
\<close>

definition emittedLevels :: "checkEnd \<Rightarrow> Level list \<Rightarrow> bool" where
  "emittedLevels e levels \<longleftrightarrow>
     ceErr e = None \<and>
     (\<exists>(cx :: string ctxEnv) calls st st'.
        picks (chooseBuf (cxSys cx)) \<and> ctxInv st \<and> ownWaits cx calls st \<and>
        crEmitted (csRun st) = [] \<and> highestLevel (crCheck (csRun st)) = Nothing \<and>
        runCheck cx calls st = (Ok (), st') \<and>
        ceLevel e = highestLevel (crCheck (csRun st')) \<and> levels = emLevels (crEmitted (csRun st')))"

lemma emittedLevels_error:
  assumes "emittedLevels e levels"
  shows "ceErr e = None \<and> (ceLevel e = Error \<longleftrightarrow> Error \<in> set levels)"
proof -
  obtain cx :: "string ctxEnv" and calls st st' where h: "picks (chooseBuf (cxSys cx))" "ctxInv st" "ownWaits cx calls st"
      "crEmitted (csRun st) = []" "highestLevel (crCheck (csRun st)) = Nothing" "runCheck cx calls st = (Ok (), st')"
    and e: "ceErr e = None" "ceLevel e = highestLevel (crCheck (csRun st'))" "levels = emLevels (crEmitted (csRun st'))"
    using assms unfolding emittedLevels_def by blast
  show ?thesis using runCheck_inv[OF h] e by simp
qed

text \<open>C18. A run whose checks all end well, whatever functions of ctx they called, succeeds exactly when
  none of them emitted a finding of level error, and otherwise ends with "a check failed": warnings
  and notices, their number and their order do not matter.\<close>

theorem run_fails_on_error_findings:
  assumes "reMkdirTemp re = Ok d" and "setupStates re fuel opts d = Some (Ok states0)"
    and "loadAll re states0 = Ok loaded" and "selectChecks (oFilter opts) loaded = Ok states"
    and "firstOf (reFirst re)" and "reRemoveAll re d = None" and "Run re fuel opts = Some (cs, r, removed)"
    and ends: "\<And>c e. (c, e) \<in> set (endsOf re states) \<Longrightarrow> emittedLevels e (levelsOf c)"
  shows "r = (if \<exists>c e. (c, e) \<in> set (endsOf re states) \<and> Error \<in> set (levelsOf c) then Err ErrCheckFailed else Ok ())"
proof -
  have ok: "ceErr e = None \<and> (ceLevel e = Error \<longleftrightarrow> Error \<in> set (levelsOf c))"
    if x: "(c, e) \<in> set (endsOf re states)" for c e
    using emittedLevels_error[OF ends[OF x]] .
  have "causedCancels re states" using ok by (auto simp: causedCancels_def)
  from run_result[OF assms(1-5) this assms(7)] have
    good: "(r = Ok ()) = (\<forall>c e. (c, e) \<in> set (endsOf re states) \<longrightarrow> ceErr e = None \<and> ceLevel e \<noteq> Error)" and
    bad: "(\<forall>c e. (c, e) \<in> set (endsOf re states) \<longrightarrow> ceErr e = None) \<and>
      (\<exists>c e. (c, e) \<in> set (endsOf re states) \<and> ceLevel e = Error) \<longrightarrow> r = Err ErrCheckFailed"
    using assms(6) by simp_all
  show ?thesis
  proof (cases "\<exists>c e. (c, e) \<in> set (endsOf re states) \<and> Error \<in> set (levelsOf c)")
    case True
    then have "r = Err ErrCheckFailed" using bad ok by blast
    then show ?thesis using True by simp
  next
    case False
    then have "r = Ok ()" using good ok by blast
    then show ?thesis using False by simp
  qed
qed

section \<open>The exit code of "shac check"\<close>

definition engineRun :: "runEnv \<Rightarrow> nat \<Rightarrow> Options \<Rightarrow> unit outcome" where
  "engineRun re fuel opts =
     (case Run re fuel opts of Some (cs, r, removed) \<Rightarrow> r | None \<Rightarrow> Panic ''out of fuel'')"

text \<open>No error of the run, of closing the reports or of writing the JSON file asks for help.\<close>

definition helpFree :: "runEnv \<Rightarrow> cliEnv \<Rightarrow> bool" where
  "helpFree re env \<longleftrightarrow>
     (\<forall>s c x. ceErr (reEnd re s c) = Some x \<longrightarrow> \<not> errIs ErrHelp x) \<and>
     (\<forall>d x. reRemoveAll re d = Some x \<longrightarrow> \<not> errIs ErrHelp x) \<and>
     (\<forall>x. ceCloseErr env = Some x \<longrightarrow> \<not> errIs ErrHelp x) \<and>
     (\<forall>p b x. ceWriteFile env p b = Some x \<longrightarrow> \<not> errIs ErrHelp x)"

lemma endsOf_end: "(c, e) \<in> set (endsOf re states) \<Longrightarrow> \<exists>s. e = reEnd re s c"
  by (auto simp: endsOf_def)

lemma orElse_Ok: "orElse r e = Ok () \<longleftrightarrow> r = Ok () \<and> e = None"
  by (cases r; cases e) (auto simp: orElse_def fromErr_def)

lemma orElse_Err: "orElse r e = Err x \<longleftrightarrow> r = Err x \<or> (\<exists>u. r = Ok u \<and> e = Some x)"
  by (cases r; cases e) (auto simp: orElse_def fromErr_def)

lemma orElse_Panic: "orElse r e = Panic m \<longleftrightarrow> r = Panic m"
  by (cases r; cases e) (auto simp: orElse_def fromErr_def)

lemma engineRun_result:
  assumes "reMkdirTemp re = Ok d" and "setupStates re fuel opts d = Some (Ok states0)"
    and "loadAll re states0 = Ok loaded" and "selectChecks (oFilter opts) loaded = Ok states"
    and "firstOf (reFirst re)" and "causedCancels re states"
  shows "(engineRun re fuel opts = Ok () \<longleftrightarrow>
      (\<forall>c e. (c, e) \<in> set (endsOf re states) \<longrightarrow> ceErr e = None \<and> ceLevel e \<noteq> Error) \<and> reRemoveAll re d = None) \<and>
    (engineRun re fuel opts = Ok () \<or> (\<exists>x. engineRun re fuel opts = Err x \<and>
      (x = ErrCheckFailed \<or> (\<exists>s c. ceErr (reEnd re s c) = Some x) \<or> reRemoveAll re d = Some x)))"
proof -
  have "Run re fuel opts \<noteq> None" using assms(1,2) by (simp add: Run_def runInner_def)
  then obtain cs r removed where run: "Run re fuel opts = Some (cs, r, removed)" by auto
  then have e: "engineRun re fuel opts = r" by (simp add: engineRun_def)
  note res = run_result[OF assms run]
  have "r = Ok () \<or> (\<exists>x. r = Err x \<and> (x = ErrCheckFailed \<or> (\<exists>s c. ceErr (reEnd re s c) = Some x) \<or> reRemoveAll re d = Some x))"
  proof (cases "\<exists>c e. (c, e) \<in> set (endsOf re states) \<and> ceErr e \<noteq> None")
    case True
    then show ?thesis using res endsOf_end by blast
  next
    case False
    show ?thesis
    proof (cases "\<exists>c e. (c, e) \<in> set (endsOf re states) \<and> ceLevel e = Error")
      case True
      then show ?thesis using res False by blast
    next
      case fine: False
      have "runChecks re states = (fst (runChecks re states), Ok ())"
        using False fine by (auto simp: runChecks_def Let_def list_ex_iff)
      then have "r = (case reRemoveAll re d of None \<Rightarrow> Ok () | Some e \<Rightarrow> Err e)"
        using run assms(1-4) by (cases "runChecks re states") (auto simp: Run_def runInner_def)
      then show ?thesis by (cases "reRemoveAll re d") auto
    qed
  qed
  then show ?thesis using res unfolding e by blast
qed

text \<open>C3. "shac check" exits with 0 exactly when every selected check ran without an error and emitted no
  finding of level error, the temporary directory could be removed, all reports could be closed and
  the JSON file, if asked for, could be written; otherwise with 1. The JSON file is written whatever
  the verdict.\<close>

theorem check_exit_code:
  assumes "length args \<ge> 2" and "args ! 1 = ''check''" and "parse (Some CmdCheck) (drop 2 args) = Ok (c, files)"
    and "\<not> flHelp c" and "ceGet env = Ok rs" and "cliOptions c files = Ok opts" and "ceRun env = engineRun re fuel"
    and run: "reMkdirTemp re = Ok d" "setupStates re fuel opts d = Some (Ok states0)"
      "loadAll re states0 = Ok loaded" "selectChecks (oFilter opts) loaded = Ok states"
      "firstOf (reFirst re)" "causedCancels re states"
    and no_help: "helpFree re env"
  shows "fst (main terminal backtrace (mrResult (Main parse env version args))) =
      (if (\<forall>c e. (c, e) \<in> set (endsOf re states) \<longrightarrow> ceErr e = None \<and> ceLevel e \<noteq> Error) \<and>
          reRemoveAll re d = None \<and> ceCloseErr env = None \<and>
          (flJsonOutput c = [] \<or> ceWriteFile env (flJsonOutput c) (ceSarif env) = None) then 0 else 1) \<and>
    mrFiles (Main parse env version args) =
      (if flJsonOutput c = [] then [] else [(flJsonOutput c, ceSarif env)])"
proof -
  note eng = engineRun_result[OF run]
  let ?r = "engineRun re fuel opts"
  define res where "res = (let r1 = orElse ?r (ceCloseErr env) in
    if flJsonOutput c = [] then r1 else orElse r1 (ceWriteFile env (flJsonOutput c) (ceSarif env)))"
  have no_panic: "?r \<noteq> Panic m" for m using eng by auto
  have exe: "checkCmd_Execute env c files = (if flJsonOutput c = [] then [] else [(flJsonOutput c, ceSarif env)], res)"
    using assms(5-7) no_panic
    by (cases ?r) (auto simp: checkCmd_Execute_def res_def Let_def)
  have "find (\<lambda>s. Name s = args ! 1) subcommands = Some CmdCheck" using assms(2) by (simp add: subcommands_def)
  then have m: "Main parse env version args = executeCmd env version CmdCheck c files"
    using assms(1-4) by (simp add: Main_def)
  have ok: "res = Ok () \<longleftrightarrow> ?r = Ok () \<and> ceCloseErr env = None \<and>
      (flJsonOutput c = [] \<or> ceWriteFile env (flJsonOutput c) (ceSarif env) = None)"
    by (auto simp: res_def Let_def orElse_Ok)
  have err: "\<not> errIs ErrHelp x" if "res = Err x" for x
  proof -
    have "?r = Err x \<or> ceCloseErr env = Some x \<or> (\<exists>p b. ceWriteFile env p b = Some x)"
      using that by (auto simp: res_def Let_def orElse_Err split: if_splits)
    then show ?thesis using no_help eng unfolding helpFree_def
      by (auto simp: ErrHelp_def)
  qed
  have np: "res \<noteq> Panic p" for p
    using no_panic by (auto simp: res_def Let_def orElse_Panic split: if_splits)
  have "fst (main terminal backtrace res) = (if res = Ok () then 0 else 1)"
    using err np by (cases res) (auto simp: main_def)
  then show ?thesis using eng unfolding m executeCmd_def by (simp add: exe ok)
qed

section \<open>The properties on a concrete run\<close>

lemma demo_emits: "emittedLevels \<lparr>ceLevel = Notice, ceErr = None, ceCancelled = False\<rparr> [Notice]"
proof -
  obtain r st' where run: "runCheck demoCtx [demoFinding Notice] demoState = (r, st')" by fastforce
  have "r = Ok ()" "emLevels (crEmitted (csRun st')) = [Notice]" "highestLevel (crCheck (csRun st')) = Notice"
    using demo_notice run by (simp_all add: emLevels_def)
  moreover have "ownWaits demoCtx [demoFinding Notice] demoState" by (simp add: demoFinding_def)
  ultimately show ?thesis
    unfolding emittedLevels_def using run demo_pickable demo_ctxInv demo_fresh
    by (intro conjI exI[of _ demoCtx] exI[of _ "[demoFinding Notice]"] exI[of _ demoState] exI[of _ st']) simp_all
qed

theorem run_fails_on_error_findings_witness:
  "\<exists>cs. Run demoRe 0 plainOptions = Some (cs, Ok (), [''/t''])"
proof -
  have "Run demoRe 0 plainOptions \<noteq> None" by (simp add: Run_def demoRe_setup runInner_def)
  then obtain cs r removed where run: "Run demoRe 0 plainOptions = Some (cs, r, removed)" by auto
  have emits: "emittedLevels e [Notice]" if x: "(c, e) \<in> set (endsOf demoRe demoSelected)" for c e
    using demoRe_ends[OF x] demo_emits by simp
  from run_fails_on_error_findings[OF demoRe_setup(1,3-6,2) run, of "\<lambda>_. [Notice]"] emits
  have "r = Ok ()" by (simp add: Notice_def Error_def)
  moreover have "removed = [''/t'']" using run by (auto simp: Run_def demoRe_setup split: option.splits)
  ultimately show ?thesis using run by simp
qed

definition checkEnv :: cliEnv where
  "checkEnv = demoCliEnv\<lparr>ceRun := engineRun demoRe 0\<rparr>"

definition checkFlags :: cliFlags where
  "checkFlags = demoFlags\<lparr>flJsonOutput := ''o.json'', flCwd := oDir plainOptions,
     flNoRecurse := \<not> oRecurse plainOptions, flEntryPoint := oEntryPoint plainOptions\<rparr>"

theorem check_exit_code_witness:
  "fst (main False (\<lambda>_. None) (mrResult (Main (\<lambda>_ _. Ok (checkFlags, [])) checkEnv ''1'' [''shac'', ''check'']))) = 0 \<and>
   mrFiles (Main (\<lambda>_ _. Ok (checkFlags, [])) checkEnv ''1'' [''shac'', ''check'']) = [(''o.json'', ''{}'')]"
proof -
  let ?args = "[''shac'', ''check'']"
  let ?parse = "\<lambda>_ _. Ok (checkFlags, [])"
  have cmd: "length ?args \<ge> 2" "?args ! 1 = ''check''" "?parse (Some CmdCheck) (drop 2 ?args) = Ok (checkFlags, [])"
    "\<not> flHelp checkFlags" "ceGet checkEnv = Ok [BasicReport]" by (simp_all add: checkFlags_def demoFlags_def checkEnv_def demoCliEnv_def)
  have opts: "cliOptions checkFlags [] = Ok plainOptions"
    by (simp add: cliOptions_def checkFlags_def demoFlags_def plainOptions_def demoOptions_def)
  have eng: "ceRun checkEnv = engineRun demoRe 0" by (simp add: checkEnv_def)
  have no_help: "helpFree demoRe checkEnv"
    by (auto simp: helpFree_def demoRe_end checkEnv_def demoCliEnv_def) (simp add: demoRe_def)
  have ends: "ceErr e = None \<and> ceLevel e \<noteq> Error" if x: "(c, e) \<in> set (endsOf demoRe demoSelected)" for c e
    using demoRe_ends[OF x] by (simp add: Notice_def Error_def)
  show ?thesis
    using check_exit_code[OF cmd opts eng demoRe_setup(1,3-6) demoRe_cancels no_help, of False "\<lambda>_. None" "''1''"] ends
    by (simp add: demoRe_setup(2) checkEnv_def demoCliEnv_def checkFlags_def demoFlags_def)
qed

end
